(* ===== verification/Bycorf_Prelude.thy ===== *)
theory Bycorf_Prelude
  imports Main "HOL-Library.Word" "HOL-Library.Multiset"
begin

text \<open>
  Shared vocabulary of the development: machine integer types, the error monad in which
  fallible operations are written, the status codes of the Abseil library the sources return,
  and the generic facts on power-of-two masks, lists and folds that the components use.
\<close>

unbundle bit_operations_syntax

section \<open>Machine integers\<close>

type_synonym u8 = "8 word"
type_synonym u16 = "16 word"
type_synonym u32 = "32 word"
type_synonym u64 = "64 word"

named_theorems mask_simps "masked indexing on power-of-two capacities"
named_theorems res_simps "inversion of the error monad"

section \<open>The error monad\<close>

text \<open>
  A fallible operation returns \<open>Inl e\<close> when it throws, asserts or returns early with an
  error and \<open>Inr x\<close> when it completes.
\<close>

primrec bindE :: "'e + 'a \<Rightarrow> ('a \<Rightarrow> 'e + 'b) \<Rightarrow> 'e + 'b" where
  "bindE (Inl e) f = Inl e"
| "bindE (Inr x) f = f x"

definition guardE :: "'e \<Rightarrow> bool \<Rightarrow> 'e + unit" where
  "guardE e b = (if b then Inr () else Inl e)"

lemma bindE_Inr_iff [res_simps]: "bindE m f = Inr y \<longleftrightarrow> (\<exists>x. m = Inr x \<and> f x = Inr y)"
  by (cases m) auto

lemma bindE_Inl_iff [res_simps]:
  "bindE m f = Inl e \<longleftrightarrow> m = Inl e \<or> (\<exists>x. m = Inr x \<and> f x = Inl e)"
  by (cases m) auto

lemma guardE_Inr_iff [res_simps, simp]: "guardE e b = Inr u \<longleftrightarrow> b"
  by (simp add: guardE_def)

lemma guardE_Inl_iff [res_simps, simp]: "guardE e b = Inl d \<longleftrightarrow> d = e \<and> \<not> b"
  by (auto simp: guardE_def)

lemma guardE_True [simp]: "b \<Longrightarrow> guardE e b = Inr ()"
  by (simp add: guardE_def)

section \<open>Status values\<close>

text \<open>The \<open>absl::StatusCode\<close> values the sources construct.\<close>

datatype status =
    StOk | StCancelled | StInvalidArgument | StDeadlineExceeded | StNotFound | StAlreadyExists
  | StResourceExhausted | StFailedPrecondition | StOutOfRange | StUnimplemented | StInternal
  | StUnavailable | StDataLoss

definition status_ok :: "status \<Rightarrow> bool" where
  "status_ok s \<longleftrightarrow> s = StOk"

lemma status_ok_simps [simp]:
  "status_ok StOk" "\<not> status_ok StCancelled" "\<not> status_ok StInternal"
  "\<not> status_ok StUnavailable" "\<not> status_ok StFailedPrecondition" "\<not> status_ok StDeadlineExceeded"
  "\<not> status_ok StInvalidArgument"
  by (simp_all add: status_ok_def)

section \<open>Power-of-two capacities\<close>

text \<open>The test \<open>c != 0 && (c & (c - 1)) == 0\<close> that the queues make on a capacity.\<close>

definition is_pow2 :: "'a::len word \<Rightarrow> bool" where
  "is_pow2 c \<longleftrightarrow> c \<noteq> 0 \<and> c AND (c - 1) = 0"

lemma nat_and_pred_zero:
  "0 < n \<Longrightarrow> n AND (n - 1) = 0 \<Longrightarrow> \<exists>k. n = 2 ^ k" for n :: nat
proof (induction n rule: less_induct)
  case (less n)
  show ?case
  proof (cases "even n")
    case True
    with less.prems obtain m where m: "n = 2 * m" "0 < m" by auto
    have "n - 1 = 1 + 2 * (m - 1)" using m by auto
    then have "n AND (n - 1) = 2 * (m AND (m - 1))"
      using m by (simp add: and_rec [of "2 * m"])
    with less.prems m have "m AND (m - 1) = 0" by simp
    with less.IH [of m] m obtain k where "m = 2 ^ k" by auto
    with m have "n = 2 ^ Suc k" by simp
    then show ?thesis by blast
  next
    case False
    then obtain m where m: "n = 1 + 2 * m" by (metis oddE add.commute)
    then have "n AND (n - 1) = 2 * (m AND m)"
      by (simp add: and_rec [of "Suc (2 * m)"])
    with less.prems have "m = 0" by simp
    with m have "n = 2 ^ 0" by simp
    then show ?thesis by blast
  qed
qed

lemma pow2_and_pred: "(2 ^ k :: nat) AND (2 ^ k - 1) = 0"
proof -
  have "(2 ^ k :: nat) AND (2 ^ k - 1) = take_bit k (2 ^ k)"
    by (simp add: take_bit_eq_mask mask_eq_exp_minus_1)
  then show ?thesis by (simp add: take_bit_eq_mod)
qed

lemma is_pow2_iff: "is_pow2 c \<longleftrightarrow> (\<exists>k < LENGTH('a). unat c = 2 ^ k)" for c :: "'a::len word"
proof
  assume "is_pow2 c"
  then have nz: "c \<noteq> 0" and z: "c AND (c - 1) = 0" by (auto simp: is_pow2_def)
  from z have "unat (c AND (c - 1)) = 0" by simp
  then have "unat c AND (unat c - 1) = 0"
    using nz by (simp add: unsigned_and_eq unat_minus_one)
  moreover have "0 < unat c" using nz by (simp add: unat_gt_0)
  ultimately obtain k where k: "unat c = 2 ^ k" using nat_and_pred_zero by blast
  have "(2::nat) ^ k < 2 ^ LENGTH('a)" using unsigned_less [of c] k by (metis of_nat_numeral)
  then have "k < LENGTH('a)" by (simp add: power_strict_increasing_iff)
  with k show "\<exists>k < LENGTH('a). unat c = 2 ^ k" by blast
next
  assume "\<exists>k < LENGTH('a). unat c = 2 ^ k"
  then obtain k where k: "unat c = 2 ^ k" by blast
  then have nz: "c \<noteq> 0" by (metis power_eq_0_iff unsigned_0 zero_neq_numeral)
  have "unat (c AND (c - 1)) = 0"
    using nz k pow2_and_pred [of k] by (simp add: unsigned_and_eq unat_minus_one)
  then have "c AND (c - 1) = 0" by (simp add: unat_eq_zero)
  with nz show "is_pow2 c" by (simp add: is_pow2_def)
qed

lemma unat_plus_one_less [mask_simps]: "i < n \<Longrightarrow> unat (i + 1) = unat i + 1" for i :: "'a::len word"
proof -
  assume "i < n"
  then have "unat i + 1 \<le> unat n" by (simp add: word_less_nat_alt)
  also have "unat n < 2 ^ LENGTH('a)" by (rule unsigned_less)
  finally have "unat i + unat (1 :: 'a word) < 2 ^ LENGTH('a)" by simp
  then show ?thesis by (simp add: unat_add_lem [THEN iffD1])
qed

lemma is_pow2_pos [mask_simps]: "is_pow2 c \<Longrightarrow> 0 < unat c"
  by (simp add: is_pow2_def unat_gt_0)

lemma unat_and_pred [mask_simps]:
  assumes "is_pow2 c"
  shows "unat (x AND (c - 1)) = unat x mod unat c"
proof -
  from assms obtain k where k: "unat c = 2 ^ k" by (auto simp: is_pow2_iff)
  have nz: "c \<noteq> 0" using assms by (simp add: is_pow2_def)
  have "unat (x AND (c - 1)) = unat x AND (2 ^ k - 1)"
    using nz k by (simp add: unsigned_and_eq unat_minus_one)
  also have "\<dots> = unat x mod 2 ^ k"
    by (metis take_bit_eq_mask mask_eq_exp_minus_1 take_bit_eq_mod)
  finally show ?thesis using k by simp
qed

section \<open>Exact arithmetic\<close>

lemma unat_add_exact: "unat a + unat b < 2 ^ LENGTH('a) \<Longrightarrow> unat (a + b) = unat a + unat b" for a b :: "'a::len word"
  by (simp add: unat_add_lem [THEN iffD1])

lemma unat_mult_exact: "unat a * unat b < 2 ^ LENGTH('a) \<Longrightarrow> unat (a * b) = unat a * unat b" for a b :: "'a::len word"
  by (simp add: unat_mult_lem [THEN iffD1])

lemma unat_ucast_u32: "unat (ucast (p :: u32) :: u64) = unat p"
proof -
  have "unat p < 2 ^ 32" using unsigned_less [of p] by simp
  then show ?thesis by (simp add: unsigned_ucast_eq take_bit_nat_eq_self)
qed

lemma word_less_plus_one: "i \<noteq> - 1 \<Longrightarrow> i < i + 1" for i :: "'a::len word"
proof -
  assume "i \<noteq> - 1"
  then have "1 + i \<noteq> 0" by (metis add_eq_0_iff)
  then have "unat (1 + i) = Suc (unat i)" by (rule unatSuc)
  then show ?thesis by (simp add: word_less_nat_alt add.commute)
qed

section \<open>Error numbers\<close>

text \<open>The Linux error numbers that the sources compare with or return.\<close>

definition ENOENT :: int where "ENOENT = 2"
definition EINTR :: int where "EINTR = 4"
definition EIO :: int where "EIO = 5"
definition EBADF :: int where "EBADF = 9"
definition EAGAIN :: int where "EAGAIN = 11"
definition ENOMEM :: int where "ENOMEM = 12"
definition EBUSY :: int where "EBUSY = 16"
definition EINVAL :: int where "EINVAL = 22"
definition EMFILE :: int where "EMFILE = 24"
definition ETIME :: int where "ETIME = 62"
definition EAFNOSUPPORT :: int where "EAFNOSUPPORT = 97"
definition EADDRINUSE :: int where "EADDRINUSE = 98"
definition ENOBUFS :: int where "ENOBUFS = 105"
definition EINPROGRESS :: int where "EINPROGRESS = 115"
definition ECANCELED :: int where "ECANCELED = 125"

section \<open>Bit widths\<close>

text \<open>\<open>std::bit_width\<close>.\<close>

fun bit_width :: "nat \<Rightarrow> nat" where
  "bit_width n = (if n = 0 then 0 else Suc (bit_width (n div 2)))"

declare bit_width.simps [simp del]

lemma bit_width_le_iff: "bit_width n \<le> k \<longleftrightarrow> n < 2 ^ k"
proof (induction n arbitrary: k rule: bit_width.induct)
  case (1 n)
  show ?case
  proof (cases "n = 0")
    case False
    have "bit_width n \<le> k \<longleftrightarrow> k \<noteq> 0 \<and> bit_width (n div 2) \<le> k - 1"
      using False by (cases k) (simp_all add: bit_width.simps [of n])
    also have "\<dots> \<longleftrightarrow> k \<noteq> 0 \<and> n div 2 < 2 ^ (k - 1)" using 1 False by simp
    also have "\<dots> \<longleftrightarrow> n < 2 ^ k" using False by (cases k) auto
    finally show ?thesis .
  qed (simp add: bit_width.simps)
qed

text \<open>\<open>std::bit_ceil\<close>, the least power of two that is not below its argument.\<close>

definition bit_ceil :: "nat \<Rightarrow> nat" where
  "bit_ceil n = (if n \<le> 1 then 1 else 2 ^ bit_width (n - 1))"

lemma bit_ceil_ge: "n \<le> bit_ceil n"
proof (cases "n \<le> 1")
  case False
  have "n - 1 < 2 ^ bit_width (n - 1)" using bit_width_le_iff by blast
  then show ?thesis using False by (simp add: bit_ceil_def)
qed (simp add: bit_ceil_def)

lemma bit_ceil_le: "n \<le> 2 ^ k \<Longrightarrow> bit_ceil n \<le> 2 ^ k"
proof (cases "n \<le> 1")
  case False
  assume "n \<le> 2 ^ k"
  then have "bit_width (n - 1) \<le> k" using False by (simp add: bit_width_le_iff)
  then show ?thesis using False by (simp add: bit_ceil_def power_increasing)
qed (simp add: bit_ceil_def)

end
