(* ===== verification/Fifo.thy ===== *)
theory Fifo
  imports Bycorf_Prelude
begin

text \<open>
  The contract the scheduler, the connections and the backends rely on when they use a FIFO of
  the base library: an abstraction to lists, an invariant, and operations that either keep both
  or fail for lack of memory. The only client loop shared by several components, moving every
  element of one queue to the end of another, is proved here once.
\<close>

text \<open>
  \<open>while (!src.empty()) { dst.push_back(src.front()); src.pop_front(); }\<close>, with the outcome of
  the allocation of the \<open>k\<close>-th push and pop given by \<open>pa k\<close> and \<open>qa k\<close>. The first argument
  bounds the number of rounds; \<open>None\<close> is a loop cut short.
\<close>

fun transfer_all ::
  "('q \<Rightarrow> bool) \<Rightarrow> ('q \<Rightarrow> 'e + 'a) \<Rightarrow> (bool \<Rightarrow> 'q \<Rightarrow> 'a \<Rightarrow> 'e + 'q) \<Rightarrow> (bool \<Rightarrow> 'q \<Rightarrow> 'e + 'q) \<Rightarrow>
   (nat \<Rightarrow> bool) \<Rightarrow> (nat \<Rightarrow> bool) \<Rightarrow> nat \<Rightarrow> 'q \<Rightarrow> 'q \<Rightarrow> ('e + ('q \<times> 'q)) option" where
  "transfer_all emp fr pu po pa qa fuel src dst =
     (if emp src then Some (Inr (src, dst))
      else case fuel of
        0 \<Rightarrow> None
      | Suc k \<Rightarrow>
          (case bindE (fr src) (\<lambda>v. bindE (pu (pa k) dst v) (\<lambda>dst'.
                bindE (po (qa k) src) (\<lambda>src'. Inr (src', dst')))) of
             Inl e \<Rightarrow> Some (Inl e)
           | Inr (src', dst') \<Rightarrow> transfer_all emp fr pu po pa qa k src' dst'))"

declare transfer_all.simps [simp del]

text \<open>
  A client run: pushes and pops, with the outcome of the allocation each of them may make, and
  reads of the front. The specification runs it on a list and is undefined when a read or a pop
  meets an empty queue.
\<close>

datatype 'a fifo_op = FPush bool 'a | FPop bool | FFront

fun fifo_run ::
  "('q \<Rightarrow> 'e + 'a) \<Rightarrow> (bool \<Rightarrow> 'q \<Rightarrow> 'a \<Rightarrow> 'e + 'q) \<Rightarrow> (bool \<Rightarrow> 'q \<Rightarrow> 'e + 'q) \<Rightarrow>
   'a fifo_op list \<Rightarrow> 'q \<Rightarrow> 'e + ('a list \<times> 'q)" where
  "fifo_run fr pu po [] q = Inr ([], q)"
| "fifo_run fr pu po (FPush al v # cs) q = bindE (pu al q v) (fifo_run fr pu po cs)"
| "fifo_run fr pu po (FPop al # cs) q = bindE (po al q) (fifo_run fr pu po cs)"
| "fifo_run fr pu po (FFront # cs) q =
     bindE (fr q) (\<lambda>v. bindE (fifo_run fr pu po cs q) (\<lambda>(vs, q'). Inr (v # vs, q')))"

fun list_fifo :: "'a fifo_op list \<Rightarrow> 'a list \<Rightarrow> ('a list \<times> 'a list) option" where
  "list_fifo [] xs = Some ([], xs)"
| "list_fifo (FPush al v # cs) xs = list_fifo cs (xs @ [v])"
| "list_fifo (FPop al # cs) xs = (if xs = [] then None else list_fifo cs (tl xs))"
| "list_fifo (FFront # cs) xs =
     (if xs = [] then None else map_option (\<lambda>(vs, ys). (hd xs # vs, ys)) (list_fifo cs xs))"

locale fifo =
  fixes inv :: "'q \<Rightarrow> bool"
    and items :: "'q \<Rightarrow> 'a list"
    and is_empty :: "'q \<Rightarrow> bool"
    and front :: "'q \<Rightarrow> 'e + 'a"
    and push :: "bool \<Rightarrow> 'q \<Rightarrow> 'a \<Rightarrow> 'e + 'q"
    and pop :: "bool \<Rightarrow> 'q \<Rightarrow> 'e + 'q"
    and oom :: 'e
  assumes empty_iff: "inv q \<Longrightarrow> is_empty q \<longleftrightarrow> items q = []"
    and front_ok: "inv q \<Longrightarrow> items q \<noteq> [] \<Longrightarrow> front q = Inr (hd (items q))"
    and push_ok: "inv q \<Longrightarrow> push al q v = Inr q' \<Longrightarrow> inv q' \<and> items q' = items q @ [v]"
    and push_fail: "inv q \<Longrightarrow> push al q v = Inl e \<Longrightarrow> e = oom"
    and pop_ok: "inv q \<Longrightarrow> items q \<noteq> [] \<Longrightarrow>
                   \<exists>q'. pop al q = Inr q' \<and> inv q' \<and> items q' = tl (items q)"
begin

text \<open>Pushing a list of values one after the other.\<close>

lemma push_list_ok:
  "inv q \<Longrightarrow> fold (\<lambda>v r. bindE r (\<lambda>q. push al q v)) vs (Inr q) = Inr q' \<Longrightarrow>
     inv q' \<and> items q' = items q @ vs"
proof (induction vs arbitrary: q)
  case Nil
  then show ?case by simp
next
  case (Cons v vs)
  have err: "fold (\<lambda>v r. bindE r (\<lambda>q. push al q v)) us (Inl e) = Inl e" for us :: "'a list" and e
    by (induction us) auto
  show ?case
  proof (cases "push al q v")
    case (Inl e)
    with Cons.prems err show ?thesis by simp
  next
    case (Inr q1)
    with push_ok [OF Cons.prems(1)] have q1: "inv q1" "items q1 = items q @ [v]" by auto
    from Inr Cons.prems(2) have "fold (\<lambda>v r. bindE r (\<lambda>q. push al q v)) vs (Inr q1) = Inr q'" by simp
    with Cons.IH [OF q1(1)] q1(2) show ?thesis by simp
  qed
qed

text \<open>
  The transfer loop ends within as many rounds as the source has elements; it fails only for
  lack of memory, and otherwise appends the source to the destination in order.
\<close>

lemma transfer_all_ok:
  assumes "inv src" "inv dst" "length (items src) \<le> fuel"
  shows "case transfer_all is_empty front push pop pa qa fuel src dst of
           None \<Rightarrow> False
         | Some (Inl e) \<Rightarrow> e = oom
         | Some (Inr (src', dst')) \<Rightarrow>
             inv src' \<and> inv dst' \<and> items src' = [] \<and> items dst' = items dst @ items src"
  using assms
proof (induction fuel arbitrary: src dst)
  case 0
  then have "is_empty src" using empty_iff by auto
  with 0 show ?case by (auto simp: transfer_all.simps empty_iff)
next
  case (Suc k)
  show ?case
  proof (cases "is_empty src")
    case True
    with Suc.prems show ?thesis by (auto simp: transfer_all.simps empty_iff)
  next
    case False
    then have ne: "items src \<noteq> []" using Suc.prems(1) empty_iff by blast
    note fr = front_ok [OF Suc.prems(1) ne]
    obtain src' where po: "pop (qa k) src = Inr src'" "inv src'" "items src' = tl (items src)"
      using pop_ok [OF Suc.prems(1) ne] by blast
    show ?thesis
    proof (cases "push (pa k) dst (hd (items src))")
      case (Inl e)
      with push_fail [OF Suc.prems(2)] have "e = oom" by blast
      with Inl fr False show ?thesis by (subst transfer_all.simps) simp
    next
      case (Inr dst')
      with push_ok [OF Suc.prems(2)] have d: "inv dst'" "items dst' = items dst @ [hd (items src)]"
        by auto
      have "length (items src') \<le> k" using po Suc.prems(3) by simp
      moreover have eq: "items dst' @ items src' = items dst @ items src"
        using d(2) po(3) ne by simp
      ultimately have "case transfer_all is_empty front push pop pa qa k src' dst' of
           None \<Rightarrow> False | Some (Inl e) \<Rightarrow> e = oom
         | Some (Inr (src', dst')) \<Rightarrow>
             inv src' \<and> inv dst' \<and> items src' = [] \<and> items dst' = items dst @ items src"
        using Suc.IH [OF po(2) d(1)] unfolding eq by blast
      with Inr fr po(1) False show ?thesis by (subst transfer_all.simps) simp
    qed
  qed
qed

text \<open>A run either agrees with the run on the list or stops for lack of memory.\<close>

lemma fifo_run_ok:
  "inv q \<Longrightarrow> list_fifo cs (items q) = Some (vs, xs) \<Longrightarrow>
     case fifo_run front push pop cs q of
       Inl e \<Rightarrow> e = oom
     | Inr (vs', q') \<Rightarrow> inv q' \<and> vs' = vs \<and> items q' = xs"
proof (induction cs arbitrary: q vs rule: list.induct)
  case Nil
  then show ?case by simp
next
  case (Cons c cs)
  show ?case
  proof (cases c)
    case (FPush al v)
    with Cons.prems Cons.IH push_ok push_fail show ?thesis by (cases "push al q v") auto
  next
    case (FPop al)
    with Cons.prems have "items q \<noteq> []" by (auto split: if_splits)
    with FPop Cons.prems Cons.IH pop_ok [of q al] show ?thesis by auto
  next
    case FFront
    with Cons.prems obtain vs' where ne: "items q \<noteq> []" and vs: "vs = hd (items q) # vs'"
      and sp: "list_fifo cs (items q) = Some (vs', xs)" by (auto split: if_splits)
    from Cons.IH [OF Cons.prems(1) sp] front_ok [OF Cons.prems(1) ne] FFront vs
    show ?thesis by (auto split: sum.splits)
  qed
qed

end

end
