(* ===== verification/Inline_Ring.thy ===== *)
theory Inline_Ring
  imports Fifo
begin

text \<open>
  The resizable FIFO \<open>InlineRingQueue\<close> of \<open>include/bycorf/base/inline_ring_queue.h\<close>: a ring
  whose slots live inline in the object up to a power-of-two capacity and on the heap beyond it.
  The parameter \<open>ic\<close> is the template argument \<open>InlineCapacity\<close>. Indices, sizes and counters are
  32-bit words. Whether an allocation succeeds is an input of the operations that allocate.
\<close>

section \<open>State\<close>

text \<open>
  \<open>BadAlloc\<close> is the exception \<open>std::bad_alloc\<close>. The other two values mark executions the
  source never means to have: a failed \<open>assert\<close>, and a read of a slot with no live value, of a
  slot outside the array or of the inactive member of the storage union.
\<close>

datatype queue_error = BadAlloc | AssertFail | NoValue

type_synonym 'a slots = "'a option list"

datatype 'a storage_union = InlineSlots "'a slots" | HeapData "'a slots"

record 'a ring =
  rq_storage :: "'a storage_union"
  rq_head :: u32
  rq_size :: u32
  rq_capacity :: u32
  rq_low_water_pops :: u32

definition kMinHeapCapacity :: "u32 \<Rightarrow> u32" where
  "kMinHeapCapacity ic = max 8 (ic * 2)"

definition kMaxCapacity :: u32 where
  "kMaxCapacity = push_bit 30 1"

definition no_slots :: "u32 \<Rightarrow> 'a slots" where
  "no_slots n = replicate (unat n) None"

definition ring_new :: "u32 \<Rightarrow> 'a ring" where
  "ring_new ic = \<lparr>rq_storage = InlineSlots (no_slots ic), rq_head = 0, rq_size = 0,
     rq_capacity = ic, rq_low_water_pops = 0\<rparr>"

section \<open>Slot access\<close>

definition slot_read :: "'a slots \<Rightarrow> u32 \<Rightarrow> queue_error + 'a" where
  "slot_read s i =
     (if unat i < length s then (case s ! unat i of None \<Rightarrow> Inl NoValue | Some v \<Rightarrow> Inr v)
      else Inl NoValue)"

definition slot_write :: "'a slots \<Rightarrow> u32 \<Rightarrow> 'a \<Rightarrow> queue_error + 'a slots" where
  "slot_write s i v = (if unat i < length s then Inr (s[unat i := Some v]) else Inl NoValue)"

text \<open>\<open>Storage()\<close>: \<open>capacity_\<close> is the discriminator of the union.\<close>

definition ring_Storage :: "u32 \<Rightarrow> 'a ring \<Rightarrow> queue_error + 'a slots" where
  "ring_Storage ic q =
     (if rq_capacity q = ic
      then (case rq_storage q of InlineSlots s \<Rightarrow> Inr s | HeapData s \<Rightarrow> Inl NoValue)
      else (case rq_storage q of HeapData s \<Rightarrow> Inr s | InlineSlots s \<Rightarrow> Inl NoValue))"

definition ring_put :: "u32 \<Rightarrow> 'a slots \<Rightarrow> 'a ring \<Rightarrow> 'a ring" where
  "ring_put ic s q =
     q\<lparr>rq_storage := (if rq_capacity q = ic then InlineSlots s else HeapData s)\<rparr>"

section \<open>Operations\<close>

definition ring_empty :: "'a ring \<Rightarrow> bool" where
  "ring_empty q \<longleftrightarrow> rq_size q = 0"

definition ring_index :: "u32 \<Rightarrow> 'a ring \<Rightarrow> u32 \<Rightarrow> queue_error + 'a" where
  "ring_index ic q i =
     bindE (guardE AssertFail (i < rq_size q)) (\<lambda>_.
     bindE (ring_Storage ic q) (\<lambda>s. slot_read s ((rq_head q + i) AND (rq_capacity q - 1))))"

definition ring_front :: "u32 \<Rightarrow> 'a ring \<Rightarrow> queue_error + 'a" where
  "ring_front ic q =
     bindE (guardE AssertFail (\<not> ring_empty q)) (\<lambda>_.
     bindE (ring_Storage ic q) (\<lambda>s. slot_read s (rq_head q)))"

definition ring_LowWaterLimit :: "u32 \<Rightarrow> 'a ring \<Rightarrow> u32" where
  "ring_LowWaterLimit ic q =
     (if rq_capacity q = kMinHeapCapacity ic then ic else rq_capacity q div 4)"

text \<open>One counting loop of \<open>CopyFrom\<close>: \<open>for (; i < n; ++i) destination[i] = source[f(i)]\<close>.\<close>

function copy_loop ::
  "u32 \<Rightarrow> u32 \<Rightarrow> (u32 \<Rightarrow> u32) \<Rightarrow> 'a slots \<Rightarrow> 'a slots \<Rightarrow> queue_error + 'a slots" where
  "copy_loop i n f src dst =
     (if i < n
      then bindE (slot_read src (f i)) (\<lambda>v.
           bindE (slot_write dst i v) (\<lambda>dst'. copy_loop (i + 1) n f src dst'))
      else Inr dst)"
  by pat_completeness auto
termination
proof (relation "measure (\<lambda>(i, n, f, src, dst). unat n - unat i)", goal_cases)
  case (2 i n f src dst v dst')
  then have "unat (i + 1) = unat i + 1" by (simp add: unat_plus_one_less)
  with 2 show ?case by (simp add: word_less_nat_alt)
qed simp

declare copy_loop.simps [simp del]

definition ring_CopyFrom :: "'a ring \<Rightarrow> 'a slots \<Rightarrow> 'a slots \<Rightarrow> queue_error + 'a slots" where
  "ring_CopyFrom q src dst =
     (let first = min (rq_size q) (rq_capacity q - rq_head q) in
      bindE (copy_loop 0 first (\<lambda>i. rq_head q + i) src dst) (\<lambda>dst'.
      copy_loop first (rq_size q) (\<lambda>i. i - first) src dst'))"

definition ring_CopyTo :: "u32 \<Rightarrow> 'a ring \<Rightarrow> 'a slots \<Rightarrow> queue_error + 'a slots" where
  "ring_CopyTo ic q dst = bindE (ring_Storage ic q) (\<lambda>s. ring_CopyFrom q s dst)"

definition ring_Grow :: "u32 \<Rightarrow> bool \<Rightarrow> 'a ring \<Rightarrow> queue_error + 'a ring" where
  "ring_Grow ic alloc q =
     (if rq_capacity q = kMaxCapacity then Inl BadAlloc
      else let capacity = (if rq_capacity q = ic then kMinHeapCapacity ic else rq_capacity q * 2) in
        if \<not> alloc then Inl BadAlloc
        else bindE (ring_CopyTo ic q (no_slots capacity)) (\<lambda>data.
          Inr (q\<lparr>rq_storage := HeapData data, rq_head := 0, rq_capacity := capacity,
                 rq_low_water_pops := 0\<rparr>)))"

definition ring_Shrink :: "u32 \<Rightarrow> bool \<Rightarrow> 'a ring \<Rightarrow> queue_error + 'a ring" where
  "ring_Shrink ic alloc q0 =
     (let q = q0\<lparr>rq_low_water_pops := 0\<rparr>;
          capacity = (if rq_capacity q = kMinHeapCapacity ic then ic else rq_capacity q div 2) in
      if capacity = ic
      then (case rq_storage q of
              InlineSlots s \<Rightarrow> Inl NoValue
            | HeapData data \<Rightarrow>
                bindE (ring_CopyFrom q data (no_slots ic)) (\<lambda>s.
                Inr (q\<lparr>rq_storage := InlineSlots s, rq_head := 0, rq_capacity := capacity\<rparr>)))
      else if \<not> alloc then Inr q
      else bindE (ring_CopyTo ic q (no_slots capacity)) (\<lambda>data.
           Inr (q\<lparr>rq_storage := HeapData data, rq_head := 0, rq_capacity := capacity\<rparr>)))"

definition ring_push_back :: "u32 \<Rightarrow> bool \<Rightarrow> 'a ring \<Rightarrow> 'a \<Rightarrow> queue_error + 'a ring" where
  "ring_push_back ic alloc q0 v =
     bindE (if rq_size q0 = rq_capacity q0 then ring_Grow ic alloc q0 else Inr q0) (\<lambda>q.
     bindE (ring_Storage ic q) (\<lambda>s.
     bindE (slot_write s ((rq_head q + rq_size q) AND (rq_capacity q - 1)) v) (\<lambda>s'.
     let q' = (ring_put ic s' q)\<lparr>rq_size := rq_size q + 1\<rparr> in
     Inr (if ic < rq_capacity q' \<and> ring_LowWaterLimit ic q' < rq_size q'
          then q'\<lparr>rq_low_water_pops := 0\<rparr> else q'))))"

definition ring_pop_front :: "u32 \<Rightarrow> bool \<Rightarrow> 'a ring \<Rightarrow> queue_error + 'a ring" where
  "ring_pop_front ic alloc q0 =
     bindE (guardE AssertFail (\<not> ring_empty q0)) (\<lambda>_.
     let q = q0\<lparr>rq_head := (rq_head q0 + 1) AND (rq_capacity q0 - 1),
                rq_size := rq_size q0 - 1\<rparr> in
     if rq_capacity q = ic then Inr q
     else if rq_size q \<le> ring_LowWaterLimit ic q
     then let q' = q\<lparr>rq_low_water_pops := rq_low_water_pops q + 1\<rparr> in
          if rq_low_water_pops q' = rq_capacity q' then ring_Shrink ic alloc q' else Inr q'
     else Inr (q\<lparr>rq_low_water_pops := 0\<rparr>))"

definition ring_clear :: "'a ring \<Rightarrow> 'a ring" where
  "ring_clear q = q\<lparr>rq_head := 0, rq_size := 0, rq_low_water_pops := 0\<rparr>"

text \<open>
  Move assignment from a different object: the pair of the assigned queue and the moved-from
  queue. Inline values are copied, heap storage changes owner.
\<close>

definition ring_move_assign ::
  "u32 \<Rightarrow> 'a ring \<Rightarrow> 'a ring \<Rightarrow> queue_error + ('a ring \<times> 'a ring)" where
  "ring_move_assign ic this other =
     bindE
       (if rq_capacity other = ic
        then bindE
               (if ic < rq_capacity this then Inr (no_slots ic)
                else case rq_storage this of InlineSlots s \<Rightarrow> Inr s | HeapData s \<Rightarrow> Inl NoValue)
               (\<lambda>dst. bindE (ring_CopyTo ic other dst) (\<lambda>s.
               Inr (this\<lparr>rq_storage := InlineSlots s, rq_head := 0\<rparr>, other)))
        else (case rq_storage other of
                InlineSlots s \<Rightarrow> Inl NoValue
              | HeapData data \<Rightarrow>
                  Inr (this\<lparr>rq_storage := HeapData data, rq_head := rq_head other\<rparr>,
                       other\<lparr>rq_storage := InlineSlots (no_slots ic)\<rparr>)))
       (\<lambda>(this', other').
        Inr (this'\<lparr>rq_size := rq_size other', rq_capacity := rq_capacity other',
                   rq_low_water_pops := rq_low_water_pops other'\<rparr>,
             other'\<lparr>rq_head := 0, rq_size := 0, rq_capacity := ic, rq_low_water_pops := 0\<rparr>))"

section \<open>Invariant and abstraction\<close>

definition ring_slots :: "'a ring \<Rightarrow> 'a slots" where
  "ring_slots q = (case rq_storage q of InlineSlots s \<Rightarrow> s | HeapData s \<Rightarrow> s)"

text \<open>The static assertion on the template argument.\<close>

definition valid_inline_capacity :: "u32 \<Rightarrow> bool" where
  "valid_inline_capacity ic \<longleftrightarrow> is_pow2 ic \<and> ic \<le> push_bit 29 1"

definition ring_pos :: "'a ring \<Rightarrow> nat \<Rightarrow> nat" where
  "ring_pos q i = (unat (rq_head q) + i) mod unat (rq_capacity q)"

definition ring_shape :: "u32 \<Rightarrow> 'a ring \<Rightarrow> bool" where
  "ring_shape ic q \<longleftrightarrow>
     is_pow2 (rq_capacity q) \<and> rq_capacity q \<le> kMaxCapacity \<and>
     length (ring_slots q) = unat (rq_capacity q) \<and>
     (case rq_storage q of InlineSlots s \<Rightarrow> rq_capacity q = ic
                         | HeapData s \<Rightarrow> kMinHeapCapacity ic \<le> rq_capacity q)"

definition ring_live :: "'a ring \<Rightarrow> bool" where
  "ring_live q \<longleftrightarrow>
     rq_head q < rq_capacity q \<and> rq_size q \<le> rq_capacity q \<and>
     (\<forall>i < unat (rq_size q). ring_slots q ! ring_pos q i \<noteq> None)"

definition ring_low_water :: "u32 \<Rightarrow> 'a ring \<Rightarrow> bool" where
  "ring_low_water ic q \<longleftrightarrow>
     (if rq_capacity q = ic then rq_low_water_pops q = 0
      else rq_low_water_pops q < rq_capacity q \<and>
           (rq_low_water_pops q \<noteq> 0 \<longrightarrow> rq_size q \<le> ring_LowWaterLimit ic q))"

definition ring_inv :: "u32 \<Rightarrow> 'a ring \<Rightarrow> bool" where
  "ring_inv ic q \<longleftrightarrow> valid_inline_capacity ic \<and> ring_shape ic q \<and> ring_live q \<and> ring_low_water ic q"

definition ring_list :: "'a ring \<Rightarrow> 'a list" where
  "ring_list q = map (\<lambda>i. the (ring_slots q ! ring_pos q i)) [0..<unat (rq_size q)]"

lemma length_ring_list [simp]: "length (ring_list q) = unat (rq_size q)"
  by (simp add: ring_list_def)

lemma ring_low_water_frame [simp]:
  "ring_slots (q\<lparr>rq_low_water_pops := n\<rparr>) = ring_slots q"
  "ring_shape ic (q\<lparr>rq_low_water_pops := n\<rparr>) \<longleftrightarrow> ring_shape ic q"
  "ring_live (q\<lparr>rq_low_water_pops := n\<rparr>) \<longleftrightarrow> ring_live q"
  "ring_list (q\<lparr>rq_low_water_pops := n\<rparr>) = ring_list q"
  "ring_LowWaterLimit ic (q\<lparr>rq_low_water_pops := n\<rparr>) = ring_LowWaterLimit ic q"
  by (simp_all add: ring_slots_def ring_shape_def ring_live_def ring_list_def ring_pos_def
        ring_LowWaterLimit_def split: storage_union.split)

section \<open>Arithmetic of capacities\<close>

lemma valid_ic_bounds:
  assumes "valid_inline_capacity ic"
  shows "0 < unat ic" "unat ic \<le> 2 ^ 29"
  using assms by (auto simp: valid_inline_capacity_def is_pow2_pos word_le_nat_alt)

lemma unat_kMaxCapacity [simp]: "unat kMaxCapacity = 2 ^ 30"
  by (simp add: kMaxCapacity_def)

lemma unat_kMinHeapCapacity:
  assumes "valid_inline_capacity ic"
  shows "unat (kMinHeapCapacity ic) = max 8 (2 * unat ic)"
proof -
  have "unat (ic * 2) = 2 * unat ic"
    using valid_ic_bounds [OF assms] by (simp add: unat_word_ariths)
  then show ?thesis
    by (auto simp: kMinHeapCapacity_def max_def word_le_nat_alt)
qed

lemma is_pow2_kMinHeapCapacity:
  assumes "valid_inline_capacity ic"
  shows "is_pow2 (kMinHeapCapacity ic)"
proof -
  from assms obtain k where k: "unat ic = 2 ^ k" "k < 32"
    by (auto simp: valid_inline_capacity_def is_pow2_iff)
  with valid_ic_bounds(2) [OF assms] have "k \<le> 29"
    by (metis numeral_eq_iff one_less_numeral_iff power_increasing_iff semiring_norm(76))
  have "unat (kMinHeapCapacity ic) = max (2 ^ 3) (2 ^ Suc k)"
    using k unat_kMinHeapCapacity [OF assms] by simp
  also have "\<dots> = 2 ^ max 3 (Suc k)"
    by (rule max_of_mono) (simp add: mono_def power_increasing)
  finally have "unat (kMinHeapCapacity ic) = 2 ^ max 3 (Suc k)" .
  moreover have "max 3 (Suc k) < LENGTH(32)" using \<open>k \<le> 29\<close> by simp
  ultimately show ?thesis unfolding is_pow2_iff by blast
qed

section \<open>Copying live values\<close>

lemma ring_Storage_ok:
  assumes "ring_shape ic q" "valid_inline_capacity ic"
  shows "ring_Storage ic q = Inr (ring_slots q)"
proof (cases "rq_storage q")
  case (InlineSlots s)
  with assms(1) show ?thesis by (simp add: ring_shape_def ring_Storage_def ring_slots_def)
next
  case (HeapData s)
  with assms(1) have "unat (kMinHeapCapacity ic) \<le> unat (rq_capacity q)"
    by (simp add: ring_shape_def word_le_nat_alt)
  then have "unat ic < unat (rq_capacity q)"
    using unat_kMinHeapCapacity [OF assms(2)] valid_ic_bounds(1) [OF assms(2)] by linarith
  then have "rq_capacity q \<noteq> ic" by auto
  with HeapData show ?thesis by (simp add: ring_Storage_def ring_slots_def)
qed

lemma slot_read_Some:
  "unat i < length s \<Longrightarrow> s ! unat i = Some v \<Longrightarrow> slot_read s i = Inr v"
  by (simp add: slot_read_def)

lemma copy_loop_ok:
  assumes "i \<le> n" "unat n \<le> length dst"
    and "\<And>j. unat i \<le> j \<Longrightarrow> j < unat n \<Longrightarrow>
           unat (f (word_of_nat j)) < length src \<and> src ! unat (f (word_of_nat j)) = Some (g j)"
  shows "copy_loop i n f src dst =
           Inr (take (unat i) dst @ map (\<lambda>j. Some (g j)) [unat i..<unat n] @ drop (unat n) dst)"
  using assms
proof (induction i n f src dst rule: copy_loop.induct)
  case (1 i n f src dst)
  show ?case
  proof (cases "i < n")
    case True
    then have lt: "unat i < unat n" by (simp add: word_less_nat_alt)
    have rd: "slot_read src (f i) = Inr (g (unat i))"
      using "1.prems"(3) [of "unat i"] lt by (simp add: slot_read_def)
    let ?dst' = "dst[unat i := Some (g (unat i))]"
    have wr: "slot_write dst i (g (unat i)) = Inr ?dst'"
      using lt "1.prems"(2) by (simp add: slot_write_def)
    have suc: "unat (i + 1) = unat i + 1" using True by (simp add: unat_plus_one_less)
    have "copy_loop (i + 1) n f src ?dst' =
            Inr (take (unat (i + 1)) ?dst' @ map (\<lambda>j. Some (g j)) [unat (i + 1)..<unat n]
                 @ drop (unat n) ?dst')"
      using "1.prems" lt suc
      by (intro "1.IH" [OF True]) (auto simp: word_le_nat_alt)
    moreover have "take (unat i + 1) ?dst' = take (unat i) dst @ [Some (g (unat i))]"
      using lt "1.prems"(2) by (simp add: take_Suc_conv_app_nth)
    moreover have "[unat i..<unat n] = unat i # [unat i + 1..<unat n]"
      using lt by (simp add: upt_conv_Cons)
    ultimately show ?thesis
      using True rd wr suc lt by (simp add: copy_loop.simps [of i])
  next
    case False
    with "1.prems"(1) have "i = n" by simp
    then show ?thesis by (simp add: copy_loop.simps [of n])
  qed
qed

lemma ring_slot_live:
  assumes "ring_shape ic q" "ring_live q" "i < unat (rq_size q)"
  shows "ring_pos q i < length (ring_slots q)"
    "ring_slots q ! ring_pos q i = Some (ring_list q ! i)"
proof -
  have "0 < unat (rq_capacity q)" using assms(1) by (simp add: ring_shape_def is_pow2_pos)
  then show "ring_pos q i < length (ring_slots q)"
    using assms(1) by (simp add: ring_shape_def ring_pos_def)
  show "ring_slots q ! ring_pos q i = Some (ring_list q ! i)"
    using assms(2,3) by (auto simp: ring_live_def ring_list_def)
qed

lemma ring_CopyFrom_ok:
  assumes sh: "ring_shape ic q" and lv: "ring_live q" and len: "unat (rq_size q) \<le> length dst"
  shows "ring_CopyFrom q (ring_slots q) dst =
           Inr (map Some (ring_list q) @ drop (unat (rq_size q)) dst)"
proof -
  let ?h = "unat (rq_head q)" and ?n = "unat (rq_size q)" and ?c = "unat (rq_capacity q)"
  let ?g = "\<lambda>j. ring_list q ! j"
  define first where "first = min (rq_size q) (rq_capacity q - rq_head q)"
  have hc: "?h < ?c" and nc: "?n \<le> ?c" and cm: "?c \<le> 2 ^ 30"
    using sh lv by (auto simp: ring_shape_def ring_live_def word_less_nat_alt word_le_nat_alt)
  have sub: "unat (rq_capacity q - rq_head q) = ?c - ?h"
    using hc by (simp add: unat_sub word_le_nat_alt)
  have uf: "unat first = min ?n (?c - ?h)"
    unfolding first_def using sub by (auto simp: min_def word_le_nat_alt)
  have l1: "copy_loop 0 first (\<lambda>i. rq_head q + i) (ring_slots q) dst =
      Inr (take (unat (0 :: u32)) dst @ map (\<lambda>j. Some (?g j)) [unat (0 :: u32)..<unat first]
           @ drop (unat first) dst)"
  proof (rule copy_loop_ok)
    fix j assume j: "j < unat first"
    have hj: "?h + j < ?c" using j uf by (simp add: less_diff_conv add.commute)
    then have "?h + j < 4294967296" using cm by simp
    then have "unat (rq_head q + word_of_nat j) = ?h + j"
      by (simp add: unat_word_ariths take_bit_eq_mod unat_of_nat)
    moreover have "ring_pos q j = ?h + j" using hj by (simp add: ring_pos_def)
    moreover have "j < ?n" using j uf by simp
    ultimately show "unat (rq_head q + word_of_nat j) < length (ring_slots q) \<and>
        ring_slots q ! unat (rq_head q + word_of_nat j) = Some (?g j)"
      using ring_slot_live [OF sh lv, of j] by simp
  qed (use uf len in auto)
  let ?d1 = "map (\<lambda>j. Some (?g j)) [0..<unat first] @ drop (unat first) dst"
  have l2: "copy_loop first (rq_size q) (\<lambda>i. i - first) (ring_slots q) ?d1 =
      Inr (take (unat first) ?d1 @ map (\<lambda>j. Some (?g j)) [unat first..<?n] @ drop ?n ?d1)"
  proof (rule copy_loop_ok)
    show "first \<le> rq_size q" by (simp add: first_def)
    show "?n \<le> length ?d1" using len by simp
    fix j assume j: "unat first \<le> j" "j < ?n"
    have "unat (word_of_nat j :: u32) = j"
      using j nc cm by (simp add: unat_of_nat)
    then have "unat (word_of_nat j - first) = j - unat first"
      using j by (simp add: unat_sub word_le_nat_alt)
    moreover have "ring_pos q j = j - unat first"
      using j uf hc nc by (auto simp: ring_pos_def min_def mod_if split: if_splits)
    ultimately show "unat (word_of_nat j - first) < length (ring_slots q) \<and>
        ring_slots q ! unat (word_of_nat j - first) = Some (?g j)"
      using ring_slot_live [OF sh lv, of j] j by simp
  qed
  have "map (\<lambda>j. Some (?g j)) [0..<unat first] @ map (\<lambda>j. Some (?g j)) [unat first..<?n]
        = map (\<lambda>j. Some (?g j)) [0..<?n]"
    using uf by (metis map_append min.cobounded1 upt_add_eq_append le0 le_add_diff_inverse)
  also have "\<dots> = map Some (ring_list q)"
    by (rule nth_equalityI) auto
  finally show ?thesis
    using l1 l2 uf by (simp add: ring_CopyFrom_def Let_def first_def [symmetric])
qed

lemma ring_CopyTo_ok:
  assumes "valid_inline_capacity ic" "ring_shape ic q" "ring_live q" "unat (rq_size q) \<le> length dst"
  shows "ring_CopyTo ic q dst = Inr (map Some (ring_list q) @ drop (unat (rq_size q)) dst)"
  using assms by (simp add: ring_CopyTo_def ring_Storage_ok ring_CopyFrom_ok)

section \<open>Relocation\<close>

text \<open>
  Every resize writes the live values to the front of a new array and resets the head; the list
  of values stays.
\<close>

lemma ring_relocated:
  assumes sl: "ring_slots q' = map Some (ring_list q) @ rest"
    and hd: "rq_head q' = 0" and sz: "rq_size q' = rq_size q"
    and len: "length (ring_slots q') = unat (rq_capacity q')" and pos: "0 < unat (rq_capacity q')"
  shows "ring_live q'" "ring_list q' = ring_list q"
proof -
  have le: "unat (rq_size q) \<le> unat (rq_capacity q')"
    using sl len by (metis length_append length_map length_ring_list le_add1)
  have pos_eq: "ring_pos q' i = i" if "i < unat (rq_size q)" for i
    using that le hd by (simp add: ring_pos_def)
  have nth: "ring_slots q' ! i = Some (ring_list q ! i)" if "i < unat (rq_size q)" for i
    using that sl by (simp add: nth_append)
  show "ring_live q'"
    using pos_eq nth le hd sz pos by (auto simp: ring_live_def word_less_nat_alt word_le_nat_alt)
  show "ring_list q' = ring_list q"
    by (rule nth_equalityI) (auto simp: sz ring_list_def [of q'] pos_eq nth)
qed

lemma ring_inv_heap_capacity:
  assumes "ring_inv ic q" "rq_capacity q \<noteq> ic"
  shows "\<exists>s. rq_storage q = HeapData s" "max 8 (2 * unat ic) \<le> unat (rq_capacity q)"
proof -
  show "\<exists>s. rq_storage q = HeapData s"
    using assms by (cases "rq_storage q") (auto simp: ring_inv_def ring_shape_def)
  then have "kMinHeapCapacity ic \<le> rq_capacity q"
    using assms by (auto simp: ring_inv_def ring_shape_def)
  moreover have "valid_inline_capacity ic" using assms by (simp add: ring_inv_def)
  ultimately show "max 8 (2 * unat ic) \<le> unat (rq_capacity q)"
    using unat_kMinHeapCapacity by (auto simp: word_le_nat_alt)
qed

lemma ring_inv_cases [consumes 1, case_names inline heap]:
  assumes "ring_inv ic q"
  obtains (inline) s where "rq_capacity q = ic" "rq_storage q = InlineSlots s"
  | (heap) s where "rq_capacity q \<noteq> ic" "rq_storage q = HeapData s" "unat ic < unat (rq_capacity q)"
proof (cases "rq_capacity q = ic")
  case True
  have v: "valid_inline_capacity ic" using assms by (simp add: ring_inv_def)
  have "\<not> kMinHeapCapacity ic \<le> ic"
    using unat_kMinHeapCapacity [OF v] valid_ic_bounds [OF v] by (auto simp: word_le_nat_alt)
  with True assms that(1) show thesis
    by (cases "rq_storage q") (auto simp: ring_inv_def ring_shape_def)
next
  case False
  have v: "valid_inline_capacity ic" using assms by (simp add: ring_inv_def)
  from ring_inv_heap_capacity [OF assms False] obtain s where
    s: "rq_storage q = HeapData s" and "max 8 (2 * unat ic) \<le> unat (rq_capacity q)" by blast
  then have "unat ic < unat (rq_capacity q)" using valid_ic_bounds [OF v] by linarith
  with s False that(2) show thesis by blast
qed

lemma is_pow2_double:
  fixes c :: u32
  assumes "is_pow2 c" "unat c < 2 ^ 30"
  shows "is_pow2 (c * 2)" "unat (c * 2) = 2 * unat c"
proof -
  show u: "unat (c * 2) = 2 * unat c" using assms(2) by (simp add: unat_word_ariths)
  from assms(1) obtain k where k: "unat c = 2 ^ k" by (auto simp: is_pow2_iff)
  then have "k < 30" using assms(2) by (metis power_strict_increasing_iff one_less_numeral_iff semiring_norm(76))
  with k u have "unat (c * 2) = 2 ^ Suc k" "Suc k < LENGTH(32)" by auto
  then show "is_pow2 (c * 2)" unfolding is_pow2_iff by blast
qed

lemma pow2_lt_double:
  assumes "is_pow2 a" "is_pow2 b" "unat a < unat b"
  shows "2 * unat a \<le> unat b"
proof -
  from assms obtain i j where ij: "unat a = 2 ^ i" "unat b = 2 ^ j" by (auto simp: is_pow2_iff)
  with assms(3) have "i < j" by (metis power_strict_increasing_iff one_less_numeral_iff semiring_norm(76))
  then have "(2::nat) ^ Suc i \<le> 2 ^ j" by (intro power_increasing) auto
  with ij show ?thesis by simp
qed

lemma is_pow2_half:
  fixes c :: u32
  assumes "is_pow2 c" "2 \<le> unat c"
  shows "is_pow2 (c div 2)" "2 * unat (c div 2) = unat c"
proof -
  from assms(1) obtain k where k: "unat c = 2 ^ k" "k < 32" by (auto simp: is_pow2_iff)
  with assms(2) obtain j where j: "k = Suc j" by (cases k) auto
  have "unat (c div 2) = unat c div 2" by (simp add: unat_div)
  then have "unat (c div 2) = 2 ^ j" using k j by simp
  moreover have "j < LENGTH(32)" using k j by simp
  ultimately show "is_pow2 (c div 2)" unfolding is_pow2_iff by blast
  show "2 * unat (c div 2) = unat c" using \<open>unat (c div 2) = 2 ^ j\<close> k j by simp
qed

section \<open>Correctness of the operations\<close>

lemma ring_Grow_ok:
  assumes inv: "ring_inv ic q" and full: "rq_size q = rq_capacity q"
    and room: "rq_capacity q \<noteq> kMaxCapacity"
  shows "\<exists>q'. ring_Grow ic True q = Inr q' \<and> ring_inv ic q' \<and> ring_list q' = ring_list q \<and>
              rq_size q' = rq_size q \<and> unat (rq_size q') < unat (rq_capacity q')"
proof -
  let ?c = "if rq_capacity q = ic then kMinHeapCapacity ic else rq_capacity q * 2"
  have v: "valid_inline_capacity ic" and sh: "ring_shape ic q" and lv: "ring_live q"
    using inv by (auto simp: ring_inv_def)
  have p2: "is_pow2 (rq_capacity q)" and "unat (rq_capacity q) \<le> 2 ^ 30"
    using sh by (auto simp: ring_shape_def word_le_nat_alt)
  with room have lt: "unat (rq_capacity q) < 2 ^ 30"
    by (metis le_neq_implies_less unat_kMaxCapacity unsigned_word_eqI)
  note dbl = is_pow2_double [OF p2 lt]
  have c: "is_pow2 ?c" "unat (rq_capacity q) < unat ?c" "unat ?c \<le> 2 ^ 30"
      "unat (kMinHeapCapacity ic) \<le> unat ?c" "?c \<noteq> ic"
  proof -
    show "is_pow2 ?c" using dbl is_pow2_kMinHeapCapacity [OF v] by simp
    show "unat (rq_capacity q) < unat ?c"
      using dbl is_pow2_pos [OF p2] unat_kMinHeapCapacity [OF v] valid_ic_bounds [OF v] by auto
    have "2 * unat (rq_capacity q) \<le> 2 ^ 30"
      using pow2_lt_double [OF p2, of kMaxCapacity] lt
      by (simp add: is_pow2_def kMaxCapacity_def)
    then show "unat ?c \<le> 2 ^ 30"
      using dbl unat_kMinHeapCapacity [OF v] valid_ic_bounds [OF v] by auto
    show "unat (kMinHeapCapacity ic) \<le> unat ?c"
      using ring_inv_heap_capacity [OF inv] dbl unat_kMinHeapCapacity [OF v] by auto
    then show "?c \<noteq> ic"
      using unat_kMinHeapCapacity [OF v] valid_ic_bounds [OF v] by auto
  qed
  let ?d = "map Some (ring_list q) @ drop (unat (rq_size q)) (no_slots ?c)"
  let ?q' = "q\<lparr>rq_storage := HeapData ?d, rq_head := 0, rq_capacity := ?c, rq_low_water_pops := 0\<rparr>"
  have "ring_CopyTo ic q (no_slots ?c) = Inr ?d"
    using v sh lv c full by (intro ring_CopyTo_ok) (auto simp: no_slots_def)
  then have run: "ring_Grow ic True q = Inr ?q'"
    using room by (simp add: ring_Grow_def Let_def)
  have sl: "ring_slots ?q' = ?d" by (simp add: ring_slots_def)
  have ln: "length ?d = unat ?c" using c full by (simp add: no_slots_def)
  have rel: "ring_live ?q'" "ring_list ?q' = ring_list q"
    using sl ln c(2) by (intro ring_relocated [where q = q]; simp)+
  have "ring_shape ic ?q'"
    using c sl ln by (simp add: ring_shape_def word_le_nat_alt del: if_split)
  moreover have "ring_low_water ic ?q'"
    using c(2,5) by (simp add: ring_low_water_def word_less_nat_alt del: if_split)
  ultimately have "ring_inv ic ?q'" using v rel by (simp add: ring_inv_def del: if_split)
  then show ?thesis
    using run rel c full by (intro exI [of _ ?q']) (simp del: if_split)
qed

lemma ring_Shrink_ok:
  assumes v: "valid_inline_capacity ic" and sh: "ring_shape ic q" and lv: "ring_live q"
    and hp: "rq_capacity q \<noteq> ic" and low: "rq_size q \<le> ring_LowWaterLimit ic q"
  shows "\<exists>q'. ring_Shrink ic alloc q = Inr q' \<and> ring_inv ic q' \<and> ring_list q' = ring_list q"
proof -
  let ?q = "q\<lparr>rq_low_water_pops := 0\<rparr>"
  let ?c = "if rq_capacity q = kMinHeapCapacity ic then ic else rq_capacity q div 2"
  obtain data where st: "rq_storage q = HeapData data"
    and mh: "kMinHeapCapacity ic \<le> rq_capacity q"
    using sh hp by (cases "rq_storage q") (auto simp: ring_shape_def)
  have p2: "is_pow2 (rq_capacity q)" and cm: "unat (rq_capacity q) \<le> 2 ^ 30"
    using sh by (auto simp: ring_shape_def word_le_nat_alt)
  have mn: "max 8 (2 * unat ic) \<le> unat (rq_capacity q)"
    using mh unat_kMinHeapCapacity [OF v] by (simp add: word_le_nat_alt)
  have half: "is_pow2 (rq_capacity q div 2)" "2 * unat (rq_capacity q div 2) = unat (rq_capacity q)"
    using is_pow2_half [OF p2] mn by auto
  have quarter: "unat (rq_capacity q div 4) = unat (rq_capacity q) div 4" by (simp add: unat_div)
  have big: "unat (kMinHeapCapacity ic) \<le> unat (rq_capacity q div 2)"
    if "rq_capacity q \<noteq> kMinHeapCapacity ic"
  proof -
    have "unat (kMinHeapCapacity ic) < unat (rq_capacity q)"
      using that mh by (metis le_neq_implies_less word_le_nat_alt unsigned_word_eqI)
    then show ?thesis using pow2_lt_double [OF is_pow2_kMinHeapCapacity [OF v] p2] half by linarith
  qed
  have notic: "rq_capacity q div 2 \<noteq> ic" if "rq_capacity q \<noteq> kMinHeapCapacity ic"
    using big [OF that] unat_kMinHeapCapacity [OF v] valid_ic_bounds [OF v] by auto
  have c: "is_pow2 ?c" "unat ?c \<le> 2 ^ 30" "unat (rq_size q) \<le> unat ?c"
  proof -
    show "is_pow2 ?c" using half v by (simp add: valid_inline_capacity_def)
    show "unat ?c \<le> 2 ^ 30" using half cm valid_ic_bounds [OF v] by auto
    show "unat (rq_size q) \<le> unat ?c"
      using low half quarter by (auto simp: ring_LowWaterLimit_def word_le_nat_alt)
  qed
  have sh': "ring_shape ic ?q" and lv': "ring_live ?q" and ls': "ring_list ?q = ring_list q"
    using sh lv by simp_all
  let ?d = "map Some (ring_list q) @ drop (unat (rq_size q)) (no_slots ?c)"
  have ln: "length ?d = unat ?c" using c by (simp add: no_slots_def)
  have pos: "0 < unat ?c" using c(1) is_pow2_pos by blast
  show ?thesis
  proof (cases "rq_capacity q = kMinHeapCapacity ic")
    case True
    let ?q' = "?q\<lparr>rq_storage := InlineSlots ?d, rq_head := 0, rq_capacity := ?c\<rparr>"
    have "ring_slots ?q = data" using st by (simp add: ring_slots_def)
    then have "ring_CopyFrom ?q data (no_slots ic) = Inr ?d"
      using ring_CopyFrom_ok [OF sh' lv', of "no_slots ic"] c True ls' by (simp add: no_slots_def)
    then have run: "ring_Shrink ic alloc q = Inr ?q'"
      using st True by (simp add: ring_Shrink_def Let_def)
    have sl: "ring_slots ?q' = ?d" by (simp add: ring_slots_def)
    have "ring_live ?q'" "ring_list ?q' = ring_list q"
      using sl ln pos by (intro ring_relocated [where q = q]; simp)+
    moreover have "ring_shape ic ?q'"
      using c sl ln True v by (simp add: ring_shape_def word_le_nat_alt)
    ultimately show ?thesis using run v True
      by (intro exI [of _ ?q']) (simp add: ring_inv_def ring_low_water_def)
  next
    case False
    then have ne: "?c \<noteq> ic" using notic by simp
    show ?thesis
    proof (cases alloc)
      case True
      let ?q' = "?q\<lparr>rq_storage := HeapData ?d, rq_head := 0, rq_capacity := ?c\<rparr>"
      have "ring_CopyTo ic ?q (no_slots ?c) = Inr ?d"
        using ring_CopyTo_ok [OF v sh' lv', of "no_slots ?c"] c ls' by (simp add: no_slots_def)
      then have run: "ring_Shrink ic alloc q = Inr ?q'"
        using ne True False by (simp add: ring_Shrink_def Let_def)
      have sl: "ring_slots ?q' = ?d" by (simp add: ring_slots_def)
      have "ring_live ?q'" "ring_list ?q' = ring_list q"
        using sl ln pos by (intro ring_relocated [where q = q]; simp)+
      moreover have "ring_shape ic ?q'"
        using c sl ln False big by (simp add: ring_shape_def word_le_nat_alt)
      moreover have "ring_low_water ic ?q'"
        using pos ne by (simp add: ring_low_water_def word_less_nat_alt)
      ultimately show ?thesis using run v
        by (intro exI [of _ ?q']) (simp add: ring_inv_def)
    next
      case na: False
      have "ring_Shrink ic alloc q = Inr ?q" using ne na False by (simp add: ring_Shrink_def Let_def)
      moreover have "ring_low_water ic ?q"
        using hp mn by (simp add: ring_low_water_def word_less_nat_alt)
      ultimately show ?thesis using v sh' lv' ls' by (simp add: ring_inv_def)
    qed
  qed
qed

text \<open>Writing the slot after the last live one appends to the list of values.\<close>

lemma ring_store_ok:
  fixes q :: "'a ring" and v :: 'a
  assumes inv: "ring_inv ic q" and room: "unat (rq_size q) < unat (rq_capacity q)"
  defines "p \<equiv> (rq_head q + rq_size q) AND (rq_capacity q - 1)"
  defines "q' \<equiv> (ring_put ic ((ring_slots q)[unat p := Some v]) q)\<lparr>rq_size := rq_size q + 1\<rparr>"
  shows "slot_write (ring_slots q) p v = Inr ((ring_slots q)[unat p := Some v])"
    and "ring_shape ic q'" and "ring_live q'" and "ring_list q' = ring_list q @ [v]"
proof -
  let ?h = "unat (rq_head q)" and ?n = "unat (rq_size q)" and ?c = "unat (rq_capacity q)"
  have sh: "ring_shape ic q" and lv: "ring_live q" using inv by (auto simp: ring_inv_def)
  have p2: "is_pow2 (rq_capacity q)" and cm: "?c \<le> 2 ^ 30" and len: "length (ring_slots q) = ?c"
    using sh by (auto simp: ring_shape_def word_le_nat_alt)
  have hc: "?h < ?c" using lv by (simp add: ring_live_def word_less_nat_alt)
  have "unat (rq_head q + rq_size q) = ?h + ?n"
    using hc room cm by (intro unat_add_lem [THEN iffD1]) simp
  then have up: "unat p = ring_pos q ?n"
    by (simp add: p_def unat_and_pred [OF p2] ring_pos_def)
  have pc: "unat p < ?c" using up is_pow2_pos [OF p2] by (simp add: ring_pos_def)
  show "slot_write (ring_slots q) p v = Inr ((ring_slots q)[unat p := Some v])"
    using pc len by (simp add: slot_write_def)
  have sz: "unat (rq_size q + 1) = ?n + 1"
    using room by (simp add: unat_plus_one_less word_less_nat_alt [symmetric])
  have cap: "rq_capacity q' = rq_capacity q" and hd: "rq_head q' = rq_head q"
    and sz': "rq_size q' = rq_size q + 1" by (simp_all add: q'_def ring_put_def)
  have sl: "ring_slots q' = (ring_slots q)[unat p := Some v]"
    by (simp add: q'_def ring_put_def ring_slots_def)
  have pos: "ring_pos q' i = ring_pos q i" for i by (simp add: ring_pos_def cap hd)
  have neq: "ring_pos q i \<noteq> unat p" if "i < ?n" for i
  proof
    assume "ring_pos q i = unat p"
    then have "(?h + i) mod ?c = (?h + ?n) mod ?c" using up by (simp add: ring_pos_def)
    then have "?c dvd ?n - i"
      using that mod_eq_dvd_iff_nat [of "?h + i" "?h + ?n" ?c] by simp
    then show False using that room by (auto dest: dvd_imp_le)
  qed
  show "ring_shape ic q'"
    using sh sl len cap by (cases rule: ring_inv_cases [OF inv])
      (auto simp: ring_shape_def q'_def ring_put_def)
  show "ring_live q'"
    using lv hc room neq [symmetric] pc len sz
    by (auto simp: ring_live_def cap hd sz' sl pos up word_less_nat_alt word_le_nat_alt less_Suc_eq)
  show "ring_list q' = ring_list q @ [v]"
  proof (rule nth_equalityI)
    show "length (ring_list q') = length (ring_list q @ [v])" using sz by (simp add: sz')
    fix i assume "i < length (ring_list q')"
    then have "i < ?n \<or> i = ?n" using sz by (auto simp: sz')
    then show "ring_list q' ! i = (ring_list q @ [v]) ! i"
      using neq [symmetric] pc len sz by (auto simp: ring_list_def sz' sl pos up nth_append)
  qed
qed

lemma ring_push_back_room:
  assumes inv: "ring_inv ic q" and room: "unat (rq_size q) < unat (rq_capacity q)"
  shows "\<exists>q'. ring_push_back ic alloc q v = Inr q' \<and> ring_inv ic q' \<and> ring_list q' = ring_list q @ [v]"
proof -
  have v: "valid_inline_capacity ic" and sh: "ring_shape ic q" and lw: "ring_low_water ic q"
    using inv by (auto simp: ring_inv_def)
  note st = ring_store_ok [OF inv room, where v = v]
  let ?p = "(rq_head q + rq_size q) AND (rq_capacity q - 1)"
  let ?q1 = "(ring_put ic ((ring_slots q)[unat ?p := Some v]) q)\<lparr>rq_size := rq_size q + 1\<rparr>"
  let ?q' = "if ic < rq_capacity ?q1 \<and> ring_LowWaterLimit ic ?q1 < rq_size ?q1
             then ?q1\<lparr>rq_low_water_pops := 0\<rparr> else ?q1"
  have run: "ring_push_back ic alloc q v = Inr ?q'"
    using room st(1) by (auto simp: ring_push_back_def ring_Storage_ok [OF sh v] Let_def)
  have "ring_low_water ic ?q'"
    using lw by (cases rule: ring_inv_cases [OF inv])
      (auto simp: ring_low_water_def ring_put_def ring_LowWaterLimit_def word_less_nat_alt word_le_nat_alt
        intro: le_neq_implies_less)
  then have "ring_inv ic ?q'" using v st by (auto simp: ring_inv_def)
  then show ?thesis using run st(4) by auto
qed

lemma ring_push_back_ok:
  assumes inv: "ring_inv ic q"
  shows "case ring_push_back ic alloc q v of
           Inl e \<Rightarrow> e = BadAlloc \<and> rq_size q = rq_capacity q \<and> (\<not> alloc \<or> rq_capacity q = kMaxCapacity)
         | Inr q' \<Rightarrow> ring_inv ic q' \<and> ring_list q' = ring_list q @ [v]"
proof (cases "rq_size q = rq_capacity q")
  case False
  have "rq_size q \<le> rq_capacity q" using inv by (simp add: ring_inv_def ring_live_def)
  with False have "unat (rq_size q) < unat (rq_capacity q)"
    by (metis le_neq_implies_less word_le_nat_alt unsigned_word_eqI)
  from ring_push_back_room [OF inv this, of alloc v] show ?thesis by auto
next
  case full: True
  show ?thesis
  proof (cases "alloc \<and> rq_capacity q \<noteq> kMaxCapacity")
    case True
    then obtain q1 where g: "ring_Grow ic True q = Inr q1" and i1: "ring_inv ic q1"
      and l1: "ring_list q1 = ring_list q" and r1: "unat (rq_size q1) < unat (rq_capacity q1)"
      using ring_Grow_ok [OF inv full] by auto
    have "ring_push_back ic alloc q v = ring_push_back ic alloc q1 v"
      using g r1 full True by (auto simp: ring_push_back_def)
    with ring_push_back_room [OF i1 r1, of alloc v] l1 show ?thesis by auto
  next
    case False
    then show ?thesis using full by (auto simp: ring_push_back_def ring_Grow_def Let_def)
  qed
qed

lemma ring_advance_ok:
  assumes inv: "ring_inv ic q" and ne: "rq_size q \<noteq> 0"
  defines "q' \<equiv> q\<lparr>rq_head := (rq_head q + 1) AND (rq_capacity q - 1), rq_size := rq_size q - 1\<rparr>"
  shows "ring_shape ic q'" "ring_live q'" "ring_list q' = tl (ring_list q)"
    "rq_capacity q' = rq_capacity q" "unat (rq_size q') = unat (rq_size q) - 1"
proof -
  let ?h = "unat (rq_head q)" and ?n = "unat (rq_size q)" and ?c = "unat (rq_capacity q)"
  have sh: "ring_shape ic q" and lv: "ring_live q" using inv by (auto simp: ring_inv_def)
  have p2: "is_pow2 (rq_capacity q)" and cm: "?c \<le> 2 ^ 30"
    using sh by (auto simp: ring_shape_def word_le_nat_alt)
  have hc: "?h < ?c" and nc: "?n \<le> ?c"
    using lv by (simp_all add: ring_live_def word_less_nat_alt word_le_nat_alt)
  have n0: "0 < ?n" using ne by (simp add: unat_gt_0)
  have hd: "unat (rq_head q') = (?h + 1) mod ?c"
    using hc by (simp add: q'_def unat_and_pred [OF p2] unat_plus_one_less [of _ "rq_capacity q"]
        word_less_nat_alt)
  show cap: "rq_capacity q' = rq_capacity q" by (simp add: q'_def)
  show sz: "unat (rq_size q') = ?n - 1" using ne by (simp add: q'_def unat_minus_one)
  have sl: "ring_slots q' = ring_slots q" by (simp add: q'_def ring_slots_def)
  have pos: "ring_pos q' i = ring_pos q (i + 1)" for i
    by (simp add: ring_pos_def hd cap mod_add_left_eq mod_add_right_eq ac_simps)
  have st: "rq_storage q' = rq_storage q" by (simp add: q'_def)
  show "ring_shape ic q'" using sh by (simp add: ring_shape_def sl cap st split: storage_union.splits)
  have "unat (rq_head q') < ?c" using hd is_pow2_pos [OF p2] by simp
  then show "ring_live q'"
    using lv nc n0 sz sl pos by (auto simp: ring_live_def cap word_less_nat_alt word_le_nat_alt)
  show "ring_list q' = tl (ring_list q)"
    by (rule nth_equalityI) (use n0 in \<open>auto simp: ring_list_def sz sl pos nth_tl\<close>)
qed

lemma ring_pop_front_ok:
  assumes inv: "ring_inv ic q" and ne: "ring_list q \<noteq> []"
  shows "\<exists>q'. ring_pop_front ic alloc q = Inr q' \<and> ring_inv ic q' \<and> ring_list q' = tl (ring_list q)"
proof -
  have nz: "rq_size q \<noteq> 0" using ne by (auto simp: ring_list_def)
  have v: "valid_inline_capacity ic" and lw: "ring_low_water ic q" using inv by (auto simp: ring_inv_def)
  define q1 where "q1 = q\<lparr>rq_head := (rq_head q + 1) AND (rq_capacity q - 1), rq_size := rq_size q - 1\<rparr>"
  note adv = ring_advance_ok [OF inv nz, folded q1_def]
  have low1: "rq_low_water_pops q1 = rq_low_water_pops q" by (simp add: q1_def)
  have run: "ring_pop_front ic alloc q =
      (if rq_capacity q1 = ic then Inr q1
       else if rq_size q1 \<le> ring_LowWaterLimit ic q1
       then if rq_low_water_pops q1 + 1 = rq_capacity q1
            then ring_Shrink ic alloc (q1\<lparr>rq_low_water_pops := rq_low_water_pops q1 + 1\<rparr>)
            else Inr (q1\<lparr>rq_low_water_pops := rq_low_water_pops q1 + 1\<rparr>)
       else Inr (q1\<lparr>rq_low_water_pops := 0\<rparr>))"
    using nz by (simp add: ring_pop_front_def ring_empty_def Let_def q1_def)
  show ?thesis
  using inv proof (cases rule: ring_inv_cases)
    case (inline s)
    then have "rq_capacity q1 = ic" using adv(4) by simp
    moreover from this have "ring_inv ic q1"
      using adv v lw low1 by (simp add: ring_inv_def ring_low_water_def)
    ultimately show ?thesis using run adv(3) by simp
  next
    case (heap s)
    have c1: "rq_capacity q1 \<noteq> ic" using heap adv(4) by simp
    have lt: "rq_low_water_pops q1 < rq_capacity q1"
      using lw low1 adv(4) heap by (simp add: ring_low_water_def)
    show ?thesis
    proof (cases "rq_size q1 \<le> ring_LowWaterLimit ic q1")
      case low: True
      show ?thesis
      proof (cases "rq_low_water_pops q1 + 1 = rq_capacity q1")
        case True
        from ring_Shrink_ok [OF v _ _ _ _, of "q1\<lparr>rq_low_water_pops := rq_low_water_pops q1 + 1\<rparr>" alloc]
        show ?thesis using True low c1 adv run by simp
      next
        case False
        have "unat (rq_low_water_pops q1 + 1) \<le> unat (rq_capacity q1)"
          using lt by (simp add: unat_plus_one_less word_less_nat_alt)
        with False have "rq_low_water_pops q1 + 1 < rq_capacity q1"
          by (metis le_neq_implies_less unsigned_word_eqI word_less_nat_alt)
        then have "ring_inv ic (q1\<lparr>rq_low_water_pops := rq_low_water_pops q1 + 1\<rparr>)"
          using v adv c1 low by (simp add: ring_inv_def ring_low_water_def)
        then show ?thesis using False low c1 adv run by simp
      qed
    next
      case False
      have "ring_inv ic (q1\<lparr>rq_low_water_pops := 0\<rparr>)"
        using v adv c1 lt by (simp add: ring_inv_def ring_low_water_def word_less_nat_alt)
      then show ?thesis using False c1 adv run by simp
    qed
  qed
qed

lemma ring_index_ok:
  assumes inv: "ring_inv ic q" and i: "unat i < length (ring_list q)"
  shows "ring_index ic q i = Inr (ring_list q ! unat i)"
proof -
  let ?h = "unat (rq_head q)" and ?c = "unat (rq_capacity q)"
  have v: "valid_inline_capacity ic" and sh: "ring_shape ic q" and lv: "ring_live q"
    using inv by (auto simp: ring_inv_def)
  have p2: "is_pow2 (rq_capacity q)" and "?c \<le> 2 ^ 30" and "?h < ?c" and "unat (rq_size q) \<le> ?c"
    using sh lv by (auto simp: ring_shape_def ring_live_def word_le_nat_alt word_less_nat_alt)
  then have "unat (rq_head q + i) = ?h + unat i"
    using i by (intro unat_add_lem [THEN iffD1]) simp
  then have "unat ((rq_head q + i) AND (rq_capacity q - 1)) = ring_pos q (unat i)"
    by (simp add: unat_and_pred [OF p2] ring_pos_def)
  then show ?thesis
    using i ring_slot_live [OF sh lv, of "unat i"] ring_Storage_ok [OF sh v]
    by (simp add: ring_index_def slot_read_def word_less_nat_alt)
qed

lemma ring_front_ok:
  assumes inv: "ring_inv ic q" and ne: "ring_list q \<noteq> []"
  shows "ring_front ic q = Inr (hd (ring_list q))"
proof -
  have v: "valid_inline_capacity ic" and sh: "ring_shape ic q" and lv: "ring_live q"
    using inv by (auto simp: ring_inv_def)
  have n0: "0 < unat (rq_size q)" using ne by (simp add: ring_list_def)
  then have nz: "rq_size q \<noteq> 0" and "ring_pos q 0 = unat (rq_head q)"
    using lv by (auto simp: ring_pos_def ring_live_def word_less_nat_alt)
  then show ?thesis
    using n0 ne ring_slot_live [OF sh lv n0] ring_Storage_ok [OF sh v]
    by (auto simp: ring_front_def ring_empty_def slot_read_def hd_conv_nth)
qed

lemma ring_empty_iff: "ring_empty q \<longleftrightarrow> ring_list q = []"
  by (simp add: ring_empty_def ring_list_def unat_eq_0)

lemma ring_inv_new: "valid_inline_capacity ic \<Longrightarrow> ring_inv ic (ring_new ic)"
  using valid_ic_bounds [of ic]
  by (auto simp: ring_inv_def ring_new_def ring_shape_def ring_live_def ring_low_water_def
      ring_slots_def no_slots_def valid_inline_capacity_def word_le_nat_alt word_less_nat_alt)

lemma ring_list_new [simp]: "ring_list (ring_new ic) = []"
  by (simp add: ring_list_def ring_new_def)

lemma ring_clear_ok:
  assumes "ring_inv ic q"
  shows "ring_inv ic (ring_clear q)" "ring_list (ring_clear q) = []"
    "rq_capacity (ring_clear q) = rq_capacity q"
proof -
  have "0 < unat (rq_capacity q)" using assms by (simp add: ring_inv_def ring_shape_def is_pow2_pos)
  then show "ring_inv ic (ring_clear q)"
    using assms by (simp add: ring_inv_def ring_clear_def ring_shape_def ring_live_def
        ring_low_water_def ring_slots_def word_less_nat_alt split: storage_union.splits)
qed (simp_all add: ring_clear_def ring_list_def)

interpretation ring_fifo: fifo "ring_inv ic" ring_list ring_empty "ring_front ic"
  "ring_push_back ic" "ring_pop_front ic" BadAlloc
  for ic :: u32
proof
  show "ring_inv ic q \<Longrightarrow> ring_push_back ic al q v = Inr q' \<Longrightarrow>
          ring_inv ic q' \<and> ring_list q' = ring_list q @ [v]" for q q' :: "'a ring" and al v
    using ring_push_back_ok [of ic q al v] by simp
  show "ring_inv ic q \<Longrightarrow> ring_push_back ic al q v = Inl e \<Longrightarrow> e = BadAlloc"
    for q :: "'a ring" and al v e
    using ring_push_back_ok [of ic q al v] by simp
qed (simp_all add: ring_empty_iff ring_front_ok ring_pop_front_ok)

section \<open>Traces\<close>

text \<open>
  A client run is a sequence of calls. The specification runs it on a plain list and is undefined
  when a call breaks its precondition (\<open>front\<close> or \<open>pop_front\<close> on an empty queue, an index out of
  range); the implementation runs it on the ring.
\<close>

datatype 'a ring_op = PushBack bool 'a | PopFront bool | Front | Index u32 | Clear

fun ring_step :: "u32 \<Rightarrow> 'a ring_op \<Rightarrow> 'a ring \<Rightarrow> queue_error + ('a list \<times> 'a ring)" where
  "ring_step ic (PushBack al v) q = bindE (ring_push_back ic al q v) (\<lambda>q'. Inr ([], q'))"
| "ring_step ic (PopFront al) q = bindE (ring_pop_front ic al q) (\<lambda>q'. Inr ([], q'))"
| "ring_step ic Front q = bindE (ring_front ic q) (\<lambda>v. Inr ([v], q))"
| "ring_step ic (Index i) q = bindE (ring_index ic q i) (\<lambda>v. Inr ([v], q))"
| "ring_step ic Clear q = Inr ([], ring_clear q)"

fun ring_run :: "u32 \<Rightarrow> 'a ring_op list \<Rightarrow> 'a ring \<Rightarrow> queue_error + ('a list \<times> 'a ring)" where
  "ring_run ic [] q = Inr ([], q)"
| "ring_run ic (c # cs) q =
     bindE (ring_step ic c q) (\<lambda>(o1, q1). bindE (ring_run ic cs q1) (\<lambda>(o2, q2). Inr (o1 @ o2, q2)))"

fun list_step :: "'a ring_op \<Rightarrow> 'a list \<Rightarrow> ('a list \<times> 'a list) option" where
  "list_step (PushBack al v) xs = Some ([], xs @ [v])"
| "list_step (PopFront al) xs = (if xs = [] then None else Some ([], tl xs))"
| "list_step Front xs = (if xs = [] then None else Some ([hd xs], xs))"
| "list_step (Index i) xs = (if unat i < length xs then Some ([xs ! unat i], xs) else None)"
| "list_step Clear xs = Some ([], [])"

fun list_run :: "'a ring_op list \<Rightarrow> 'a list \<Rightarrow> ('a list \<times> 'a list) option" where
  "list_run [] xs = Some ([], xs)"
| "list_run (c # cs) xs =
     (case list_step c xs of
        None \<Rightarrow> None
      | Some (o1, xs1) \<Rightarrow> (case list_run cs xs1 of None \<Rightarrow> None | Some (o2, xs2) \<Rightarrow> Some (o1 @ o2, xs2)))"

text \<open>The allocations of a run of growing queues all succeed.\<close>

fun grow_alloc :: "'a ring_op \<Rightarrow> bool" where
  "grow_alloc (PushBack al v) = al"
| "grow_alloc c = True"

lemma ring_step_ok:
  assumes inv: "ring_inv ic q" and spec: "list_step c (ring_list q) = Some (outs, xs)"
  shows "case ring_step ic c q of
           Inl e \<Rightarrow> e = BadAlloc \<and> (\<not> grow_alloc c \<or> unat kMaxCapacity \<le> length (ring_list q))
         | Inr (outs', q') \<Rightarrow> ring_inv ic q' \<and> outs' = outs \<and> ring_list q' = xs"
proof (cases c)
  case (PushBack al v)
  then show ?thesis
    using ring_push_back_ok [OF inv, of al v] spec
    by (auto simp del: unat_kMaxCapacity split: sum.splits)
next
  case (PopFront al)
  then show ?thesis
    using ring_pop_front_ok [OF inv, of al] spec by (auto split: if_splits)
next
  case Front
  then show ?thesis using ring_front_ok [OF inv] spec inv by (auto split: if_splits)
next
  case (Index i)
  then show ?thesis using ring_index_ok [OF inv, of i] spec inv by (auto split: if_splits)
next
  case Clear
  then show ?thesis using ring_clear_ok [OF inv] spec by auto
qed

lemma length_list_step: "list_step c xs = Some (outs, ys) \<Longrightarrow> length ys \<le> Suc (length xs)"
  by (cases c) (auto split: if_splits)

lemma ring_run_ok:
  "ring_inv ic q \<Longrightarrow> list_run cs (ring_list q) = Some (outs, xs) \<Longrightarrow>
     case ring_run ic cs q of
       Inl e \<Rightarrow> e = BadAlloc \<and> (\<not> list_all grow_alloc cs \<or> unat kMaxCapacity < length (ring_list q) + length cs)
     | Inr (outs', q') \<Rightarrow> ring_inv ic q' \<and> outs' = outs \<and> ring_list q' = xs"
proof (induction cs arbitrary: q outs)
  case Nil
  then show ?case by (simp del: unat_kMaxCapacity)
next
  case (Cons c cs)
  from Cons.prems(2) obtain o1 xs1 o2 where
    s1: "list_step c (ring_list q) = Some (o1, xs1)" and
    s2: "list_run cs xs1 = Some (o2, xs)" and outs: "outs = o1 @ o2"
    by (auto split: option.splits)
  note st = ring_step_ok [OF Cons.prems(1) s1]
  show ?case
  proof (cases "ring_step ic c q")
    case (Inl e)
    with st show ?thesis by (auto simp del: unat_kMaxCapacity)
  next
    case (Inr r)
    obtain o1' q1 where r: "r = (o1', q1)" by force
    with Inr st have q1: "ring_inv ic q1" "o1' = o1" "ring_list q1 = xs1" by auto
    have "length (ring_list q1) \<le> Suc (length (ring_list q))"
      using length_list_step [OF s1] q1 by simp
    with Cons.IH [OF q1(1), of o2] s2 q1 Inr r outs show ?thesis
      by (auto simp del: unat_kMaxCapacity split: sum.splits)
  qed
qed

section \<open>Properties\<close>

text \<open>
  C20: Every run of calls on a fresh queue that respects the preconditions behaves as the run on a
  plain list: the values read and the final contents agree and the representation invariant
  holds, whatever growing, shrinking and return to inline storage happened underneath and
  whichever shrinking allocations failed. The only failure is \<open>std::bad_alloc\<close>, and it needs
  a failed growing allocation or more than \<open>2 ^ 30\<close> calls.
\<close>

theorem ring_refines_list:
  assumes "valid_inline_capacity ic" and "list_run cs [] = Some (outs, xs)"
  shows "case ring_run ic cs (ring_new ic) of
           Inl e \<Rightarrow> e = BadAlloc \<and> (\<not> list_all grow_alloc cs \<or> unat kMaxCapacity < length cs)
         | Inr (outs', q) \<Rightarrow> ring_inv ic q \<and> outs' = outs \<and> ring_list q = xs"
  using ring_run_ok [OF ring_inv_new [OF assms(1)], of cs outs xs] assms(2)
  by (cases "ring_run ic cs (ring_new ic)") (simp_all del: unat_kMaxCapacity)

theorem ring_refines_list_witness:
  "case ring_run 2 [PushBack True (7::nat), PushBack True 8, PushBack True 9, Front, PopFront True, Index 1]
          (ring_new 2) of
     Inl e \<Rightarrow> False
   | Inr (outs', q) \<Rightarrow> ring_inv 2 q \<and> outs' = [7, 9] \<and> ring_list q = [8, 9]"
proof -
  have v: "valid_inline_capacity 2" by (simp add: valid_inline_capacity_def is_pow2_def)
  let ?cs = "[PushBack True (7::nat), PushBack True 8, PushBack True 9, Front, PopFront True, Index 1]"
  have spec: "list_run ?cs [] = Some ([7, 9], [8, 9])" by simp
  have "list_all grow_alloc ?cs" by simp
  moreover have "\<not> unat kMaxCapacity < length ?cs" by simp
  ultimately show ?thesis
    using ring_refines_list [OF v spec] by (simp only: simp_thms not_True_eq_False split: sum.splits)
qed

text \<open>
  Move assignment gives the target exactly the contents of the source, leaves the source an
  empty inline queue, keeps the representation invariant of both, and never fails: no
  combination of inline and heap storage loses values or reads a dead slot.
\<close>

lemma ring_move_assign_ok:
  assumes inv: "ring_inv ic this" and other: "ring_inv ic other"
  shows "\<exists>a b. ring_move_assign ic this other = Inr (a, b) \<and> ring_inv ic a \<and> ring_inv ic b \<and>
               ring_list a = ring_list other \<and> ring_list b = [] \<and> rq_capacity b = ic"
proof -
  have v: "valid_inline_capacity ic" and sh: "ring_shape ic other" and lv: "ring_live other"
    and lw: "ring_low_water ic other"
    using other by (auto simp: ring_inv_def)
  have nc: "unat (rq_size other) \<le> unat (rq_capacity other)"
    using lv by (simp add: ring_live_def word_le_nat_alt)
  show ?thesis
    using other
  proof (cases rule: ring_inv_cases)
    case (inline s)
    obtain dst where dst: "(if ic < rq_capacity this then Inr (no_slots ic)
          else case rq_storage this of InlineSlots s \<Rightarrow> Inr s | HeapData s \<Rightarrow> Inl NoValue) = Inr dst"
      and ld: "length dst = unat ic"
      using inv by (cases rule: ring_inv_cases)
        (use inv in \<open>auto simp: no_slots_def ring_inv_def ring_shape_def ring_slots_def word_less_nat_alt\<close>)
    let ?d = "map Some (ring_list other) @ drop (unat (rq_size other)) dst"
    let ?a = "this\<lparr>rq_storage := InlineSlots ?d, rq_head := 0, rq_size := rq_size other,
                   rq_capacity := ic, rq_low_water_pops := rq_low_water_pops other\<rparr>"
    let ?b = "other\<lparr>rq_head := 0, rq_size := 0, rq_capacity := ic, rq_low_water_pops := 0\<rparr>"
    have "ring_CopyTo ic other dst = Inr ?d"
      using v sh lv nc ld inline by (intro ring_CopyTo_ok) auto
    then have run: "ring_move_assign ic this other = Inr (?a, ?b)"
      using inline dst by (simp add: ring_move_assign_def)
    have sl: "ring_slots ?a = ?d" by (simp add: ring_slots_def)
    have ln: "length ?d = unat ic" using ld nc inline by simp
    have "ring_live ?a" "ring_list ?a = ring_list other"
      using sl ln valid_ic_bounds [OF v] by (intro ring_relocated [where q = other]; simp)+
    moreover have "ring_shape ic ?a" "ring_low_water ic ?a"
      using sh lw sl ln inline by (auto simp: ring_shape_def ring_low_water_def)
    ultimately have a: "ring_inv ic ?a" "ring_list ?a = ring_list other"
      using v by (simp_all add: ring_inv_def)
    have b: "?b = ring_clear other" using inline by (simp add: ring_clear_def)
    show ?thesis
      using run a ring_clear_ok [OF other] inline unfolding b by blast
  next
    case (heap data)
    let ?a = "this\<lparr>rq_storage := HeapData data, rq_head := rq_head other, rq_size := rq_size other,
                   rq_capacity := rq_capacity other, rq_low_water_pops := rq_low_water_pops other\<rparr>"
    let ?b = "other\<lparr>rq_storage := InlineSlots (no_slots ic), rq_head := 0, rq_size := 0,
                    rq_capacity := ic, rq_low_water_pops := 0\<rparr>"
    have run: "ring_move_assign ic this other = Inr (?a, ?b)"
      using heap by (simp add: ring_move_assign_def)
    have a: "?a = other" using heap by (cases this, cases other) simp
    have b: "?b = ring_new ic" by (cases other) (simp add: ring_new_def)
    show ?thesis
      using run other ring_inv_new [OF v] ring_list_new [of ic] unfolding a b
      by (intro exI conjI) (assumption | simp add: ring_new_def)+
  qed
qed

end
