(* ===== verification/Circular_Queue.thy ===== *)
theory Circular_Queue
  imports Fifo
begin

text \<open>
  The growable ring buffer \<open>CircularQueue\<close> of \<open>include/bycorf/base/circular_queue.h\<close>. Its
  array is value-initialised, so a slot always holds a value; \<open>d\<close> is that initial value. A null
  \<open>vec_\<close> (what a move leaves behind) is \<open>None\<close>. Sizes and indices are 64-bit words.
\<close>

section \<open>State and operations\<close>

text \<open>
  \<open>CqNull\<close> marks an access through a null \<open>vec_\<close> or outside the array, \<open>CqAssert\<close> a failed
  assertion; the other two are the exceptions the code throws.
\<close>

datatype cq_error = CqInvalidArgument | CqBadAlloc | CqAssert | CqNull

record 'a cq =
  cq_vec :: "'a list option"
  cq_head :: u64
  cq_cnt :: u64
  cq_capacity :: u64
  cq_mask :: u64

definition ValidateCapacity :: "u64 \<Rightarrow> cq_error + unit" where
  "ValidateCapacity capacity =
     (if capacity = 0 \<or> capacity AND (capacity - 1) \<noteq> 0 then Inl CqInvalidArgument else Inr ())"

text \<open>
  \<open>std::make_unique<T[]>(n)\<close>. Beyond the outcome of the allocator, an array of more than
  \<open>PTRDIFF_MAX\<close> bytes is refused by the language's array-new; elements have at least one byte.
\<close>

definition make_unique_array :: "bool \<Rightarrow> 'a \<Rightarrow> u64 \<Rightarrow> cq_error + 'a list" where
  "make_unique_array alloc d n =
     (if alloc \<and> n < push_bit 63 1 then Inr (replicate (unat n) d) else Inl CqBadAlloc)"

definition cq_new :: "bool \<Rightarrow> 'a \<Rightarrow> u64 \<Rightarrow> cq_error + 'a cq" where
  "cq_new alloc d capacity =
     bindE (ValidateCapacity capacity) (\<lambda>_.
     bindE (make_unique_array alloc d capacity) (\<lambda>v.
     Inr \<lparr>cq_vec = Some v, cq_head = 0, cq_cnt = 0, cq_capacity = capacity, cq_mask = capacity - 1\<rparr>))"

text \<open>The move constructor: the new object and the moved-from one.\<close>

definition cq_move :: "'a cq \<Rightarrow> 'a cq \<times> 'a cq" where
  "cq_move rhs = (rhs, rhs\<lparr>cq_vec := None\<rparr>)"

text \<open>
  \<open>Reset\<close> empties the queue before it validates the new capacity, so the object it leaves
  behind when it throws is part of the result.
\<close>

definition cq_Reset :: "bool \<Rightarrow> 'a \<Rightarrow> u64 \<Rightarrow> 'a cq \<Rightarrow> (cq_error \<times> 'a cq) + 'a cq" where
  "cq_Reset alloc d new_cap q =
     (let q1 = q\<lparr>cq_head := 0, cq_cnt := 0\<rparr> in
      case ValidateCapacity new_cap of
        Inl e \<Rightarrow> Inl (e, q1)
      | Inr _ \<Rightarrow>
          (let q2 = q1\<lparr>cq_capacity := new_cap, cq_mask := new_cap - 1\<rparr> in
           case make_unique_array alloc d new_cap of
             Inl e \<Rightarrow> Inl (e, q2)
           | Inr v \<Rightarrow> Inr (q2\<lparr>cq_vec := Some v\<rparr>)))"

definition vec_get :: "'a list option \<Rightarrow> u64 \<Rightarrow> cq_error + 'a" where
  "vec_get vec i =
     (case vec of None \<Rightarrow> Inl CqNull
      | Some v \<Rightarrow> if unat i < length v then Inr (v ! unat i) else Inl CqNull)"

definition vec_set :: "'a list option \<Rightarrow> u64 \<Rightarrow> 'a \<Rightarrow> cq_error + 'a list" where
  "vec_set vec i x =
     (case vec of None \<Rightarrow> Inl CqNull
      | Some v \<Rightarrow> if unat i < length v then Inr (v[unat i := x]) else Inl CqNull)"

text \<open>\<open>for (; idx < n; ++idx, ++end) new_vec[end] = std::move(vec_[idx])\<close>.\<close>

function move_loop ::
  "u64 \<Rightarrow> u64 \<Rightarrow> u64 \<Rightarrow> 'a list option \<Rightarrow> 'a list \<Rightarrow> cq_error + ('a list \<times> u64)" where
  "move_loop idx n e vec dst =
     (if idx < n
      then bindE (vec_get vec idx) (\<lambda>x.
           bindE (vec_set (Some dst) e x) (\<lambda>dst'. move_loop (idx + 1) n (e + 1) vec dst'))
      else Inr (dst, e))"
  by pat_completeness auto
termination
proof (relation "measure (\<lambda>(idx, n, e, vec, dst). unat n - unat idx)", goal_cases)
  case (2 idx n e vec dst x dst')
  then have "unat (idx + 1) = unat idx + 1" by (simp add: unat_plus_one_less)
  with 2 show ?case by (simp add: word_less_nat_alt)
qed simp

declare move_loop.simps [simp del]

definition cq_Grow :: "bool \<Rightarrow> 'a \<Rightarrow> 'a cq \<Rightarrow> cq_error + 'a cq" where
  "cq_Grow alloc d q =
     (let new_capacity = push_bit 1 (cq_capacity q) in
      bindE (make_unique_array alloc d new_capacity) (\<lambda>new_vec.
      bindE (move_loop (cq_head q) (cq_capacity q) 0 (cq_vec q) new_vec) (\<lambda>(v1, e1).
      bindE (move_loop 0 (cq_head q) e1 (cq_vec q) v1) (\<lambda>(v2, e2).
      Inr \<lparr>cq_vec = Some v2, cq_head = 0, cq_cnt = cq_cnt q, cq_capacity = new_capacity,
           cq_mask = new_capacity - 1\<rparr>))))"

definition cq_store :: "'a cq \<Rightarrow> 'a \<Rightarrow> cq_error + 'a cq" where
  "cq_store q item =
     (let tail = (cq_head q + cq_cnt q) AND cq_mask q in
      bindE (vec_set (cq_vec q) tail item) (\<lambda>v.
      Inr (q\<lparr>cq_vec := Some v, cq_cnt := cq_cnt q + 1\<rparr>)))"

definition cq_Enqueue :: "'a \<Rightarrow> bool \<Rightarrow> 'a cq \<Rightarrow> 'a \<Rightarrow> cq_error + 'a cq" where
  "cq_Enqueue d alloc q item =
     (if cq_cnt q \<noteq> cq_capacity q then cq_store q item
      else bindE (cq_Grow alloc d q) (\<lambda>q'. cq_store q' item))"

definition cq_Dequeue :: "'a cq \<Rightarrow> cq_error + 'a cq" where
  "cq_Dequeue q =
     bindE (guardE CqAssert (0 < cq_cnt q)) (\<lambda>_.
     Inr (q\<lparr>cq_head := (cq_head q + 1) AND cq_mask q, cq_cnt := cq_cnt q - 1\<rparr>))"

definition cq_Peek :: "'a cq \<Rightarrow> cq_error + 'a" where
  "cq_Peek q = vec_get (cq_vec q) (cq_head q)"

definition cq_Get :: "'a cq \<Rightarrow> u64 \<Rightarrow> cq_error + 'a" where
  "cq_Get q index = vec_get (cq_vec q) ((cq_head q + index) AND cq_mask q)"

definition cq_Empty :: "'a cq \<Rightarrow> bool" where
  "cq_Empty q \<longleftrightarrow> cq_cnt q = 0"

section \<open>Invariant and abstraction\<close>

definition cq_inv :: "'a cq \<Rightarrow> bool" where
  "cq_inv q \<longleftrightarrow>
     is_pow2 (cq_capacity q) \<and> cq_capacity q < push_bit 63 1 \<and> cq_mask q = cq_capacity q - 1 \<and>
     cq_head q < cq_capacity q \<and> cq_cnt q \<le> cq_capacity q \<and>
     (case cq_vec q of None \<Rightarrow> False | Some v \<Rightarrow> length v = unat (cq_capacity q))"

definition cq_list :: "'a cq \<Rightarrow> 'a list" where
  "cq_list q = (case cq_vec q of None \<Rightarrow> []
                | Some v \<Rightarrow> take (unat (cq_cnt q)) (rotate (unat (cq_head q)) v))"

lemma cq_invD:
  assumes "cq_inv q"
  obtains v where "cq_vec q = Some v" "length v = unat (cq_capacity q)" "is_pow2 (cq_capacity q)"
    "unat (cq_capacity q) < 2 ^ 63" "cq_mask q = cq_capacity q - 1"
    "unat (cq_head q) < unat (cq_capacity q)" "unat (cq_cnt q) \<le> unat (cq_capacity q)"
  using assms by (auto simp: cq_inv_def word_less_nat_alt word_le_nat_alt split: option.splits)

lemma length_cq_list [simp]: "cq_inv q \<Longrightarrow> length (cq_list q) = unat (cq_cnt q)"
  by (erule cq_invD) (simp add: cq_list_def)

section \<open>Correctness\<close>

lemma move_loop_ok:
  assumes "idx \<le> n" "unat n \<le> length v" "unat e + (unat n - unat idx) \<le> length dst"
    and "length dst < 2 ^ 64"
  shows "\<exists>e'. move_loop idx n e (Some v) dst =
      Inr (take (unat e) dst @ take (unat n - unat idx) (drop (unat idx) v)
           @ drop (unat e + (unat n - unat idx)) dst, e') \<and>
      unat e' = unat e + (unat n - unat idx)"
  using assms
proof (induction idx n e "Some v" dst rule: move_loop.induct)
  case (1 idx n e dst)
  show ?case
  proof (cases "idx < n")
    case True
    then have lt: "unat idx < unat n" by (simp add: word_less_nat_alt)
    have ei: "unat e < length dst" using lt "1.prems"(3) by linarith
    have suc: "unat (idx + 1) = unat idx + 1" using True by (simp add: unat_plus_one_less)
    have esuc: "unat (e + 1) = unat e + 1"
      using ei "1.prems"(4) unat_plus_one_less [of e "- 1"]
      by (simp add: unat_word_ariths)
    let ?dst' = "dst[unat e := v ! unat idx]"
    have run: "move_loop idx n e (Some v) dst = move_loop (idx + 1) n (e + 1) (Some v) ?dst'"
      using True lt ei "1.prems"(2) by (simp add: move_loop.simps [of idx] vec_get_def vec_set_def)
    have pre: "unat (e + 1) + (unat n - unat (idx + 1)) \<le> length ?dst'"
      using lt suc esuc "1.prems"(3) by simp
    obtain e' where IH: "move_loop (idx + 1) n (e + 1) (Some v) ?dst' =
        Inr (take (unat e + 1) ?dst' @ take (unat n - (unat idx + 1)) (drop (unat idx + 1) v)
             @ drop (unat e + 1 + (unat n - (unat idx + 1))) ?dst', e')"
      and e': "unat e' = unat e + 1 + (unat n - (unat idx + 1))"
      using "1.hyps" [OF True, of ?dst'] pre "1.prems"(2,4) lt unfolding suc esuc
      by (auto simp: word_le_nat_alt suc)
    have d1: "take (unat e + 1) ?dst' = take (unat e) dst @ [v ! unat idx]"
      using ei by (simp add: take_Suc_conv_app_nth)
    have d2: "take (unat n - unat idx) (drop (unat idx) v) =
        v ! unat idx # take (unat n - (unat idx + 1)) (drop (unat idx + 1) v)"
      using lt "1.prems"(2) by (simp add: Cons_nth_drop_Suc [symmetric] take_Cons' del: drop_drop)
    have sum: "unat e + 1 + (unat n - (unat idx + 1)) = unat e + (unat n - unat idx)"
      using lt by linarith
    have d3: "drop (unat e + (unat n - unat idx)) ?dst' = drop (unat e + (unat n - unat idx)) dst"
      using lt by (simp add: drop_update_cancel)
    show ?thesis
      using run IH e' unfolding d1 d2 sum d3 by auto
  next
    case False
    with "1.prems"(1) have "idx = n" by simp
    then show ?thesis by (simp add: move_loop.simps [of n])
  qed
qed

lemma cq_new_ok:
  assumes "cq_new alloc d capacity = Inr q"
  shows "cq_inv q" "cq_list q = []"
  using assms
  by (auto simp: cq_new_def make_unique_array_def ValidateCapacity_def cq_inv_def cq_list_def
      is_pow2_def word_gt_0 split: if_splits)

lemma cq_store_ok:
  assumes inv: "cq_inv q" and room: "cq_cnt q \<noteq> cq_capacity q"
  shows "\<exists>q'. cq_store q x = Inr q' \<and> cq_inv q' \<and> cq_list q' = cq_list q @ [x]"
  using inv
proof (rule cq_invD)
  fix v
  let ?h = "unat (cq_head q)" and ?n = "unat (cq_cnt q)" and ?c = "unat (cq_capacity q)"
  assume v: "cq_vec q = Some v" "length v = ?c" and p2: "is_pow2 (cq_capacity q)"
    and cm: "?c < 2 ^ 63" and mask: "cq_mask q = cq_capacity q - 1" and hc: "?h < ?c" and nc: "?n \<le> ?c"
  have lt: "?n < ?c" using room nc by (metis le_neq_implies_less unsigned_word_eqI)
  let ?t = "(?h + ?n) mod ?c"
  have "unat (cq_head q + cq_cnt q) = ?h + ?n"
    using hc nc cm by (intro unat_add_lem [THEN iffD1]) simp
  then have tail: "unat ((cq_head q + cq_cnt q) AND cq_mask q) = ?t"
    by (simp add: mask unat_and_pred [OF p2])
  have tc: "?t < ?c" using is_pow2_pos [OF p2] by simp
  let ?q' = "q\<lparr>cq_vec := Some (v[?t := x]), cq_cnt := cq_cnt q + 1\<rparr>"
  have run: "cq_store q x = Inr ?q'"
    using tail tc v by (simp add: cq_store_def vec_set_def)
  have sz: "unat (cq_cnt q + 1) = ?n + 1"
    using lt by (simp add: unat_plus_one_less word_less_nat_alt)
  have "cq_inv ?q'"
    using inv v lt sz by (simp add: cq_inv_def word_le_nat_alt)
  moreover have "cq_list ?q' = cq_list q @ [x]"
  proof (rule nth_equalityI)
    show "length (cq_list ?q') = length (cq_list q @ [x])" using \<open>cq_inv ?q'\<close> inv sz by simp
    fix i assume "i < length (cq_list ?q')"
    then have i: "i < ?n \<or> i = ?n" using \<open>cq_inv ?q'\<close> sz by auto
    have neq: "(?h + i) mod ?c \<noteq> ?t" if "i < ?n"
    proof
      assume "(?h + i) mod ?c = ?t"
      then have "?c dvd ?n - i"
        using that mod_eq_dvd_iff_nat [of "?h + i" "?h + ?n" ?c] by simp
      then show False using that lt by (auto dest: dvd_imp_le)
    qed
    show "cq_list ?q' ! i = (cq_list q @ [x]) ! i"
      using i v lt tc sz inv neq [symmetric]
      by (auto simp: cq_list_def nth_append nth_rotate)
  qed
  ultimately show ?thesis using run by blast
qed

lemma cq_Grow_ok:
  assumes inv: "cq_inv q" and full: "cq_cnt q = cq_capacity q"
  shows "case cq_Grow alloc d q of
           Inl e \<Rightarrow> e = CqBadAlloc
         | Inr q' \<Rightarrow> cq_inv q' \<and> cq_list q' = cq_list q \<and> cq_cnt q' \<noteq> cq_capacity q'"
  using inv
proof (rule cq_invD)
  fix v
  let ?h = "unat (cq_head q)" and ?c = "unat (cq_capacity q)" and ?C = "push_bit 1 (cq_capacity q)"
  assume v: "cq_vec q = Some v" "length v = ?c" and p2: "is_pow2 (cq_capacity q)"
    and cm: "?c < 2 ^ 63" and hc: "?h < ?c"
  have C: "unat ?C = 2 * ?c"
    using cm by (simp add: push_bit_eq_mult unat_word_ariths)
  show ?thesis
  proof (cases "alloc \<and> ?C < push_bit 63 1")
    case False
    then show ?thesis by (auto simp: cq_Grow_def Let_def make_unique_array_def)
  next
    case True
    let ?d0 = "replicate (2 * ?c) d"
    have cc: "2 * ?c < 2 ^ 63" using True C by (simp add: word_less_nat_alt)
    have le1: "?c - ?h \<le> 2 * ?c" by simp
    obtain e1 where l1: "move_loop (cq_head q) (cq_capacity q) 0 (cq_vec q) ?d0 =
        Inr (drop ?h v @ replicate (?c + ?h) d, e1)" and e1: "unat e1 = ?c - ?h"
      using move_loop_ok [of "cq_head q" "cq_capacity q" v 0 ?d0] v hc cc le1
      by (auto simp: word_le_nat_alt)
    obtain e2 where l2: "move_loop 0 (cq_head q) e1 (cq_vec q) (drop ?h v @ replicate (?c + ?h) d) =
        Inr (drop ?h v @ take ?h v @ replicate ?c d, e2)"
      using move_loop_ok [of 0 "cq_head q" v e1 "drop ?h v @ replicate (?c + ?h) d"] v hc cc e1
      by auto
    let ?q' = "\<lparr>cq_vec = Some (drop ?h v @ take ?h v @ replicate ?c d), cq_head = 0,
                cq_cnt = cq_cnt q, cq_capacity = ?C, cq_mask = ?C - 1\<rparr>"
    have run: "cq_Grow alloc d q = Inr ?q'"
      using True C l1 l2 by (simp add: cq_Grow_def Let_def make_unique_array_def)
    obtain k where k: "?c = 2 ^ k" using p2 by (auto simp: is_pow2_iff)
    have "unat ?C = 2 ^ Suc k" using C k by simp
    moreover have "Suc k < LENGTH(64)"
      using cc k power_strict_increasing_iff [of "2::nat" "Suc k" 63] by simp
    ultimately have "is_pow2 ?C" unfolding is_pow2_iff by blast
    then have "cq_inv ?q'"
      using True v hc C full is_pow2_pos [OF p2]
      by (simp add: cq_inv_def word_less_nat_alt word_le_nat_alt)
    moreover have "cq_list ?q' = cq_list q"
      using v hc full by (simp add: cq_list_def rotate_drop_take)
    moreover have "cq_cnt q \<noteq> ?C"
      using C full is_pow2_pos [OF p2] by auto
    ultimately show ?thesis using run by simp
  qed
qed

lemma cq_Enqueue_ok:
  assumes "cq_inv q"
  shows "case cq_Enqueue d alloc q x of
           Inl e \<Rightarrow> e = CqBadAlloc
         | Inr q' \<Rightarrow> cq_inv q' \<and> cq_list q' = cq_list q @ [x]"
proof (cases "cq_cnt q = cq_capacity q")
  case True
  from cq_Grow_ok [OF assms True, of alloc d] show ?thesis
  proof (cases "cq_Grow alloc d q")
    case (Inr q1)
    with cq_Grow_ok [OF assms True, of alloc d] cq_store_ok [of q1 x] True show ?thesis
      by (auto simp: cq_Enqueue_def)
  qed (simp add: cq_Enqueue_def True)
next
  case False
  with cq_store_ok [OF assms False, of x] show ?thesis by (auto simp: cq_Enqueue_def)
qed

lemma cq_Dequeue_ok:
  assumes inv: "cq_inv q" and ne: "cq_list q \<noteq> []"
  shows "\<exists>q'. cq_Dequeue q = Inr q' \<and> cq_inv q' \<and> cq_list q' = tl (cq_list q)"
  using inv
proof (rule cq_invD)
  fix v
  let ?h = "unat (cq_head q)" and ?n = "unat (cq_cnt q)" and ?c = "unat (cq_capacity q)"
  assume v: "cq_vec q = Some v" "length v = ?c" and p2: "is_pow2 (cq_capacity q)"
    and mask: "cq_mask q = cq_capacity q - 1" and hc: "?h < ?c" and nc: "?n \<le> ?c"
  have nz: "cq_cnt q \<noteq> 0" using ne inv by (metis length_cq_list length_0_conv unsigned_0)
  let ?q' = "q\<lparr>cq_head := (cq_head q + 1) AND cq_mask q, cq_cnt := cq_cnt q - 1\<rparr>"
  have run: "cq_Dequeue q = Inr ?q'" using nz by (simp add: cq_Dequeue_def word_gt_0)
  have hd: "unat ((cq_head q + 1) AND cq_mask q) = (?h + 1) mod ?c"
    using hc by (simp add: mask unat_and_pred [OF p2] unat_plus_one_less [of _ "cq_capacity q"]
        word_less_nat_alt)
  have sz: "unat (cq_cnt q - 1) = ?n - 1" using nz by (simp add: unat_minus_one)
  have "cq_inv ?q'"
    using inv v hd sz nc is_pow2_pos [OF p2] by (simp add: cq_inv_def word_less_nat_alt word_le_nat_alt)
  moreover have "cq_list ?q' = tl (cq_list q)"
  proof -
    have "rotate ((?h + 1) mod ?c) v = rotate1 (rotate ?h v)"
      using v by (metis Suc_eq_plus1 rotate_Suc rotate_conv_mod)
    moreover have "take (?n - 1) (rotate1 xs) = tl (take ?n xs)" if "length xs = ?c" for xs :: "'a list"
      using that nc nz by (cases xs; cases "?n") (auto simp: take_append)
    ultimately show ?thesis using v hd sz by (simp add: cq_list_def)
  qed
  ultimately show ?thesis using run by blast
qed

lemma cq_Peek_ok:
  assumes inv: "cq_inv q" and ne: "cq_list q \<noteq> []"
  shows "cq_Peek q = Inr (hd (cq_list q))"
  using inv
  by (rule cq_invD)
    (use ne in \<open>auto simp: cq_Peek_def vec_get_def cq_list_def hd_rotate_conv_nth
      hd_conv_nth [symmetric] hd_take\<close>)

interpretation cq_fifo: fifo cq_inv cq_list cq_Empty cq_Peek "cq_Enqueue d" "\<lambda>_. cq_Dequeue" CqBadAlloc
  for d :: 'a
proof
  show "cq_inv q \<Longrightarrow> cq_Empty q \<longleftrightarrow> cq_list q = []" for q :: "'a cq"
    using length_cq_list [of q] by (auto simp: cq_Empty_def unat_eq_0 [symmetric] simp del: length_cq_list)
  show "cq_inv q \<Longrightarrow> cq_Enqueue d al q v = Inr q' \<Longrightarrow>
          cq_inv q' \<and> cq_list q' = cq_list q @ [v]" for q q' :: "'a cq" and al v
    using cq_Enqueue_ok [where q = q and d = d and alloc = al and x = v] by simp
  show "cq_inv q \<Longrightarrow> cq_Enqueue d al q v = Inl e \<Longrightarrow> e = CqBadAlloc" for q :: "'a cq" and al v e
    using cq_Enqueue_ok [where q = q and d = d and alloc = al and x = v] by simp
qed (simp_all add: cq_Peek_ok cq_Dequeue_ok)

section \<open>Properties\<close>

text \<open>
  C38: Every run of enqueues, dequeues and reads of the front on a freshly built queue that never
  reads or dequeues an empty queue agrees with the same run on a list; it never indexes outside
  the array and can only stop because a growing allocation failed.
\<close>

theorem cq_refines_list:
  assumes "cq_new al d capacity = Inr q" and "list_fifo cs [] = Some (vs, xs)"
  shows "case fifo_run cq_Peek (cq_Enqueue d) (\<lambda>_. cq_Dequeue) cs q of
           Inl e \<Rightarrow> e = CqBadAlloc
         | Inr (vs', q') \<Rightarrow> cq_inv q' \<and> vs' = vs \<and> cq_list q' = xs"
  using cq_fifo.fifo_run_ok [of q cs vs xs d] cq_new_ok [OF assms(1)] assms(2) by simp

theorem cq_refines_list_witness:
  "case fifo_run cq_Peek (cq_Enqueue (0::nat)) (\<lambda>_. cq_Dequeue)
          [FPush True 5, FPush True 6, FPop True, FPush True 7, FPush True 8, FFront]
          \<lparr>cq_vec = Some [0, 0], cq_head = 0, cq_cnt = 0, cq_capacity = 2, cq_mask = 1\<rparr> of
     Inl e \<Rightarrow> e = CqBadAlloc
   | Inr (vs', q') \<Rightarrow> cq_inv q' \<and> vs' = [6] \<and> cq_list q' = [6, 7, 8]"
proof (rule cq_refines_list [where al = True and capacity = 2])
  have "replicate 2 (0::nat) = [0, 0]" by (simp add: numeral_2_eq_2)
  then show "cq_new True (0::nat) 2 =
      Inr \<lparr>cq_vec = Some [0, 0], cq_head = 0, cq_cnt = 0, cq_capacity = 2, cq_mask = 1\<rparr>"
    by (simp add: cq_new_def ValidateCapacity_def make_unique_array_def)
qed simp

end
