(* ===== verification/Frame_Pool.thy ===== *)
theory Frame_Pool
  imports Bycorf_Prelude
begin

text \<open>
  The per-thread cache of coroutine frames, \<open>CoroutineFramePool\<close> of
  \<open>include/bycorf/runtime/coroutine_frame_pool.h\<close>: eleven intrusive free lists, one per
  power-of-two size class, under a bound on frames per class and on cached bytes. Blocks live in
  an explicit heap, so that the singly linked lists are the pointers the code follows. The outcome
  of \<open>operator new\<close> (a fresh address, or \<open>None\<close> for \<open>std::bad_alloc\<close>) is an input.
\<close>

section \<open>State\<close>

type_synonym addr = nat

text \<open>
  \<open>blk_bytes\<close> is the size asked of \<open>operator new\<close> for the block, header included; the source
  does not store it.
\<close>

record block =
  blk_next :: "addr option"
  blk_class :: nat
  blk_bytes :: nat

record pool =
  fp_free :: "addr option list"
  fp_count :: "nat list"
  fp_cached :: nat

type_synonym fp_heap = "addr \<Rightarrow> block option"

datatype fp_error = FpBadAlloc | FpInvalid

definition kMinClassBytes :: nat where "kMinClassBytes = 64"
definition kClassCount :: nat where "kClassCount = 11"
definition kMaxFramesPerClass :: nat where "kMaxFramesPerClass = 64"
definition kMaxCachedBytes :: nat where "kMaxCachedBytes = 4 * 1024 * 1024"
definition kUncachedClass :: nat where "kUncachedClass = 65535"

text \<open>\<open>sizeof(Block)\<close>: a pointer and a 16-bit class, aligned to \<open>std::max_align_t\<close>.\<close>

definition sizeof_Block :: nat where "sizeof_Block = 16"

lemmas fp_consts = kMinClassBytes_def kClassCount_def kMaxFramesPerClass_def kMaxCachedBytes_def
  kUncachedClass_def sizeof_Block_def

definition pool_new :: pool where
  "pool_new = \<lparr>fp_free = replicate kClassCount None, fp_count = replicate kClassCount 0,
     fp_cached = 0\<rparr>"

section \<open>Size classes\<close>

definition ClassBytes :: "nat \<Rightarrow> nat" where
  "ClassBytes class_index = kMinClassBytes * 2 ^ class_index"

definition ClassIndex :: "nat \<Rightarrow> nat" where
  "ClassIndex requested =
     (if requested \<le> kMinClassBytes then 0
      else bit_width (requested - 1) - bit_width (kMinClassBytes - 1))"

section \<open>Operations\<close>

text \<open>\<open>size_t\<close> addition in the argument of \<open>operator new\<close> wraps at 64 bits.\<close>

definition new_bytes :: "nat \<Rightarrow> nat" where
  "new_bytes n = (sizeof_Block + n) mod 2 ^ 64"

definition fp_Allocate ::
  "nat \<Rightarrow> addr option \<Rightarrow> pool \<Rightarrow> fp_heap \<Rightarrow> fp_error + (addr \<times> pool \<times> fp_heap)" where
  "fp_Allocate requested new_block p h =
     (let class_index = ClassIndex requested in
      if class_index < kClassCount
      then (case fp_free p ! class_index of
              Some a \<Rightarrow>
                (case h a of
                   None \<Rightarrow> Inl FpInvalid
                 | Some b \<Rightarrow>
                     Inr (a,
                          p\<lparr>fp_free := (fp_free p)[class_index := blk_next b],
                            fp_count := (fp_count p)[class_index := fp_count p ! class_index - 1],
                            fp_cached := fp_cached p - ClassBytes class_index\<rparr>,
                          h(a \<mapsto> b\<lparr>blk_class := class_index, blk_next := None\<rparr>)))
            | None \<Rightarrow>
                (case new_block of
                   None \<Rightarrow> Inl FpBadAlloc
                 | Some a \<Rightarrow>
                     Inr (a, p, h(a \<mapsto> \<lparr>blk_next = None, blk_class = class_index,
                                        blk_bytes = new_bytes (ClassBytes class_index)\<rparr>))))
      else (case new_block of
              None \<Rightarrow> Inl FpBadAlloc
            | Some a \<Rightarrow>
                Inr (a, p, h(a \<mapsto> \<lparr>blk_next = None, blk_class = kUncachedClass,
                                   blk_bytes = new_bytes requested\<rparr>))))"

definition fp_Release :: "addr option \<Rightarrow> pool \<Rightarrow> fp_heap \<Rightarrow> fp_error + (pool \<times> fp_heap)" where
  "fp_Release frame p h =
     (case frame of
        None \<Rightarrow> Inr (p, h)
      | Some a \<Rightarrow>
          (case h a of
             None \<Rightarrow> Inl FpInvalid
           | Some b \<Rightarrow>
               (let class_index = blk_class b in
                if kClassCount \<le> class_index then Inr (p, h(a := None))
                else let bytes = ClassBytes class_index in
                  if kMaxFramesPerClass \<le> fp_count p ! class_index \<or>
                     kMaxCachedBytes < fp_cached p + bytes
                  then Inr (p, h(a := None))
                  else Inr (p\<lparr>fp_free := (fp_free p)[class_index := Some a],
                              fp_count := (fp_count p)[class_index := fp_count p ! class_index + 1],
                              fp_cached := fp_cached p + bytes\<rparr>,
                            h(a \<mapsto> b\<lparr>blk_next := fp_free p ! class_index\<rparr>)))))"

text \<open>
  The destructor's inner loop: follow \<open>next_\<close> and delete each block. The first argument bounds
  the number of blocks followed; \<open>FpInvalid\<close> marks a block read after it was deleted.
\<close>

fun free_chain :: "nat \<Rightarrow> addr option \<Rightarrow> fp_heap \<Rightarrow> (fp_error + fp_heap) option" where
  "free_chain fuel None h = Some (Inr h)"
| "free_chain 0 (Some a) h = None"
| "free_chain (Suc fuel) (Some a) h =
     (case h a of
        None \<Rightarrow> Some (Inl FpInvalid)
      | Some b \<Rightarrow> free_chain fuel (blk_next b) (h(a := None)))"

fun pool_destroy :: "nat \<Rightarrow> addr option list \<Rightarrow> fp_heap \<Rightarrow> (fp_error + fp_heap) option" where
  "pool_destroy fuel [] h = Some (Inr h)"
| "pool_destroy fuel (head # heads) h =
     (case free_chain fuel head h of
        Some (Inr h') \<Rightarrow> pool_destroy fuel heads h'
      | r \<Rightarrow> r)"

text \<open>
  The life of one pool: frames are allocated at addresses the heap does not use, and only frames
  that are allocated are released. The third component of the state is the set of frames in use.
\<close>

inductive fp_reach :: "pool \<Rightarrow> fp_heap \<Rightarrow> addr set \<Rightarrow> bool" where
  fp_init: "fp_reach pool_new (\<lambda>_. None) {}"
| fp_alloc: "fp_reach p h live \<Longrightarrow> h f = None \<Longrightarrow> fp_Allocate n (Some f) p h = Inr (a, p', h') \<Longrightarrow>
    fp_reach p' h' (insert a live)"
| fp_release: "fp_reach p h live \<Longrightarrow> a \<in> live \<Longrightarrow> fp_Release (Some a) p h = Inr (p', h') \<Longrightarrow>
    fp_reach p' h' (live - {a})"

section \<open>Size classes: facts\<close>

lemma bit_width_63: "bit_width 63 = 6"
  by (simp add: bit_width.simps)

text \<open>The class of a request is the first whose blocks are large enough.\<close>

lemma ClassIndex_le_iff: "ClassIndex n \<le> k \<longleftrightarrow> n \<le> ClassBytes k"
proof (cases "n \<le> 64")
  case True
  moreover have "(1::nat) \<le> 2 ^ k" by simp
  then have "64 \<le> ClassBytes k" by (simp add: ClassBytes_def fp_consts)
  ultimately show ?thesis by (simp add: ClassIndex_def fp_consts)
next
  case False
  have "ClassIndex n \<le> k \<longleftrightarrow> bit_width (n - 1) \<le> k + 6"
    using False by (simp add: ClassIndex_def fp_consts bit_width_63 le_diff_conv)
  also have "\<dots> \<longleftrightarrow> n - 1 < 2 ^ (k + 6)" by (rule bit_width_le_iff)
  also have "\<dots> \<longleftrightarrow> n \<le> ClassBytes k"
    using False by (auto simp: ClassBytes_def fp_consts power_add)
  finally show ?thesis .
qed

lemma ClassBytes_bound:
  assumes "i < kClassCount"
  shows "ClassBytes i \<le> 65536"
proof -
  have "(2::nat) ^ i \<le> 2 ^ 10" using assms by (intro power_increasing) (auto simp: fp_consts)
  then show ?thesis by (simp add: ClassBytes_def fp_consts)
qed

section \<open>Invariant\<close>

text \<open>The blocks of a free list, in link order.\<close>

fun chain :: "fp_heap \<Rightarrow> addr option \<Rightarrow> addr list \<Rightarrow> bool" where
  "chain h p [] \<longleftrightarrow> p = None"
| "chain h p (a # as) \<longleftrightarrow> p = Some a \<and> (\<exists>b. h a = Some b \<and> chain h (blk_next b) as)"

definition class_ok :: "fp_heap \<Rightarrow> nat \<Rightarrow> addr list \<Rightarrow> addr option \<Rightarrow> nat \<Rightarrow> bool" where
  "class_ok h i as head n \<longleftrightarrow>
     chain h head as \<and> distinct as \<and> n = length as \<and> n \<le> kMaxFramesPerClass \<and>
     (\<forall>a \<in> set as. \<exists>b. h a = Some b \<and> blk_class b = i)"

definition block_ok :: "block \<Rightarrow> bool" where
  "block_ok b \<longleftrightarrow>
     (if blk_class b < kClassCount then blk_bytes b = sizeof_Block + ClassBytes (blk_class b)
      else blk_class b = kUncachedClass)"

definition cached_sum :: "addr list list \<Rightarrow> nat" where
  "cached_sum ls = (\<Sum>i < kClassCount. length (ls ! i) * ClassBytes i)"

definition pool_inv :: "addr list list \<Rightarrow> pool \<Rightarrow> fp_heap \<Rightarrow> addr set \<Rightarrow> bool" where
  "pool_inv ls p h live \<longleftrightarrow>
     length ls = kClassCount \<and> length (fp_free p) = kClassCount \<and> length (fp_count p) = kClassCount \<and>
     (\<forall>i < kClassCount. class_ok h i (ls ! i) (fp_free p ! i) (fp_count p ! i)) \<and>
     (\<forall>i < kClassCount. set (ls ! i) \<inter> live = {}) \<and>
     (\<forall>a b. h a = Some b \<longrightarrow> block_ok b) \<and> dom h = live \<union> (\<Union>i < kClassCount. set (ls ! i)) \<and>
     fp_cached p = cached_sum ls \<and> fp_cached p \<le> kMaxCachedBytes"

lemma chain_frame: "a \<notin> set as \<Longrightarrow> chain (h(a := v)) p as \<longleftrightarrow> chain h p as"
  by (induction as arbitrary: p) auto

lemma class_ok_frame: "a \<notin> set as \<Longrightarrow> class_ok (h(a := v)) i as head c \<longleftrightarrow> class_ok h i as head c"
  by (auto simp: class_ok_def chain_frame)

lemma cached_sum_update:
  assumes "i < kClassCount" "length ls = kClassCount"
  shows "cached_sum (ls[i := as]) + length (ls ! i) * ClassBytes i =
         cached_sum ls + length as * ClassBytes i"
proof -
  have "cached_sum xs = length (xs ! i) * ClassBytes i +
      (\<Sum>j \<in> {..<kClassCount} - {i}. length (xs ! j) * ClassBytes j)" for xs
    unfolding cached_sum_def using assms(1) by (subst sum.remove [of _ i]) auto
  note split = this
  have "(\<Sum>j \<in> {..<kClassCount} - {i}. length (ls[i := as] ! j) * ClassBytes j) =
        (\<Sum>j \<in> {..<kClassCount} - {i}. length (ls ! j) * ClassBytes j)"
    by (rule sum.cong) auto
  then show ?thesis using assms split [of ls] split [of "ls[i := as]"] by simp
qed

lemma pool_invD:
  assumes "pool_inv ls p h live" "i < kClassCount"
  shows "class_ok h i (ls ! i) (fp_free p ! i) (fp_count p ! i)" "set (ls ! i) \<inter> live = {}"
    "length ls = kClassCount" "length (fp_free p) = kClassCount" "length (fp_count p) = kClassCount"
  using assms by (auto simp: pool_inv_def)

lemma pool_inv_other_class:
  assumes "pool_inv ls p h live" "h a = Some b" "j < kClassCount" "blk_class b \<noteq> j"
  shows "a \<notin> set (ls ! j)"
  using pool_invD(1) [OF assms(1,3)] assms(2,4) by (auto simp: class_ok_def)

lemma pool_inv_not_dom:
  assumes "pool_inv ls p h live" "h a = None"
  shows "a \<notin> live" "j < kClassCount \<Longrightarrow> a \<notin> set (ls ! j)"
proof -
  have "dom h = live \<union> (\<Union>i < kClassCount. set (ls ! i))"
    using assms(1) unfolding pool_inv_def by blast
  moreover have "a \<notin> dom h" using assms(2) by (simp add: domIff)
  ultimately show "a \<notin> live" "j < kClassCount \<Longrightarrow> a \<notin> set (ls ! j)" by auto
qed

text \<open>A block that is on no free list can be deleted or become a frame in use.\<close>

lemma pool_inv_heap_update:
  assumes inv: "pool_inv ls p h live" and out: "\<And>i. i < kClassCount \<Longrightarrow> a \<notin> set (ls ! i)"
  shows "block_ok b \<Longrightarrow> pool_inv ls p (h(a \<mapsto> b)) (insert a live)"
    and "pool_inv ls p (h(a := None)) (live - {a})"
  using inv out by (auto simp: pool_inv_def class_ok_frame)

lemma pool_inv_take:
  assumes inv: "pool_inv ls p h live" and i: "i < kClassCount" and hd: "fp_free p ! i = Some a"
  shows "\<exists>b as. h a = Some b \<and> ls ! i = a # as \<and> blk_class b = i \<and> a \<notin> live \<and>
    pool_inv (ls[i := as])
      (p\<lparr>fp_free := (fp_free p)[i := blk_next b], fp_count := (fp_count p)[i := fp_count p ! i - 1],
         fp_cached := fp_cached p - ClassBytes i\<rparr>)
      (h(a \<mapsto> b\<lparr>blk_class := i, blk_next := None\<rparr>)) (insert a live)"
proof -
  note d = pool_invD [OF inv i]
  obtain as where as: "ls ! i = a # as" using d(1) hd by (cases "ls ! i") (auto simp: class_ok_def)
  then obtain b where b: "h a = Some b" "blk_class b = i" "chain h (blk_next b) as" "a \<notin> set as"
    using d(1) by (auto simp: class_ok_def)
  have out: "a \<notin> set (ls[i := as] ! j)" if "j < kClassCount" for j
    using that b pool_inv_other_class [OF inv b(1) that] d(3) i by (cases "j = i") auto
  let ?p' = "p\<lparr>fp_free := (fp_free p)[i := blk_next b], fp_count := (fp_count p)[i := fp_count p ! i - 1],
               fp_cached := fp_cached p - ClassBytes i\<rparr>"
  have sum: "cached_sum (ls[i := as]) = cached_sum ls - ClassBytes i"
    using cached_sum_update [OF i d(3), of as] as by simp
  have un: "insert a (\<Union>j < kClassCount. set (ls[i := as] ! j)) = (\<Union>j < kClassCount. set (ls ! j))"
    using as i d(3)
    by (auto simp: nth_list_update split: if_splits) (metis lessThan_iff set_ConsD)
  have "class_ok h j (ls[i := as] ! j) (fp_free ?p' ! j) (fp_count ?p' ! j)" if "j < kClassCount" for j
    using that i pool_invD(1) [OF inv that] as b d
    by (cases "j = i") (auto simp: class_ok_def)
  then have "pool_inv (ls[i := as]) ?p' (h(a \<mapsto> b\<lparr>blk_class := i, blk_next := None\<rparr>)) (insert a live)"
    using inv out un sum b d as unfolding pool_inv_def
    by (auto simp: class_ok_frame block_ok_def nth_list_update split: if_splits)
  moreover have "a \<notin> live" using d(2) as by auto
  ultimately show ?thesis using as b by blast
qed

lemma pool_inv_put:
  assumes inv: "pool_inv ls p h live" and a: "a \<in> live" "h a = Some b" and i: "blk_class b < kClassCount"
    and room: "fp_count p ! blk_class b < kMaxFramesPerClass"
      "fp_cached p + ClassBytes (blk_class b) \<le> kMaxCachedBytes"
  defines "c \<equiv> blk_class b"
  shows "pool_inv (ls[c := a # ls ! c])
     (p\<lparr>fp_free := (fp_free p)[c := Some a], fp_count := (fp_count p)[c := fp_count p ! c + 1],
        fp_cached := fp_cached p + ClassBytes c\<rparr>)
     (h(a \<mapsto> b\<lparr>blk_next := fp_free p ! c\<rparr>)) (live - {a})"
proof -
  have ic: "c < kClassCount" using i by (simp add: c_def)
  note d = pool_invD [OF inv ic]
  have out: "a \<notin> set (ls ! j)" if "j < kClassCount" for j
    using pool_invD(2) [OF inv that] a(1) by auto
  let ?p' = "p\<lparr>fp_free := (fp_free p)[c := Some a], fp_count := (fp_count p)[c := fp_count p ! c + 1],
               fp_cached := fp_cached p + ClassBytes c\<rparr>"
  let ?h' = "h(a \<mapsto> b\<lparr>blk_next := fp_free p ! c\<rparr>)"
  have sum: "cached_sum (ls[c := a # ls ! c]) = cached_sum ls + ClassBytes c"
    using cached_sum_update [OF ic d(3), of "a # ls ! c"] by simp
  have un: "(\<Union>j < kClassCount. set (ls[c := a # ls ! c] ! j)) =
      insert a (\<Union>j < kClassCount. set (ls ! j))"
    using ic d(3) by (auto simp: nth_list_update split: if_splits)
  have cls: "class_ok ?h' j (ls[c := a # ls ! c] ! j) (fp_free ?p' ! j) (fp_count ?p' ! j)"
    if "j < kClassCount" for j
  proof (cases "j = c")
    case True
    have "class_ok ?h' c (ls ! c) (fp_free p ! c) (fp_count p ! c)"
      using d(1) out [OF ic] by (simp add: class_ok_frame)
    with True d ic out [OF ic] room show ?thesis by (auto simp: class_ok_def c_def)
  next
    case False
    with pool_invD(1) [OF inv that] out [OF that] show ?thesis by (simp add: class_ok_frame)
  qed
  have disj: "set (ls[c := a # ls ! c] ! j) \<inter> (live - {a}) = {}" if "j < kClassCount" for j
    using ic pool_invD(2) [OF inv that] d by (cases "j = c") auto
  have "block_ok b" using inv a(2) by (auto simp: pool_inv_def)
  then have blk: "\<forall>x y. ?h' x = Some y \<longrightarrow> block_ok y"
    using inv by (auto simp: pool_inv_def block_ok_def)
  have dom: "dom ?h' = live - {a} \<union> (\<Union>j < kClassCount. set (ls[c := a # ls ! c] ! j))"
    using inv a unfolding un by (auto simp: pool_inv_def)
  show ?thesis
    unfolding pool_inv_def using cls disj blk dom sum inv room d
    by (simp add: pool_inv_def c_def)
qed

lemma new_bytes_class: "i < kClassCount \<Longrightarrow> new_bytes (ClassBytes i) = sizeof_Block + ClassBytes i"
  using ClassBytes_bound [of i] by (simp add: new_bytes_def fp_consts)

text \<open>What an allocation returns in a state of the invariant.\<close>

lemma fp_Allocate_ok:
  assumes inv: "pool_inv ls p h live" and fr: "h f = None"
  shows "\<exists>a p' h' ls' b. fp_Allocate n (Some f) p h = Inr (a, p', h') \<and> pool_inv ls' p' h' (insert a live) \<and>
     a \<notin> live \<and> h' a = Some b \<and> (sizeof_Block + n < 2 ^ 64 \<longrightarrow> sizeof_Block + n \<le> blk_bytes b) \<and>
     (\<forall>c. c \<noteq> a \<longrightarrow> h' c = h c)"
proof (cases "ClassIndex n < kClassCount")
  case small: True
  let ?i = "ClassIndex n"
  have fits: "n \<le> ClassBytes ?i" using ClassIndex_le_iff by blast
  show ?thesis
  proof (cases "fp_free p ! ?i")
    case None
    let ?b = "\<lparr>blk_next = None, blk_class = ?i, blk_bytes = new_bytes (ClassBytes ?i)\<rparr>"
    have "block_ok ?b" using small by (simp add: block_ok_def new_bytes_class)
    with pool_inv_heap_update(1) [OF inv pool_inv_not_dom(2) [OF inv fr]]
    have "pool_inv ls p (h(f \<mapsto> ?b)) (insert f live)" by blast
    then show ?thesis
      using None small fits pool_inv_not_dom(1) [OF inv fr]
      by (intro exI [of _ f] exI [of _ p] exI [of _ "h(f \<mapsto> ?b)"] exI [of _ ls] exI [of _ ?b])
        (simp add: fp_Allocate_def Let_def new_bytes_class)
  next
    case (Some a)
    from pool_inv_take [OF inv small Some] obtain b as where b: "h a = Some b" "blk_class b = ?i" "a \<notin> live"
      and inv': "pool_inv (ls[?i := as])
        (p\<lparr>fp_free := (fp_free p)[?i := blk_next b], fp_count := (fp_count p)[?i := fp_count p ! ?i - 1],
           fp_cached := fp_cached p - ClassBytes ?i\<rparr>)
        (h(a \<mapsto> b\<lparr>blk_class := ?i, blk_next := None\<rparr>)) (insert a live)" by blast
    have "block_ok b" using inv b by (auto simp: pool_inv_def)
    then have "sizeof_Block + n \<le> blk_bytes b" using b small fits by (simp add: block_ok_def)
    then show ?thesis
      using inv' b small Some
      by (intro exI [of _ a] exI [of _ "p\<lparr>fp_free := _, fp_count := _, fp_cached := _\<rparr>"]
          exI [of _ "h(a \<mapsto> b\<lparr>blk_class := ?i, blk_next := None\<rparr>)"] exI [of _ "ls[?i := as]"]
          exI [of _ "b\<lparr>blk_class := ?i, blk_next := None\<rparr>"])
        (simp add: fp_Allocate_def Let_def)
  qed
next
  case False
  let ?b = "\<lparr>blk_next = None, blk_class = kUncachedClass, blk_bytes = new_bytes n\<rparr>"
  have "block_ok ?b" by (simp add: block_ok_def fp_consts)
  with pool_inv_heap_update(1) [OF inv pool_inv_not_dom(2) [OF inv fr]]
  have "pool_inv ls p (h(f \<mapsto> ?b)) (insert f live)" by blast
  then show ?thesis
    using False pool_inv_not_dom(1) [OF inv fr]
    by (intro exI [of _ f] exI [of _ p] exI [of _ "h(f \<mapsto> ?b)"] exI [of _ ls] exI [of _ ?b])
      (simp add: fp_Allocate_def Let_def new_bytes_def)
qed

lemma fp_Release_ok:
  assumes inv: "pool_inv ls p h live" and a: "a \<in> live"
  shows "\<exists>p' h' ls'. fp_Release (Some a) p h = Inr (p', h') \<and> pool_inv ls' p' h' (live - {a})"
proof -
  have "dom h = live \<union> (\<Union>i < kClassCount. set (ls ! i))" using inv unfolding pool_inv_def by blast
  then obtain b where b: "h a = Some b" using a by blast
  have out: "a \<notin> set (ls ! i)" if "i < kClassCount" for i
    using pool_invD(2) [OF inv that] a by auto
  note del = pool_inv_heap_update(2) [OF inv out]
  show ?thesis
  proof (cases "blk_class b < kClassCount \<and> fp_count p ! blk_class b < kMaxFramesPerClass \<and>
                fp_cached p + ClassBytes (blk_class b) \<le> kMaxCachedBytes")
    case True
    then have t: "blk_class b < kClassCount" "fp_count p ! blk_class b < kMaxFramesPerClass"
      "fp_cached p + ClassBytes (blk_class b) \<le> kMaxCachedBytes" by auto
    from pool_inv_put [OF inv a b t] t b show ?thesis
      by (intro exI [of _ "p\<lparr>fp_free := _, fp_count := _, fp_cached := _\<rparr>"] exI conjI)
        (assumption | simp add: fp_Release_def Let_def)+
  next
    case False
    then have "fp_Release (Some a) p h = Inr (p, h(a := None))"
      using b by (auto simp: fp_Release_def Let_def)
    with del show ?thesis by blast
  qed
qed

lemma pool_inv_new: "pool_inv (replicate kClassCount []) pool_new (\<lambda>_. None) {}"
  by (auto simp: pool_inv_def pool_new_def class_ok_def cached_sum_def)

lemma fp_reach_inv: "fp_reach p h live \<Longrightarrow> \<exists>ls. pool_inv ls p h live"
proof (induction rule: fp_reach.induct)
  case fp_init
  then show ?case using pool_inv_new by blast
next
  case (fp_alloc p h live f n a p' h')
  then show ?case using fp_Allocate_ok [of _ p h live f n] by fastforce
next
  case (fp_release p h live a p' h')
  then show ?case using fp_Release_ok [of _ p h live a] by fastforce
qed

lemma free_chain_ok:
  "chain h p as \<Longrightarrow> distinct as \<Longrightarrow> length as \<le> fuel \<Longrightarrow>
     free_chain fuel p h = Some (Inr (h |` (- set as)))"
proof (induction as arbitrary: h p fuel)
  case Nil
  then show ?case by (simp add: restrict_map_def)
next
  case (Cons a as)
  then obtain b k where b: "p = Some a" "h a = Some b" "chain h (blk_next b) as" and k: "fuel = Suc k"
    by (cases fuel) auto
  have ch: "chain (h(a := None)) (blk_next b) as" using b Cons.prems by (simp add: chain_frame)
  have "distinct as" "length as \<le> k" using Cons.prems k by auto
  note step = Cons.IH [OF ch this]
  have eq: "h(a := None) |` (- set as) = h |` (- set (a # as))"
    by (rule ext) (auto simp: restrict_map_def)
  show ?case unfolding b(1) k free_chain.simps b(2) option.case step eq ..
qed

lemma chain_restrict: "set as \<subseteq> A \<Longrightarrow> chain (h |` A) p as \<longleftrightarrow> chain h p as"
  by (induction as arbitrary: p) (auto simp: restrict_map_def)

lemma pool_destroy_ok:
  assumes "list_all2 (chain h) heads ls" "distinct (concat ls)" "\<forall>as \<in> set ls. length as \<le> fuel"
  shows "pool_destroy fuel heads h = Some (Inr (h |` (- set (concat ls))))"
  using assms
proof (induction ls arbitrary: heads h rule: list.induct)
  case Nil
  then have "heads = []" by simp
  then show ?case by (simp add: restrict_map_def)
next
  case (Cons as ls)
  then obtain hd rest where heads: "heads = hd # rest" "chain h hd as" "list_all2 (chain h) rest ls"
    by (auto simp: list_all2_Cons2)
  let ?h = "h |` (- set as)"
  have "free_chain fuel hd h = Some (Inr ?h)"
    using heads Cons.prems by (intro free_chain_ok) auto
  moreover have "list_all2 (chain ?h) rest ls"
    using heads(3) by (rule list.rel_mono_strong)
      (use Cons.prems in \<open>auto intro!: chain_restrict [THEN iffD2]\<close>)
  ultimately show ?case
    using Cons.IH [of ?h rest] Cons.prems heads(1) by (simp add: Int_commute)
qed

lemma pool_inv_distinct:
  assumes inv: "pool_inv ls p h live"
  shows "distinct (concat ls)"
proof -
  have len: "length ls = kClassCount" using inv by (simp add: pool_inv_def)
  have d: "distinct (ls ! i)" "\<forall>a \<in> set (ls ! i). \<exists>b. h a = Some b \<and> blk_class b = i" if "i < kClassCount" for i
    using pool_invD(1) [OF inv that] by (auto simp: class_ok_def)
  have "distinct (concat (take n ls)) \<and> (\<forall>a \<in> set (concat (take n ls)). \<exists>b. h a = Some b \<and> blk_class b < n)"
    if "n \<le> kClassCount" for n
    using that
  proof (induction n)
    case (Suc n)
    then have n: "n < length ls" using len by simp
    with Suc d [of n] len show ?case
      by (auto simp: take_Suc_conv_app_nth less_Suc_eq) force+
  qed simp
  from this [of kClassCount] len show ?thesis by simp
qed

section \<open>Properties\<close>

text \<open>
  C35: In every state a pool can reach, an allocation that fits the address space succeeds, returns
  a frame that is not in use, large enough for the request, and leaves every other block of the
  heap untouched.
\<close>

theorem fp_Allocate_safe:
  assumes "fp_reach p h live" and "h f = None" and "sizeof_Block + n < 2 ^ 64"
  shows "\<exists>a p' h' b. fp_Allocate n (Some f) p h = Inr (a, p', h') \<and> a \<notin> live \<and>
           h' a = Some b \<and> sizeof_Block + n \<le> blk_bytes b \<and> (\<forall>c. c \<noteq> a \<longrightarrow> h' c = h c)"
proof -
  obtain ls where inv: "pool_inv ls p h live" using fp_reach_inv [OF assms(1)] by blast
  show ?thesis using fp_Allocate_ok [OF inv, of f n] assms(2,3) by blast
qed

theorem fp_Allocate_safe_witness:
  "\<exists>a p' h' b. fp_Allocate 100 (Some 7) pool_new (\<lambda>_. None) = Inr (a, p', h') \<and> a \<notin> {} \<and>
     h' a = Some b \<and> sizeof_Block + 100 \<le> blk_bytes b"
  using fp_Allocate_safe [OF fp_init, where f = 7 and n = 100] by (auto simp: fp_consts)

text \<open>
  In every state a pool can reach, the cache holds at most 64 frames per class and at most
  4 MiB; the byte counter is the exact size of the cached frames; and the destructor, following
  at most 64 links per class, returns every cached block exactly once and leaves exactly the
  frames in use.
\<close>

lemma fp_cache_bounded_and_returned:
  assumes "fp_reach p h live"
  shows "\<exists>ls. list_all2 (chain h) (fp_free p) ls \<and> fp_cached p = cached_sum ls \<and>
           fp_cached p \<le> kMaxCachedBytes \<and> (\<forall>as \<in> set ls. length as \<le> kMaxFramesPerClass) \<and>
           pool_destroy kMaxFramesPerClass (fp_free p) h = Some (Inr (h |` live))"
proof -
  obtain ls where inv: "pool_inv ls p h live" using fp_reach_inv [OF assms] by blast
  have len: "length ls = kClassCount" "length (fp_free p) = kClassCount"
    using inv by (auto simp: pool_inv_def)
  have ch: "list_all2 (chain h) (fp_free p) ls"
    using pool_invD(1) [OF inv] len by (auto simp: list_all2_conv_all_nth class_ok_def)
  have bd: "\<forall>as \<in> set ls. length as \<le> kMaxFramesPerClass"
    using pool_invD(1) [OF inv] len by (metis in_set_conv_nth class_ok_def)
  have "dom h = live \<union> (\<Union>i < kClassCount. set (ls ! i))" using inv unfolding pool_inv_def by blast
  moreover have "set ls = (\<lambda>i. ls ! i) ` {..<kClassCount}"
    using len by (auto simp: set_conv_nth)
  then have un: "(\<Union>i < kClassCount. set (ls ! i)) = set (concat ls)" by simp
  moreover have "set (concat ls) \<inter> live = {}"
    using pool_invD(2) [OF inv] un by blast
  ultimately have "h |` (- set (concat ls)) = h |` live"
    unfolding un by (intro ext) (auto simp: restrict_map_def domIff [symmetric])
  with pool_destroy_ok [OF ch pool_inv_distinct [OF inv] bd] ch bd inv show ?thesis
    by (auto simp: pool_inv_def)
qed

text \<open>
  The branch-free size class is the smallest class whose blocks hold the request, for every
  request, cached or not.
\<close>

lemma ClassIndex_least:
  "n \<le> ClassBytes (ClassIndex n) \<and> (\<forall>k < ClassIndex n. ClassBytes k < n)"
  using ClassIndex_le_iff [of n] by (metis linorder_not_less order_refl)

end
