(* ===== verification/Spsc_Ring.thy ===== *)
theory Spsc_Ring
  imports Bycorf_Prelude
begin

text \<open>
  The bounded single-producer single-consumer ring \<open>SpscRing\<close> of
  \<open>include/bycorf/runtime/cross_core.h\<close>. The operations are given twice: as functions that run
  to completion, for the components that call them, and as a relation that interleaves the
  producer and the consumer between any two accesses to the shared fields \<open>head_\<close>, \<open>tail_\<close> and
  \<open>entries_\<close>. The publications are release/acquire, so accesses are interleaved in one order.
  \<open>cap\<close> is the template argument \<open>Capacity\<close>.
\<close>

section \<open>Operations\<close>

record 'a spsc =
  sp_head :: u64
  sp_tail :: u64
  sp_cached_head :: u64
  sp_entries :: "'a list"

definition valid_capacity :: "u64 \<Rightarrow> bool" where
  "valid_capacity cap \<longleftrightarrow> 2 \<le> cap \<and> cap AND (cap - 1) = 0"

definition spsc_new :: "u64 \<Rightarrow> 'a \<Rightarrow> 'a spsc" where
  "spsc_new cap d = \<lparr>sp_head = 0, sp_tail = 0, sp_cached_head = 0, sp_entries = replicate (unat cap) d\<rparr>"

definition spsc_next :: "u64 \<Rightarrow> u64 \<Rightarrow> u64" where
  "spsc_next cap i = (i + 1) AND (cap - 1)"

definition try_enqueue :: "u64 \<Rightarrow> 'a \<Rightarrow> 'a spsc \<Rightarrow> bool \<times> 'a spsc" where
  "try_enqueue cap v q =
     (let tail = sp_tail q;
          next = spsc_next cap tail;
          q1 = (if next = sp_cached_head q then q\<lparr>sp_cached_head := sp_head q\<rparr> else q)
      in if next = sp_cached_head q \<and> next = sp_cached_head q1 then (False, q1)
         else (True, q1\<lparr>sp_entries := (sp_entries q1)[unat tail := v], sp_tail := next\<rparr>))"

text \<open>The copying loop; it runs at most \<open>maximum\<close> times.\<close>

fun dequeue_loop :: "u64 \<Rightarrow> nat \<Rightarrow> u64 \<Rightarrow> u64 \<Rightarrow> 'a list \<Rightarrow> 'a list \<times> u64" where
  "dequeue_loop cap 0 head tail es = ([], head)"
| "dequeue_loop cap (Suc n) head tail es =
     (if head = tail then ([], head)
      else let (vs, head') = dequeue_loop cap n (spsc_next cap head) tail es
           in (es ! unat head # vs, head'))"

definition try_dequeue_bulk :: "u64 \<Rightarrow> nat \<Rightarrow> 'a spsc \<Rightarrow> 'a list \<times> 'a spsc" where
  "try_dequeue_bulk cap maximum q =
     (let (vs, head) = dequeue_loop cap maximum (sp_head q) (sp_tail q) (sp_entries q)
      in (vs, if vs \<noteq> [] then q\<lparr>sp_head := head\<rparr> else q))"

definition spsc_empty :: "'a spsc \<Rightarrow> bool" where
  "spsc_empty q \<longleftrightarrow> sp_head q = sp_tail q"

section \<open>Interleaved execution\<close>

text \<open>
  The producer between its accesses: it has loaded \<open>tail_\<close> and must reload \<open>head_\<close>; it is
  about to write the entry; it is about to store \<open>tail_\<close>. The consumer inside
  \<open>try_dequeue_bulk\<close>: local head, loaded tail, values copied so far, and the maximum.
\<close>

datatype 'a prod_pc = PIdle | PRefresh 'a u64 u64 | PWrite 'a u64 u64 | PStore 'a u64

datatype 'a cons_pc = CIdle | CLoop u64 u64 "'a list" nat

text \<open>\<open>sys_sent\<close> lists the values whose enqueue returned true, \<open>sys_got\<close> those dequeued.\<close>

record 'a spsc_sys =
  sys_ring :: "'a spsc"
  sys_prod :: "'a prod_pc"
  sys_cons :: "'a cons_pc"
  sys_sent :: "'a list"
  sys_got :: "'a list"

definition sys_new :: "u64 \<Rightarrow> 'a \<Rightarrow> 'a spsc_sys" where
  "sys_new cap d = \<lparr>sys_ring = spsc_new cap d, sys_prod = PIdle, sys_cons = CIdle, sys_sent = [],
     sys_got = []\<rparr>"

inductive spsc_step :: "u64 \<Rightarrow> 'a spsc_sys \<Rightarrow> 'a spsc_sys \<Rightarrow> bool" for cap where
  p_begin: "sys_prod s = PIdle \<Longrightarrow> t = sp_tail (sys_ring s) \<Longrightarrow> n = spsc_next cap t \<Longrightarrow>
    spsc_step cap s (s\<lparr>sys_prod :=
      (if n = sp_cached_head (sys_ring s) then PRefresh v t n else PWrite v t n)\<rparr>)"
| p_refresh: "sys_prod s = PRefresh v t n \<Longrightarrow> h = sp_head (sys_ring s) \<Longrightarrow>
    spsc_step cap s (s\<lparr>sys_ring := (sys_ring s)\<lparr>sp_cached_head := h\<rparr>,
                       sys_prod := (if n = h then PIdle else PWrite v t n)\<rparr>)"
| p_write: "sys_prod s = PWrite v t n \<Longrightarrow>
    spsc_step cap s (s\<lparr>sys_ring := (sys_ring s)\<lparr>sp_entries := (sp_entries (sys_ring s))[unat t := v]\<rparr>,
                       sys_prod := PStore v n\<rparr>)"
| p_store: "sys_prod s = PStore v n \<Longrightarrow>
    spsc_step cap s (s\<lparr>sys_ring := (sys_ring s)\<lparr>sp_tail := n\<rparr>, sys_prod := PIdle,
                       sys_sent := sys_sent s @ [v]\<rparr>)"
| c_begin: "sys_cons s = CIdle \<Longrightarrow>
    spsc_step cap s (s\<lparr>sys_cons := CLoop (sp_head (sys_ring s)) (sp_tail (sys_ring s)) [] m\<rparr>)"
| c_read: "sys_cons s = CLoop h t out m \<Longrightarrow> h \<noteq> t \<Longrightarrow> length out < m \<Longrightarrow>
    spsc_step cap s (s\<lparr>sys_cons :=
      CLoop (spsc_next cap h) t (out @ [sp_entries (sys_ring s) ! unat h]) m\<rparr>)"
| c_done: "sys_cons s = CLoop h t out m \<Longrightarrow> \<not> (h \<noteq> t \<and> length out < m) \<Longrightarrow>
    spsc_step cap s (s\<lparr>sys_ring := (if out \<noteq> [] then (sys_ring s)\<lparr>sp_head := h\<rparr> else sys_ring s),
                       sys_cons := CIdle, sys_got := sys_got s @ out\<rparr>)"

section \<open>Refinement of the complete operations\<close>

definition spsc_len :: "u64 \<Rightarrow> u64 \<Rightarrow> u64 \<Rightarrow> nat" where
  "spsc_len cap head tail = (unat tail + unat cap - unat head) mod unat cap"

definition spsc_inv :: "u64 \<Rightarrow> 'a spsc \<Rightarrow> bool" where
  "spsc_inv cap q \<longleftrightarrow>
     valid_capacity cap \<and> length (sp_entries q) = unat cap \<and>
     sp_head q < cap \<and> sp_tail q < cap \<and> sp_cached_head q < cap \<and>
     spsc_len cap (sp_head q) (sp_tail q) \<le> spsc_len cap (sp_cached_head q) (sp_tail q)"

definition spsc_list :: "u64 \<Rightarrow> 'a spsc \<Rightarrow> 'a list" where
  "spsc_list cap q =
     map (\<lambda>i. sp_entries q ! ((unat (sp_head q) + i) mod unat cap))
         [0..<spsc_len cap (sp_head q) (sp_tail q)]"

lemma valid_capacityD:
  assumes "valid_capacity cap"
  shows "is_pow2 cap" "2 \<le> unat cap"
  using assms by (auto simp: valid_capacity_def is_pow2_def word_le_nat_alt)

lemma unat_spsc_next:
  assumes "valid_capacity cap" "i < cap"
  shows "unat (spsc_next cap i) = (unat i + 1) mod unat cap" "spsc_next cap i < cap"
proof -
  show "unat (spsc_next cap i) = (unat i + 1) mod unat cap"
    using assms valid_capacityD [OF assms(1)]
    by (simp add: spsc_next_def unat_and_pred unat_plus_one_less [of i cap])
  then show "spsc_next cap i < cap"
    using valid_capacityD(2) [OF assms(1)] by (simp add: word_less_nat_alt)
qed

text \<open>Moving the tail (the head) by one lengthens (shortens) the live region by one.\<close>

lemma mod_len_tail:
  fixes h t c :: nat
  assumes "h < c" "t < c" "(t + 1) mod c \<noteq> h"
  shows "((t + 1) mod c + c - h) mod c = (t + c - h) mod c + 1"
proof (cases "t + 1 = c")
  case True
  then have "(t + 1) mod c = 0" by simp
  moreover have "0 < h" using assms(3) True by (cases h) auto
  moreover have "(t + c - h) mod c = t - h"
    using True assms(1) by (simp add: mod_if)
  ultimately show ?thesis using True assms by simp
next
  case False
  then have lt: "t + 1 < c" using assms(2) by simp
  show ?thesis
  proof (cases "h \<le> t")
    case True
    then obtain d where "t = h + d" using le_Suc_ex by blast
    then show ?thesis using lt mod_add_self2 [of "Suc d" c] by simp
  next
    case False
    then show ?thesis using lt assms by simp
  qed
qed

lemma mod_len_head:
  fixes h t c :: nat
  assumes "h < c" "t < c" "h \<noteq> t"
  shows "(t + c - (h + 1) mod c) mod c + 1 = (t + c - h) mod c"
proof (cases "h + 1 = c")
  case True
  then show ?thesis using assms by (auto simp: mod_if)
next
  case False
  then have "(h + 1) mod c = h + 1" using assms(1) by simp
  then show ?thesis using assms by (auto simp: mod_if)
qed

lemma mod_len_zero: "h < c \<Longrightarrow> t < c \<Longrightarrow> (t + c - h) mod c = 0 \<longleftrightarrow> h = t" for h t c :: nat
  by (auto simp: mod_if split: if_splits)

lemma mod_len_tail_pos: "h < c \<Longrightarrow> t < c \<Longrightarrow> (h + (t + c - h) mod c) mod c = t" for h t c :: nat
  by (simp add: mod_add_right_eq)

lemma mod_len_unique:
  fixes h t c l :: nat
  assumes "h < c" "l < c" "(h + l) mod c = t"
  shows "(t + c - h) mod c = l"
proof (cases "h + l < c")
  case True
  then have "t = h + l" using assms(3) by simp
  then show ?thesis using assms(2) by simp
next
  case False
  then have "(h + l) mod c = h + l - c" using assms(1,2) by (simp add: mod_if)
  then have "t + c - h = l" using assms(3) False by linarith
  then show ?thesis using assms(2) by simp
qed

lemma dequeue_loop_ok:
  assumes "valid_capacity cap" "head < cap" "tail < cap"
  shows "\<exists>h'. dequeue_loop cap m head tail es =
      (map (\<lambda>i. es ! ((unat head + i) mod unat cap)) [0..<min m (spsc_len cap head tail)], h') \<and>
      h' < cap \<and> unat h' = (unat head + min m (spsc_len cap head tail)) mod unat cap"
  using assms(2)
proof (induction m arbitrary: head)
  case 0
  then show ?case by (simp add: word_less_nat_alt)
next
  case (Suc m)
  show ?case
  proof (cases "head = tail")
    case True
    then have "spsc_len cap head tail = 0" using Suc.prems by (simp add: spsc_len_def)
    then show ?thesis using True Suc.prems by (simp add: word_less_nat_alt)
  next
    case False
    let ?n = "spsc_next cap head"
    note n = unat_spsc_next [OF assms(1) Suc.prems]
    have hl: "unat head < unat cap" "unat tail < unat cap"
      using Suc.prems assms(3) by (simp_all add: word_less_nat_alt)
    have "unat head \<noteq> unat tail" using False by (metis unsigned_word_eqI)
    then have len: "spsc_len cap ?n tail + 1 = spsc_len cap head tail"
      using mod_len_head [OF hl] n(1) by (simp add: spsc_len_def)
    obtain h' where IH: "dequeue_loop cap m ?n tail es =
        (map (\<lambda>i. es ! ((unat ?n + i) mod unat cap)) [0..<min m (spsc_len cap ?n tail)], h')"
      and h': "h' < cap" "unat h' = (unat ?n + min m (spsc_len cap ?n tail)) mod unat cap"
      using Suc.IH [OF n(2)] by blast
    have mn: "min (Suc m) (spsc_len cap head tail) = Suc (min m (spsc_len cap ?n tail))"
      using len by simp
    have sh: "(unat ?n + i) mod unat cap = (unat head + Suc i) mod unat cap" for i
      unfolding n(1) by (simp add: mod_add_left_eq)
    have "dequeue_loop cap (Suc m) head tail es =
        (es ! unat head # map (\<lambda>i. es ! ((unat head + Suc i) mod unat cap))
                              [0..<min m (spsc_len cap ?n tail)], h')"
      using False IH sh by simp
    moreover have "es ! unat head # map (\<lambda>i. es ! ((unat head + Suc i) mod unat cap)) [0..<k] =
        map (\<lambda>i. es ! ((unat head + i) mod unat cap)) [0..<Suc k]" for k
      using hl(1) by (simp add: map_upt_Suc del: upt_Suc)
    ultimately show ?thesis using h' unfolding mn sh [symmetric] by (auto simp: sh)
  qed
qed

lemma spsc_len_less: "valid_capacity cap \<Longrightarrow> spsc_len cap h t < unat cap"
  using valid_capacityD(2) [of cap] by (simp add: spsc_len_def)

lemma length_spsc_list [simp]: "length (spsc_list cap q) = spsc_len cap (sp_head q) (sp_tail q)"
  by (simp add: spsc_list_def)

lemma spsc_empty_iff: "spsc_inv cap q \<Longrightarrow> spsc_empty q \<longleftrightarrow> spsc_list cap q = []"
  using mod_len_zero [of "unat (sp_head q)" "unat cap" "unat (sp_tail q)"]
  by (auto simp: spsc_inv_def spsc_empty_def spsc_list_def spsc_len_def word_less_nat_alt
      dest: unsigned_word_eqI)

lemma spsc_new_ok:
  assumes "valid_capacity cap"
  shows "spsc_inv cap (spsc_new cap d)" "spsc_list cap (spsc_new cap d) = []"
  using assms valid_capacityD(2) [OF assms]
  by (auto simp: spsc_inv_def spsc_new_def spsc_list_def spsc_len_def word_less_nat_alt)

lemma try_dequeue_bulk_ok:
  assumes inv: "spsc_inv cap q" and run: "try_dequeue_bulk cap m q = (vs, q')"
  shows "spsc_inv cap q'" "vs = take m (spsc_list cap q)" "spsc_list cap q' = drop m (spsc_list cap q)"
proof -
  let ?C = "unat cap" and ?h = "sp_head q" and ?t = "sp_tail q"
  let ?len = "spsc_len cap ?h ?t"
  have v: "valid_capacity cap" and b: "?h < cap" "?t < cap" "sp_cached_head q < cap"
    using inv by (auto simp: spsc_inv_def)
  have C2: "2 \<le> ?C" using valid_capacityD [OF v] by simp
  obtain h' where run': "dequeue_loop cap m ?h ?t (sp_entries q) =
      (map (\<lambda>i. sp_entries q ! ((unat ?h + i) mod ?C)) [0..<min m ?len], h')"
    and h': "h' < cap" "unat h' = (unat ?h + min m ?len) mod ?C"
    using dequeue_loop_ok [OF v b(1,2), of m "sp_entries q"] by blast
  let ?vs = "map (\<lambda>i. sp_entries q ! ((unat ?h + i) mod ?C)) [0..<min m ?len]"
  have "(?vs, if ?vs \<noteq> [] then q\<lparr>sp_head := h'\<rparr> else q) = (vs, q')"
    using run unfolding try_dequeue_bulk_def run' Let_def prod.case .
  then have vs: "vs = ?vs" and q': "q' = (if vs \<noteq> [] then q\<lparr>sp_head := h'\<rparr> else q)"
    by (auto simp only: prod.inject)
  show tk: "vs = take m (spsc_list cap q)"
    unfolding vs spsc_list_def by (cases "m \<le> ?len") (simp_all add: take_map)
  have bt: "unat ?h < ?C" "unat ?t < ?C" "unat h' < ?C" using b h'(1) by (simp_all add: word_less_nat_alt)
  have len': "spsc_len cap h' ?t = ?len - min m ?len"
    unfolding spsc_len_def [of cap h']
  proof (rule mod_len_unique [OF bt(3)])
    have tl: "(unat ?h + ?len) mod ?C = unat ?t" unfolding spsc_len_def by (rule mod_len_tail_pos [OF bt(1,2)])
    have "((unat ?h + k) mod ?C + (?len - k)) mod ?C = (unat ?h + ?len) mod ?C" if "k \<le> ?len" for k
    proof -
      have "((unat ?h + k) mod ?C + (?len - k)) mod ?C = (unat ?h + k + (?len - k)) mod ?C"
        by (rule mod_add_left_eq)
      also have "unat ?h + k + (?len - k) = unat ?h + ?len" using that by linarith
      finally show ?thesis .
    qed
    from this [of "min m ?len"] tl show "(unat h' + (?len - min m ?len)) mod ?C = unat ?t"
      unfolding h'(2) by simp
    show "?len - min m ?len < ?C" using spsc_len_less [OF v, of ?h ?t] by linarith
  qed
  show "spsc_inv cap q'"
    using inv h'(1) len' by (auto simp: q' spsc_inv_def)
  show "spsc_list cap q' = drop m (spsc_list cap q)"
  proof (cases "vs = []")
    case True
    then have "m = 0 \<or> ?len = 0" using vs by auto
    then show ?thesis using True by (auto simp: q' spsc_list_def)
  next
    case False
    then have "spsc_list cap q' =
        map (\<lambda>i. sp_entries q ! ((unat h' + i) mod ?C)) [0..<?len - min m ?len]"
      by (simp add: q' spsc_list_def len')
    also have "\<dots> = map (\<lambda>i. sp_entries q ! ((unat ?h + (min m ?len + i)) mod ?C)) [0..<?len - min m ?len]"
      unfolding h'(2) by (simp add: mod_add_left_eq add.assoc)
    also have "\<dots> = drop m (spsc_list cap q)"
      by (rule nth_equalityI) (auto simp: spsc_list_def min_def)
    finally show ?thesis .
  qed
qed

lemma try_enqueue_ok:
  assumes inv: "spsc_inv cap q" and run: "try_enqueue cap v q = (ok, q')"
  shows "spsc_inv cap q'" "ok \<longleftrightarrow> length (spsc_list cap q) < unat cap - 1"
    "spsc_list cap q' = (if ok then spsc_list cap q @ [v] else spsc_list cap q)"
proof -
  let ?C = "unat cap" and ?h = "sp_head q" and ?t = "sp_tail q" and ?c = "sp_cached_head q"
  let ?n = "spsc_next cap ?t"
  have v: "valid_capacity cap" and b: "?h < cap" "?t < cap" "?c < cap"
    and ln: "length (sp_entries q) = ?C" and cl: "spsc_len cap ?h ?t \<le> spsc_len cap ?c ?t"
    using inv by (auto simp: spsc_inv_def)
  have C2: "2 \<le> ?C" using valid_capacityD [OF v] by simp
  have bt: "unat ?h < ?C" "unat ?t < ?C" "unat ?c < ?C" using b by (simp_all add: word_less_nat_alt)
  note n = unat_spsc_next [OF v b(2)]
  have full: "?n = x \<longleftrightarrow> spsc_len cap x ?t = ?C - 1" if "x < cap" for x
  proof -
    have "unat x < ?C" using that by (simp add: word_less_nat_alt)
    then have "(unat ?t + 1) mod ?C = unat x \<longleftrightarrow> (unat ?t + ?C - unat x) mod ?C = ?C - 1"
      using bt(2) C2 by (auto simp: mod_if split: if_splits)
    then show ?thesis using n(1) by (metis spsc_len_def unsigned_word_eqI)
  qed
  have ok: "ok \<longleftrightarrow> ?n \<noteq> ?h"
    using run cl full [OF b(1)] full [OF b(3)] spsc_len_less [OF v, of ?c ?t]
    by (auto simp: try_enqueue_def Let_def split: if_splits)
  then show "ok \<longleftrightarrow> length (spsc_list cap q) < ?C - 1"
    using full [OF b(1)] spsc_len_less [OF v, of ?h ?t] by auto
  define q1 where "q1 = (if ?n = ?c then q\<lparr>sp_cached_head := ?h\<rparr> else q)"
  have inv1: "spsc_inv cap q1" using inv by (simp add: q1_def spsc_inv_def)
  have q1: "sp_head q1 = ?h" "sp_tail q1 = ?t" "sp_entries q1 = sp_entries q" by (simp_all add: q1_def)
  show "spsc_inv cap q'" "spsc_list cap q' = (if ok then spsc_list cap q @ [v] else spsc_list cap q)"
  proof -
    have "spsc_inv cap q' \<and> spsc_list cap q' = (if ok then spsc_list cap q @ [v] else spsc_list cap q)"
    proof (cases ok)
      case False
      then have "q' = q1" using run by (auto simp: try_enqueue_def Let_def q1_def split: if_splits)
      with False inv1 q1 show ?thesis by (simp add: spsc_list_def)
    next
      case True
      then have q': "q' = q1\<lparr>sp_entries := (sp_entries q)[unat ?t := v], sp_tail := ?n\<rparr>"
        and c1: "?n \<noteq> sp_cached_head q1"
        using run by (auto simp: try_enqueue_def Let_def q1_def split: if_splits)
      have c1b: "sp_cached_head q1 < cap" using inv1 by (simp add: spsc_inv_def)
      have grow: "spsc_len cap x ?n = spsc_len cap x ?t + 1" if "x < cap" "?n \<noteq> x" for x
        using mod_len_tail [of "unat x" ?C "unat ?t"] that bt(2) n(1)
        by (metis spsc_len_def unsigned_word_eqI word_less_nat_alt)
      have gh: "spsc_len cap ?h ?n = spsc_len cap ?h ?t + 1" using grow [OF b(1)] ok True by simp
      have "spsc_inv cap q'"
        using inv1 grow [OF c1b c1] gh n(2) ln q1 by (simp add: q' spsc_inv_def)
      moreover have "spsc_list cap q' = spsc_list cap q @ [v]"
      proof (rule nth_equalityI)
        show "length (spsc_list cap q') = length (spsc_list cap q @ [v])"
          by (simp add: q' q1 gh)
        fix i assume "i < length (spsc_list cap q')"
        then have i: "i \<le> spsc_len cap ?h ?t" by (simp add: q' q1 gh)
        have tl: "(unat ?h + spsc_len cap ?h ?t) mod ?C = unat ?t"
          unfolding spsc_len_def by (rule mod_len_tail_pos [OF bt(1,2)])
        have neq: "(unat ?h + i) mod ?C \<noteq> unat ?t" if "i < spsc_len cap ?h ?t"
        proof
          assume "(unat ?h + i) mod ?C = unat ?t"
          then have "?C dvd spsc_len cap ?h ?t - i"
            using that tl mod_eq_dvd_iff_nat [of "unat ?h + i" "unat ?h + spsc_len cap ?h ?t" ?C] by simp
          then show False using that spsc_len_less [OF v, of ?h ?t] by (auto dest: dvd_imp_le)
        qed
        show "spsc_list cap q' ! i = (spsc_list cap q @ [v]) ! i"
          using i tl neq [symmetric] bt(2) ln
          by (cases "i = spsc_len cap ?h ?t") (auto simp: q' q1 spsc_list_def gh nth_append)
      qed
      ultimately show ?thesis using True by simp
    qed
    then show "spsc_inv cap q'"
      "spsc_list cap q' = (if ok then spsc_list cap q @ [v] else spsc_list cap q)" by auto
  qed
qed

section \<open>Invariant of the interleaved execution\<close>

text \<open>
  With \<open>n\<close> values sent and \<open>g\<close> values received, the shared indices are the residues of \<open>n\<close> and
  \<open>g\<close>, the entries between them hold the values in flight, and the producer's snapshot of the
  head is the residue of some earlier \<open>c \<le> g\<close>.
\<close>

definition prod_ok :: "u64 \<Rightarrow> 'a spsc \<Rightarrow> nat \<Rightarrow> nat \<Rightarrow> 'a prod_pc \<Rightarrow> bool" where
  "prod_ok cap q n c pc \<longleftrightarrow>
     (case pc of
        PIdle \<Rightarrow> n < c + unat cap
      | PRefresh v t nx \<Rightarrow> n < c + unat cap \<and> t = sp_tail q \<and> nx = spsc_next cap t
      | PWrite v t nx \<Rightarrow> n + 1 < c + unat cap \<and> t = sp_tail q \<and> nx = spsc_next cap t
      | PStore v nx \<Rightarrow> n + 1 < c + unat cap \<and> nx = spsc_next cap (sp_tail q) \<and>
                       sp_entries q ! (n mod unat cap) = v)"

definition cons_ok :: "u64 \<Rightarrow> 'a list \<Rightarrow> nat \<Rightarrow> 'a cons_pc \<Rightarrow> bool" where
  "cons_ok cap sent g pc \<longleftrightarrow>
     (case pc of
        CIdle \<Rightarrow> True
      | CLoop h t out m \<Rightarrow>
          out = take (length out) (drop g sent) \<and> unat h = (g + length out) mod unat cap \<and>
          (\<exists>r. unat t = r mod unat cap \<and> g + length out \<le> r \<and> r \<le> length sent))"

definition ring_ok :: "u64 \<Rightarrow> 'a spsc \<Rightarrow> 'a list \<Rightarrow> nat \<Rightarrow> bool" where
  "ring_ok cap q sent g \<longleftrightarrow>
     valid_capacity cap \<and> length (sp_entries q) = unat cap \<and>
     unat (sp_tail q) = length sent mod unat cap \<and> unat (sp_head q) = g mod unat cap \<and>
     g \<le> length sent \<and> length sent < g + unat cap \<and>
     (\<forall>i. g \<le> i \<longrightarrow> i < length sent \<longrightarrow> sp_entries q ! (i mod unat cap) = sent ! i)"

definition sys_inv :: "u64 \<Rightarrow> 'a spsc_sys \<Rightarrow> bool" where
  "sys_inv cap s \<longleftrightarrow>
     (let q = sys_ring s; g = length (sys_got s) in
      ring_ok cap q (sys_sent s) g \<and> sys_got s = take g (sys_sent s) \<and>
      (\<exists>c. unat (sp_cached_head q) = c mod unat cap \<and> c \<le> g \<and>
           prod_ok cap q (length (sys_sent s)) c (sys_prod s)) \<and>
      cons_ok cap (sys_sent s) g (sys_cons s))"

lemma sys_invE:
  assumes "sys_inv cap s"
  obtains c where "ring_ok cap (sys_ring s) (sys_sent s) (length (sys_got s))"
    "sys_got s = take (length (sys_got s)) (sys_sent s)"
    "unat (sp_cached_head (sys_ring s)) = c mod unat cap" "c \<le> length (sys_got s)"
    "prod_ok cap (sys_ring s) (length (sys_sent s)) c (sys_prod s)"
    "cons_ok cap (sys_sent s) (length (sys_got s)) (sys_cons s)"
  using assms by (auto simp: sys_inv_def Let_def)

lemma sys_invI:
  assumes "ring_ok cap (sys_ring s) (sys_sent s) g" "length (sys_got s) = g"
    "sys_got s = take g (sys_sent s)"
    "unat (sp_cached_head (sys_ring s)) = c mod unat cap" "c \<le> g"
    "prod_ok cap (sys_ring s) (length (sys_sent s)) c (sys_prod s)"
    "cons_ok cap (sys_sent s) g (sys_cons s)"
  shows "sys_inv cap s"
  using assms by (auto simp: sys_inv_def Let_def)

lemma sys_inv_new: "valid_capacity cap \<Longrightarrow> sys_inv cap (sys_new cap d)"
  using valid_capacityD(2) [of cap]
  by (auto simp: sys_inv_def sys_new_def spsc_new_def ring_ok_def prod_ok_def cons_ok_def)

lemma ring_ok_tail_next:
  assumes "ring_ok cap q sent g"
  shows "unat (spsc_next cap (sp_tail q)) = (length sent + 1) mod unat cap"
proof -
  have v: "valid_capacity cap" and t: "unat (sp_tail q) = length sent mod unat cap"
    using assms by (auto simp: ring_ok_def)
  have "sp_tail q < cap" using t valid_capacityD(2) [OF v] by (simp add: word_less_nat_alt)
  from unat_spsc_next(1) [OF v this] t show ?thesis by (simp add: mod_Suc_eq)
qed

text \<open>Two counters less than a capacity apart have the same residue only if they are equal.\<close>

lemma mod_window:
  fixes a b C :: nat
  assumes "a \<le> b" "b < a + C" "a mod C = b mod C"
  shows "a = b"
proof (rule ccontr)
  assume "a \<noteq> b"
  moreover have "C dvd b - a" using assms(1,3) mod_eq_dvd_iff_nat [of a b C] by simp
  ultimately have "C \<le> b - a" using assms(1) by (intro dvd_imp_le) auto
  then show False using assms(1,2) by linarith
qed

lemma prod_not_full:
  assumes ok: "ring_ok cap q sent g" and c: "unat x = c mod unat cap" "c \<le> g" "length sent < c + unat cap"
    and ne: "spsc_next cap (sp_tail q) \<noteq> x"
  shows "length sent + 1 < c + unat cap"
proof (rule ccontr)
  assume "\<not> ?thesis"
  then have "length sent + 1 = c + unat cap" using c(3) by linarith
  then have "unat (spsc_next cap (sp_tail q)) = unat x"
    using ring_ok_tail_next [OF ok] c(1) by simp
  with ne show False by (metis unsigned_word_eqI)
qed

lemma sys_inv_p_begin:
  assumes "sys_inv cap s" "sys_prod s = PIdle" "t = sp_tail (sys_ring s)" "n = spsc_next cap t"
  shows "sys_inv cap (s\<lparr>sys_prod := (if n = sp_cached_head (sys_ring s) then PRefresh v t n else PWrite v t n)\<rparr>)"
  using assms(1)
proof (rule sys_invE)
  fix c assume c: "ring_ok cap (sys_ring s) (sys_sent s) (length (sys_got s))"
    "sys_got s = take (length (sys_got s)) (sys_sent s)"
    "unat (sp_cached_head (sys_ring s)) = c mod unat cap" "c \<le> length (sys_got s)"
    "prod_ok cap (sys_ring s) (length (sys_sent s)) c (sys_prod s)"
    "cons_ok cap (sys_sent s) (length (sys_got s)) (sys_cons s)"
  have lt: "length (sys_sent s) < c + unat cap" using c(5) assms(2) by (simp add: prod_ok_def)
  have "length (sys_sent s) + 1 < c + unat cap" if "n \<noteq> sp_cached_head (sys_ring s)"
    using prod_not_full [OF c(1,3,4) lt] that assms by simp
  with lt show ?thesis
    using c assms(3,4) by (intro sys_invI [where c = c]) (auto simp: prod_ok_def)
qed

lemma sys_inv_p_refresh:
  assumes "sys_inv cap s" "sys_prod s = PRefresh v t n" "h = sp_head (sys_ring s)"
  shows "sys_inv cap (s\<lparr>sys_ring := (sys_ring s)\<lparr>sp_cached_head := h\<rparr>,
                        sys_prod := (if n = h then PIdle else PWrite v t n)\<rparr>)"
  using assms(1)
proof (rule sys_invE)
  fix c assume c: "ring_ok cap (sys_ring s) (sys_sent s) (length (sys_got s))"
    "sys_got s = take (length (sys_got s)) (sys_sent s)"
    "prod_ok cap (sys_ring s) (length (sys_sent s)) c (sys_prod s)"
    "cons_ok cap (sys_sent s) (length (sys_got s)) (sys_cons s)"
  let ?g = "length (sys_got s)"
  have h: "unat h = ?g mod unat cap" "length (sys_sent s) < ?g + unat cap"
    using c(1) assms(3) by (auto simp: ring_ok_def)
  have tn: "t = sp_tail (sys_ring s)" "n = spsc_next cap t" using c(3) assms(2) by (auto simp: prod_ok_def)
  have "length (sys_sent s) + 1 < ?g + unat cap" if "n \<noteq> h"
    using prod_not_full [OF c(1) h(1) _ h(2)] that tn by simp
  with h tn c(1,2,4) show ?thesis
    by (intro sys_invI [where c = ?g]) (auto simp: prod_ok_def ring_ok_def)
qed

lemma sys_inv_p_write:
  assumes "sys_inv cap s" "sys_prod s = PWrite v t n"
  shows "sys_inv cap (s\<lparr>sys_ring := (sys_ring s)\<lparr>sp_entries := (sp_entries (sys_ring s))[unat t := v]\<rparr>,
                        sys_prod := PStore v n\<rparr>)"
  using assms(1)
proof (rule sys_invE)
  fix c assume c: "ring_ok cap (sys_ring s) (sys_sent s) (length (sys_got s))"
    "sys_got s = take (length (sys_got s)) (sys_sent s)"
    "unat (sp_cached_head (sys_ring s)) = c mod unat cap" "c \<le> length (sys_got s)"
    "prod_ok cap (sys_ring s) (length (sys_sent s)) c (sys_prod s)"
    "cons_ok cap (sys_sent s) (length (sys_got s)) (sys_cons s)"
  let ?n = "length (sys_sent s)" and ?C = "unat cap"
  have t: "unat t = ?n mod ?C" "?n mod ?C < length (sp_entries (sys_ring s))"
    and p: "t = sp_tail (sys_ring s)" "n = spsc_next cap t" "?n + 1 < c + ?C"
    using c(1,5) assms(2) valid_capacityD(2) [of cap] by (auto simp: prod_ok_def ring_ok_def)
  have "?n mod ?C \<noteq> i mod ?C" if "length (sys_got s) \<le> i" "i < ?n" for i
    using mod_window [of i ?n ?C] that c(1) by (auto simp: ring_ok_def)
  then have "ring_ok cap ((sys_ring s)\<lparr>sp_entries := (sp_entries (sys_ring s))[unat t := v]\<rparr>)
      (sys_sent s) (length (sys_got s))"
    using c(1) t by (auto simp: ring_ok_def)
  then show ?thesis
    using c p t by (intro sys_invI [where c = c]) (auto simp: prod_ok_def)
qed

lemma sys_inv_p_store:
  assumes "sys_inv cap s" "sys_prod s = PStore v n"
  shows "sys_inv cap (s\<lparr>sys_ring := (sys_ring s)\<lparr>sp_tail := n\<rparr>, sys_prod := PIdle,
                        sys_sent := sys_sent s @ [v]\<rparr>)"
  using assms(1)
proof (rule sys_invE)
  fix c assume c: "ring_ok cap (sys_ring s) (sys_sent s) (length (sys_got s))"
    "sys_got s = take (length (sys_got s)) (sys_sent s)"
    "unat (sp_cached_head (sys_ring s)) = c mod unat cap" "c \<le> length (sys_got s)"
    "prod_ok cap (sys_ring s) (length (sys_sent s)) c (sys_prod s)"
    "cons_ok cap (sys_sent s) (length (sys_got s)) (sys_cons s)"
  have p: "n = spsc_next cap (sp_tail (sys_ring s))" "length (sys_sent s) + 1 < c + unat cap"
    "sp_entries (sys_ring s) ! (length (sys_sent s) mod unat cap) = v"
    using c(5) assms(2) by (auto simp: prod_ok_def)
  have "ring_ok cap ((sys_ring s)\<lparr>sp_tail := n\<rparr>) (sys_sent s @ [v]) (length (sys_got s))"
    using c(1,4) p ring_ok_tail_next [OF c(1)]
    by (auto simp: ring_ok_def nth_append less_Suc_eq)
  moreover have "cons_ok cap (sys_sent s @ [v]) (length (sys_got s)) (sys_cons s)"
    using c(6) by (auto simp: cons_ok_def split: cons_pc.splits)
  ultimately show ?thesis
    using c p by (intro sys_invI [where c = c]) (auto simp: prod_ok_def ring_ok_def)
qed

lemma sys_inv_c_begin:
  assumes "sys_inv cap s" "sys_cons s = CIdle"
  shows "sys_inv cap (s\<lparr>sys_cons := CLoop (sp_head (sys_ring s)) (sp_tail (sys_ring s)) [] m\<rparr>)"
  using assms(1)
proof (rule sys_invE)
  fix c assume c: "ring_ok cap (sys_ring s) (sys_sent s) (length (sys_got s))"
    "sys_got s = take (length (sys_got s)) (sys_sent s)"
    "unat (sp_cached_head (sys_ring s)) = c mod unat cap" "c \<le> length (sys_got s)"
    "prod_ok cap (sys_ring s) (length (sys_sent s)) c (sys_prod s)"
  have "cons_ok cap (sys_sent s) (length (sys_got s))
      (CLoop (sp_head (sys_ring s)) (sp_tail (sys_ring s)) [] m)"
    using c(1) by (auto simp: cons_ok_def ring_ok_def)
  with c show ?thesis by (intro sys_invI [where c = c]) auto
qed

text \<open>A consumer that sees its local head differ from the loaded tail is at a live entry.\<close>

lemma cons_at_live:
  assumes "cons_ok cap sent g (CLoop h t out m)" "h \<noteq> t"
  shows "g + length out < length sent"
proof -
  obtain r where r: "unat t = r mod unat cap" "g + length out \<le> r" "r \<le> length sent"
    and h: "unat h = (g + length out) mod unat cap"
    using assms(1) by (auto simp: cons_ok_def)
  have "unat h \<noteq> unat t" using assms(2) by (metis unsigned_word_eqI)
  then have "g + length out \<noteq> r" using h r(1) by auto
  with r show ?thesis by linarith
qed

lemma sys_inv_c_read:
  assumes "sys_inv cap s" "sys_cons s = CLoop h t out m" "h \<noteq> t"
  shows "sys_inv cap (s\<lparr>sys_cons :=
    CLoop (spsc_next cap h) t (out @ [sp_entries (sys_ring s) ! unat h]) m\<rparr>)"
  using assms(1)
proof (rule sys_invE)
  fix c assume c: "ring_ok cap (sys_ring s) (sys_sent s) (length (sys_got s))"
    "sys_got s = take (length (sys_got s)) (sys_sent s)"
    "unat (sp_cached_head (sys_ring s)) = c mod unat cap" "c \<le> length (sys_got s)"
    "prod_ok cap (sys_ring s) (length (sys_sent s)) c (sys_prod s)"
    "cons_ok cap (sys_sent s) (length (sys_got s)) (sys_cons s)"
  let ?g = "length (sys_got s)" and ?C = "unat cap" and ?k = "length out"
  have v: "valid_capacity cap" using c(1) by (simp add: ring_ok_def)
  have co: "cons_ok cap (sys_sent s) ?g (CLoop h t out m)" using c(6) assms(2) by simp
  note live = cons_at_live [OF co assms(3)]
  obtain r where out: "out = take ?k (drop ?g (sys_sent s))" and h: "unat h = (?g + ?k) mod ?C"
    and r: "unat t = r mod ?C" "?g + ?k \<le> r" "r \<le> length (sys_sent s)"
    using co by (auto simp: cons_ok_def)
  have hc: "h < cap" using h valid_capacityD(2) [OF v] by (simp add: word_less_nat_alt)
  have rd: "sp_entries (sys_ring s) ! unat h = sys_sent s ! (?g + ?k)"
    using c(1) live h by (simp add: ring_ok_def)
  have "unat h \<noteq> unat t" using assms(3) by (metis unsigned_word_eqI)
  then have ne: "?g + ?k \<noteq> r" using h r(1) by auto
  have "out @ [sys_sent s ! (?g + ?k)] = take (Suc ?k) (drop ?g (sys_sent s))"
    using out live by (simp add: take_Suc_conv_app_nth)
  moreover have "unat (spsc_next cap h) = (?g + Suc ?k) mod ?C"
    using unat_spsc_next(1) [OF v hc] h by (simp add: mod_Suc_eq)
  moreover have "?g + Suc ?k \<le> r" using r(2) ne by linarith
  ultimately have "cons_ok cap (sys_sent s) ?g
      (CLoop (spsc_next cap h) t (out @ [sp_entries (sys_ring s) ! unat h]) m)"
    using r unfolding rd by (auto simp: cons_ok_def)
  with c show ?thesis by (intro sys_invI [where c = c]) auto
qed

lemma sys_inv_c_done:
  assumes "sys_inv cap s" "sys_cons s = CLoop h t out m"
  shows "sys_inv cap (s\<lparr>sys_ring := (if out \<noteq> [] then (sys_ring s)\<lparr>sp_head := h\<rparr> else sys_ring s),
                        sys_cons := CIdle, sys_got := sys_got s @ out\<rparr>)"
  using assms(1)
proof (rule sys_invE)
  fix c assume c: "ring_ok cap (sys_ring s) (sys_sent s) (length (sys_got s))"
    "sys_got s = take (length (sys_got s)) (sys_sent s)"
    "unat (sp_cached_head (sys_ring s)) = c mod unat cap" "c \<le> length (sys_got s)"
    "prod_ok cap (sys_ring s) (length (sys_sent s)) c (sys_prod s)"
    "cons_ok cap (sys_sent s) (length (sys_got s)) (sys_cons s)"
  let ?g = "length (sys_got s)" and ?k = "length out"
  let ?q = "if out \<noteq> [] then (sys_ring s)\<lparr>sp_head := h\<rparr> else sys_ring s"
  have out: "out = take ?k (drop ?g (sys_sent s))" and h: "unat h = (?g + ?k) mod unat cap"
    and le: "?g + ?k \<le> length (sys_sent s)"
    using c(6) assms(2) by (auto simp: cons_ok_def)
  have got: "sys_got s @ out = take (?g + ?k) (sys_sent s)"
    unfolding take_add by (rule arg_cong2 [where f = append, OF c(2) out])
  have "ring_ok cap ?q (sys_sent s) (?g + ?k)"
    using c(1) h le by (auto simp: ring_ok_def)
  moreover have "prod_ok cap ?q (length (sys_sent s)) c (sys_prod s)"
    using c(5) by (cases "sys_prod s") (auto simp: prod_ok_def)
  ultimately show ?thesis
    using c(3,4) got le
    by (intro sys_invI [where c = c and g = "?g + ?k"]) (simp_all add: cons_ok_def min_absorb2)
qed

lemma sys_inv_step:
  assumes "spsc_step cap s s'" "sys_inv cap s"
  shows "sys_inv cap s'"
  using assms(1)
proof (cases rule: spsc_step.cases)
  case (p_begin t n v)
  then show ?thesis using sys_inv_p_begin [OF assms(2)] by blast
next
  case (p_refresh v t n h)
  then show ?thesis using sys_inv_p_refresh [OF assms(2)] by blast
next
  case (p_write v t n)
  then show ?thesis using sys_inv_p_write [OF assms(2)] by blast
next
  case (p_store v n)
  then show ?thesis using sys_inv_p_store [OF assms(2)] by blast
next
  case (c_begin m)
  then show ?thesis using sys_inv_c_begin [OF assms(2)] by blast
next
  case (c_read h t out m)
  then show ?thesis using sys_inv_c_read [OF assms(2)] by blast
next
  case (c_done h t out m)
  then show ?thesis using sys_inv_c_done [OF assms(2)] by blast
qed

lemma sys_inv_reach:
  assumes "valid_capacity cap" "(spsc_step cap)\<^sup>*\<^sup>* (sys_new cap d) s"
  shows "sys_inv cap s"
  using assms(2) by (induction rule: rtranclp_induct) (auto intro: sys_inv_new assms sys_inv_step)

section \<open>Properties\<close>

text \<open>
  C2: In every interleaving of the producer and the consumer at the granularity of single shared
  accesses, the values received are a prefix of the values sent, in order, without loss or
  duplication, and never more than \<open>Capacity - 1\<close> values are in flight. A producer that reports
  the ring full does so while it holds exactly that many, and the entry a producer is about
  to write is never the entry a consumer is about to read.
\<close>

theorem spsc_interleaved_fifo:
  assumes "valid_capacity cap" and "(spsc_step cap)\<^sup>*\<^sup>* (sys_new cap d) s"
  shows "sys_got s = take (length (sys_got s)) (sys_sent s)
    \<and> length (sys_sent s) - length (sys_got s) \<le> unat cap - 1
    \<and> (\<forall>v t n. sys_prod s = PRefresh v t n \<longrightarrow> n = sp_head (sys_ring s) \<longrightarrow>
         length (sys_sent s) - length (sys_got s) = unat cap - 1)
    \<and> (\<forall>v t n h t' out m. sys_prod s = PWrite v t n \<longrightarrow> sys_cons s = CLoop h t' out m \<longrightarrow>
         h \<noteq> t' \<longrightarrow> h \<noteq> t)"
  using sys_inv_reach [OF assms]
proof (rule sys_invE)
  fix c assume c: "ring_ok cap (sys_ring s) (sys_sent s) (length (sys_got s))"
    "sys_got s = take (length (sys_got s)) (sys_sent s)"
    "prod_ok cap (sys_ring s) (length (sys_sent s)) c (sys_prod s)" "c \<le> length (sys_got s)"
    "cons_ok cap (sys_sent s) (length (sys_got s)) (sys_cons s)"
  let ?n = "length (sys_sent s)" and ?g = "length (sys_got s)" and ?C = "unat cap"
  have w: "?g \<le> ?n" "?n < ?g + ?C" using c(1) by (auto simp: ring_ok_def)
  have full: "?n - ?g = ?C - 1"
    if "sys_prod s = PRefresh v t nx" "nx = sp_head (sys_ring s)" for v t nx
  proof -
    have "nx = spsc_next cap (sp_tail (sys_ring s))" using that(1) c(3) by (simp add: prod_ok_def)
    then have "(?n + 1) mod ?C = ?g mod ?C"
      using ring_ok_tail_next [OF c(1)] that(2) c(1) by (simp add: ring_ok_def)
    then have "(?g + ?C) mod ?C = (?n + 1) mod ?C" by simp
    then have "?n + 1 = ?g + ?C"
      using mod_window [of "?n + 1" "?g + ?C" ?C] w by auto
    then show ?thesis by linarith
  qed
  have race: "h \<noteq> t" if "sys_prod s = PWrite v t nx" "sys_cons s = CLoop h t' out m" "h \<noteq> t'"
    for v t nx h t' out m
  proof
    assume "h = t"
    have co: "cons_ok cap (sys_sent s) ?g (CLoop h t' out m)" using c(5) that(2) by simp
    note live = cons_at_live [OF co that(3)]
    have "t = sp_tail (sys_ring s)" using that(1) c(3) by (simp add: prod_ok_def)
    then have "(?g + length out) mod ?C = ?n mod ?C"
      using \<open>h = t\<close> co c(1) by (simp add: cons_ok_def ring_ok_def)
    with mod_window [of "?g + length out" ?n ?C] live w show False by linarith
  qed
  show ?thesis using w full race by (intro conjI) (rule c(2), linarith, blast+)
qed

theorem spsc_interleaved_fifo_witness:
  "sys_got (sys_new 4 (0::nat)) = take (length (sys_got (sys_new 4 (0::nat)))) (sys_sent (sys_new 4 0))
    \<and> length (sys_sent (sys_new 4 (0::nat))) - length (sys_got (sys_new 4 (0::nat))) \<le> unat (4::u64) - 1"
  using spsc_interleaved_fifo [of 4 0 "sys_new 4 (0::nat)"]
  by (auto simp: valid_capacity_def)

text \<open>
  Run to completion, an enqueue fails exactly when \<open>Capacity - 1\<close> values are queued, whatever
  the producer's stale snapshot of the head says, and otherwise appends; a bulk dequeue returns the
  oldest \<open>maximum\<close> values and keeps the rest.
\<close>

lemma spsc_operations_refine_list:
  assumes inv: "spsc_inv cap q" and enq: "try_enqueue cap v q = (ok, q1)"
    and deq: "try_dequeue_bulk cap m q = (vs, q2)"
  shows "spsc_inv cap q1 \<and> spsc_inv cap q2
    \<and> ok = (length (spsc_list cap q) < unat cap - 1)
    \<and> spsc_list cap q1 = (if ok then spsc_list cap q @ [v] else spsc_list cap q)
    \<and> vs = take m (spsc_list cap q) \<and> spsc_list cap q2 = drop m (spsc_list cap q)"
  using try_enqueue_ok [OF inv enq] try_dequeue_bulk_ok [OF inv deq] by simp

end
