(* ===== verification/Cross_Core.thy ===== *)
theory Cross_Core
  imports Spsc_Ring
begin

text \<open>
  The cross-core drain loop of a worker, \<open>DrainCrossCoreImpl\<close> of \<open>src/runtime/worker.cpp\<close>, over
  the lanes and the active-sender bitmap of \<open>include/bycorf/runtime/cross_core.h\<close>: the
  cyclic bitmap scan, the per-kind batch limit, the per-sender quota, the lane-close handshake and
  the overflow queues of the mailbox, whose implementation is a third-party queue and a parameter
  here. The loop runs without interference; interleaving is the subject of the protocol theory.
  Messages drained from a lane are reported with the sender they came from.
\<close>

section \<open>Lanes and bitmap\<close>

record ('w, 'n) lane =
  ln_requests :: "'w spsc"
  ln_replies :: "'w spsc"
  ln_notifications :: "'n spsc"
  ln_active :: bool

text \<open>The default template argument of \<open>SpscRing\<close>.\<close>

definition kLaneCapacity :: u64 where "kLaneCapacity = 256"
definition kBatchSize :: nat where "kBatchSize = 64"
definition kSenderQuota :: nat where "kSenderQuota = 256"

definition lane_empty :: "('w, 'n) lane \<Rightarrow> bool" where
  "lane_empty l \<longleftrightarrow>
     spsc_empty (ln_requests l) \<and> spsc_empty (ln_replies l) \<and> spsc_empty (ln_notifications l)"

definition ActivateSender :: "nat \<Rightarrow> u64 list \<Rightarrow> u64 list" where
  "ActivateSender sender ws =
     ws[sender div 64 := ws ! (sender div 64) OR push_bit (sender mod 64) 1]"

definition TakeActiveSenders :: "nat \<Rightarrow> u64 list \<Rightarrow> u64 \<times> u64 list" where
  "TakeActiveSenders word ws = (if ws ! word = 0 then (0, ws) else (ws ! word, ws[word := 0]))"

text \<open>\<open>std::countr_zero\<close>.\<close>

definition countr_zero :: "u64 \<Rightarrow> nat" where
  "countr_zero x = length (takeWhile (\<lambda>i. \<not> bit x i) [0..<64])"

section \<open>The drain\<close>

text \<open>
  Counters, cursor, the receiver's lanes by sender and its bitmap words, and the messages
  drained so far.
\<close>

record ('w, 'n) drain =
  dr_nreq :: nat
  dr_nrep :: nat
  dr_nnot :: nat
  dr_batch_full :: bool
  dr_cursor :: nat
  dr_consumed :: nat
  dr_lanes :: "('w, 'n) lane list"
  dr_words :: "u64 list"
  dr_req :: "(nat \<times> 'w) list"
  dr_rep :: "(nat \<times> 'w) list"
  dr_not :: "(nat \<times> 'n) list"
  dr_oreq :: "'w list"
  dr_orep :: "'w list"
  dr_onot :: "'n list"

text \<open>\<open>dr_req\<close>, \<open>dr_rep\<close> and \<open>dr_not\<close> are drained from lanes, the last three from the overflow queues.\<close>

definition drain_queue :: "nat \<Rightarrow> nat \<Rightarrow> 'a spsc \<Rightarrow> 'a list \<times> 'a spsc" where
  "drain_queue taken consumed q =
     (let maximum = min (kBatchSize - taken) (kSenderQuota - consumed) in
      if maximum = 0 then ([], q) else try_dequeue_bulk kLaneCapacity maximum q)"

definition full_batch :: "('w, 'n) drain \<Rightarrow> bool" where
  "full_batch d \<longleftrightarrow> dr_nreq d = kBatchSize \<or> dr_nrep d = kBatchSize \<or> dr_nnot d = kBatchSize"

text \<open>The three \<open>drain_queue\<close> calls at one lane and the cursor update that follows.\<close>

definition drain_lane :: "nat \<Rightarrow> nat \<Rightarrow> ('w, 'n) drain \<Rightarrow> ('w, 'n) drain" where
  "drain_lane sender_count sender d0 =
     (let d = (if dr_cursor d0 \<noteq> sender then d0\<lparr>dr_cursor := sender, dr_consumed := 0\<rparr> else d0);
          l = dr_lanes d ! sender;
          (rq, q1) = drain_queue (dr_nreq d) (dr_consumed d) (ln_requests l);
          c1 = dr_consumed d + length rq;
          (rp, q2) = drain_queue (dr_nrep d) c1 (ln_replies l);
          c2 = c1 + length rp;
          (nt, q3) = drain_queue (dr_nnot d) c2 (ln_notifications l);
          c3 = c2 + length nt;
          d' = d\<lparr>dr_nreq := dr_nreq d + length rq, dr_nrep := dr_nrep d + length rp,
                 dr_nnot := dr_nnot d + length nt, dr_consumed := c3,
                 dr_lanes := (dr_lanes d)[sender := l\<lparr>ln_requests := q1, ln_replies := q2,
                                                      ln_notifications := q3\<rparr>],
                 dr_req := dr_req d @ map (Pair sender) rq,
                 dr_rep := dr_rep d @ map (Pair sender) rp,
                 dr_not := dr_not d @ map (Pair sender) nt\<rparr>;
          full = full_batch d'
      in if c3 = kSenderQuota \<or> \<not> full
         then d'\<lparr>dr_batch_full := full,
                 dr_cursor := (if sender + 1 = sender_count then 0 else sender + 1),
                 dr_consumed := 0\<rparr>
         else d'\<lparr>dr_batch_full := full\<rparr>)"

text \<open>The handshake every taken bit finishes with.\<close>

definition close_lane :: "nat \<Rightarrow> ('w, 'n) drain \<Rightarrow> ('w, 'n) drain" where
  "close_lane sender d =
     (let l = (dr_lanes d ! sender)\<lparr>ln_active := False\<rparr> in
      if \<not> lane_empty l \<and> \<not> ln_active l
      then d\<lparr>dr_lanes := (dr_lanes d)[sender := l\<lparr>ln_active := True\<rparr>],
             dr_words := ActivateSender sender (dr_words d)\<rparr>
      else d\<lparr>dr_lanes := (dr_lanes d)[sender := l]\<rparr>)"

definition visit_lane :: "nat \<Rightarrow> nat \<Rightarrow> ('w, 'n) drain \<Rightarrow> ('w, 'n) drain" where
  "visit_lane sender_count sender d =
     close_lane sender (if dr_batch_full d then d else drain_lane sender_count sender d)"

lemma and_pred_less: "x \<noteq> 0 \<Longrightarrow> unat (x AND (x - 1)) < unat x" for x :: u64
proof -
  assume "x \<noteq> 0"
  then have "x - 1 < x" by (simp add: word_less_nat_alt unat_minus_one unat_gt_0)
  moreover have "x AND (x - 1) \<le> x - 1" by (simp add: word_and_le1)
  ultimately show ?thesis by (simp add: word_less_nat_alt [symmetric])
qed

function drain_word :: "nat \<Rightarrow> nat \<Rightarrow> u64 \<Rightarrow> ('w, 'n) drain \<Rightarrow> ('w, 'n) drain" where
  "drain_word sender_count word active d =
     (if active = 0 then d
      else let sender = word * 64 + countr_zero active in
        drain_word sender_count word (active AND (active - 1))
          (if sender_count \<le> sender then d else visit_lane sender_count sender d))"
  by pat_completeness auto
termination
  by (relation "measure (\<lambda>(n, word, active, d). unat active)") (simp_all add: and_pred_less)

declare drain_word.simps [simp del]

text \<open>The \<open>for\<close> loop over steps; \<open>left\<close> is the number of rounds that remain.\<close>

fun drain_steps ::
  "nat \<Rightarrow> nat \<Rightarrow> u64 \<Rightarrow> nat \<Rightarrow> nat \<Rightarrow> nat \<Rightarrow> u64 \<Rightarrow> ('w, 'n) drain \<Rightarrow> ('w, 'n) drain" where
  "drain_steps sender_count word_count first_mask 0 step word wrapped d = d"
| "drain_steps sender_count word_count first_mask (Suc left) step word wrapped d =
     (let (taken, ws) = (if step = word_count then (wrapped, dr_words d)
                         else TakeActiveSenders word (dr_words d));
          d1 = d\<lparr>dr_words := ws\<rparr>;
          wrapped' = (if step = 0 then taken AND NOT first_mask else wrapped);
          active = (if step = 0 then taken AND first_mask else taken);
          d2 = drain_word sender_count word active d1
      in drain_steps sender_count word_count first_mask left (step + 1)
           (if word + 1 = word_count then 0 else word + 1) wrapped' d2)"

definition drain_spsc :: "nat \<Rightarrow> ('w, 'n) drain \<Rightarrow> ('w, 'n) drain" where
  "drain_spsc sender_count d0 =
     (let d = d0\<lparr>dr_batch_full := full_batch d0\<rparr>;
          word_count = length (dr_words d) in
      if dr_batch_full d \<or> word_count = 0 then d
      else drain_steps sender_count word_count (push_bit (dr_cursor d mod 64) (NOT 0))
             (word_count + 1) 0 (dr_cursor d div 64) 0 d)"

definition drain_start :: "nat \<Rightarrow> nat \<Rightarrow> ('w, 'n) lane list \<Rightarrow> u64 list \<Rightarrow> ('w, 'n) drain" where
  "drain_start cursor consumed lanes ws =
     \<lparr>dr_nreq = 0, dr_nrep = 0, dr_nnot = 0, dr_batch_full = False, dr_cursor = cursor,
      dr_consumed = consumed, dr_lanes = lanes, dr_words = ws, dr_req = [], dr_rep = [], dr_not = [],
      dr_oreq = [], dr_orep = [], dr_onot = []\<rparr>"

definition did_drain :: "('w, 'n) drain \<Rightarrow> bool" where
  "did_drain d \<longleftrightarrow> 0 < dr_nreq d \<or> 0 < dr_nrep d \<or> 0 < dr_nnot d"

section \<open>The overflow transport\<close>

text \<open>
  The mailbox: three queues of the library type \<open>ConcurrentQueue\<close> and the pending flag. The library's
  \<open>try_dequeue_bulk\<close> is a parameter, one instance for work items and one for notifications.
\<close>

record ('q, 'p) mailbox =
  mb_requests :: 'q
  mb_replies :: 'q
  mb_notifications :: 'p
  mb_overflow_pending :: bool

type_synonym ('q, 'a) bulk = "nat \<Rightarrow> 'q \<Rightarrow> 'a list \<times> 'q"

text \<open>The messages taken, whether the pending flag is set again, and the queue left.\<close>

definition drain_overflow_queue :: "('q, 'a) bulk \<Rightarrow> nat \<Rightarrow> 'q \<Rightarrow> 'a list \<times> bool \<times> 'q" where
  "drain_overflow_queue deq n q =
     (let maximum = kBatchSize - n in
      if maximum = 0 then ([], True, q)
      else let (vs, q') = deq maximum q in (vs, length vs = maximum, q'))"

definition drain_overflow ::
  "('q, 'w) bulk \<Rightarrow> ('p, 'n) bulk \<Rightarrow> ('q, 'p) mailbox \<times> ('w, 'n) drain \<Rightarrow> ('q, 'p) mailbox \<times> ('w, 'n) drain" where
  "drain_overflow deq_w deq_n s =
     (let (mb, d) = s;
          (rq, p1, q1) = drain_overflow_queue deq_w (dr_nreq d) (mb_requests mb);
          (rp, p2, q2) = drain_overflow_queue deq_w (dr_nrep d) (mb_replies mb);
          (nt, p3, q3) = drain_overflow_queue deq_n (dr_nnot d) (mb_notifications mb)
      in (\<lparr>mb_requests = q1, mb_replies = q2, mb_notifications = q3,
           mb_overflow_pending = (mb_overflow_pending mb \<or> p1 \<or> p2 \<or> p3)\<rparr>,
          d\<lparr>dr_nreq := dr_nreq d + length rq, dr_nrep := dr_nrep d + length rp, dr_nnot := dr_nnot d + length nt,
            dr_oreq := dr_oreq d @ rq, dr_orep := dr_orep d @ rp, dr_onot := dr_onot d @ nt\<rparr>))"

text \<open>
  \<open>DrainCrossCoreImpl<true>\<close>: the result, the new \<open>overflow_first_\<close>, the mailbox and the drain.
\<close>

definition DrainCrossCoreOverflow ::
  "('q, 'w) bulk \<Rightarrow> ('p, 'n) bulk \<Rightarrow> nat \<Rightarrow> bool \<Rightarrow> ('q, 'p) mailbox \<Rightarrow> ('w, 'n) drain \<Rightarrow>
   bool \<times> bool \<times> ('q, 'p) mailbox \<times> ('w, 'n) drain" where
  "DrainCrossCoreOverflow deq_w deq_n sender_count overflow_first mb d =
     (let overflow_pending = mb_overflow_pending mb;
          mb1 = mb\<lparr>mb_overflow_pending := False\<rparr>;
          first' = (if overflow_pending then \<not> overflow_first else overflow_first);
          (mb2, d1) = (if overflow_pending \<and> overflow_first then drain_overflow deq_w deq_n (mb1, d) else (mb1, d));
          d2 = drain_spsc sender_count d1;
          (mb3, d3) = (if overflow_pending \<and> \<not> overflow_first then drain_overflow deq_w deq_n (mb2, d2) else (mb2, d2))
      in (did_drain d3, first', mb3, d3))"

definition DrainCrossCore ::
  "('q, 'w) bulk \<Rightarrow> ('p, 'n) bulk \<Rightarrow> nat \<Rightarrow> nat \<Rightarrow> nat \<Rightarrow> ('w, 'n) lane list \<Rightarrow> u64 list \<Rightarrow> bool \<Rightarrow> ('q, 'p) mailbox \<Rightarrow>
   bool \<times> bool \<times> ('q, 'p) mailbox \<times> ('w, 'n) drain" where
  "DrainCrossCore deq_w deq_n sender_count cursor consumed lanes ws overflow_first mb =
     (let d = drain_start cursor consumed lanes ws in
      if mb_overflow_pending mb then DrainCrossCoreOverflow deq_w deq_n sender_count overflow_first mb d
      else let d1 = drain_spsc sender_count d in (did_drain d1, overflow_first, mb, d1))"

section \<open>Bit scanning\<close>

lemma takeWhile_upt:
  assumes "\<not> P j" "j < n"
  defines "l \<equiv> length (takeWhile P [0..<n])"
  shows "l < n" "\<not> P l" "i < l \<Longrightarrow> P i"
proof -
  have "\<not> (\<forall>i \<in> set [0..<n]. P i)" using assms by auto
  then have ne: "takeWhile P [0..<n] \<noteq> [0..<n]" by (simp only: takeWhile_eq_all_conv) simp
  have "length (takeWhile P [0..<n]) \<noteq> length [0..<n]"
  proof
    assume e: "length (takeWhile P [0..<n]) = length [0..<n]"
    have "takeWhile P [0..<n] = take (length (takeWhile P [0..<n])) [0..<n]" by (rule takeWhile_eq_take)
    also have "\<dots> = [0..<n]" unfolding e by (rule take_all) simp
    finally show False using ne by contradiction
  qed
  moreover have "length (takeWhile P [0..<n]) \<le> length [0..<n]" by (rule length_takeWhile_le)
  ultimately have lt: "length (takeWhile P [0..<n]) < length [0..<n]" by linarith
  then show l: "l < n" by (simp add: l_def)
  show "\<not> P l" using nth_length_takeWhile [OF lt] l by (simp add: l_def)
  show "P i" if "i < l"
  proof -
    have "takeWhile P [0..<n] ! i = [0..<n] ! i" using that by (intro takeWhile_nth) (simp add: l_def)
    moreover have "takeWhile P [0..<n] ! i \<in> set (takeWhile P [0..<n])"
      using that by (intro nth_mem) (simp add: l_def)
    ultimately show ?thesis using that l by (auto dest: set_takeWhileD)
  qed
qed

lemma countr_zero_props:
  fixes x :: u64
  assumes "x \<noteq> 0"
  shows "countr_zero x < 64" "bit x (countr_zero x)" "i < countr_zero x \<Longrightarrow> \<not> bit x i"
proof -
  obtain j where j: "bit x j" using assms by (auto simp: bit_eq_iff)
  then have "j < 64" using bit_imp_le_length [OF j] by simp
  with j takeWhile_upt [of "\<lambda>i. \<not> bit x i" j 64]
  show "countr_zero x < 64" "bit x (countr_zero x)" "i < countr_zero x \<Longrightarrow> \<not> bit x i"
    unfolding countr_zero_def by blast+
qed

text \<open>\<open>active & (active - 1)\<close> clears exactly the lowest set bit.\<close>

lemma bit_clear_lowest:
  fixes x :: u64
  assumes "x \<noteq> 0"
  shows "bit (x AND (x - 1)) i \<longleftrightarrow> bit x i \<and> i \<noteq> countr_zero x"
proof -
  define c where "c = countr_zero x"
  note cz = countr_zero_props [OF assms, folded c_def]
  define y where "y = x AND NOT (2 ^ c)"
  have yb: "bit y i \<longleftrightarrow> bit x i \<and> i \<noteq> c" for i
    using cz(1) bit_imp_le_length [of x i] by (auto simp: y_def bit_simps)
  have "y AND 2 ^ c = 0" by (rule bit_eqI) (simp add: y_def bit_simps)
  then have "y + 2 ^ c = y OR 2 ^ c" by (rule disjunctive_add_eq_or)
  also have "\<dots> = x"
    by (rule bit_eqI) (use cz yb in \<open>auto simp: bit_simps\<close>)
  finally have x: "x = y + 2 ^ c" by simp
  have low: "y AND mask c = 0"
    by (rule bit_eqI) (use yb cz(3) in \<open>auto simp: bit_simps\<close>)
  have "x - 1 = y + mask c" by (simp add: mask_eq_exp_minus_1 x)
  also have "\<dots> = y OR mask c" using low by (rule disjunctive_add_eq_or)
  finally have "bit (x AND (x - 1)) i \<longleftrightarrow> bit x i \<and> (bit y i \<or> i < c)"
    using cz(1) bit_imp_le_length [of x i] by (auto simp: bit_simps)
  also have "\<dots> \<longleftrightarrow> bit x i \<and> i \<noteq> c" using yb cz(3) by auto
  finally show ?thesis by (simp add: c_def)
qed

section \<open>One lane\<close>

definition lane_ok :: "('w, 'n) lane \<Rightarrow> bool" where
  "lane_ok l \<longleftrightarrow> spsc_inv kLaneCapacity (ln_requests l) \<and> spsc_inv kLaneCapacity (ln_replies l) \<and>
     spsc_inv kLaneCapacity (ln_notifications l)"

abbreviation "lane_req l \<equiv> spsc_list kLaneCapacity (ln_requests l)"
abbreviation "lane_rep l \<equiv> spsc_list kLaneCapacity (ln_replies l)"
abbreviation "lane_not l \<equiv> spsc_list kLaneCapacity (ln_notifications l)"

lemma lane_empty_iff:
  "lane_ok l \<Longrightarrow> lane_empty l \<longleftrightarrow> lane_req l = [] \<and> lane_rep l = [] \<and> lane_not l = []"
  by (simp add: lane_ok_def lane_empty_def spsc_empty_iff [of kLaneCapacity])

lemma drain_queue_ok:
  assumes inv: "spsc_inv kLaneCapacity q" and run: "drain_queue t c q = (vs, q')"
    and tc: "t \<le> kBatchSize" "c \<le> kSenderQuota"
  shows "spsc_inv kLaneCapacity q'" "spsc_list kLaneCapacity q = vs @ spsc_list kLaneCapacity q'"
    "t + length vs \<le> kBatchSize" "c + length vs \<le> kSenderQuota"
    "vs = [] \<Longrightarrow> t < kBatchSize \<Longrightarrow> c < kSenderQuota \<Longrightarrow> spsc_list kLaneCapacity q = []"
proof -
  define m where "m = min (kBatchSize - t) (kSenderQuota - c)"
  have m: "t + m \<le> kBatchSize" "c + m \<le> kSenderQuota" using tc by (auto simp: m_def)
  have "spsc_inv kLaneCapacity q' \<and> vs = take m (spsc_list kLaneCapacity q) \<and>
      spsc_list kLaneCapacity q' = drop m (spsc_list kLaneCapacity q)"
    using run try_dequeue_bulk_ok [OF inv, of m vs q'] inv
    by (auto simp: drain_queue_def m_def [symmetric] Let_def split: if_splits)
  then show "spsc_inv kLaneCapacity q'" "spsc_list kLaneCapacity q = vs @ spsc_list kLaneCapacity q'"
    and l: "t + length vs \<le> kBatchSize" "c + length vs \<le> kSenderQuota"
    using m by auto
  show "spsc_list kLaneCapacity q = []" if "vs = []" "t < kBatchSize" "c < kSenderQuota"
    using \<open>_ \<and> vs = take m _ \<and> _\<close> that by (auto simp: m_def)
qed

definition dr_counts :: "('w, 'n) drain \<Rightarrow> bool" where
  "dr_counts d \<longleftrightarrow>
     dr_nreq d = length (dr_req d) + length (dr_oreq d) \<and> dr_nrep d = length (dr_rep d) + length (dr_orep d) \<and>
     dr_nnot d = length (dr_not d) + length (dr_onot d) \<and>
     dr_nreq d \<le> kBatchSize \<and> dr_nrep d \<le> kBatchSize \<and> dr_nnot d \<le> kBatchSize \<and>
     dr_consumed d < kSenderQuota \<and> dr_batch_full d = full_batch d"

text \<open>What one visit to a lane with room in the batch takes from it.\<close>

lemma drain_lane_ok:
  fixes d :: "('w, 'n) drain"
  assumes cnt: "dr_counts d" and room: "\<not> dr_batch_full d" and ok: "lane_ok (dr_lanes d ! i)"
  obtains rq rp nt l' where
    "lane_ok l'" "ln_active l' = ln_active (dr_lanes d ! i)"
    "lane_req (dr_lanes d ! i) = rq @ lane_req l'" "lane_rep (dr_lanes d ! i) = rp @ lane_rep l'"
    "lane_not (dr_lanes d ! i) = nt @ lane_not l'"
    "dr_lanes (drain_lane n i d) = (dr_lanes d)[i := l']" "dr_words (drain_lane n i d) = dr_words d"
    "dr_req (drain_lane n i d) = dr_req d @ map (Pair i) rq"
    "dr_rep (drain_lane n i d) = dr_rep d @ map (Pair i) rp"
    "dr_not (drain_lane n i d) = dr_not d @ map (Pair i) nt"
    "dr_counts (drain_lane n i d)"
    "dr_oreq (drain_lane n i d) = dr_oreq d" "dr_orep (drain_lane n i d) = dr_orep d" "dr_onot (drain_lane n i d) = dr_onot d"
    "dr_cursor (drain_lane n i d) = i \<or> dr_cursor (drain_lane n i d) = (if i + 1 = n then 0 else i + 1)"
    "rq = [] \<Longrightarrow> rp = [] \<Longrightarrow> nt = [] \<Longrightarrow> lane_empty (dr_lanes d ! i)"
proof -
  let ?l = "dr_lanes d ! i"
  define c where "c = (if dr_cursor d \<noteq> i then 0 else dr_consumed d)"
  obtain rq q1 where d1: "drain_queue (dr_nreq d) c (ln_requests ?l) = (rq, q1)" by force
  obtain rp q2 where d2: "drain_queue (dr_nrep d) (c + length rq) (ln_replies ?l) = (rp, q2)" by force
  obtain nt q3 where d3: "drain_queue (dr_nnot d) (c + length rq + length rp) (ln_notifications ?l) = (nt, q3)"
    by force
  have c: "c < kSenderQuota" using cnt by (auto simp: c_def dr_counts_def kSenderQuota_def)
  have lt: "dr_nreq d < kBatchSize" "dr_nrep d < kBatchSize" "dr_nnot d < kBatchSize"
    using cnt room by (auto simp: dr_counts_def full_batch_def)
  have o: "spsc_inv kLaneCapacity (ln_requests ?l)" "spsc_inv kLaneCapacity (ln_replies ?l)"
    "spsc_inv kLaneCapacity (ln_notifications ?l)" using ok by (auto simp: lane_ok_def)
  note r1 = drain_queue_ok [OF o(1) d1 less_imp_le [OF lt(1)] less_imp_le [OF c]]
  note r2 = drain_queue_ok [OF o(2) d2 less_imp_le [OF lt(2)] r1(4)]
  note r3 = drain_queue_ok [OF o(3) d3 less_imp_le [OF lt(3)] r2(4)]
  let ?l' = "?l\<lparr>ln_requests := q1, ln_replies := q2, ln_notifications := q3\<rparr>"
  let ?d = "if dr_cursor d \<noteq> i then d\<lparr>dr_cursor := i, dr_consumed := 0\<rparr> else d"
  have same: "dr_lanes ?d = dr_lanes d" "dr_nreq ?d = dr_nreq d" "dr_nrep ?d = dr_nrep d"
    "dr_nnot ?d = dr_nnot d" "dr_consumed ?d = c" "dr_words ?d = dr_words d" "dr_req ?d = dr_req d"
    "dr_rep ?d = dr_rep d" "dr_not ?d = dr_not d" "dr_oreq ?d = dr_oreq d" "dr_orep ?d = dr_orep d" "dr_onot ?d = dr_onot d"
    "dr_cursor ?d = i" by (simp_all add: c_def)
  note run = drain_lane_def [of n i d, unfolded Let_def same d1 d2 d3 prod.case]
  have e: "lane_empty ?l" if "rq = []" "rp = []" "nt = []"
    using r1(5) r2(5) r3(5) lt c that lane_empty_iff [OF ok] by simp
  show thesis
    by (rule that [of ?l' rq rp nt])
      (use r1 r2 r3 e cnt c in \<open>auto simp: run same lane_ok_def dr_counts_def full_batch_def kSenderQuota_def
         split: if_splits\<close>)
qed

section \<open>Invariant of the drain\<close>

definition sender_bit :: "u64 list \<Rightarrow> nat \<Rightarrow> bool" where
  "sender_bit ws i \<longleftrightarrow> bit (ws ! (i div 64)) (i mod 64)"

text \<open>
  The drain starts from the lanes \<open>L\<close> with the bits \<open>B\<close> set. \<open>U\<close> are the words it has not taken, \<open>P\<close>
  the senders whose bit is taken and whose lane is still to be visited. A lane whose bit was not
  set, or is not taken yet, is as it was; a visited lane is active, with its bit set, exactly when
  it still holds messages.
\<close>

definition lane_closed :: "('w, 'n) lane list \<Rightarrow> u64 list \<Rightarrow> nat \<Rightarrow> bool" where
  "lane_closed lanes ws i \<longleftrightarrow> ln_active (lanes ! i) = (\<not> lane_empty (lanes ! i)) \<and> sender_bit ws i = (\<not> lane_empty (lanes ! i))"

definition lanes_inv ::
  "nat \<Rightarrow> ('w, 'n) lane list \<Rightarrow> (nat \<Rightarrow> bool) \<Rightarrow> nat set \<Rightarrow> nat set \<Rightarrow> ('w, 'n) lane list \<Rightarrow> u64 list \<Rightarrow> bool" where
  "lanes_inv n L B U P lanes ws \<longleftrightarrow>
     length lanes = n \<and> n \<le> 64 * length ws \<and>
     (\<forall>i < n. lane_ok (lanes ! i) \<and>
        (if i \<in> P then B i \<and> i div 64 \<notin> U \<and> \<not> sender_bit ws i
         else if B i \<and> i div 64 \<notin> U then lane_closed lanes ws i
         else lanes ! i = L ! i \<and> sender_bit ws i = B i))"

lemma lanes_invD:
  assumes "lanes_inv n L B U P lanes ws" "i < n"
  shows "lane_ok (lanes ! i)" "i \<in> P \<Longrightarrow> B i \<and> i div 64 \<notin> U \<and> \<not> sender_bit ws i"
    "i \<notin> P \<Longrightarrow> B i \<Longrightarrow> i div 64 \<notin> U \<Longrightarrow> lane_closed lanes ws i"
    "i \<notin> P \<Longrightarrow> \<not> B i \<or> i div 64 \<in> U \<Longrightarrow> lanes ! i = L ! i \<and> sender_bit ws i = B i"
  using assms unfolding lanes_inv_def by auto

text \<open>The messages of the original lanes \<open>L\<close> are those drained followed by those left.\<close>

definition from_sender :: "nat \<Rightarrow> (nat \<times> 'a) list \<Rightarrow> 'a list" where
  "from_sender i xs = map snd (filter (\<lambda>x. fst x = i) xs)"

definition conserved :: "nat \<Rightarrow> ('w, 'n) lane list \<Rightarrow> ('w, 'n) drain \<Rightarrow> bool" where
  "conserved n L d \<longleftrightarrow>
     (\<forall>i < n. lane_req (L ! i) = from_sender i (dr_req d) @ lane_req (dr_lanes d ! i) \<and>
              lane_rep (L ! i) = from_sender i (dr_rep d) @ lane_rep (dr_lanes d ! i) \<and>
              lane_not (L ! i) = from_sender i (dr_not d) @ lane_not (dr_lanes d ! i))"

text \<open>As long as nothing was drained, the lanes visited were empty.\<close>

definition quiet :: "nat \<Rightarrow> (nat \<Rightarrow> bool) \<Rightarrow> nat set \<Rightarrow> nat set \<Rightarrow> ('w, 'n) drain \<Rightarrow> bool" where
  "quiet n B U P d \<longleftrightarrow>
     (\<not> did_drain d \<longrightarrow> (\<forall>i < n. B i \<and> i div 64 \<notin> U \<and> i \<notin> P \<longrightarrow> lane_empty (dr_lanes d ! i)))"

definition drain_inv ::
  "nat \<Rightarrow> ('w, 'n) lane list \<Rightarrow> (nat \<Rightarrow> bool) \<Rightarrow> nat set \<Rightarrow> nat set \<Rightarrow> ('w, 'n) drain \<Rightarrow> bool" where
  "drain_inv n L B U P d \<longleftrightarrow>
     lanes_inv n L B U P (dr_lanes d) (dr_words d) \<and> dr_counts d \<and> conserved n L d \<and> quiet n B U P d \<and> dr_cursor d < n"

lemma from_sender_append [simp]: "from_sender i (xs @ ys) = from_sender i xs @ from_sender i ys"
  by (simp add: from_sender_def)

lemma from_sender_Pair [simp]: "from_sender i (map (Pair j) vs) = (if i = j then vs else [])"
  by (induction vs) (auto simp: from_sender_def)

lemma from_sender_Nil [simp]: "from_sender i [] = []"
  by (simp add: from_sender_def)

lemma sender_bit_Activate:
  assumes "i < n" "n \<le> 64 * length ws"
  shows "sender_bit (ActivateSender i ws) j \<longleftrightarrow> sender_bit ws j \<or> j = i"
proof -
  have w: "i div 64 < length ws" using assms by (simp add: div_less_iff_less_mult mult.commute)
  have "j = i" if "i div 64 = j div 64" "i mod 64 = j mod 64" using that by (metis div_mult_mod_eq)
  then show ?thesis
    using w by (auto simp: sender_bit_def ActivateSender_def nth_list_update bit_simps)
qed

lemma length_ActivateSender [simp]: "length (ActivateSender i ws) = length ws"
  by (simp add: ActivateSender_def)

text \<open>The handshake discharges the taken bit of the lane it closes.\<close>

lemma close_lane_fields:
  assumes i: "i < length (dr_lanes d)" "length (dr_lanes d) \<le> 64 * length (dr_words d)" and b: "\<not> sender_bit (dr_words d) i"
  shows "lane_closed (dr_lanes (close_lane i d)) (dr_words (close_lane i d)) i"
    "j \<noteq> i \<Longrightarrow> dr_lanes (close_lane i d) ! j = dr_lanes d ! j"
    "j \<noteq> i \<Longrightarrow> sender_bit (dr_words (close_lane i d)) j = sender_bit (dr_words d) j"
    "length (dr_lanes (close_lane i d)) = length (dr_lanes d)" "length (dr_words (close_lane i d)) = length (dr_words d)"
    "lane_ok (dr_lanes (close_lane i d) ! i) = lane_ok (dr_lanes d ! i)"
    "lane_empty (dr_lanes (close_lane i d) ! i) = lane_empty (dr_lanes d ! i)"
proof -
  let ?l = "dr_lanes d ! i"
  have le: "lane_empty (?l\<lparr>ln_active := b\<rparr>) \<longleftrightarrow> lane_empty ?l" "lane_ok (?l\<lparr>ln_active := b\<rparr>) \<longleftrightarrow> lane_ok ?l" for b
    by (simp_all add: lane_empty_def lane_ok_def)
  note ab = sender_bit_Activate [OF i]
  show "lane_closed (dr_lanes (close_lane i d)) (dr_words (close_lane i d)) i"
    "j \<noteq> i \<Longrightarrow> dr_lanes (close_lane i d) ! j = dr_lanes d ! j"
    "j \<noteq> i \<Longrightarrow> sender_bit (dr_words (close_lane i d)) j = sender_bit (dr_words d) j"
    "length (dr_lanes (close_lane i d)) = length (dr_lanes d)" "length (dr_words (close_lane i d)) = length (dr_words d)"
    "lane_ok (dr_lanes (close_lane i d) ! i) = lane_ok (dr_lanes d ! i)"
    "lane_empty (dr_lanes (close_lane i d) ! i) = lane_empty (dr_lanes d ! i)"
    using i b by (simp_all add: close_lane_def Let_def lane_closed_def le ab)
qed

lemma close_lane_ok:
  assumes inv: "lanes_inv n L B U P (dr_lanes d) (dr_words d)" and i: "i < n" "i \<in> P"
  shows "lanes_inv n L B U (P - {i}) (dr_lanes (close_lane i d)) (dr_words (close_lane i d))"
    "lane_empty (dr_lanes (close_lane i d) ! j) = lane_empty (dr_lanes d ! j)"
proof -
  have n: "length (dr_lanes d) = n" "n \<le> 64 * length (dr_words d)" using inv by (auto simp: lanes_inv_def)
  have "\<not> sender_bit (dr_words d) i" using lanes_invD(2) [OF inv i] by simp
  note f = close_lane_fields [of i d, unfolded n(1), OF i(1) n(2) this]
  show "lane_empty (dr_lanes (close_lane i d) ! j) = lane_empty (dr_lanes d ! j)" using f(2,7) by (cases "j = i") simp_all
  have other: "lane_closed (dr_lanes (close_lane i d)) (dr_words (close_lane i d)) j = lane_closed (dr_lanes d) (dr_words d) j" if "j \<noteq> i" for j
    using that f(2,3) by (simp add: lane_closed_def)
  show "lanes_inv n L B U (P - {i}) (dr_lanes (close_lane i d)) (dr_words (close_lane i d))"
    unfolding lanes_inv_def
  proof (intro conjI allI impI)
    fix j assume j: "j < n"
    show "lane_ok (dr_lanes (close_lane i d) ! j)" using lanes_invD(1) [OF inv j] f(2,6) by (cases "j = i") simp_all
    show "if j \<in> P - {i} then B j \<and> j div 64 \<notin> U \<and> \<not> sender_bit (dr_words (close_lane i d)) j
        else if B j \<and> j div 64 \<notin> U then lane_closed (dr_lanes (close_lane i d)) (dr_words (close_lane i d)) j
        else dr_lanes (close_lane i d) ! j = L ! j \<and> sender_bit (dr_words (close_lane i d)) j = B j"
    proof (cases "j = i")
      case True
      then show ?thesis using f(1) lanes_invD(2) [OF inv i] by simp
    next
      case False
      then show ?thesis using lanes_invD(2-) [OF inv j] f(2,3) [OF False] other [OF False] by simp
    qed
  qed (use n f(4,5) in simp_all)
qed

lemma close_lane_frame [simp]:
  "dr_req (close_lane i d) = dr_req d" "dr_rep (close_lane i d) = dr_rep d"
  "dr_not (close_lane i d) = dr_not d" "dr_counts (close_lane i d) = dr_counts d" "did_drain (close_lane i d) = did_drain d"
  "dr_cursor (close_lane i d) = dr_cursor d" "dr_oreq (close_lane i d) = dr_oreq d" "dr_orep (close_lane i d) = dr_orep d"
  "dr_onot (close_lane i d) = dr_onot d"
  "i < length (dr_lanes d) \<Longrightarrow> ln_requests (dr_lanes (close_lane i d) ! j) = ln_requests (dr_lanes d ! j)"
  "i < length (dr_lanes d) \<Longrightarrow> ln_replies (dr_lanes (close_lane i d) ! j) = ln_replies (dr_lanes d ! j)"
  "i < length (dr_lanes d) \<Longrightarrow> ln_notifications (dr_lanes (close_lane i d) ! j) = ln_notifications (dr_lanes d ! j)"
  by (auto simp: close_lane_def Let_def dr_counts_def full_batch_def did_drain_def nth_list_update)

lemma drain_lane_inv:
  assumes inv: "drain_inv n L B U P d" and i: "i < n" "i \<in> P" and room: "\<not> dr_batch_full d"
  shows "drain_inv n L B U P (drain_lane n i d)"
    "\<not> did_drain (drain_lane n i d) \<Longrightarrow> lane_empty (dr_lanes (drain_lane n i d) ! i)"
    "dr_oreq (drain_lane n i d) = dr_oreq d" "dr_orep (drain_lane n i d) = dr_orep d" "dr_onot (drain_lane n i d) = dr_onot d"
proof -
  have cnt: "dr_counts d" and li: "lanes_inv n L B U P (dr_lanes d) (dr_words d)" and cons: "conserved n L d"
    and q: "quiet n B U P d" and cur: "dr_cursor d < n" using inv by (auto simp: drain_inv_def)
  have len: "length (dr_lanes d) = n" using li by (simp add: lanes_inv_def)
  have ok: "lane_ok (dr_lanes d ! i)" by (rule lanes_invD(1) [OF li i(1)])
  obtain rq rp nt l' where f:
    "lane_ok l'" "ln_active l' = ln_active (dr_lanes d ! i)"
    "lane_req (dr_lanes d ! i) = rq @ lane_req l'" "lane_rep (dr_lanes d ! i) = rp @ lane_rep l'"
    "lane_not (dr_lanes d ! i) = nt @ lane_not l'"
    "dr_lanes (drain_lane n i d) = (dr_lanes d)[i := l']" "dr_words (drain_lane n i d) = dr_words d"
    "dr_req (drain_lane n i d) = dr_req d @ map (Pair i) rq"
    "dr_rep (drain_lane n i d) = dr_rep d @ map (Pair i) rp"
    "dr_not (drain_lane n i d) = dr_not d @ map (Pair i) nt"
    "dr_counts (drain_lane n i d)"
    "dr_oreq (drain_lane n i d) = dr_oreq d" "dr_orep (drain_lane n i d) = dr_orep d" "dr_onot (drain_lane n i d) = dr_onot d"
    "dr_cursor (drain_lane n i d) = i \<or> dr_cursor (drain_lane n i d) = (if i + 1 = n then 0 else i + 1)"
    "rq = [] \<Longrightarrow> rp = [] \<Longrightarrow> nt = [] \<Longrightarrow> lane_empty (dr_lanes d ! i)"
    by (rule drain_lane_ok [OF cnt room ok, where n = n]) (rule that)
  have "lanes_inv n L B U P (dr_lanes (drain_lane n i d)) (dr_words (drain_lane n i d))"
    using li i f(1) len unfolding f(6,7) lanes_inv_def lane_closed_def by (auto simp: nth_list_update)
  moreover have "conserved n L (drain_lane n i d)"
    using cons i len f by (auto simp: conserved_def nth_list_update)
  moreover have quiet0: "\<not> did_drain (drain_lane n i d) \<Longrightarrow> rq = [] \<and> rp = [] \<and> nt = [] \<and> \<not> did_drain d"
    using f(11) cnt f(8-10,12-14) by (auto simp: did_drain_def dr_counts_def)
  then have "quiet n B U P (drain_lane n i d)"
    using q f(6) i len by (auto simp: quiet_def nth_list_update)
  moreover have "dr_cursor (drain_lane n i d) < n" using f(15) i(1) by auto
  ultimately show "drain_inv n L B U P (drain_lane n i d)" using f(11) by (simp add: drain_inv_def)
  show "lane_empty (dr_lanes (drain_lane n i d) ! i)" if "\<not> did_drain (drain_lane n i d)"
    using f quiet0 [OF that] i len lane_empty_iff [OF ok] lane_empty_iff [OF f(1)] by simp
  show "dr_oreq (drain_lane n i d) = dr_oreq d" "dr_orep (drain_lane n i d) = dr_orep d" "dr_onot (drain_lane n i d) = dr_onot d"
    by (rule f(12-14))+
qed

definition same_overflow :: "('w, 'n) drain \<Rightarrow> ('w, 'n) drain \<Rightarrow> bool" where
  "same_overflow d d' \<longleftrightarrow> dr_oreq d' = dr_oreq d \<and> dr_orep d' = dr_orep d \<and> dr_onot d' = dr_onot d"

lemma visit_lane_inv:
  assumes inv: "drain_inv n L B U P d" and i: "i < n" "i \<in> P"
  shows "drain_inv n L B U (P - {i}) (visit_lane n i d) \<and> same_overflow d (visit_lane n i d)"
proof -
  let ?d = "if dr_batch_full d then d else drain_lane n i d"
  have inv1: "drain_inv n L B U P ?d" using drain_lane_inv(1) [OF inv i] inv by simp
  have em: "\<not> did_drain ?d \<Longrightarrow> lane_empty (dr_lanes ?d ! i)"
  proof (cases "dr_batch_full d")
    case True
    assume "\<not> did_drain ?d"
    with True inv show ?thesis
      by (auto simp: drain_inv_def dr_counts_def full_batch_def did_drain_def kBatchSize_def)
  qed (use drain_lane_inv(2) [OF inv i] in simp)
  have li: "lanes_inv n L B U P (dr_lanes ?d) (dr_words ?d)" and q: "quiet n B U P ?d"
    and cons: "conserved n L ?d" and cnt: "dr_counts ?d" and cur: "dr_cursor ?d < n" using inv1 by (auto simp: drain_inv_def)
  have len: "length (dr_lanes ?d) = n" using li by (simp add: lanes_inv_def)
  note cl = close_lane_ok [OF li i]
  have "quiet n B U (P - {i}) (close_lane i ?d)" using q em by (auto simp: quiet_def cl(2))
  moreover have "conserved n L (close_lane i ?d)" using cons i(1) len by (simp add: conserved_def)
  ultimately have "drain_inv n L B U (P - {i}) (visit_lane n i d)" using cl(1) cnt cur by (simp add: drain_inv_def visit_lane_def)
  moreover have "same_overflow d (visit_lane n i d)" using drain_lane_inv(3-5) [OF inv i] by (simp add: same_overflow_def visit_lane_def)
  ultimately show ?thesis by blast
qed

definition word_senders :: "nat \<Rightarrow> nat \<Rightarrow> u64 \<Rightarrow> nat set" where
  "word_senders n word a = {i. i < n \<and> i div 64 = word \<and> bit a (i mod 64)}"

lemma word_senders_clear:
  assumes "a \<noteq> 0"
  shows "word_senders n w (a AND (a - 1)) = word_senders n w a - {w * 64 + countr_zero a}"
proof -
  have "i mod 64 = countr_zero a \<longleftrightarrow> i = w * 64 + countr_zero a" if "i div 64 = w" for i
  proof
    show "i mod 64 = countr_zero a" if e: "i = w * 64 + countr_zero a"
      unfolding e using countr_zero_props(1) [OF assms] by simp
  qed (use that div_mult_mod_eq [of i 64] in simp)
  then show ?thesis using bit_clear_lowest [OF assms] by (auto simp: word_senders_def)
qed

lemma same_overflow_trans: "same_overflow a b \<Longrightarrow> same_overflow b c \<Longrightarrow> same_overflow a c"
  by (simp add: same_overflow_def)

lemma drain_word_inv:
  "drain_inv n L B U (Q \<union> word_senders n w a) d \<Longrightarrow> Q \<inter> word_senders n w a = {} \<Longrightarrow>
     drain_inv n L B U Q (drain_word n w a d) \<and> same_overflow d (drain_word n w a d)"
proof (induction n w a d rule: drain_word.induct)
  case (1 n w a d)
  show ?case
  proof (cases "a = 0")
    case True
    with "1.prems" show ?thesis by (simp add: drain_word.simps [of _ _ 0] word_senders_def same_overflow_def)
  next
    case False
    let ?i = "w * 64 + countr_zero a" and ?a = "a AND (a - 1)"
    let ?d = "if n \<le> ?i then d else visit_lane n ?i d"
    note cl = word_senders_clear [OF False, of n w]
    have st: "drain_inv n L B U (Q \<union> word_senders n w ?a) ?d \<and> same_overflow d ?d"
    proof (cases "n \<le> ?i")
      case True
      then have "word_senders n w ?a = word_senders n w a"
        using cl by (auto simp: word_senders_def)
      with True "1.prems" show ?thesis by (simp add: same_overflow_def)
    next
      case nl: False
      have mem: "?i \<in> word_senders n w a"
        using nl countr_zero_props [OF False] by (simp add: word_senders_def)
      have "Q \<union> word_senders n w a - {?i} = Q \<union> word_senders n w ?a"
        using cl mem "1.prems"(2) by blast
      then show ?thesis
        using visit_lane_inv [OF "1.prems"(1), of ?i] nl mem by simp
    qed
    have "Q \<inter> word_senders n w ?a = {}" using "1.prems"(2) cl by blast
    then have "drain_inv n L B U Q (drain_word n w ?a ?d) \<and> same_overflow d (drain_word n w ?a ?d)"
      using "1.IH" [OF False refl] st same_overflow_trans by blast
    then show ?thesis using False by (subst (1 2) drain_word.simps) (simp add: Let_def)
  qed
qed

lemma word_senders_split:
  "word_senders n w (a AND m) \<union> word_senders n w (a AND NOT m) = word_senders n w a"
  "word_senders n w (a AND m) \<inter> word_senders n w (a AND NOT m) = {}"
  by (auto simp: word_senders_def bit_simps)

lemma take_word_inv:
  assumes inv: "drain_inv n L B U Q d" and w: "w < length (dr_words d)"
    and tk: "TakeActiveSenders w (dr_words d) = (taken, ws)" and un: "w \<notin> U'" "U = insert w U'"
  shows "drain_inv n L B U' (Q \<union> word_senders n w taken) (d\<lparr>dr_words := ws\<rparr>)"
    "Q \<inter> word_senders n w taken = {}"
proof -
  have "(dr_words d)[w := 0] = dr_words d" if "dr_words d ! w = 0"
    using list_update_id [of "dr_words d" w] unfolding that .
  then have t: "taken = dr_words d ! w" "ws = (dr_words d)[w := 0]"
    using tk by (auto simp: TakeActiveSenders_def split: if_splits)
  have sb: "sender_bit ws i \<longleftrightarrow> sender_bit (dr_words d) i \<and> i div 64 \<noteq> w" for i
    using w by (auto simp: sender_bit_def t nth_list_update)
  have ts: "i \<in> word_senders n w taken \<longleftrightarrow> i < n \<and> i div 64 = w \<and> sender_bit (dr_words d) i" for i
    by (auto simp: word_senders_def sender_bit_def t)
  have li: "lanes_inv n L B U Q (dr_lanes d) (dr_words d)" and q: "quiet n B U Q d" using inv by (simp_all add: drain_inv_def)
  show dis: "Q \<inter> word_senders n w taken = {}" using lanes_invD(2) [OF li] ts by auto
  have word: "i \<notin> Q \<and> sender_bit (dr_words d) i = B i" if "i < n" "i div 64 = w" for i
    using lanes_invD(2,4) [OF li that(1)] that(2) un by blast
  have "lanes_inv n L B U' (Q \<union> word_senders n w taken) (dr_lanes d) ws"
    unfolding lanes_inv_def
  proof (intro conjI allI impI)
    fix i assume i: "i < n"
    show "lane_ok (dr_lanes d ! i)" by (rule lanes_invD(1) [OF li i])
    show "if i \<in> Q \<union> word_senders n w taken then B i \<and> i div 64 \<notin> U' \<and> \<not> sender_bit ws i
      else if B i \<and> i div 64 \<notin> U' then lane_closed (dr_lanes d) ws i else dr_lanes d ! i = L ! i \<and> sender_bit ws i = B i"
    proof (cases "i div 64 = w")
      case True
      then show ?thesis using word [OF i True] lanes_invD(4) [OF li i] un i by (auto simp: ts sb)
    next
      case False
      then show ?thesis using lanes_invD(2-) [OF li i] un by (auto simp: ts sb lane_closed_def)
    qed
  qed (use li in \<open>auto simp: lanes_inv_def t\<close>)
  moreover have "quiet n B U' (Q \<union> word_senders n w taken) (d\<lparr>dr_words := ws\<rparr>)"
    using q un word by (auto simp: quiet_def did_drain_def ts)
  ultimately show "drain_inv n L B U' (Q \<union> word_senders n w taken) (d\<lparr>dr_words := ws\<rparr>)"
    using inv by (auto simp: drain_inv_def dr_counts_def conserved_def full_batch_def)
qed

lemma visit_lane_words [simp]:
  "length (dr_words (visit_lane n i d)) = length (dr_words d)"
  by (simp add: visit_lane_def close_lane_def drain_lane_def Let_def split_def)

lemma drain_word_words [simp]: "length (dr_words (drain_word n w a d)) = length (dr_words d)"
proof (induction n w a d rule: drain_word.induct)
  case (1 n w a d)
  then show ?case by (subst drain_word.simps) (simp add: Let_def)
qed

text \<open>The words not taken after \<open>step\<close> steps of the scan from word \<open>sw\<close>.\<close>

definition untaken :: "nat \<Rightarrow> nat \<Rightarrow> nat \<Rightarrow> nat set" where
  "untaken wc sw step = {(sw + t) mod wc |t. step \<le> t \<and> t < wc}"

lemma untaken_step:
  assumes "step < wc"
  shows "(sw + step) mod wc \<notin> untaken wc sw (Suc step)"
    "untaken wc sw step = insert ((sw + step) mod wc) (untaken wc sw (Suc step))"
proof -
  show "(sw + step) mod wc \<notin> untaken wc sw (Suc step)"
  proof
    assume "(sw + step) mod wc \<in> untaken wc sw (Suc step)"
    then obtain t where t: "Suc step \<le> t" "t < wc" "(sw + step) mod wc = (sw + t) mod wc"
      unfolding untaken_def by blast
    have "sw + step \<le> sw + t" "sw + t < sw + step + wc" using t(1,2) by linarith+
    then have "sw + step = sw + t" using t(3) by (rule mod_window)
    with t(1) show False by linarith
  qed
  show "untaken wc sw step = insert ((sw + step) mod wc) (untaken wc sw (Suc step))"
  proof (intro equalityI subsetI)
    fix x assume "x \<in> untaken wc sw step"
    then obtain t where t: "x = (sw + t) mod wc" "step \<le> t" "t < wc" unfolding untaken_def by blast
    show "x \<in> insert ((sw + step) mod wc) (untaken wc sw (Suc step))"
    proof (cases "t = step")
      case False
      with t have "Suc step \<le> t" by simp
      with t show ?thesis unfolding untaken_def by blast
    qed (use t in simp)
  next
    fix x assume "x \<in> insert ((sw + step) mod wc) (untaken wc sw (Suc step))"
    then show "x \<in> untaken wc sw step" using assms by (auto simp: untaken_def)
  qed
qed

lemma untaken_done: "wc \<le> step \<Longrightarrow> untaken wc sw step = {}"
  by (auto simp: untaken_def)

lemma drain_steps_inv:
  assumes "left + step = wc + 1" "word = (sw + step) mod wc" "sw < wc" "length (dr_words d) = wc"
    and "drain_inv n L B (untaken wc sw step) (if step = 0 \<or> wc < step then {} else word_senders n sw wrapped) d"
  shows "drain_inv n L B {} {} (drain_steps n wc m left step word wrapped d) \<and> same_overflow d (drain_steps n wc m left step word wrapped d)"
  using assms
proof (induction left arbitrary: step word wrapped d)
  case 0
  then show ?case by (simp add: untaken_done same_overflow_def)
next
  case (Suc left)
  let ?w' = "if word + 1 = wc then 0 else word + 1"
  have wc: "0 < wc" using Suc.prems(3) by simp
  have word: "word < wc" using Suc.prems(2) wc by simp
  have w': "?w' = (sw + Suc step) mod wc"
    using Suc.prems(2) wc by (simp add: mod_Suc)
  show ?case
  proof (cases "step = wc")
    case True
    then have l: "left = 0" "word = sw" using Suc.prems wc by auto
    have "drain_inv n L B {} ({} \<union> word_senders n word wrapped) d"
      using Suc.prems(5) True wc l by (simp add: untaken_done)
    then have "drain_inv n L B {} {} (drain_word n word wrapped d) \<and> same_overflow d (drain_word n word wrapped d)"
      by (rule drain_word_inv) simp
    then show ?thesis using True wc l by simp
  next
    case False
    then have lt: "step < wc" using Suc.prems(1) by simp
    obtain taken ws where tk: "TakeActiveSenders word (dr_words d) = (taken, ws)" by force
    have wl: "word < length (dr_words d)" using word Suc.prems(4) by simp
    note un = untaken_step [OF lt, of sw, folded Suc.prems(2)]
    have inv0: "drain_inv n L B (untaken wc sw step) (if step = 0 then {} else word_senders n sw wrapped) d"
      using Suc.prems(5) lt by simp
    note t = take_word_inv [OF inv0 wl tk un]
    let ?a = "if step = 0 then taken AND m else taken"
    let ?wr = "if step = 0 then taken AND NOT m else wrapped"
    let ?d2 = "drain_word n word ?a (d\<lparr>dr_words := ws\<rparr>)"
    have inv2: "drain_inv n L B (untaken wc sw (Suc step)) (word_senders n sw ?wr) ?d2 \<and> same_overflow (d\<lparr>dr_words := ws\<rparr>) ?d2"
    proof (cases "step = 0")
      case True
      then have "word = sw" using Suc.prems(2,3) by simp
      then have "drain_inv n L B (untaken wc sw (Suc step))
          (word_senders n sw (taken AND NOT m) \<union> word_senders n word (taken AND m)) (d\<lparr>dr_words := ws\<rparr>)"
        using t(1) True word_senders_split(1) [of n sw taken m] by (simp add: Un_commute)
      from drain_word_inv [OF this] word_senders_split(2) [of n sw taken m] True \<open>word = sw\<close>
      show ?thesis by (simp add: Int_commute)
    next
      case False
      with drain_word_inv [OF t(1,2)] show ?thesis by simp
    qed
    have lw: "length (dr_words ?d2) = wc" using tk Suc.prems(4)
      by (auto simp: TakeActiveSenders_def split: if_splits)
    have "drain_inv n L B {} {} (drain_steps n wc m left (Suc step) ?w' ?wr ?d2) \<and> same_overflow ?d2 (drain_steps n wc m left (Suc step) ?w' ?wr ?d2)"
      using Suc.prems(1,3) lt conjunct1 [OF inv2] by (intro Suc.IH w' lw) auto
    then show ?thesis using False tk conjunct2 [OF inv2] by (simp add: Let_def same_overflow_def)
  qed
qed

lemma drain_spsc_inv:
  fixes d0 :: "('w, 'n) drain"
  assumes L: "length (dr_lanes d0) = n" "list_all lane_ok (dr_lanes d0)" and W: "n \<le> 64 * length (dr_words d0)"
    and cur: "dr_cursor d0 < n" "dr_consumed d0 < kSenderQuota"
    and start: "dr_req d0 = []" "dr_rep d0 = []" "dr_not d0 = []" "dr_nreq d0 = length (dr_oreq d0)"
      "dr_nrep d0 = length (dr_orep d0)" "dr_nnot d0 = length (dr_onot d0)"
      "dr_nreq d0 \<le> kBatchSize" "dr_nrep d0 \<le> kBatchSize" "dr_nnot d0 \<le> kBatchSize"
  defines "d \<equiv> drain_spsc n d0"
  shows "same_overflow d0 d" "full_batch d0 \<Longrightarrow> d = d0\<lparr>dr_batch_full := True\<rparr>"
    "\<not> full_batch d0 \<Longrightarrow> drain_inv n (dr_lanes d0) (sender_bit (dr_words d0)) {} {} d"
proof -
  show full: "d = d0\<lparr>dr_batch_full := True\<rparr>" if "full_batch d0" using that by (simp add: d_def drain_spsc_def Let_def)
  let ?d = "d0\<lparr>dr_batch_full := False\<rparr>" and ?wc = "length (dr_words d0)" and ?c = "dr_cursor d0" and ?B = "sender_bit (dr_words d0)"
  have sw: "?c div 64 < ?wc" using cur(1) W by (simp add: div_less_iff_less_mult mult.commute)
  have un: "i div 64 \<in> untaken ?wc (?c div 64) 0" if "i < n" for i
  proof -
    let ?s = "?c div 64" and ?w = "i div 64"
    have w: "?w < ?wc" using that W by (simp add: div_less_iff_less_mult mult.commute)
    have "(?s + (?w + ?wc - ?s) mod ?wc) mod ?wc = ?w" using sw w by (rule mod_len_tail_pos)
    moreover have "(?w + ?wc - ?s) mod ?wc < ?wc" using w by (intro mod_less_divisor) linarith
    ultimately show ?thesis unfolding untaken_def
      by (intro CollectI exI [of _ "(?w + ?wc - ?s) mod ?wc"]) simp
  qed
  have room: "drain_inv n (dr_lanes d0) ?B {} {} d \<and> same_overflow d0 d" if nf: "\<not> full_batch d0"
  proof -
    have "lanes_inv n (dr_lanes d0) ?B (untaken ?wc (?c div 64) 0) {} (dr_lanes ?d) (dr_words ?d)"
      using L W un by (simp add: lanes_inv_def list_all_length)
    moreover have "dr_counts ?d" using cur(2) start nf by (simp add: dr_counts_def full_batch_def)
    ultimately have "drain_inv n (dr_lanes d0) ?B (untaken ?wc (?c div 64) 0) {} ?d"
      using un cur(1) start by (simp add: drain_inv_def conserved_def quiet_def)
    then have "drain_inv n (dr_lanes d0) ?B {} {} (drain_steps n ?wc m (?wc + 1) 0 (?c div 64) 0 ?d) \<and>
        same_overflow ?d (drain_steps n ?wc m (?wc + 1) 0 (?c div 64) 0 ?d)" for m
      using sw by (intro drain_steps_inv [where sw = "?c div 64"]) simp_all
    moreover have "dr_words d0 \<noteq> []" using sw by auto
    then have "d = drain_steps n ?wc (push_bit (?c mod 64) (NOT 0)) (?wc + 1) 0 (?c div 64) 0 ?d"
      using nf by (simp add: d_def drain_spsc_def Let_def full_batch_def del: drain_steps.simps)
    ultimately show ?thesis by (simp add: same_overflow_def del: drain_steps.simps)
  qed
  show "\<not> full_batch d0 \<Longrightarrow> drain_inv n (dr_lanes d0) ?B {} {} d" using room by blast
  show "same_overflow d0 d" using room full by (cases "full_batch d0") (simp_all add: same_overflow_def)
qed

section \<open>Both transports\<close>

text \<open>
  What is relied on of the queue library: a bulk dequeue takes at most the number asked for, each
  message once, and a short one has emptied the queue.
\<close>

definition bulk_ok :: "('q, 'a) bulk \<Rightarrow> ('q \<Rightarrow> 'a multiset) \<Rightarrow> bool" where
  "bulk_ok deq items \<longleftrightarrow> (\<forall>maximum q vs q'. deq maximum q = (vs, q') \<longrightarrow>
     length vs \<le> maximum \<and> items q = mset vs + items q' \<and> (length vs < maximum \<longrightarrow> items q' = {#}))"

lemma drain_overflow_queue_ok:
  assumes "bulk_ok deq items" "n \<le> kBatchSize" "drain_overflow_queue deq n q = (vs, p, q')"
  shows "n + length vs \<le> kBatchSize" "items q = mset vs + items q'" "p \<or> items q' = {#}"
    "n + length vs = 0 \<Longrightarrow> items q = {#}"
proof -
  have "length vs \<le> kBatchSize - n \<and> items q = mset vs + items q' \<and> (p \<or> items q' = {#})"
  proof (cases "kBatchSize - n = 0")
    case False
    then show ?thesis using assms(1,3) unfolding bulk_ok_def drain_overflow_queue_def Let_def
      by (auto split: prod.splits) (metis le_neq_implies_less)+
  qed (use assms(3) in \<open>simp add: drain_overflow_queue_def\<close>)
  then show l: "n + length vs \<le> kBatchSize" "items q = mset vs + items q'" "p \<or> items q' = {#}" using assms(2) by auto
  show "items q = {#}" if "n + length vs = 0"
    using that assms(1,3) by (fastforce simp: bulk_ok_def drain_overflow_queue_def kBatchSize_def split: prod.splits)
qed

definition within_batch :: "('w, 'n) drain \<Rightarrow> bool" where
  "within_batch d \<longleftrightarrow> dr_nreq d = length (dr_req d) + length (dr_oreq d) \<and> dr_nrep d = length (dr_rep d) + length (dr_orep d) \<and>
     dr_nnot d = length (dr_not d) + length (dr_onot d) \<and>
     dr_nreq d \<le> kBatchSize \<and> dr_nrep d \<le> kBatchSize \<and> dr_nnot d \<le> kBatchSize"

text \<open>
  What a drain did to the lanes: those whose bit was not set are untouched; one whose bit was set
  keeps it, or was visited and is active with its bit set exactly if messages are left.
\<close>

definition lanes_drained :: "nat \<Rightarrow> ('w, 'n) lane list \<Rightarrow> u64 list \<Rightarrow> ('w, 'n) drain \<Rightarrow> bool" where
  "lanes_drained n lanes ws d \<longleftrightarrow> conserved n lanes d \<and>
     (\<forall>i < n. if sender_bit ws i
        then dr_lanes d ! i = lanes ! i \<and> sender_bit (dr_words d) i \<or> lane_closed (dr_lanes d) (dr_words d) i
        else dr_lanes d ! i = lanes ! i \<and> \<not> sender_bit (dr_words d) i) \<and>
     length (dr_lanes d) = n \<and> list_all lane_ok (dr_lanes d) \<and> n \<le> 64 * length (dr_words d) \<and>
     dr_cursor d < n \<and> dr_consumed d < kSenderQuota"

lemma drain_overflow_ok:
  assumes b: "bulk_ok deq_w items_w" "bulk_ok deq_n items_n" and w: "within_batch d"
    and run: "drain_overflow deq_w deq_n (mb, d) = (mb', d')"
  shows "within_batch d'" "lanes_drained n lanes ws d' = lanes_drained n lanes ws d"
    "\<exists>rq rp nt. d' = d\<lparr>dr_nreq := dr_nreq d + length rq, dr_nrep := dr_nrep d + length rp, dr_nnot := dr_nnot d + length nt,
            dr_oreq := dr_oreq d @ rq, dr_orep := dr_orep d @ rp, dr_onot := dr_onot d @ nt\<rparr> \<and>
       items_w (mb_requests mb) = mset rq + items_w (mb_requests mb') \<and> items_w (mb_replies mb) = mset rp + items_w (mb_replies mb') \<and>
       items_n (mb_notifications mb) = mset nt + items_n (mb_notifications mb')"
    "mb_overflow_pending mb' \<or> items_w (mb_requests mb') = {#} \<and> items_w (mb_replies mb') = {#} \<and> items_n (mb_notifications mb') = {#}"
    "\<not> did_drain d' \<Longrightarrow> \<not> did_drain d \<and> items_w (mb_requests mb) = {#} \<and> items_w (mb_replies mb) = {#} \<and> items_n (mb_notifications mb) = {#}"
proof -
  obtain rq p1 q1 where r1: "drain_overflow_queue deq_w (dr_nreq d) (mb_requests mb) = (rq, p1, q1)" by (metis prod_cases3)
  obtain rp p2 q2 where r2: "drain_overflow_queue deq_w (dr_nrep d) (mb_replies mb) = (rp, p2, q2)" by (metis prod_cases3)
  obtain nt p3 q3 where r3: "drain_overflow_queue deq_n (dr_nnot d) (mb_notifications mb) = (nt, p3, q3)" by (metis prod_cases3)
  have le: "dr_nreq d \<le> kBatchSize" "dr_nrep d \<le> kBatchSize" "dr_nnot d \<le> kBatchSize" using w by (auto simp: within_batch_def)
  note o1 = drain_overflow_queue_ok [OF b(1) le(1) r1] and o2 = drain_overflow_queue_ok [OF b(1) le(2) r2]
    and o3 = drain_overflow_queue_ok [OF b(2) le(3) r3]
  have d': "d' = d\<lparr>dr_nreq := dr_nreq d + length rq, dr_nrep := dr_nrep d + length rp, dr_nnot := dr_nnot d + length nt,
      dr_oreq := dr_oreq d @ rq, dr_orep := dr_orep d @ rp, dr_onot := dr_onot d @ nt\<rparr>"
    and mb': "mb' = \<lparr>mb_requests = q1, mb_replies = q2, mb_notifications = q3,
           mb_overflow_pending = (mb_overflow_pending mb \<or> p1 \<or> p2 \<or> p3)\<rparr>"
    using run by (simp_all add: drain_overflow_def r1 r2 r3)
  show "within_batch d'" using w o1(1) o2(1) o3(1) by (simp add: within_batch_def d')
  show "lanes_drained n lanes ws d' = lanes_drained n lanes ws d" by (simp add: lanes_drained_def d' conserved_def)
  show "\<exists>rq rp nt. d' = d\<lparr>dr_nreq := dr_nreq d + length rq, dr_nrep := dr_nrep d + length rp, dr_nnot := dr_nnot d + length nt,
            dr_oreq := dr_oreq d @ rq, dr_orep := dr_orep d @ rp, dr_onot := dr_onot d @ nt\<rparr> \<and>
       items_w (mb_requests mb) = mset rq + items_w (mb_requests mb') \<and> items_w (mb_replies mb) = mset rp + items_w (mb_replies mb') \<and>
       items_n (mb_notifications mb) = mset nt + items_n (mb_notifications mb')"
    using o1(2) o2(2) o3(2) by (intro exI [of _ rq] exI [of _ rp] exI [of _ nt]) (simp add: d' mb')
  show "mb_overflow_pending mb' \<or> items_w (mb_requests mb') = {#} \<and> items_w (mb_replies mb') = {#} \<and> items_n (mb_notifications mb') = {#}"
    using o1(3) o2(3) o3(3) by (auto simp: mb')
  show "\<not> did_drain d \<and> items_w (mb_requests mb) = {#} \<and> items_w (mb_replies mb) = {#} \<and> items_n (mb_notifications mb) = {#}" if "\<not> did_drain d'"
    using that o1(4) o2(4) o3(4) by (simp add: did_drain_def d')
qed

lemma drain_spsc_drained:
  fixes d0 :: "('w, 'n) drain"
  assumes L: "length (dr_lanes d0) = n" "list_all lane_ok (dr_lanes d0)" and W: "n \<le> 64 * length (dr_words d0)"
    and cur: "dr_cursor d0 < n" "dr_consumed d0 < kSenderQuota"
    and start: "dr_req d0 = []" "dr_rep d0 = []" "dr_not d0 = []" "within_batch d0"
  defines "d \<equiv> drain_spsc n d0"
  shows "within_batch d" "lanes_drained n (dr_lanes d0) (dr_words d0) d" "same_overflow d0 d"
    "\<not> did_drain d \<Longrightarrow> i < n \<Longrightarrow> sender_bit (dr_words d0) i \<Longrightarrow> lane_empty (dr_lanes d0 ! i)"
    "\<not> did_drain d \<Longrightarrow> \<not> did_drain d0"
proof -
  have c: "dr_nreq d0 = length (dr_oreq d0)" "dr_nrep d0 = length (dr_orep d0)" "dr_nnot d0 = length (dr_onot d0)"
    "dr_nreq d0 \<le> kBatchSize" "dr_nrep d0 \<le> kBatchSize" "dr_nnot d0 \<le> kBatchSize" using start by (auto simp: within_batch_def)
  note inv = drain_spsc_inv [OF L W cur start(1-3) c, folded d_def]
  show so: "same_overflow d0 d" by (rule inv(1))
  have full: "within_batch d \<and> lanes_drained n (dr_lanes d0) (dr_words d0) d \<and> did_drain d" if "full_batch d0"
    using inv(2) [OF that] start L W cur that
    by (auto simp: within_batch_def lanes_drained_def conserved_def did_drain_def full_batch_def kBatchSize_def)
  have room: "within_batch d \<and> lanes_drained n (dr_lanes d0) (dr_words d0) d" if "\<not> full_batch d0"
  proof -
    have li: "lanes_inv n (dr_lanes d0) (sender_bit (dr_words d0)) {} {} (dr_lanes d) (dr_words d)"
      and cnt: "dr_counts d" and cons: "conserved n (dr_lanes d0) d" and cu: "dr_cursor d < n"
      using inv(3) [OF that] by (auto simp: drain_inv_def)
    then show ?thesis by (auto simp: within_batch_def dr_counts_def lanes_drained_def lanes_inv_def list_all_length)
  qed
  show wd: "within_batch d" and ld: "lanes_drained n (dr_lanes d0) (dr_words d0) d" using full room by blast+
  show "\<not> did_drain d0" if "\<not> did_drain d"
    using that wd start so by (auto simp: did_drain_def within_batch_def same_overflow_def)
  show "lane_empty (dr_lanes d0 ! i)" if n: "\<not> did_drain d" and i: "i < n" "sender_bit (dr_words d0) i"
  proof -
    have nf: "\<not> full_batch d0" using full n by blast
    have "lane_empty (dr_lanes d ! i)" using inv(3) [OF nf] n i by (auto simp: drain_inv_def quiet_def)
    moreover have "lane_ok (dr_lanes d ! i)" "lane_ok (dr_lanes d0 ! i)" using ld L i(1) by (auto simp: lanes_drained_def list_all_length)
    moreover have "dr_req d = []" "dr_rep d = []" "dr_not d = []" using n wd by (auto simp: did_drain_def within_batch_def)
    ultimately show ?thesis using ld i(1) lane_empty_iff [of "dr_lanes d ! i"] lane_empty_iff [of "dr_lanes d0 ! i"]
      by (simp add: lanes_drained_def conserved_def)
  qed
qed

lemma drain_spsc_from:
  assumes lanes: "length lanes = n" "list_all lane_ok lanes" "n \<le> 64 * length ws" and cur: "cursor < n" "consumed < kSenderQuota"
    and e: "within_batch e" "dr_lanes e = lanes" "dr_words e = ws" "dr_cursor e = cursor" "dr_consumed e = consumed"
      "dr_req e = []" "dr_rep e = []" "dr_not e = []"
  shows "within_batch (drain_spsc n e) \<and> lanes_drained n lanes ws (drain_spsc n e) \<and> same_overflow e (drain_spsc n e) \<and>
    (\<not> did_drain (drain_spsc n e) \<longrightarrow> \<not> did_drain e \<and> (\<forall>i < n. sender_bit ws i \<longrightarrow> lane_empty (lanes ! i)))"
proof -
  note s = drain_spsc_drained [of e n, unfolded e(2-8), OF lanes cur refl refl refl e(1)]
  from s(1-3) s(4,5) show ?thesis by blast
qed

text \<open>The three ways through a call: no overflow, the overflow queues first, or last.\<close>

lemma DrainCrossCore_cases:
  assumes "DrainCrossCore deq_w deq_n n cursor consumed lanes ws first mb = (did_work, first', mb', d)"
  obtains (none) "\<not> mb_overflow_pending mb" "d = drain_spsc n (drain_start cursor consumed lanes ws)" "mb' = mb" "did_work = did_drain d"
    | (before) d1 where "mb_overflow_pending mb" "d = drain_spsc n d1" "did_work = did_drain d"
        "drain_overflow deq_w deq_n (mb\<lparr>mb_overflow_pending := False\<rparr>, drain_start cursor consumed lanes ws) = (mb', d1)"
    | (after) "mb_overflow_pending mb" "did_work = did_drain d"
        "drain_overflow deq_w deq_n (mb\<lparr>mb_overflow_pending := False\<rparr>, drain_spsc n (drain_start cursor consumed lanes ws)) = (mb', d)"
  using assms by (auto simp: DrainCrossCore_def DrainCrossCoreOverflow_def Let_def split: if_splits prod.splits)

section \<open>Properties\<close>

text \<open>
  C4: What one call of \<open>DrainCrossCore\<close> does, however the cursor, the quota, the bitmap words and
  the lanes stood, and over both transports. From every lane it takes a prefix of each of its three
  queues, in order, and leaves the rest; together with the overflow queues it takes at most 64
  messages of each kind. A lane whose bit was not set is left as it was; a lane whose bit was set
  keeps it, or was visited and is active with its bit set exactly if it still holds messages. If the
  overflow flag was set, the overflow messages are those taken and those left, and while some are
  left the flag is set again; otherwise the mailbox is not touched. A call that returns false has
  met no message: every lane whose bit was set was empty, and so were the overflow queues if the
  flag was set. (Work not published this way is the subject of the protocol theory.) The cursor and
  the quota stay in range. The overflow queue library is taken to deliver each message once, within
  the limit given, and to read short only when it has emptied the queue.
\<close>

theorem DrainCrossCore_correct:
  assumes lanes: "length lanes = n" "list_all lane_ok lanes" "n \<le> 64 * length ws" and cur: "cursor < n" "consumed < kSenderQuota"
    and b: "bulk_ok deq_w items_w" "bulk_ok deq_n items_n"
    and run: "DrainCrossCore deq_w deq_n n cursor consumed lanes ws first mb = (did_work, first', mb', d)"
  shows "lanes_drained n lanes ws d
    \<and> length (dr_req d) + length (dr_oreq d) \<le> kBatchSize \<and> length (dr_rep d) + length (dr_orep d) \<le> kBatchSize
    \<and> length (dr_not d) + length (dr_onot d) \<le> kBatchSize
    \<and> (if mb_overflow_pending mb
       then items_w (mb_requests mb) = mset (dr_oreq d) + items_w (mb_requests mb') \<and>
         items_w (mb_replies mb) = mset (dr_orep d) + items_w (mb_replies mb') \<and>
         items_n (mb_notifications mb) = mset (dr_onot d) + items_n (mb_notifications mb') \<and>
         (mb_overflow_pending mb' \<or>
          items_w (mb_requests mb') = {#} \<and> items_w (mb_replies mb') = {#} \<and> items_n (mb_notifications mb') = {#})
       else mb' = mb \<and> dr_oreq d = [] \<and> dr_orep d = [] \<and> dr_onot d = [])
    \<and> (\<not> did_work \<longrightarrow> (\<forall>i < n. sender_bit ws i \<longrightarrow> lane_empty (lanes ! i)) \<and>
         (mb_overflow_pending mb \<longrightarrow>
          items_w (mb_requests mb) = {#} \<and> items_w (mb_replies mb) = {#} \<and> items_n (mb_notifications mb) = {#}))"
proof -
  define d0 where "d0 = drain_start cursor consumed lanes ws"
  have d0: "dr_lanes d0 = lanes" "dr_words d0 = ws" "dr_cursor d0 = cursor" "dr_consumed d0 = consumed" "dr_req d0 = []" "dr_rep d0 = []"
    "dr_not d0 = []" "dr_oreq d0 = []" "dr_orep d0 = []" "dr_onot d0 = []" "within_batch d0" "lanes_drained n lanes ws d0"
    using lanes cur by (simp_all add: d0_def drain_start_def within_batch_def kBatchSize_def lanes_drained_def conserved_def)
  note spsc = drain_spsc_from [OF lanes cur]
  from run show ?thesis
  proof (cases rule: DrainCrossCore_cases)
    case none
    then show ?thesis using spsc [OF d0(11,1-7)] d0(8-10) by (simp add: within_batch_def same_overflow_def d0_def)
  next
    case (before d1)
    note o = drain_overflow_ok [OF b d0(11) before(4) [folded d0_def]]
    obtain rq rp nt where d1: "d1 = d0\<lparr>dr_nreq := dr_nreq d0 + length rq, dr_nrep := dr_nrep d0 + length rp, dr_nnot := dr_nnot d0 + length nt,
        dr_oreq := dr_oreq d0 @ rq, dr_orep := dr_orep d0 @ rp, dr_onot := dr_onot d0 @ nt\<rparr>"
      and it: "items_w (mb_requests mb) = mset rq + items_w (mb_requests mb')" "items_w (mb_replies mb) = mset rp + items_w (mb_replies mb')"
        "items_n (mb_notifications mb) = mset nt + items_n (mb_notifications mb')"
      using o(3) by auto
    have "within_batch d \<and> lanes_drained n lanes ws d \<and> same_overflow d1 d \<and>
        (\<not> did_drain d \<longrightarrow> \<not> did_drain d1 \<and> (\<forall>i < n. sender_bit ws i \<longrightarrow> lane_empty (lanes ! i)))"
      unfolding before(2) by (rule spsc [OF o(1)]) (simp_all add: d1 d0)
    moreover have "dr_oreq d1 = rq" "dr_orep d1 = rp" "dr_onot d1 = nt" by (simp_all add: d1 d0)
    ultimately show ?thesis using before(1,3) it o(4,5) by (auto simp: within_batch_def same_overflow_def)
  next
    case after
    note s = spsc [OF d0(11,1-7)]
    note o = drain_overflow_ok [OF b conjunct1 [OF s] after(3) [folded d0_def]]
    have it: "items_w (mb_requests mb) = mset (dr_oreq d) + items_w (mb_requests mb')"
      "items_w (mb_replies mb) = mset (dr_orep d) + items_w (mb_replies mb')"
      "items_n (mb_notifications mb) = mset (dr_onot d) + items_n (mb_notifications mb')"
      using o(3) s d0(8-10) by (auto simp: same_overflow_def)
    have "lanes_drained n lanes ws d" using o(2) [of n lanes ws] s by blast
    then show ?thesis using after(1,2) it o(1,4,5) s by (auto simp: within_batch_def)
  qed
qed

text \<open>
  Three senders; the cursor stands at the second; the third has posted a request, and the second
  too, but without publishing it; an overflow message waits.
\<close>

definition list_bulk :: "('a list, 'a) bulk" where
  "list_bulk maximum q = (take maximum q, drop maximum q)"

lemma list_bulk_ok: "bulk_ok list_bulk mset"
  unfolding bulk_ok_def list_bulk_def by (auto simp flip: mset_append)

theorem DrainCrossCore_correct_witness:
  "\<exists>lanes mb' d. DrainCrossCore list_bulk list_bulk 3 1 0 lanes [4] True
       \<lparr>mb_requests = [5], mb_replies = [], mb_notifications = [], mb_overflow_pending = True\<rparr> = (True, False, mb', d)
     \<and> lanes_drained 3 lanes [4] (d :: (nat, nat) drain) \<and> lane_req (lanes ! 2) = [7] \<and> lane_req (lanes ! 1) = [7] \<and>
     dr_lanes d ! 1 = lanes ! 1 \<and> mset (dr_oreq d) + mset (mb_requests mb') = {#5#}"
proof -
  define e where "e = spsc_new kLaneCapacity (0::nat)"
  define q where "q = snd (try_enqueue kLaneCapacity 7 e)"
  define l0 where "l0 = \<lparr>ln_requests = e, ln_replies = e, ln_notifications = e, ln_active = False\<rparr>"
  define lanes where "lanes = [l0, l0\<lparr>ln_requests := q\<rparr>, l0\<lparr>ln_requests := q, ln_active := True\<rparr>]"
  have cap: "valid_capacity kLaneCapacity" by (simp add: valid_capacity_def kLaneCapacity_def)
  note e = spsc_new_ok [OF cap, of "0::nat", folded e_def]
  note q = try_enqueue_ok [OF e(1), where v = 7, OF prod.collapse [symmetric], folded q_def]
  have "unat kLaneCapacity = 256" by (simp add: kLaneCapacity_def)
  then have ql: "spsc_list kLaneCapacity q = [7]" using q(2,3) unfolding e(2) by simp
  have ok: "list_all lane_ok lanes" "length lanes = 3" "(3::nat) \<le> 64 * length [4 :: u64]" "(1::nat) < 3" "0 < kSenderQuota"
    using e(1) q(1) by (simp_all add: lanes_def l0_def lane_ok_def kSenderQuota_def)
  let ?mb = "\<lparr>mb_requests = [5::nat], mb_replies = [], mb_notifications = [] :: nat list, mb_overflow_pending = True\<rparr>"
  obtain w f mb' d where run: "DrainCrossCore list_bulk list_bulk 3 1 0 lanes [4] True ?mb = (w, f, mb', d)" by (metis prod_cases4)
  note c = DrainCrossCore_correct [OF ok(2,1,3,4,5) list_bulk_ok list_bulk_ok run]
  have f: "\<not> f" using run by (auto simp: DrainCrossCore_def DrainCrossCoreOverflow_def Let_def split: prod.splits)
  have "\<not> sender_bit [4] 1" by (simp add: sender_bit_def bit_numeral_rec)
  then have u: "dr_lanes d ! 1 = lanes ! 1" using c by (auto simp: lanes_drained_def)
  have w: w using c by auto
  have "lanes_drained 3 lanes [4] d" "mset (dr_oreq d) + mset (mb_requests mb') = {#5#}" using c by auto
  then show ?thesis using run u ql w f by (intro exI [of _ lanes] exI [of _ mb'] exI [of _ d]) (simp add: lanes_def)
qed

end
