(* ===== verification/Lane_Protocol.thy ===== *)
theory Lane_Protocol
  imports Bycorf_Prelude
begin

text \<open>
  The publication and wake-up protocol between the workers that post to one receiver and that
  receiver, at the granularity of single atomic accesses: \<open>PostRequest\<close>/\<open>PostReply\<close>/
  \<open>PostNotification\<close>, \<open>ActivateCrossCoreLane\<close> and \<open>MarkWakeWorker\<close> of
  \<open>include/bycorf/runtime/cross_core.h\<close> and \<open>FlushWakes\<close>, the lane loop of
  \<open>DrainCrossCoreImpl\<close> and the parking step of \<open>RunOnce\<close> in \<open>src/runtime/worker.cpp\<close>.
  A lane is represented by the number of messages in each of its three rings (kinds 0, 1, 2); the
  contents of the rings are the subject of other theories. Senders are \<open>0..<n\<close>, the receiver is
  not one of them: a post of a worker to itself runs on the receiver's own thread.
\<close>

section \<open>State\<close>

text \<open>
  A sender between its accesses: about to exchange \<open>lane.active_\<close> (the flag tells a publication
  made by \<open>FlushWakes\<close>), about to set its bit in the receiver's bitmap, about to bump
  \<open>wake_seq_\<close>, about to send the wake message, about to set \<open>overflow_pending_\<close>.
\<close>

datatype sender_pc = SIdle | SActivate bool | SSetBit bool | SFlush | SWake | SOvFlag

text \<open>
  The receiver at one lane: dequeueing kind \<open>k\<close>, about to clear \<open>active_\<close>, testing kind \<open>k\<close> for
  emptiness, about to set \<open>active_\<close> again, about to set the bit again.
\<close>

datatype lane_stage = LDequeue nat | LClose | LCheck nat | LReopen | LSetBit

datatype recv_pc = RRun | RDrain | RLane nat lane_stage | RCas | RWait | RLeave

datatype ov_pc = OvUnread | OvTaken | OvDone

record proto =
  pr_items :: "nat \<Rightarrow> nat \<Rightarrow> nat"
  pr_active :: "nat \<Rightarrow> bool"
  pr_bit :: "nat \<Rightarrow> bool"
  pr_pend :: "nat \<Rightarrow> nat"
  pr_spc :: "nat \<Rightarrow> sender_pc"
  pr_wseq :: u32
  pr_ov_items :: nat
  pr_ov_flag :: bool
  pr_rpc :: recv_pc
  pr_words :: "nat set"
  pr_taken :: "nat set"
  pr_got :: bool
  pr_parking :: bool
  pr_seq :: u32
  pr_ov :: ov_pc
  pr_woken :: bool
  pr_bumps :: nat
  pr_fired :: bool

text \<open>
  \<open>pr_words\<close>: bitmap words the current drain has not taken yet; \<open>pr_taken\<close>: senders whose bit was
  taken and whose lane is still to be visited; \<open>pr_got\<close>: the drain has dequeued something;
  \<open>pr_parking\<close>: the drain is the recheck before parking, \<open>pr_seq\<close> its snapshot of \<open>wake_seq_\<close>.
  \<open>pr_woken\<close>: a wake message is in the receiver's completion queue. \<open>pr_bumps\<close> counts the bumps
  of \<open>wake_seq_\<close> since the snapshot and \<open>pr_fired\<close> tells whether one happened while parked; the
  program has neither.
\<close>

definition kWakeSeqParked :: u32 where
  "kWakeSeqParked = push_bit 31 1"

definition word_count :: "nat \<Rightarrow> nat" where
  "word_count n = (n + 63) div 64"

definition proto_init :: "proto" where
  "proto_init = \<lparr>pr_items = (\<lambda>_ _. 0), pr_active = (\<lambda>_. False), pr_bit = (\<lambda>_. False),
     pr_pend = (\<lambda>_. 0), pr_spc = (\<lambda>_. SIdle), pr_wseq = 0, pr_ov_items = 0, pr_ov_flag = False,
     pr_rpc = RRun, pr_words = {}, pr_taken = {}, pr_got = False, pr_parking = False, pr_seq = 0,
     pr_ov = OvDone, pr_woken = False, pr_bumps = 0, pr_fired = False\<rparr>"

section \<open>Steps of a sender\<close>

text \<open>
  \<open>wake_seq_\<close> has 32 bits, so the compare-exchange cannot tell apart values that differ by a
  multiple of \<open>2 ^ 32\<close>. The model has the executions in which fewer than \<open>2 ^ 32\<close> bumps fall
  between the snapshot and the compare-exchange, the bound of the protocol.
\<close>

text \<open>\<open>MarkWakeWorker\<close>: the first post of a round makes the mark 1, later ones 2.\<close>

definition mark_wake :: "nat \<Rightarrow> nat" where
  "mark_wake p = (if p = 0 then 1 else 2)"

text \<open>
  \<open>FlushWakes\<close> at one target: a lane that got more posts after its publication is published again;
  then the mark is cleared and \<open>wake_seq_\<close> bumped; a receiver that was parked is sent a message.
\<close>

definition flush_first :: "nat \<Rightarrow> sender_pc" where
  "flush_first pend = (if pend = 2 then SActivate True else SFlush)"

definition after_publish :: "bool \<Rightarrow> sender_pc" where
  "after_publish f = (if f then SFlush else SIdle)"

definition after_bump :: "u32 \<Rightarrow> sender_pc" where
  "after_bump previous = (if previous = kWakeSeqParked then SWake else SIdle)"

declare flush_first_def [simp] after_bump_def [simp]

inductive sender_step :: "nat \<Rightarrow> nat \<Rightarrow> proto \<Rightarrow> proto \<Rightarrow> bool" for n s where
  post_ring: "s < n \<Longrightarrow> k < 3 \<Longrightarrow> pr_spc p s = SIdle \<Longrightarrow>
    sender_step n s p
      (p\<lparr>pr_items := (pr_items p)(s := (pr_items p s)(k := pr_items p s k + 1)),
         pr_pend := (pr_pend p)(s := mark_wake (pr_pend p s)),
         pr_spc := (pr_spc p)(s := if pr_pend p s = 0 then SActivate False else SIdle)\<rparr>)"
| post_overflow: "s < n \<Longrightarrow> pr_spc p s = SIdle \<Longrightarrow>
    sender_step n s p (p\<lparr>pr_ov_items := pr_ov_items p + 1, pr_spc := (pr_spc p)(s := SOvFlag)\<rparr>)"
| set_ov_flag: "pr_spc p s = SOvFlag \<Longrightarrow>
    sender_step n s p (p\<lparr>pr_ov_flag := True, pr_pend := (pr_pend p)(s := mark_wake (pr_pend p s)),
                         pr_spc := (pr_spc p)(s := SIdle)\<rparr>)"
| activate: "pr_spc p s = SActivate f \<Longrightarrow>
    sender_step n s p
      (p\<lparr>pr_active := (pr_active p)(s := True),
         pr_spc := (pr_spc p)(s := if pr_active p s then after_publish f else SSetBit f)\<rparr>)"
| set_bit: "pr_spc p s = SSetBit f \<Longrightarrow>
    sender_step n s p (p\<lparr>pr_bit := (pr_bit p)(s := True), pr_spc := (pr_spc p)(s := after_publish f)\<rparr>)"
| flush: "pr_spc p s = SIdle \<Longrightarrow> pr_pend p s \<noteq> 0 \<Longrightarrow>
    sender_step n s p
      (p\<lparr>pr_spc := (pr_spc p)(s := flush_first (pr_pend p s))\<rparr>)"
| bump: "pr_spc p s = SFlush \<Longrightarrow> pr_rpc p \<in> {RRun, RWait, RLeave} \<or> Suc (pr_bumps p) < 2 ^ 32 \<Longrightarrow>
    sender_step n s p
      (p\<lparr>pr_pend := (pr_pend p)(s := 0), pr_wseq := pr_wseq p + 1,
         pr_spc := (pr_spc p)(s := after_bump (pr_wseq p)),
         pr_bumps := Suc (pr_bumps p), pr_fired := True\<rparr>)"
| wake: "pr_spc p s = SWake \<Longrightarrow>
    sender_step n s p (p\<lparr>pr_woken := True, pr_spc := (pr_spc p)(s := SIdle)\<rparr>)"

section \<open>Steps of the receiver\<close>

text \<open>
  The batch limit and the sender quota bound how much one drain takes. What the protocol relies
  on is only that a drain that has taken nothing yet takes something from a ring that is not
  empty; the theory of the drain loop shows it.
\<close>

inductive recv_step :: "nat \<Rightarrow> proto \<Rightarrow> proto \<Rightarrow> bool" for n where
  drain_begin: "pr_rpc p = RRun \<Longrightarrow>
    recv_step n p (p\<lparr>pr_rpc := RDrain, pr_words := {..<word_count n}, pr_taken := {}, pr_got := False,
                     pr_ov := OvUnread, pr_parking := park, pr_seq := pr_wseq p, pr_bumps := 0\<rparr>)"
| take_word: "pr_rpc p = RDrain \<Longrightarrow> w \<in> pr_words p \<Longrightarrow>
    recv_step n p (p\<lparr>pr_words := pr_words p - {w},
                     pr_taken := pr_taken p \<union> {s. s < n \<and> s div 64 = w \<and> pr_bit p s},
                     pr_bit := (\<lambda>s. pr_bit p s \<and> s div 64 \<noteq> w)\<rparr>)"
| ov_read: "pr_rpc p = RDrain \<Longrightarrow> pr_ov p = OvUnread \<Longrightarrow>
    recv_step n p (p\<lparr>pr_ov := (if pr_ov_flag p then OvTaken else OvDone), pr_ov_flag := False\<rparr>)"
| ov_dequeue: "pr_rpc p = RDrain \<Longrightarrow> pr_ov p = OvTaken \<Longrightarrow> j \<le> pr_ov_items p \<Longrightarrow>
    (j = 0 \<longrightarrow> pr_ov_items p = 0 \<or> pr_got p) \<Longrightarrow>
    recv_step n p (p\<lparr>pr_ov := OvDone, pr_ov_items := pr_ov_items p - j, pr_got := (pr_got p \<or> 0 < j),
                     pr_ov_flag := (pr_ov_flag p \<or> j < pr_ov_items p \<or> full)\<rparr>)"
| lane_begin: "pr_rpc p = RDrain \<Longrightarrow> s \<in> pr_taken p \<Longrightarrow>
    recv_step n p (p\<lparr>pr_taken := pr_taken p - {s}, pr_rpc := RLane s (LDequeue 0)\<rparr>)"
| lane_dequeue: "pr_rpc p = RLane s (LDequeue k) \<Longrightarrow> j \<le> pr_items p s k \<Longrightarrow>
    (j = 0 \<longrightarrow> pr_items p s k = 0 \<or> pr_got p) \<Longrightarrow>
    recv_step n p (p\<lparr>pr_items := (pr_items p)(s := (pr_items p s)(k := pr_items p s k - j)),
                     pr_got := (pr_got p \<or> 0 < j),
                     pr_rpc := RLane s (if k < 2 then LDequeue (k + 1) else LClose)\<rparr>)"
| lane_close: "pr_rpc p = RLane s LClose \<Longrightarrow>
    recv_step n p (p\<lparr>pr_active := (pr_active p)(s := False), pr_rpc := RLane s (LCheck 0)\<rparr>)"
| lane_check: "pr_rpc p = RLane s (LCheck k) \<Longrightarrow>
    recv_step n p (p\<lparr>pr_rpc := (if pr_items p s k \<noteq> 0 then RLane s LReopen
                                else if k < 2 then RLane s (LCheck (k + 1)) else RDrain)\<rparr>)"
| lane_reopen: "pr_rpc p = RLane s LReopen \<Longrightarrow>
    recv_step n p (p\<lparr>pr_active := (pr_active p)(s := True),
                     pr_rpc := (if pr_active p s then RDrain else RLane s LSetBit)\<rparr>)"
| lane_set_bit: "pr_rpc p = RLane s LSetBit \<Longrightarrow>
    recv_step n p (p\<lparr>pr_bit := (pr_bit p)(s := True), pr_rpc := RDrain\<rparr>)"
| drain_end: "pr_rpc p = RDrain \<Longrightarrow> pr_taken p = {} \<Longrightarrow> pr_ov p = OvDone \<Longrightarrow>
    pr_words p = {} \<or> pr_got p \<Longrightarrow>
    recv_step n p (p\<lparr>pr_rpc := (if pr_parking p \<and> \<not> pr_got p then RCas else RRun)\<rparr>)"
| cas_parked: "pr_rpc p = RCas \<Longrightarrow> pr_wseq p = pr_seq p \<Longrightarrow>
    recv_step n p (p\<lparr>pr_wseq := kWakeSeqParked, pr_rpc := RWait, pr_fired := False\<rparr>)"
| cas_failed: "pr_rpc p = RCas \<Longrightarrow> pr_wseq p \<noteq> pr_seq p \<Longrightarrow>
    recv_step n p (p\<lparr>pr_rpc := RRun\<rparr>)"
| wait_return: "pr_rpc p = RWait \<Longrightarrow>
    recv_step n p (p\<lparr>pr_rpc := RLeave, pr_woken := (pr_woken p \<and> b)\<rparr>)"
| leave_parked: "pr_rpc p = RLeave \<Longrightarrow>
    recv_step n p (p\<lparr>pr_wseq := 0, pr_rpc := RRun\<rparr>)"

inductive proto_step :: "nat \<Rightarrow> proto \<Rightarrow> proto \<Rightarrow> bool" for n where
  by_sender: "sender_step n s p p' \<Longrightarrow> proto_step n p p'"
| by_receiver: "recv_step n p p' \<Longrightarrow> proto_step n p p'"

abbreviation proto_reach :: "nat \<Rightarrow> proto \<Rightarrow> bool" where
  "proto_reach n \<equiv> (proto_step n)\<^sup>*\<^sup>* proto_init"

section \<open>Invariants\<close>

text \<open>A sender that has posted and not yet completed the flush that follows.\<close>

definition sending :: "proto \<Rightarrow> nat \<Rightarrow> bool" where
  "sending p s \<longleftrightarrow> (pr_spc p s \<noteq> SIdle \<and> pr_spc p s \<noteq> SWake) \<or> pr_pend p s \<noteq> 0"

text \<open>Someone owes a set lane a bit in the bitmap, or the receiver is about to visit it.\<close>

definition token :: "proto \<Rightarrow> nat \<Rightarrow> bool" where
  "token p s \<longleftrightarrow>
     pr_bit p s \<or> (\<exists>f. pr_spc p s = SSetBit f) \<or> s \<in> pr_taken p \<or>
     (\<exists>k. pr_rpc p = RLane s (LDequeue k)) \<or> pr_rpc p = RLane s LClose \<or> pr_rpc p = RLane s LSetBit"

definition active_inv :: "proto \<Rightarrow> bool" where
  "active_inv p \<longleftrightarrow> (\<forall>s. pr_active p s \<longrightarrow> token p s)"

text \<open>A message in a lane that is not set will be published or is about to be noticed.\<close>

definition owes :: "proto \<Rightarrow> nat \<Rightarrow> bool" where
  "owes p s \<longleftrightarrow>
     (\<exists>f. pr_spc p s = SActivate f) \<or> (pr_pend p s = 2 \<and> (pr_spc p s = SIdle \<or> pr_spc p s = SOvFlag))"

definition items_inv :: "proto \<Rightarrow> bool" where
  "items_inv p \<longleftrightarrow>
     (\<forall>s k. 0 < pr_items p s k \<longrightarrow> \<not> pr_active p s \<longrightarrow>
        owes p s \<or> (\<exists>i. pr_rpc p = RLane s (LCheck i) \<and> i \<le> k) \<or> pr_rpc p = RLane s LReopen)"

definition ov_inv :: "proto \<Rightarrow> bool" where
  "ov_inv p \<longleftrightarrow>
     (pr_ov_items p \<noteq> 0 \<longrightarrow> pr_ov_flag p \<or> (\<exists>s. pr_spc p s = SOvFlag) \<or> pr_ov p = OvTaken)"

definition shape_inv :: "nat \<Rightarrow> proto \<Rightarrow> bool" where
  "shape_inv n p \<longleftrightarrow>
     (\<forall>s k. 0 < pr_items p s k \<longrightarrow> s < n \<and> k < 3) \<and>
     (\<forall>s. pr_spc p s \<noteq> SIdle \<or> pr_pend p s \<noteq> 0 \<or> pr_bit p s \<or> s \<in> pr_taken p \<longrightarrow> s < n) \<and>
     (\<forall>s g. pr_rpc p = RLane s g \<longrightarrow> s < n) \<and>
     (pr_rpc p \<in> {RRun, RCas, RWait, RLeave} \<longrightarrow> pr_taken p = {} \<and> pr_ov p = OvDone) \<and>
     (pr_rpc p = RCas \<longrightarrow> pr_parking p \<and> \<not> pr_got p \<and> pr_words p = {})"

text \<open>Until its flush, a sender that has posted is marked.\<close>

definition pend_inv :: "proto \<Rightarrow> bool" where
  "pend_inv p \<longleftrightarrow>
     (\<forall>s. (\<exists>f. pr_spc p s = SActivate f) \<or> (\<exists>f. pr_spc p s = SSetBit f) \<or> pr_spc p s = SFlush \<longrightarrow>
        pr_pend p s \<noteq> 0)"

text \<open>
  During the recheck before parking, while no bump happened since the snapshot: every message
  present belongs to a sender that is not done, or will still be met by this drain, or the drain
  has already found work.
\<close>

definition covered :: "proto \<Rightarrow> nat \<Rightarrow> nat \<Rightarrow> bool" where
  "covered p s k \<longleftrightarrow>
     sending p s \<or> pr_got p \<or> (pr_bit p s \<and> s div 64 \<in> pr_words p) \<or> s \<in> pr_taken p \<or>
     (\<exists>i. pr_rpc p = RLane s (LDequeue i) \<and> i \<le> k)"

definition recheck_inv :: "proto \<Rightarrow> bool" where
  "recheck_inv p \<longleftrightarrow>
     (pr_parking p \<longrightarrow> pr_rpc p \<notin> {RRun, RWait, RLeave} \<longrightarrow>
        pr_bumps p < 2 ^ 32 \<and> pr_wseq p = pr_seq p + of_nat (pr_bumps p) \<and>
        (pr_bumps p = 0 \<longrightarrow>
           (\<forall>s k. 0 < pr_items p s k \<longrightarrow> covered p s k) \<and>
           (pr_ov_items p \<noteq> 0 \<longrightarrow> pr_got p \<or> (\<exists>s. sending p s) \<or> pr_ov p = OvTaken \<or>
              (pr_ov p = OvUnread \<and> pr_ov_flag p))))"

definition parked_inv :: "proto \<Rightarrow> bool" where
  "parked_inv p \<longleftrightarrow>
     (pr_rpc p = RWait \<longrightarrow>
        (if pr_fired p then pr_woken p \<or> (\<exists>s. pr_spc p s = SWake)
         else pr_wseq p = kWakeSeqParked \<and> (\<forall>s k. 0 < pr_items p s k \<longrightarrow> sending p s) \<and>
              (pr_ov_items p \<noteq> 0 \<longrightarrow> (\<exists>s. sending p s))))"

named_theorems proto_simps

declare token_def [proto_simps] owes_def [proto_simps] sending_def [proto_simps]
  covered_def [proto_simps] mark_wake_def [proto_simps] after_publish_def [proto_simps]

lemma shape_items:
  assumes "shape_inv n p" "j < pr_items p s k"
  shows "s < n \<and> k < 3"
proof -
  have "0 < pr_items p s k" using assms(2) by linarith
  with assms(1) show ?thesis unfolding shape_inv_def by blast
qed

lemma shape_sender: "shape_inv n p \<Longrightarrow> pr_spc p s \<noteq> SIdle \<or> pr_pend p s \<noteq> 0 \<Longrightarrow> s < n"
  by (auto simp: shape_inv_def)

lemma shape_recv:
  assumes "shape_inv n p"
  shows "pr_bit p s \<Longrightarrow> s < n" "s \<in> pr_taken p \<Longrightarrow> s < n" "pr_rpc p = RLane s g \<Longrightarrow> s < n"
  using assms by (auto simp: shape_inv_def)

lemma shape_idle:
  assumes "shape_inv n p"
  shows "pr_rpc p = RRun \<Longrightarrow> pr_taken p = {} \<and> pr_ov p = OvDone"
    "pr_rpc p = RCas \<Longrightarrow> pr_taken p = {} \<and> pr_ov p = OvDone \<and> pr_parking p \<and> \<not> pr_got p \<and> pr_words p = {}"
    "pr_rpc p = RWait \<Longrightarrow> pr_taken p = {} \<and> pr_ov p = OvDone"
    "pr_rpc p = RLeave \<Longrightarrow> pr_taken p = {} \<and> pr_ov p = OvDone"
  using assms by (auto simp: shape_inv_def)

lemma shape_inv_sender:
  assumes step: "sender_step n s p p'" and inv: "shape_inv n p"
  shows "shape_inv n p'"
proof -
  have n: "s < n" using step shape_sender [OF inv, of s] by cases auto
  from step have "pr_rpc p' = pr_rpc p \<and> pr_taken p' = pr_taken p \<and> pr_ov p' = pr_ov p \<and>
      pr_parking p' = pr_parking p \<and> pr_got p' = pr_got p \<and> pr_words p' = pr_words p"
    by cases auto
  moreover have "0 < pr_items p' r k \<Longrightarrow> r < n \<and> k < 3" for r k
    using step shape_items [OF inv, of 0 r k] n by cases (auto split: if_splits)
  moreover have "pr_spc p' r \<noteq> SIdle \<or> pr_pend p' r \<noteq> 0 \<or> pr_bit p' r \<Longrightarrow> r < n" for r
    using step n shape_sender [OF inv, of r] shape_recv(1) [OF inv, of r]
    by cases (auto split: if_splits)
  ultimately show ?thesis using inv unfolding shape_inv_def by metis
qed

lemma shape_inv_recv:
  assumes step: "recv_step n p p'" and inv: "shape_inv n p"
  shows "shape_inv n p'"
proof -
  have it: "0 < pr_items p' r k \<Longrightarrow> r < n \<and> k < 3" for r k
  proof -
    assume "0 < pr_items p' r k"
    with step have "0 < pr_items p r k" by cases (auto split: if_splits)
    then show ?thesis by (rule shape_items [OF inv])
  qed
  have sd: "pr_spc p' r \<noteq> SIdle \<or> pr_pend p' r \<noteq> 0 \<Longrightarrow> r < n" for r
    using step shape_sender [OF inv, of r] by cases auto
  have bt: "pr_bit p' r \<or> r \<in> pr_taken p' \<Longrightarrow> r < n" for r
    using step shape_recv [OF inv, of r] by cases (auto split: if_splits)
  have ln: "pr_rpc p' = RLane r g \<Longrightarrow> r < n" for r g
    using step shape_recv [OF inv, of r] by cases (auto split: if_splits)
  have "(pr_rpc p' \<in> {RRun, RCas, RWait, RLeave} \<longrightarrow> pr_taken p' = {} \<and> pr_ov p' = OvDone) \<and>
     (pr_rpc p' = RCas \<longrightarrow> pr_parking p' \<and> \<not> pr_got p' \<and> pr_words p' = {})"
    using step shape_idle [OF inv] by cases (auto split: if_splits)
  with it sd bt ln show ?thesis unfolding shape_inv_def by blast
qed

lemma active_token: "active_inv p \<Longrightarrow> pr_active p s \<Longrightarrow>
    pr_bit p s \<or> (\<exists>f. pr_spc p s = SSetBit f) \<or> s \<in> pr_taken p \<or>
     (\<exists>k. pr_rpc p = RLane s (LDequeue k)) \<or> pr_rpc p = RLane s LClose \<or> pr_rpc p = RLane s LSetBit"
  by (simp add: active_inv_def token_def)

lemma active_invI: "(\<And>s. pr_active p s \<Longrightarrow> token p s) \<Longrightarrow> active_inv p"
  by (simp add: active_inv_def)

lemma active_inv_sender:
  assumes step: "sender_step n s p p'" and inv: "active_inv p"
  shows "active_inv p'"
proof (rule active_invI)
  fix r assume a: "pr_active p' r"
  show "token p' r"
    using step a active_token [OF inv, of r] by cases (auto simp: proto_simps split: if_splits)
qed

lemma active_inv_recv:
  assumes step: "recv_step n p p'" and sh: "shape_inv n p" and inv: "active_inv p"
  shows "active_inv p'"
proof (rule active_invI)
  fix r assume a: "pr_active p' r"
  show "token p' r"
    using step a active_token [OF inv, of r] shape_recv [OF sh, of r] shape_idle [OF sh]
    by cases (auto simp: proto_simps split: if_splits)
qed

lemma items_published:
  assumes "items_inv p" "j < pr_items p s k" "\<not> pr_active p s"
  shows "owes p s \<or> (\<exists>i. pr_rpc p = RLane s (LCheck i) \<and> i \<le> k) \<or> pr_rpc p = RLane s LReopen"
proof -
  have "0 < pr_items p s k" using assms(2) by linarith
  with assms(1,3) show ?thesis unfolding items_inv_def by blast
qed

lemma items_invI:
  assumes "\<And>s k. 0 < pr_items p s k \<Longrightarrow> \<not> pr_active p s \<Longrightarrow>
    owes p s \<or> (\<exists>i. pr_rpc p = RLane s (LCheck i) \<and> i \<le> k) \<or> pr_rpc p = RLane s LReopen"
  shows "items_inv p"
  using assms by (simp add: items_inv_def)

lemma items_inv_sender:
  assumes step: "sender_step n s p p'" and inv: "items_inv p"
  shows "items_inv p'"
proof (rule items_invI)
  fix r k assume a: "0 < pr_items p' r k" "\<not> pr_active p' r"
  show "owes p' r \<or> (\<exists>i. pr_rpc p' = RLane r (LCheck i) \<and> i \<le> k) \<or> pr_rpc p' = RLane r LReopen"
    using step a items_published [OF inv, of 0 r k]
    by cases (auto simp: proto_simps split: if_splits)
qed

lemma items_inv_recv:
  assumes step: "recv_step n p p'" and sh: "shape_inv n p" and inv: "items_inv p"
  shows "items_inv p'"
proof (rule items_invI)
  fix r k assume a: "0 < pr_items p' r k" "\<not> pr_active p' r"
  have pos: "0 < pr_items p r k" using step a(1) by cases (auto split: if_splits)
  have k3: "k < 3" using shape_items [OF sh pos] by simp
  show "owes p' r \<or> (\<exists>i. pr_rpc p' = RLane r (LCheck i) \<and> i \<le> k) \<or> pr_rpc p' = RLane r LReopen"
    using step a(2) pos k3 items_published [OF inv pos]
  proof cases
    case (lane_check s i)
    show ?thesis
    proof (cases "r = s")
      case True
      with lane_check items_published [OF inv pos] a(2) pos k3 show ?thesis
        by (cases "i = k") (auto simp: proto_simps)
    qed (use lane_check items_published [OF inv pos] a(2) in \<open>auto simp: proto_simps\<close>)
  qed (auto simp: proto_simps split: if_splits)
qed

lemma sender_frame:
  assumes "sender_step n s p p'" "r \<noteq> s"
  shows "pr_spc p' r = pr_spc p r" "pr_pend p' r = pr_pend p r" "pr_items p' r = pr_items p r"
    "pr_bit p' r = pr_bit p r"
  using assms by (cases; simp)+

lemma sender_keeps_recv:
  assumes "sender_step n s p p'"
  shows "pr_rpc p' = pr_rpc p" "pr_taken p' = pr_taken p" "pr_got p' = pr_got p"
    "pr_words p' = pr_words p" "pr_parking p' = pr_parking p" "pr_seq p' = pr_seq p" "pr_ov p' = pr_ov p"
  using assms by (cases; simp)+

lemma pend_inv_sender:
  assumes step: "sender_step n s p p'" and inv: "pend_inv p"
  shows "pend_inv p'"
  unfolding pend_inv_def
proof (intro allI impI)
  fix r
  assume a: "(\<exists>f. pr_spc p' r = SActivate f) \<or> (\<exists>f. pr_spc p' r = SSetBit f) \<or> pr_spc p' r = SFlush"
  have i: "(\<exists>f. pr_spc p r = SActivate f) \<or> (\<exists>f. pr_spc p r = SSetBit f) \<or> pr_spc p r = SFlush \<Longrightarrow>
      pr_pend p r \<noteq> 0" by (rule inv [unfolded pend_inv_def, rule_format])
  show "pr_pend p' r \<noteq> 0"
    using step a i by cases (auto simp: proto_simps split: if_splits)
qed

lemma pend_inv_recv: "recv_step n p p' \<Longrightarrow> pend_inv p \<Longrightarrow> pend_inv p'"
  by (erule recv_step.cases) (simp_all add: pend_inv_def)

text \<open>Apart from the bump, a sender that was not done is not done after its step.\<close>

lemma sender_progress:
  assumes step: "sender_step n s p p'" and inv: "pend_inv p" and flush: "pr_spc p s \<noteq> SFlush"
  shows "sending p r \<Longrightarrow> sending p' r" "pr_wseq p' = pr_wseq p" "pr_bumps p' = pr_bumps p"
    "pr_fired p' = pr_fired p"
proof -
  show "sending p r \<Longrightarrow> sending p' r"
    using step flush inv by cases (auto simp: pend_inv_def proto_simps split: if_splits)
  show "pr_wseq p' = pr_wseq p" "pr_bumps p' = pr_bumps p" "pr_fired p' = pr_fired p"
    using step flush by (cases; simp)+
qed

text \<open>What a sender adds, it still has to flush.\<close>

lemma sender_adds:
  assumes step: "sender_step n s p p'"
  shows "pr_items p r k < pr_items p' r k \<Longrightarrow> sending p' r"
    and "pr_ov_items p < pr_ov_items p' \<Longrightarrow> sending p' s"
    and "pr_items p r k \<le> pr_items p' r k"
    and "pr_bit p r \<Longrightarrow> pr_bit p' r" and "pr_ov_flag p \<Longrightarrow> pr_ov_flag p'"
  using step by (cases; auto simp: proto_simps split: if_splits)+

lemma ov_inv_sender:
  assumes step: "sender_step n s p p'" and inv: "ov_inv p"
  shows "ov_inv p'"
proof -
  have "pr_spc p s \<noteq> SOvFlag \<or> pr_ov_flag p'" and "pr_ov_items p' = pr_ov_items p \<or> pr_spc p' s = SOvFlag"
    using step by (cases; simp)+
  moreover have "pr_spc p' r = SOvFlag" if "pr_spc p r = SOvFlag" "pr_spc p s \<noteq> SOvFlag" for r
    using sender_frame(1) [OF step, of r] that by auto
  ultimately show ?thesis
    using inv sender_adds(5) [OF step] sender_keeps_recv(7) [OF step] unfolding ov_inv_def by metis
qed

lemma ov_inv_recv:
  assumes "recv_step n p p'" "shape_inv n p" "ov_inv p"
  shows "ov_inv p'"
  using assms(1) shape_idle [OF assms(2)] assms(3) by cases (auto simp: ov_inv_def split: if_splits)

lemma bump_step:
  assumes step: "sender_step n s p p'" and flush: "pr_spc p s = SFlush"
  shows "pr_wseq p' = pr_wseq p + 1" "pr_bumps p' = Suc (pr_bumps p)" "pr_fired p'"
    "pr_rpc p \<in> {RRun, RWait, RLeave} \<or> Suc (pr_bumps p) < 2 ^ 32"
    "pr_wseq p = kWakeSeqParked \<Longrightarrow> pr_spc p' s = SWake" "pr_woken p' = pr_woken p"
  using step flush by (cases; simp)+

lemma recheck_inv_sender:
  assumes step: "sender_step n s p p'" and pend: "pend_inv p" and inv: "recheck_inv p"
  shows "recheck_inv p'"
proof (cases "pr_spc p s = SFlush")
  case True
  note b = bump_step [OF step True] and k = sender_keeps_recv [OF step]
  show ?thesis using inv b(1,2,4) unfolding recheck_inv_def k by auto
next
  case False
  note pg = sender_progress [OF step pend False] and k = sender_keeps_recv [OF step]
    and ad = sender_adds [OF step]
  have cov: "covered p' r i" if "0 < pr_items p' r i" "0 < pr_items p r i \<Longrightarrow> covered p r i" for r i
  proof (cases "pr_items p r i < pr_items p' r i")
    case True
    then show ?thesis using ad(1) by (simp add: covered_def)
  next
    case False
    then have "covered p r i" using that ad(3) [of r i] by simp
    then show ?thesis using pg(1) [of r] ad(4) [of r] unfolding covered_def k by blast
  qed
  have ov: "(\<exists>r. sending p' r) \<or> pr_ov_items p' = pr_ov_items p"
  proof (cases "pr_ov_items p < pr_ov_items p'")
    case False
    moreover have "pr_ov_items p \<le> pr_ov_items p'" using step by cases auto
    ultimately show ?thesis by simp
  qed (use ad(2) in blast)
  show ?thesis
    using inv cov ov pg ad(5) unfolding recheck_inv_def k by metis
qed

lemma ov_sending:
  assumes "ov_inv p" "pr_ov_items p \<noteq> 0" "\<not> pr_ov_flag p" "pr_ov p \<noteq> OvTaken"
  shows "\<exists>s. sending p s"
proof -
  obtain r where "pr_spc p r = SOvFlag" using assms by (auto simp: ov_inv_def)
  then have "sending p r" by (simp add: sending_def)
  then show ?thesis by blast
qed

lemma recheck_inv_begin:
  assumes sh: "shape_inv n p" and act: "active_inv p" and it: "items_inv p" and ov: "ov_inv p"
    and run: "pr_rpc p = RRun"
  shows "recheck_inv (p\<lparr>pr_rpc := RDrain, pr_words := {..<word_count n}, pr_taken := {}, pr_got := False,
                     pr_ov := OvUnread, pr_parking := park, pr_seq := pr_wseq p, pr_bumps := 0\<rparr>)"
    (is "recheck_inv ?p'")
proof -
  have cov: "covered ?p' r k" if "0 < pr_items p r k" for r k
  proof (cases "pr_active p r")
    case True
    have "r < n" using shape_items [OF sh that] by simp
    then have "(r + 64) div 64 \<le> (n + 63) div 64" by (intro div_le_mono) simp
    then have "r div 64 < word_count n" by (simp add: word_count_def)
    with active_token [OF act True] shape_idle(1) [OF sh run] run show ?thesis
      by (auto simp: covered_def sending_def)
  next
    case False
    with items_published [OF it that] run show ?thesis by (auto simp: covered_def sending_def owes_def)
  qed
  have "pr_ov_items p \<noteq> 0 \<longrightarrow> pr_ov_flag p \<or> (\<exists>s. sending p s)"
    using ov_sending [OF ov] shape_idle(1) [OF sh run] by auto
  moreover have "sending ?p' = sending p" by (rule ext) (simp add: sending_def)
  ultimately show ?thesis using cov by (cases park) (auto simp: recheck_inv_def)
qed

lemma recv_sending: "recv_step n p p' \<Longrightarrow> sending p' r = sending p r"
  by (erule recv_step.cases) (simp_all add: sending_def)

lemma recheck_covered_recv:
  assumes step: "recv_step n p p'" and sh: "shape_inv n p" and ne: "pr_rpc p \<noteq> RRun"
    and pos: "0 < pr_items p' r k" and cov: "0 < pr_items p r k \<Longrightarrow> covered p r k"
    and dr: "pr_rpc p' \<notin> {RRun, RWait, RLeave}"
  shows "covered p' r k"
proof -
  have pos0: "0 < pr_items p r k" using step pos by cases (auto split: if_splits)
  have rn: "r < n" "k < 3" using shape_items [OF sh pos0] by auto
  note c = cov [OF pos0, unfolded covered_def] and sd = recv_sending [OF step, of r]
  show ?thesis
    using step c rn ne dr pos unfolding covered_def sd
    by cases (auto simp: not_less_eq_eq split: if_splits)
qed

lemma recheck_ov_recv:
  assumes step: "recv_step n p p'" and ov: "ov_inv p" and ne: "pr_rpc p \<noteq> RRun"
    and c: "pr_ov_items p \<noteq> 0 \<Longrightarrow> pr_got p \<or> (\<exists>s. sending p s) \<or> pr_ov p = OvTaken \<or>
              (pr_ov p = OvUnread \<and> pr_ov_flag p)"
    and pos: "pr_ov_items p' \<noteq> 0"
  shows "pr_got p' \<or> (\<exists>s. sending p' s) \<or> pr_ov p' = OvTaken \<or> (pr_ov p' = OvUnread \<and> pr_ov_flag p')"
proof -
  have sd: "sending p' r = sending p r" for r by (rule recv_sending [OF step])
  note fl = ov_sending [OF ov]
  show ?thesis
    using step ne pos c fl unfolding sd by cases (auto split: if_splits)
qed

lemma recheck_inv_recv:
  assumes step: "recv_step n p p'" and sh: "shape_inv n p" and act: "active_inv p"
    and it: "items_inv p" and ov: "ov_inv p" and inv: "recheck_inv p"
  shows "recheck_inv p'"
proof (cases "pr_rpc p = RRun")
  case True
  show ?thesis
    using step recheck_inv_begin [OF sh act it ov True] True by cases auto
next
  case False
  show ?thesis
    unfolding recheck_inv_def
  proof (intro impI)
    assume pk: "pr_parking p'" and dr: "pr_rpc p' \<notin> {RRun, RWait, RLeave}"
    have same: "pr_parking p" "pr_rpc p \<notin> {RRun, RWait, RLeave}" "pr_bumps p' = pr_bumps p"
      "pr_wseq p' = pr_wseq p" "pr_seq p' = pr_seq p"
      using step pk dr False by (cases; simp)+
    note i = inv [unfolded recheck_inv_def, rule_format, OF same(1,2)]
    have "covered p' r k" if "pr_bumps p = 0" "0 < pr_items p' r k" for r k
      using recheck_covered_recv [OF step sh False that(2) _ dr] i that(1) by blast
    moreover have "pr_got p' \<or> (\<exists>s. sending p' s) \<or> pr_ov p' = OvTaken \<or> (pr_ov p' = OvUnread \<and> pr_ov_flag p')"
      if "pr_bumps p = 0" "pr_ov_items p' \<noteq> 0"
      using recheck_ov_recv [OF step ov False _ that(2)] i that(1) by blast
    ultimately show "pr_bumps p' < 2 ^ 32 \<and> pr_wseq p' = pr_seq p' + of_nat (pr_bumps p') \<and>
        (pr_bumps p' = 0 \<longrightarrow>
           (\<forall>s k. 0 < pr_items p' s k \<longrightarrow> covered p' s k) \<and>
           (pr_ov_items p' \<noteq> 0 \<longrightarrow> pr_got p' \<or> (\<exists>s. sending p' s) \<or> pr_ov p' = OvTaken \<or>
              (pr_ov p' = OvUnread \<and> pr_ov_flag p')))"
      using i same by simp
  qed
qed

lemma parked_inv_sender:
  assumes step: "sender_step n s p p'" and pend: "pend_inv p" and inv: "parked_inv p"
  shows "parked_inv p'"
proof (cases "pr_spc p s = SFlush")
  case True
  note b = bump_step [OF step True] and k = sender_keeps_recv [OF step]
  have "pr_spc p' r = SWake" if "pr_spc p r = SWake" for r
    using sender_frame(1) [OF step, of r] that True by (cases "r = s") auto
  then show ?thesis using inv b unfolding parked_inv_def k by metis
next
  case False
  note pg = sender_progress [OF step pend False] and k = sender_keeps_recv [OF step]
    and ad = sender_adds [OF step]
  have wk: "pr_woken p' \<or> pr_spc p' r = SWake" if "pr_woken p \<or> pr_spc p r = SWake" for r
    using step that by cases auto
  have it: "sending p' r" if "0 < pr_items p' r i" "0 < pr_items p r i \<Longrightarrow> sending p r" for r i
  proof (cases "pr_items p r i < pr_items p' r i")
    case False
    then have "sending p r" using that ad(3) [of r i] by simp
    then show ?thesis by (rule pg(1))
  qed (use ad(1) in blast)
  have ov: "(\<exists>r. sending p' r) \<or> pr_ov_items p' = pr_ov_items p"
  proof (cases "pr_ov_items p < pr_ov_items p'")
    case False
    moreover have "pr_ov_items p \<le> pr_ov_items p'" using step by cases auto
    ultimately show ?thesis by simp
  qed (use ad(2) in blast)
  show ?thesis using inv wk it ov pg unfolding parked_inv_def k by metis
qed

lemma parked_inv_recv:
  assumes step: "recv_step n p p'" and sh: "shape_inv n p" and rc: "recheck_inv p" and inv: "parked_inv p"
  shows "parked_inv p'"
  using step
proof cases
  case cas_parked
  note id = shape_idle(2) [OF sh cas_parked(2)]
  have b: "pr_bumps p < 2 ^ 32" "pr_wseq p = pr_seq p + of_nat (pr_bumps p)"
    and c: "pr_bumps p = 0 \<longrightarrow> (\<forall>s k. 0 < pr_items p s k \<longrightarrow> covered p s k) \<and>
       (pr_ov_items p \<noteq> 0 \<longrightarrow> pr_got p \<or> (\<exists>s. sending p s) \<or> pr_ov p = OvTaken \<or>
              (pr_ov p = OvUnread \<and> pr_ov_flag p))"
    using rc id cas_parked(2) by (auto simp: recheck_inv_def)
  have "(of_nat (pr_bumps p) :: u32) = 0" using b(2) cas_parked(3) by simp
  moreover have "unat (of_nat (pr_bumps p) :: u32) = pr_bumps p" using b(1) by (simp add: unat_of_nat)
  ultimately have "pr_bumps p = 0" by simp
  then have i: "0 < pr_items p s k \<Longrightarrow> sending p s" "pr_ov_items p \<noteq> 0 \<Longrightarrow> \<exists>s. sending p s" for s k
    using c id cas_parked(2) by (auto simp: covered_def)
  have "sending p' = sending p" by (rule ext) (rule recv_sending [OF step])
  then show ?thesis using i cas_parked by (simp add: parked_inv_def)
qed (use inv in \<open>auto simp: parked_inv_def split: if_splits\<close>)

definition proto_inv :: "nat \<Rightarrow> proto \<Rightarrow> bool" where
  "proto_inv n p \<longleftrightarrow> shape_inv n p \<and> active_inv p \<and> items_inv p \<and> ov_inv p \<and> pend_inv p \<and>
     recheck_inv p \<and> parked_inv p"

lemma proto_inv_init: "proto_inv n proto_init"
  by (simp add: proto_inv_def proto_init_def shape_inv_def active_inv_def items_inv_def ov_inv_def
      pend_inv_def recheck_inv_def parked_inv_def)

lemma proto_inv_step:
  assumes "proto_step n p p'" "proto_inv n p"
  shows "proto_inv n p'"
  using assms(1)
proof cases
  case (by_sender s)
  then show ?thesis
    using assms(2) shape_inv_sender active_inv_sender items_inv_sender ov_inv_sender pend_inv_sender
      recheck_inv_sender parked_inv_sender unfolding proto_inv_def by meson
next
  case by_receiver
  then show ?thesis
    using assms(2) shape_inv_recv active_inv_recv items_inv_recv ov_inv_recv pend_inv_recv
      recheck_inv_recv parked_inv_recv unfolding proto_inv_def by meson
qed

lemma proto_inv_reach: "proto_reach n p \<Longrightarrow> proto_inv n p"
  by (induction rule: rtranclp_induct) (auto intro: proto_inv_init proto_inv_step)

section \<open>Properties\<close>

text \<open>
  C1: No wake-up is lost. In every interleaving, if the receiver is blocked and a message waits for
  it, in a lane or in the overflow queue, then a wake message has been sent to it, or some
  sender is about to send one, or some sender has not finished the flush that follows its
  posts. A receiver is never left parked with work and everyone else done.
\<close>

theorem no_lost_wakeup:
  assumes "proto_reach n p" and "pr_rpc p = RWait"
    and "0 < pr_items p s k \<or> 0 < pr_ov_items p"
  shows "pr_woken p \<or> (\<exists>r. pr_spc p r = SWake) \<or> (\<exists>r. sending p r)"
  using proto_inv_reach [OF assms(1)] assms(2,3) unfolding proto_inv_def parked_inv_def by (metis gr_implies_not0)

text \<open>A receiver parks; then its only sender posts.\<close>

theorem no_lost_wakeup_witness:
  "\<exists>p. proto_reach 1 p \<and> pr_rpc p = RWait \<and> 0 < pr_items p 0 0 \<and>
       (pr_woken p \<or> (\<exists>r. pr_spc p r = SWake) \<or> (\<exists>r. sending p r))"
proof -
  let ?p1 = "proto_init\<lparr>pr_rpc := RDrain, pr_words := {..<word_count 1}, pr_taken := {}, pr_got := False,
               pr_ov := OvUnread, pr_parking := True, pr_seq := 0, pr_bumps := 0\<rparr>"
  let ?p2 = "?p1\<lparr>pr_words := {}, pr_bit := \<lambda>s. pr_bit ?p1 s \<and> s div 64 \<noteq> 0\<rparr>"
  let ?p3 = "?p2\<lparr>pr_ov := OvDone, pr_ov_flag := False\<rparr>"
  let ?p5 = "?p3\<lparr>pr_wseq := kWakeSeqParked, pr_rpc := RWait, pr_fired := False\<rparr>"
  let ?p6 = "?p5\<lparr>pr_items := (pr_items ?p5)(0 := (pr_items ?p5 0)(0 := 1)), pr_pend := (pr_pend ?p5)(0 := 1),
                 pr_spc := (pr_spc ?p5)(0 := SActivate False)\<rparr>"
  have w: "word_count 1 = 1" by (simp add: word_count_def)
  have "proto_step 1 proto_init ?p1"
    using by_receiver [OF drain_begin [of proto_init 1 True]] by (simp add: proto_init_def)
  moreover have "proto_step 1 ?p1 ?p2"
    using by_receiver [OF take_word [of ?p1 0 1]] w by (simp add: proto_init_def lessThan_Suc)
  moreover have "proto_step 1 ?p2 ?p3"
    using by_receiver [OF ov_read [of ?p2 1]] by (simp add: proto_init_def)
  moreover have "proto_step 1 ?p3 (?p3\<lparr>pr_rpc := RCas\<rparr>)"
    using by_receiver [OF drain_end [of ?p3 1]] by (simp add: proto_init_def)
  moreover have "proto_step 1 (?p3\<lparr>pr_rpc := RCas\<rparr>) ?p5"
    using by_receiver [OF cas_parked [of "?p3\<lparr>pr_rpc := RCas\<rparr>" 1]] by (simp add: proto_init_def)
  moreover have "proto_step 1 ?p5 ?p6"
    using by_sender [OF post_ring [of 0 1 0 ?p5]] by (simp add: proto_init_def mark_wake_def)
  ultimately have r: "proto_reach 1 ?p6" by (meson converse_rtranclp_into_rtranclp rtranclp.rtrancl_refl)
  have "pr_rpc ?p6 = RWait" "0 < pr_items ?p6 0 0" by simp_all
  with no_lost_wakeup [OF r, of 0 0] r show ?thesis by blast
qed

text \<open>
  C3: No work is left unpublished. When the receiver is between two drains and a sender has
  completed the flush of its round, every lane of that sender that holds a message has its
  bit set in the receiver's bitmap, so the next drain visits it; and if all senders have
  completed theirs, a message in the overflow queue has the overflow flag set.
\<close>

theorem quiescent_work_is_published:
  assumes "proto_reach n p" and "pr_rpc p = RRun"
  shows "(\<forall>s k. 0 < pr_items p s k \<longrightarrow> \<not> sending p s \<longrightarrow> pr_bit p s \<and> s < n)
    \<and> (0 < pr_ov_items p \<longrightarrow> (\<forall>r. \<not> sending p r) \<longrightarrow> pr_ov_flag p)"
proof -
  have inv: "shape_inv n p" "active_inv p" "items_inv p" "ov_inv p"
    using proto_inv_reach [OF assms(1)] by (auto simp: proto_inv_def)
  note id = shape_idle(1) [OF inv(1) assms(2)]
  have "pr_bit p s \<and> s < n" if it: "0 < pr_items p s k" and q: "\<not> sending p s" for s k
  proof -
    have "pr_active p s"
    proof (rule ccontr)
      assume "\<not> pr_active p s"
      from items_published [OF inv(3) it this] assms(2) q show False by (auto simp: owes_def sending_def)
    qed
    from active_token [OF inv(2) this] id assms(2) q have "pr_bit p s" by (auto simp: sending_def)
    then show ?thesis using shape_items [OF inv(1) it] by simp
  qed
  moreover have "pr_ov_flag p" if "0 < pr_ov_items p" "\<forall>r. \<not> sending p r"
    using ov_sending [OF inv(4)] id that by auto
  ultimately show ?thesis by blast
qed

text \<open>A sender posts one message, publishes it and flushes.\<close>

theorem quiescent_work_is_published_witness:
  "\<exists>p. proto_reach 1 p \<and> pr_rpc p = RRun \<and> 0 < pr_items p 0 0 \<and> \<not> sending p 0 \<and> pr_bit p 0"
proof -
  let ?p1 = "proto_init\<lparr>pr_items := (pr_items proto_init)(0 := (pr_items proto_init 0)(0 := 1)),
               pr_pend := (pr_pend proto_init)(0 := 1),
               pr_spc := (pr_spc proto_init)(0 := SActivate False)\<rparr>"
  let ?p2 = "?p1\<lparr>pr_active := (pr_active ?p1)(0 := True), pr_spc := (pr_spc ?p1)(0 := SSetBit False)\<rparr>"
  let ?p3 = "?p2\<lparr>pr_bit := (pr_bit ?p2)(0 := True), pr_spc := (pr_spc ?p2)(0 := SIdle)\<rparr>"
  let ?p4 = "?p3\<lparr>pr_spc := (pr_spc ?p3)(0 := SFlush)\<rparr>"
  let ?p5 = "?p4\<lparr>pr_pend := (pr_pend ?p4)(0 := 0), pr_wseq := 1, pr_spc := (pr_spc ?p4)(0 := SIdle),
                 pr_bumps := 1, pr_fired := True\<rparr>"
  have "proto_step 1 proto_init ?p1"
    using by_sender [OF post_ring [of 0 1 0 proto_init]] by (simp add: proto_init_def mark_wake_def)
  moreover have "proto_step 1 ?p1 ?p2"
    using by_sender [OF activate [of ?p1 0 False 1]] by (simp add: proto_init_def)
  moreover have "proto_step 1 ?p2 ?p3"
    using by_sender [OF set_bit [of ?p2 0 False 1]] by (simp add: proto_init_def after_publish_def)
  moreover have "proto_step 1 ?p3 ?p4"
    using by_sender [OF flush [of ?p3 0 1]] by (simp add: proto_init_def)
  moreover have "proto_step 1 ?p4 ?p5"
    using by_sender [OF bump [of ?p4 0 1]] by (simp add: proto_init_def kWakeSeqParked_def)
  ultimately have r: "proto_reach 1 ?p5" by (meson converse_rtranclp_into_rtranclp rtranclp.rtrancl_refl)
  have q: "pr_rpc ?p5 = RRun" "0 < pr_items ?p5 0 0" "\<not> sending ?p5 0"
    by (simp_all add: proto_init_def sending_def)
  with quiescent_work_is_published [OF r q(1)] r show ?thesis by blast
qed

end
