(* ===== verification/Scheduler.thy ===== *)
theory Scheduler
  imports Bycorf_Prelude
begin

text \<open>
  The cooperative scheduler of a worker, \<open>src/runtime/worker.cpp\<close>: task registration and
  detached-frame bookkeeping, the ready and deferred queues, the two bounded drain loops, the
  background warrant and the runtime window. Queues are lists here; that the inline ring queues
  behave as lists is shown in the theory of the ring. What a coroutine does when it is resumed
  and what a remote work item does when it runs are parameters.
\<close>

section \<open>State\<close>

type_synonym handle = nat

text \<open>The null handle is 0.\<close>

record ready_task =
  rt_handle :: handle
  rt_destroy_when_done :: bool

datatype task_class = Foreground | Background

record ('w, 'x) sched =
  sc_ready :: "ready_task list"
  sc_next_ready :: "ready_task list"
  sc_fg_remote :: "'w list"
  sc_bg_ready :: "ready_task list"
  sc_next_bg_ready :: "ready_task list"
  sc_bg_remote :: "'w list"
  sc_bg_tasks :: "handle list"
  sc_detached :: "handle list"
  sc_index :: "handle \<Rightarrow> u32"
  sc_fg_turn :: bool
  sc_bg_turn :: bool
  sc_bg_deadline :: int
  sc_fg_runtime :: u64
  sc_bg_runtime :: u64
  sc_window :: u64
  sc_warrant :: u32
  sc_class :: task_class
  sc_stop_requested :: bool
  sc_stopping :: bool
  sc_destroyed :: "handle list"
  sc_world :: 'x

text \<open>
  \<open>sc_index\<close> is the promise field \<open>detached_index_\<close> of each frame, \<open>sc_class\<close> the thread-local
  task class, \<open>sc_destroyed\<close> the frames destroyed so far, in order, and \<open>sc_world\<close> everything
  else the code of a coroutine can touch.
\<close>

definition kNotDetached :: u32 where "kNotDetached = - 1"

section \<open>Task registration\<close>

definition IsBackground :: "handle \<Rightarrow> ('w, 'x) sched \<Rightarrow> bool" where
  "IsBackground h s \<longleftrightarrow> h \<noteq> 0 \<and> sc_bg_tasks s \<noteq> [] \<and> h \<in> set (sc_bg_tasks s)"

definition RegisterBackground :: "handle \<Rightarrow> ('w, 'x) sched \<Rightarrow> ('w, 'x) sched" where
  "RegisterBackground h s =
     (if h = 0 \<or> IsBackground h s then s else s\<lparr>sc_bg_tasks := sc_bg_tasks s @ [h]\<rparr>)"

text \<open>\<open>std::find\<close>: the index of the first occurrence, or the length.\<close>

fun find_index :: "'a \<Rightarrow> 'a list \<Rightarrow> nat" where
  "find_index x [] = 0"
| "find_index x (y # ys) = (if x = y then 0 else Suc (find_index x ys))"

text \<open>\<open>*found = v.back(); v.pop_back()\<close>.\<close>

definition swap_remove :: "nat \<Rightarrow> 'a list \<Rightarrow> 'a list" where
  "swap_remove i xs = butlast (xs[i := last xs])"

definition ForgetScheduling :: "handle \<Rightarrow> ('w, 'x) sched \<Rightarrow> ('w, 'x) sched" where
  "ForgetScheduling h s =
     (if h = 0 \<or> sc_bg_tasks s = [] then s
      else let found = find_index h (sc_bg_tasks s) in
        if found \<noteq> length (sc_bg_tasks s)
        then s\<lparr>sc_bg_tasks := swap_remove found (sc_bg_tasks s)\<rparr> else s)"

definition RegisterDetached :: "handle \<Rightarrow> ('w, 'x) sched \<Rightarrow> ('w, 'x) sched" where
  "RegisterDetached h s =
     s\<lparr>sc_index := (sc_index s)(h := of_nat (length (sc_detached s))),
       sc_detached := sc_detached s @ [h]\<rparr>"

definition ForgetDetached :: "handle \<Rightarrow> ('w, 'x) sched \<Rightarrow> ('w, 'x) sched" where
  "ForgetDetached h s =
     (if h = 0 then s
      else let index = sc_index s h in
        if index = kNotDetached then s
        else let s1 = s\<lparr>sc_index := (sc_index s)(h := kNotDetached),
                        sc_detached := swap_remove (unat index) (sc_detached s)\<rparr>
             in if unat index \<noteq> length (sc_detached s1)
                then s1\<lparr>sc_index := (sc_index s1)(sc_detached s1 ! unat index := index)\<rparr>
                else s1)"

text \<open>\<open>handle.destroy()\<close>.\<close>

definition destroy :: "handle \<Rightarrow> ('w, 'x) sched \<Rightarrow> ('w, 'x) sched" where
  "destroy h s = s\<lparr>sc_destroyed := sc_destroyed s @ [h]\<rparr>"

definition DestroyDetachedTasks :: "('w, 'x) sched \<Rightarrow> ('w, 'x) sched" where
  "DestroyDetachedTasks s =
     (fold (\<lambda>h t. destroy h (ForgetScheduling h t)) (sc_detached s) (s\<lparr>sc_detached := []\<rparr>))
       \<lparr>sc_bg_tasks := []\<rparr>"

section \<open>Queues\<close>

definition sc_Enqueue :: "handle \<Rightarrow> bool \<Rightarrow> ('w, 'x) sched \<Rightarrow> ('w, 'x) sched" where
  "sc_Enqueue h dwd s =
     (if h = 0 then s
      else let ready = \<lparr>rt_handle = h, rt_destroy_when_done = dwd\<rparr> in
        if IsBackground h s then s\<lparr>sc_bg_ready := sc_bg_ready s @ [ready]\<rparr>
        else s\<lparr>sc_ready := sc_ready s @ [ready]\<rparr>)"

definition EnqueueNext :: "handle \<Rightarrow> ('w, 'x) sched \<Rightarrow> ('w, 'x) sched" where
  "EnqueueNext h s =
     (if h = 0 then s
      else let ready = \<lparr>rt_handle = h, rt_destroy_when_done = False\<rparr> in
        if IsBackground h s then s\<lparr>sc_next_bg_ready := sc_next_bg_ready s @ [ready]\<rparr>
        else s\<lparr>sc_next_ready := sc_next_ready s @ [ready]\<rparr>)"

definition Spawn :: "handle \<Rightarrow> ('w, 'x) sched \<Rightarrow> ('w, 'x) sched" where
  "Spawn h s =
     (if h = 0 then s
      else let s1 = ForgetScheduling h s in
        if sc_stop_requested s1 \<or> sc_stopping s1 then destroy h s1
        else sc_Enqueue h False (RegisterDetached h s1))"

definition SpawnRoot :: "handle \<Rightarrow> ('w, 'x) sched \<Rightarrow> ('w, 'x) sched" where
  "SpawnRoot h s =
     (if h = 0 then s
      else if sc_stop_requested s \<or> sc_stopping s then destroy h s
      else sc_Enqueue h False (RegisterDetached h s))"

definition SpawnBackground :: "handle \<Rightarrow> ('w, 'x) sched \<Rightarrow> ('w, 'x) sched" where
  "SpawnBackground h s =
     (if h = 0 then s
      else if sc_stop_requested s \<or> sc_stopping s then destroy h s
      else sc_Enqueue h False (RegisterDetached h (RegisterBackground h s)))"

definition SpawnOnCurrentWorker :: "handle \<Rightarrow> ('w, 'x) sched \<Rightarrow> ('w, 'x) sched" where
  "SpawnOnCurrentWorker h s = (if sc_class s = Background then SpawnBackground h s else Spawn h s)"

definition sc_NotifyWake :: "('w, 'x) sched \<Rightarrow> bool \<times> ('w, 'x) sched" where
  "sc_NotifyWake s =
     (let s1 = (if sc_stop_requested s then s\<lparr>sc_stopping := True\<rparr> else s) in (sc_stopping s1, s1))"

text \<open>\<open>while (!from.empty()) { to.push_back(from.front()); from.pop_front(); }\<close>\<close>

fun move_all :: "'a list \<Rightarrow> 'a list \<Rightarrow> 'a list" where
  "move_all [] to = to"
| "move_all (r # from) to = move_all from (to @ [r])"

definition MergeDeferred :: "('w, 'x) sched \<Rightarrow> ('w, 'x) sched" where
  "MergeDeferred s =
     s\<lparr>sc_ready := move_all (sc_next_ready s) (sc_ready s), sc_next_ready := [],
       sc_bg_ready := move_all (sc_next_bg_ready s) (sc_bg_ready s), sc_next_bg_ready := []\<rparr>"

section \<open>Resuming\<close>

text \<open>
  The code that runs on a worker is a parameter: whether a coroutine has finished, what resuming
  it until its next suspension does, what a remote work item does, whether it deferred its reply,
  and how a reply is posted.
\<close>

record ('w, 'x) code =
  co_done :: "handle \<Rightarrow> ('w, 'x) sched \<Rightarrow> bool"
  co_resume :: "handle \<Rightarrow> ('w, 'x) sched \<Rightarrow> ('w, 'x) sched"
  co_run_fn :: "'w \<Rightarrow> ('w, 'x) sched \<Rightarrow> ('w, 'x) sched"
  co_reply_deferred :: "'w \<Rightarrow> ('w, 'x) sched \<Rightarrow> bool"
  co_PostReply :: "'w \<Rightarrow> ('w, 'x) sched \<Rightarrow> ('w, 'x) sched"

definition RunRemoteWork :: "('w, 'x) code \<Rightarrow> 'w \<Rightarrow> ('w, 'x) sched \<Rightarrow> ('w, 'x) sched" where
  "RunRemoteWork co work s =
     (let s1 = co_run_fn co work s in
      if \<not> co_reply_deferred co work s1 then co_PostReply co work s1 else s1)"

text \<open>\<open>TaskClassGuard\<close>: the previous class is restored when the scope ends.\<close>

definition with_class :: "task_class \<Rightarrow> (('w, 'x) sched \<Rightarrow> ('w, 'x) sched) \<Rightarrow> ('w, 'x) sched \<Rightarrow> ('w, 'x) sched" where
  "with_class c f s = (f (s\<lparr>sc_class := c\<rparr>))\<lparr>sc_class := sc_class s\<rparr>"

definition ResumeReady ::
  "('w, 'x) code \<Rightarrow> ready_task \<Rightarrow> task_class \<Rightarrow>
   ('w, 'x) sched \<Rightarrow> ('w, 'x) sched" where
  "ResumeReady co ready c s =
     (let h = rt_handle ready in
      if co_done co h s
      then if rt_destroy_when_done ready then destroy h (ForgetDetached h (ForgetScheduling h s)) else s
      else with_class c (co_resume co h) s)"

text \<open>One round of \<open>DrainReadyUntil\<close>; the flag tells whether the round ran remote work.\<close>

definition fg_round ::
  "('w, 'x) code \<Rightarrow> ('w, 'x) sched \<Rightarrow> bool \<times> ('w, 'x) sched" where
  "fg_round co s =
     (let run_remote = (sc_fg_remote s \<noteq> [] \<and> (sc_ready s = [] \<or> sc_fg_turn s));
          s1 = (if run_remote
                then with_class Foreground (RunRemoteWork co (hd (sc_fg_remote s))) (s\<lparr>sc_fg_remote := tl (sc_fg_remote s)\<rparr>)
                else ResumeReady co (hd (sc_ready s)) Foreground (s\<lparr>sc_ready := tl (sc_ready s)\<rparr>))
      in (run_remote, s1\<lparr>sc_fg_turn := \<not> sc_fg_turn s1\<rparr>))"

definition bg_round ::
  "('w, 'x) code \<Rightarrow> ('w, 'x) sched \<Rightarrow> bool \<times> ('w, 'x) sched" where
  "bg_round co s =
     (let run_remote = (sc_bg_remote s \<noteq> [] \<and> (sc_bg_ready s = [] \<or> sc_bg_turn s));
          s1 = (if run_remote
                then with_class Background (RunRemoteWork co (hd (sc_bg_remote s))) (s\<lparr>sc_bg_remote := tl (sc_bg_remote s)\<rparr>)
                else ResumeReady co (hd (sc_bg_ready s)) Background (s\<lparr>sc_bg_ready := tl (sc_bg_ready s)\<rparr>))
      in (run_remote, s1\<lparr>sc_bg_turn := \<not> sc_bg_turn s1\<rparr>))"

text \<open>
  The drain loops. \<open>clock k\<close> is the cycle counter read after the \<open>k\<close>-th item; \<open>fuel\<close> bounds the
  number of items and \<open>None\<close> is a loop cut short.
\<close>

fun DrainReadyUntil ::
  "('w, 'x) code \<Rightarrow> (nat \<Rightarrow> int) \<Rightarrow> int \<Rightarrow> nat \<Rightarrow> nat \<Rightarrow> ('w, 'x) sched \<Rightarrow> (nat \<times> ('w, 'x) sched) option" where
  "DrainReadyUntil co clock deadline fuel resumed s =
     (if sc_ready s = [] \<and> sc_fg_remote s = [] then Some (resumed, s)
      else case fuel of
        0 \<Rightarrow> None
      | Suc k \<Rightarrow>
          let s1 = snd (fg_round co s) in
          if deadline \<le> clock resumed then Some (resumed + 1, s1)
          else DrainReadyUntil co clock deadline k (resumed + 1) s1)"

declare DrainReadyUntil.simps [simp del]

fun bg_loop ::
  "('w, 'x) code \<Rightarrow> (nat \<Rightarrow> int) \<Rightarrow> int \<Rightarrow> nat \<Rightarrow> nat \<Rightarrow> ('w, 'x) sched \<Rightarrow> (nat \<times> ('w, 'x) sched) option" where
  "bg_loop co clock deadline fuel resumed s =
     (if sc_bg_ready s = [] \<and> sc_bg_remote s = [] then Some (resumed, s)
      else case fuel of
        0 \<Rightarrow> None
      | Suc k \<Rightarrow>
          let s1 = snd (bg_round co s) in
          if deadline \<le> clock resumed then Some (resumed + 1, s1)
          else bg_loop co clock deadline k (resumed + 1) s1)"

declare bg_loop.simps [simp del]

definition DrainBackgroundUntil ::
  "('w, 'x) code \<Rightarrow> (nat \<Rightarrow> int) \<Rightarrow> int \<Rightarrow> nat \<Rightarrow> ('w, 'x) sched \<Rightarrow> (nat \<times> ('w, 'x) sched) option" where
  "DrainBackgroundUntil co clock deadline fuel s =
     map_option (\<lambda>(n, t). (n, t\<lparr>sc_bg_deadline := 0\<rparr>))
       (bg_loop co clock deadline fuel 0 (s\<lparr>sc_bg_deadline := deadline\<rparr>))"

text \<open>\<open>BackgroundBudgetExpired\<close> and \<open>YieldAwaiter::await_ready\<close>, with the counter reading given.\<close>

definition BackgroundBudgetExpired :: "int \<Rightarrow> ('w, 'x) sched \<Rightarrow> bool" where
  "BackgroundBudgetExpired now s \<longleftrightarrow> sc_bg_deadline s = 0 \<or> sc_bg_deadline s \<le> now"

definition yield_await_ready :: "int \<Rightarrow> ('w, 'x) sched \<Rightarrow> bool" where
  "yield_await_ready now s \<longleftrightarrow> sc_class s = Background \<and> \<not> BackgroundBudgetExpired now s"

section \<open>Budgets\<close>

definition ShouldRunBackground :: "('w, 'x) sched \<Rightarrow> bool" where
  "ShouldRunBackground s \<longleftrightarrow>
     (if sc_bg_ready s = [] \<and> sc_bg_remote s = [] then False
      else if sc_ready s = [] \<and> sc_fg_remote s = [] then True
      else if sc_fg_runtime s = 0 then True
      else let cycles = sc_fg_runtime s + sc_bg_runtime s;
               warrant = cycles * ucast (sc_warrant s) div 100
           in sc_bg_runtime s \<le> warrant)"

definition MaybeResetRuntimeWindow :: "('w, 'x) sched \<Rightarrow> ('w, 'x) sched" where
  "MaybeResetRuntimeWindow s =
     (let cycles = sc_fg_runtime s + sc_bg_runtime s in
      if sc_window s \<le> cycles \<and> (sc_bg_runtime s \<le> sc_fg_runtime s \<or> 5 * sc_window s \<le> cycles)
      then s\<lparr>sc_fg_runtime := 0, sc_bg_runtime := 0\<rparr> else s)"

section \<open>Registration\<close>

lemma find_index_in: "x \<in> set xs \<Longrightarrow> find_index x xs < length xs \<and> xs ! find_index x xs = x"
  by (induction xs) auto

lemma find_index_out: "x \<notin> set xs \<Longrightarrow> find_index x xs = length xs"
  by (induction xs) auto

lemma swap_remove_length [simp]: "length (swap_remove i xs) = length xs - 1"
  by (simp add: swap_remove_def)

lemma swap_remove_nth:
  "j < length xs - 1 \<Longrightarrow> swap_remove i xs ! j = (if j = i then last xs else xs ! j)"
  by (auto simp: swap_remove_def nth_butlast nth_list_update)

lemma swap_remove_snoc:
  "i \<le> length ys \<Longrightarrow> swap_remove i (ys @ [y]) = (if i = length ys then ys else ys[i := y])"
  by (auto simp: swap_remove_def list_update_append)

lemma swap_remove_mset:
  assumes "i < length xs"
  shows "mset xs = add_mset (xs ! i) (mset (swap_remove i xs))"
proof -
  obtain ys y where xs: "xs = ys @ [y]" using assms by (metis append_butlast_last_id gr_implies_not0 length_0_conv)
  show ?thesis
    using assms by (auto simp: xs swap_remove_snoc nth_append mset_update less_Suc_eq)
qed

lemma swap_remove_set:
  assumes "i < length xs" "distinct xs"
  shows "set (swap_remove i xs) = set xs - {xs ! i}" "distinct (swap_remove i xs)"
proof -
  have m: "mset xs = mset (xs ! i # swap_remove i xs)" using swap_remove_mset [OF assms(1)] by simp
  then have "distinct (xs ! i # swap_remove i xs)" using assms(2) by (metis mset_eq_imp_distinct_iff)
  moreover have "set xs = set (xs ! i # swap_remove i xs)" using m by (metis mset_eq_setD)
  ultimately show "set (swap_remove i xs) = set xs - {xs ! i}" "distinct (swap_remove i xs)" by auto
qed

lemma IsBackground_iff: "IsBackground h s \<longleftrightarrow> h \<noteq> 0 \<and> h \<in> set (sc_bg_tasks s)"
  by (auto simp: IsBackground_def)

lemma ForgetScheduling_bg_tasks:
  assumes "distinct (sc_bg_tasks s)" "h \<noteq> 0"
  shows "set (sc_bg_tasks (ForgetScheduling h s)) = set (sc_bg_tasks s) - {h}"
    and "distinct (sc_bg_tasks (ForgetScheduling h s))"
proof -
  let ?b = "sc_bg_tasks s"
  show "set (sc_bg_tasks (ForgetScheduling h s)) = set ?b - {h}"
  proof (cases "h \<in> set ?b")
    case True
    then show ?thesis
      using assms find_index_in [OF True] swap_remove_set(1) [of "find_index h ?b" ?b]
      by (auto simp: ForgetScheduling_def Let_def)
  qed (use assms find_index_out [of h ?b] in \<open>simp add: ForgetScheduling_def\<close>)
  show "distinct (sc_bg_tasks (ForgetScheduling h s))"
  proof (cases "h \<in> set ?b")
    case True
    then show ?thesis
      using assms find_index_in [OF True] swap_remove_set(2) [of "find_index h ?b" ?b]
      by (auto simp: ForgetScheduling_def Let_def)
  qed (use assms find_index_out [of h ?b] in \<open>simp add: ForgetScheduling_def\<close>)
qed

text \<open>Nothing but the background registry changes.\<close>

lemma ForgetScheduling_frame [simp]:
  "sc_ready (ForgetScheduling h s) = sc_ready s" "sc_next_ready (ForgetScheduling h s) = sc_next_ready s"
  "sc_bg_ready (ForgetScheduling h s) = sc_bg_ready s"
  "sc_next_bg_ready (ForgetScheduling h s) = sc_next_bg_ready s"
  "sc_detached (ForgetScheduling h s) = sc_detached s" "sc_index (ForgetScheduling h s) = sc_index s"
  "sc_destroyed (ForgetScheduling h s) = sc_destroyed s"
  "sc_stop_requested (ForgetScheduling h s) = sc_stop_requested s"
  "sc_stopping (ForgetScheduling h s) = sc_stopping s" "sc_class (ForgetScheduling h s) = sc_class s"
  by (simp_all add: ForgetScheduling_def Let_def)

text \<open>The detached registry: every entry's promise records its own position.\<close>

definition det_inv :: "('w, 'x) sched \<Rightarrow> bool" where
  "det_inv s \<longleftrightarrow> distinct (sc_detached s) \<and> 0 \<notin> set (sc_detached s) \<and>
     length (sc_detached s) \<le> 2 ^ 32 - 1 \<and>
     (\<forall>i < length (sc_detached s). unat (sc_index s (sc_detached s ! i)) = i)"

lemma unat_kNotDetached: "unat kNotDetached = 2 ^ 32 - 1"
  by (simp add: kNotDetached_def unsigned_minus_1_eq_mask mask_eq_exp_minus_1)

lemma RegisterDetached_inv:
  assumes "det_inv s" "h \<notin> set (sc_detached s)" "h \<noteq> 0" "length (sc_detached s) < 2 ^ 32 - 1"
  shows "det_inv (RegisterDetached h s)"
  using assms by (auto simp: det_inv_def RegisterDetached_def nth_append unat_of_nat less_Suc_eq)

lemma ForgetDetached_detached:
  assumes inv: "det_inv s" and i: "i < length (sc_detached s)" "sc_detached s ! i = h"
  shows "sc_detached (ForgetDetached h s) = swap_remove i (sc_detached s)"
    and "sc_index (ForgetDetached h s) = (let f = (sc_index s)(h := kNotDetached) in
           if i = length (sc_detached s) - 1 then f else f(last (sc_detached s) := of_nat i))"
proof -
  have ix: "unat (sc_index s h) = i" using inv i by (auto simp: det_inv_def)
  have h0: "h \<noteq> 0" using inv i by (metis det_inv_def nth_mem)
  have nk: "sc_index s h \<noteq> kNotDetached" using ix i inv unat_kNotDetached by (auto simp: det_inv_def)
  have w: "sc_index s h = of_nat i" using ix by auto
  show "sc_detached (ForgetDetached h s) = swap_remove i (sc_detached s)"
    using h0 nk ix by (simp add: ForgetDetached_def Let_def)
  show "sc_index (ForgetDetached h s) = (let f = (sc_index s)(h := kNotDetached) in
           if i = length (sc_detached s) - 1 then f else f(last (sc_detached s) := of_nat i))"
    using h0 nk ix w i by (auto simp: ForgetDetached_def Let_def swap_remove_nth)
qed

lemma ForgetDetached_inv:
  assumes inv: "det_inv s" and mem: "h \<in> set (sc_detached s)"
  shows "det_inv (ForgetDetached h s)"
    and "set (sc_detached (ForgetDetached h s)) = set (sc_detached s) - {h}"
proof -
  let ?d = "sc_detached s"
  obtain i where i: "i < length ?d" "?d ! i = h" using mem by (metis in_set_conv_nth)
  note fd = ForgetDetached_detached [OF inv i]
  have d: "distinct ?d" using inv by (simp add: det_inv_def)
  note sr = swap_remove_set [OF i(1) d]
  show "set (sc_detached (ForgetDetached h s)) = set ?d - {h}" using sr(1) i by (simp add: fd)
  have pos: "unat (sc_index (ForgetDetached h s) (swap_remove i ?d ! j)) = j" if j: "j < length ?d - 1" for j
  proof (cases "j = i")
    case True
    moreover have "i < 2 ^ 32" using i(1) inv by (auto simp: det_inv_def)
    ultimately show ?thesis using j by (simp add: fd Let_def swap_remove_nth unat_of_nat)
  next
    case False
    have "?d \<noteq> []" using i by auto
    then have "swap_remove i ?d ! j = ?d ! j" "?d ! j \<noteq> h" "?d ! j \<noteq> last ?d"
      using j d i False by (auto simp: swap_remove_nth last_conv_nth nth_eq_iff_index_eq)
    then show ?thesis using j inv by (simp add: fd Let_def det_inv_def)
  qed
  show "det_inv (ForgetDetached h s)"
    using inv sr i(1) pos by (auto simp: det_inv_def fd(1))
qed

section \<open>Frame lifetime\<close>

text \<open>
  The life of a spawned root frame. \<open>Queued\<close> frames wait in a ready queue, \<open>Running\<close> ones are
  being resumed, \<open>Waiting\<close> ones are suspended on an operation that will enqueue them once,
  \<open>Finished\<close> ones have reached their final suspension, where the completion callback installed
  by the spawning functions enqueues them with \<open>destroy_when_done\<close>, and \<open>Gone\<close> ones are freed.
\<close>

datatype fstat = Unborn | Queued | Running | Waiting | Finished | Gone

definition live :: "fstat \<Rightarrow> bool" where
  "live f \<longleftrightarrow> f \<noteq> Unborn \<and> f \<noteq> Gone"

definition all_ready :: "('w, 'x) sched \<Rightarrow> ready_task list" where
  "all_ready s = sc_ready s @ sc_next_ready s @ sc_bg_ready s @ sc_next_bg_ready s"

datatype spawn_kind = ViaSpawn | ViaSpawnRoot | ViaSpawnBackground | ViaCurrentWorker

fun spawn_by :: "spawn_kind \<Rightarrow> handle \<Rightarrow> ('w, 'x) sched \<Rightarrow> ('w, 'x) sched" where
  "spawn_by ViaSpawn = Spawn"
| "spawn_by ViaSpawnRoot = SpawnRoot"
| "spawn_by ViaSpawnBackground = SpawnBackground"
| "spawn_by ViaCurrentWorker = SpawnOnCurrentWorker"

text \<open>What running code does to the scheduler besides suspending.\<close>

inductive life_act :: "('w, 'x) sched \<times> (handle \<Rightarrow> fstat) \<Rightarrow> ('w, 'x) sched \<times> (handle \<Rightarrow> fstat) \<Rightarrow> bool" where
  act_spawn: "st h = Unborn \<Longrightarrow> h \<noteq> 0 \<Longrightarrow> length (sc_detached s) < 2 ^ 32 - 1 \<Longrightarrow>
    life_act (s, st) (spawn_by k h s, st(h := if sc_stop_requested s \<or> sc_stopping s then Gone else Queued))"
| act_wake: "st h = Waiting \<Longrightarrow> life_act (s, st) (sc_Enqueue h False s, st(h := Queued))"
| act_stop: "life_act (s, st) (s\<lparr>sc_stop_requested := True\<rparr>, st)"
| act_notify: "life_act (s, st) (snd (sc_NotifyWake s), st)"
| act_world: "life_act (s, st) (s\<lparr>sc_world := w\<rparr>, st)"

text \<open>How a resumption ends: suspended on an operation, yielded, or finished.\<close>

datatype outcome = OWait | OYield | ODone

fun finish :: "outcome \<Rightarrow> handle \<Rightarrow> ('w, 'x) sched \<Rightarrow> ('w, 'x) sched" where
  "finish OWait h s = s"
| "finish OYield h s = EnqueueNext h s"
| "finish ODone h s = sc_Enqueue h True s"

fun after :: "outcome \<Rightarrow> fstat" where
  "after OWait = Waiting"
| "after OYield = Queued"
| "after ODone = Finished"

fun take_ready :: "task_class \<Rightarrow> ('w, 'x) sched \<Rightarrow> (ready_task \<times> ('w, 'x) sched) option" where
  "take_ready Foreground s = (case sc_ready s of [] \<Rightarrow> None | r # q \<Rightarrow> Some (r, s\<lparr>sc_ready := q\<rparr>))"
| "take_ready Background s = (case sc_bg_ready s of [] \<Rightarrow> None | r # q \<Rightarrow> Some (r, s\<lparr>sc_bg_ready := q\<rparr>))"

inductive life_step :: "('w, 'x) sched \<times> (handle \<Rightarrow> fstat) \<Rightarrow> ('w, 'x) sched \<times> (handle \<Rightarrow> fstat) \<Rightarrow> bool" where
  step_act: "life_act p q \<Longrightarrow> life_step p q"
| step_merge: "life_step (s, st) (MergeDeferred s, st)"
| step_run: "take_ready c s = Some (r, s0) \<Longrightarrow> h = rt_handle r \<Longrightarrow> st h \<noteq> Finished \<Longrightarrow> \<not> co_done co h s0 \<Longrightarrow>
    life_act\<^sup>*\<^sup>* (s0\<lparr>sc_class := c\<rparr>, st(h := Running)) (s1, st1) \<Longrightarrow>
    co_resume co h (s0\<lparr>sc_class := c\<rparr>) = finish out h s1 \<Longrightarrow>
    life_step (s, st) (ResumeReady co r c s0, st1(h := after out))"
| step_reap: "take_ready c s = Some (r, s0) \<Longrightarrow> h = rt_handle r \<Longrightarrow> st h = Finished \<Longrightarrow> co_done co h s0 \<Longrightarrow>
    life_step (s, st) (ResumeReady co r c s0, st(h := Gone))"

definition life_inv :: "('w, 'x) sched \<times> (handle \<Rightarrow> fstat) \<Rightarrow> bool" where
  "life_inv p \<longleftrightarrow> (case p of (s, st) \<Rightarrow>
     det_inv s \<and> distinct (map rt_handle (all_ready s)) \<and>
     (\<forall>r \<in> set (all_ready s). st (rt_handle r) = (if rt_destroy_when_done r then Finished else Queued)) \<and>
     (\<forall>h. live (st h) \<longleftrightarrow> h \<in> set (sc_detached s)) \<and>
     (\<forall>h. st h = Gone \<longleftrightarrow> h \<in> set (sc_destroyed s)) \<and> distinct (sc_destroyed s) \<and>
     (\<forall>h. st h = Queued \<or> st h = Finished \<longrightarrow> h \<in> rt_handle ` set (all_ready s)))"

text \<open>The four queues only matter up to order.\<close>

definition ready_mset :: "('w, 'x) sched \<Rightarrow> ready_task multiset" where
  "ready_mset s = mset (all_ready s)"

lemma life_inv_alt:
  "life_inv (s, st) \<longleftrightarrow> det_inv s \<and> (\<forall>h. count (image_mset rt_handle (ready_mset s)) h \<le> 1) \<and>
     (\<forall>r \<in># ready_mset s. st (rt_handle r) = (if rt_destroy_when_done r then Finished else Queued)) \<and>
     (\<forall>h. live (st h) \<longleftrightarrow> h \<in> set (sc_detached s)) \<and>
     (\<forall>h. st h = Gone \<longleftrightarrow> h \<in> set (sc_destroyed s)) \<and> distinct (sc_destroyed s) \<and>
     (\<forall>h. st h = Queued \<or> st h = Finished \<longrightarrow> h \<in># image_mset rt_handle (ready_mset s))"
proof -
  have "distinct (map rt_handle xs) \<longleftrightarrow> (\<forall>h. count (image_mset rt_handle (mset xs)) h \<le> 1)" for xs :: "ready_task list"
    by (metis distinct_count_atmost_1 mset_map count_mset_0_iff le_less less_one linorder_not_less nle_le)
  then show ?thesis by (simp add: life_inv_def ready_mset_def)
qed

lemma det_inv_cong: "sc_detached t = sc_detached s \<Longrightarrow> sc_index t = sc_index s \<Longrightarrow> det_inv t = det_inv s"
  by (simp add: det_inv_def)

text \<open>The part of the state the lifetime argument reads besides the queues.\<close>

definition same_frames :: "('w, 'x) sched \<Rightarrow> ('w, 'x) sched \<Rightarrow> bool" where
  "same_frames s t \<longleftrightarrow> sc_detached t = sc_detached s \<and> sc_index t = sc_index s \<and> sc_destroyed t = sc_destroyed s"

lemma move_all_append [simp]: "move_all from to = to @ from"
  by (induction "from" arbitrary: to) auto

lemma sc_Enqueue_frames:
  "h \<noteq> 0 \<Longrightarrow> ready_mset (sc_Enqueue h b s) = add_mset \<lparr>rt_handle = h, rt_destroy_when_done = b\<rparr> (ready_mset s)"
  "same_frames s (sc_Enqueue h b s)"
  by (simp_all add: ready_mset_def all_ready_def sc_Enqueue_def Let_def same_frames_def)

lemma EnqueueNext_frames:
  "h \<noteq> 0 \<Longrightarrow> ready_mset (EnqueueNext h s) = add_mset \<lparr>rt_handle = h, rt_destroy_when_done = False\<rparr> (ready_mset s)"
  "same_frames s (EnqueueNext h s)"
  by (simp_all add: ready_mset_def all_ready_def EnqueueNext_def Let_def same_frames_def)

lemma MergeDeferred_frames:
  "ready_mset (MergeDeferred s) = ready_mset s" "same_frames s (MergeDeferred s)"
  by (simp_all add: ready_mset_def all_ready_def MergeDeferred_def same_frames_def)

lemma take_ready_frames:
  assumes "take_ready c s = Some (r, s0)"
  shows "ready_mset s = add_mset r (ready_mset s0)" "same_frames s s0"
  using assms by (cases c; auto simp: ready_mset_def all_ready_def same_frames_def split: list.splits)+

lemma life_inv_frames:
  assumes "life_inv (s, st)" "ready_mset t = ready_mset s" "same_frames s t"
  shows "life_inv (t, st)"
  using assms by (simp add: life_inv_alt same_frames_def det_inv_cong [of t s])

lemma life_invD:
  assumes "life_inv (s, st)"
  shows "live (st h) \<longleftrightarrow> h \<in> set (sc_detached s)" "st h = Gone \<longleftrightarrow> h \<in> set (sc_destroyed s)"
  using assms unfolding life_inv_alt by blast+

lemma life_inv_nonzero: "life_inv (s, st) \<Longrightarrow> live (st h) \<Longrightarrow> h \<noteq> 0"
  unfolding life_inv_alt det_inv_def by metis

lemma life_inv_enqueue:
  assumes inv: "life_inv (s, st)" and h: "live (st h)" "st h \<noteq> Queued" "st h \<noteq> Finished"
    and t: "ready_mset t = add_mset \<lparr>rt_handle = h, rt_destroy_when_done = b\<rparr> (ready_mset s)" "same_frames s t"
  shows "life_inv (t, st(h := if b then Finished else Queued))"
proof -
  have out: "r \<in># ready_mset s \<Longrightarrow> rt_handle r \<noteq> h" for r using inv h by (auto simp: life_inv_alt split: if_splits)
  then have "count (image_mset rt_handle (ready_mset s)) h = 0" by (auto simp: count_eq_zero_iff)
  then show ?thesis
    using inv h t out by (auto simp: life_inv_alt same_frames_def det_inv_cong [of t s] live_def)
qed

lemma life_inv_dequeue:
  assumes inv: "life_inv (s, st)" and t: "ready_mset s = add_mset r (ready_mset t)" "same_frames s t"
  shows "life_inv (t, st(rt_handle r := Running))" "st (rt_handle r) = (if rt_destroy_when_done r then Finished else Queued)"
    "rt_handle r \<in> set (sc_detached s)"
proof -
  have c: "count (image_mset rt_handle (add_mset r (ready_mset t))) (rt_handle r) \<le> 1"
    using inv unfolding life_inv_alt t(1) by blast
  then have "count (image_mset rt_handle (ready_mset t)) (rt_handle r) = 0" by simp
  then have out: "q \<in># ready_mset t \<Longrightarrow> rt_handle q \<noteq> rt_handle r" for q
    unfolding count_eq_zero_iff set_image_mset by (metis imageI)
  have cnt: "count (image_mset rt_handle (ready_mset t)) h \<le> 1" for h
  proof -
    have "count (image_mset rt_handle (ready_mset s)) h \<le> 1" using inv by (simp add: life_inv_alt)
    then show ?thesis by (simp add: t split: if_splits)
  qed
  show s: "st (rt_handle r) = (if rt_destroy_when_done r then Finished else Queued)"
    using inv t by (auto simp: life_inv_alt)
  show "rt_handle r \<in> set (sc_detached s)" using life_invD(1) [OF inv, of "rt_handle r"] s by (simp add: live_def split: if_splits)
  show "life_inv (t, st(rt_handle r := Running))"
    using inv t out cnt s life_invD [OF inv, of "rt_handle r"] by (auto simp: life_inv_alt same_frames_def det_inv_cong [of t s] live_def split: if_splits)
qed

lemma spawn_by_cases:
  assumes "h \<noteq> 0"
  shows "spawn_by k h s = (let s1 = (if k = ViaSpawn \<or> k = ViaCurrentWorker \<and> sc_class s \<noteq> Background then ForgetScheduling h s else s) in
           if sc_stop_requested s \<or> sc_stopping s then destroy h s1
           else sc_Enqueue h False (RegisterDetached h
             (if k = ViaSpawnBackground \<or> k = ViaCurrentWorker \<and> sc_class s = Background then RegisterBackground h s1 else s1)))"
  using assms by (cases k) (auto simp: Spawn_def SpawnRoot_def SpawnBackground_def SpawnOnCurrentWorker_def Let_def)

lemma RegisterBackground_frames: "ready_mset (RegisterBackground h s) = ready_mset s" "same_frames s (RegisterBackground h s)"
  by (simp_all add: RegisterBackground_def ready_mset_def all_ready_def same_frames_def)

lemma ForgetScheduling_frames: "ready_mset (ForgetScheduling h s) = ready_mset s" "same_frames s (ForgetScheduling h s)"
  by (simp_all add: ready_mset_def all_ready_def same_frames_def)

lemma same_frames_trans: "same_frames s t \<Longrightarrow> same_frames t u \<Longrightarrow> same_frames s u"
  by (simp add: same_frames_def)

lemma spawn_by_inv:
  assumes inv: "life_inv (s, st)" and h: "st h = Unborn" "h \<noteq> 0" "length (sc_detached s) < 2 ^ 32 - 1"
  shows "life_inv (spawn_by k h s, st(h := if sc_stop_requested s \<or> sc_stopping s then Gone else Queued))"
proof -
  define s1 where "s1 = (if k = ViaSpawn \<or> k = ViaCurrentWorker \<and> sc_class s \<noteq> Background then ForgetScheduling h s else s)"
  define s2 where "s2 = (if k = ViaSpawnBackground \<or> k = ViaCurrentWorker \<and> sc_class s = Background then RegisterBackground h s1 else s1)"
  have s1: "ready_mset s1 = ready_mset s" "same_frames s s1"
    by (auto simp: s1_def ForgetScheduling_frames) (simp_all add: same_frames_def)
  have s2: "ready_mset s2 = ready_mset s" "same_frames s s2"
    using s1 by (auto simp: s2_def RegisterBackground_frames intro: same_frames_trans)
  have out: "h \<notin> set (sc_detached s)" "h \<notin> set (sc_destroyed s)"
    using inv h by (metis life_inv_alt live_def, metis life_inv_alt fstat.distinct(9))
  show ?thesis
  proof (cases "sc_stop_requested s \<or> sc_stopping s")
    case True
    then have eq: "spawn_by k h s = destroy h s1" using h(2) by (simp add: spawn_by_cases Let_def s1_def)
    have "life_inv (s1, st)" using life_inv_frames [OF inv s1] .
    moreover have "ready_mset (destroy h s1) = ready_mset s1" "sc_detached (destroy h s1) = sc_detached s1"
      "sc_index (destroy h s1) = sc_index s1" "sc_destroyed (destroy h s1) = sc_destroyed s1 @ [h]"
      by (simp_all add: destroy_def ready_mset_def all_ready_def)
    ultimately show ?thesis
      using h True out s1 unfolding eq
      by (auto simp: life_inv_alt det_inv_cong [of "destroy h s1" s1] live_def same_frames_def split: if_splits)
  next
    case False
    let ?t = "RegisterDetached h s2"
    have eq: "spawn_by k h s = sc_Enqueue h False ?t" using h(2) False by (simp add: spawn_by_cases Let_def s1_def s2_def)
    have i2: "life_inv (s2, st)" using life_inv_frames [OF inv s2] .
    have d: "det_inv ?t"
      using i2 h out s2 by (intro RegisterDetached_inv) (auto simp: life_inv_alt same_frames_def)
    have r: "ready_mset ?t = ready_mset s2" "sc_detached ?t = sc_detached s2 @ [h]" "sc_destroyed ?t = sc_destroyed s2"
      by (simp_all add: RegisterDetached_def ready_mset_def all_ready_def)
    have "life_inv (?t, st(h := Running))"
      using i2 d r h life_invD [OF i2, of h] by (auto simp: life_inv_alt live_def split: if_splits)
    from life_inv_enqueue [OF this, of h "sc_Enqueue h False ?t" False] sc_Enqueue_frames(1) [OF h(2), of False ?t]
    show ?thesis using False sc_Enqueue_frames(2) [of ?t h False] by (simp add: eq live_def)
  qed
qed

lemma life_act_inv: "life_act p q \<Longrightarrow> life_inv p \<Longrightarrow> life_inv q"
proof (induction rule: life_act.induct)
  case (act_spawn st h s k)
  then show ?case by (intro spawn_by_inv)
next
  case (act_wake st h s)
  have l: "live (st h)" using act_wake by (simp add: live_def)
  then have "h \<noteq> 0" using act_wake life_inv_nonzero by blast
  then show ?case
    using life_inv_enqueue [OF act_wake.prems l, of "sc_Enqueue h False s" False] act_wake.hyps
    by (simp add: sc_Enqueue_frames)
qed (auto elim!: life_inv_frames simp: ready_mset_def all_ready_def same_frames_def sc_NotifyWake_def Let_def)

lemma life_act_running: "life_act p q \<Longrightarrow> snd p h = Running \<Longrightarrow> snd q h = Running"
  by (induction rule: life_act.induct) auto

lemma life_acts:
  assumes "life_act\<^sup>*\<^sup>* p q"
  shows "life_inv p \<Longrightarrow> life_inv q" "snd p h = Running \<Longrightarrow> snd q h = Running"
  using assms by (induction rule: rtranclp_induct) (auto intro: life_act_inv life_act_running)

lemma finish_inv:
  assumes "life_inv (s, st)" "st h = Running"
  shows "life_inv (finish out h s, st(h := after out))"
proof -
  have l: "live (st h)" using assms by (simp add: live_def)
  then have h: "h \<noteq> 0" using assms life_inv_nonzero by blast
  show ?thesis
  proof (cases out)
    case OWait
    moreover have "h \<in> set (sc_detached s)" "h \<notin> set (sc_destroyed s)"
      using life_invD [OF assms(1), of h] l assms(2) by auto
    ultimately show ?thesis using assms by (auto simp: life_inv_alt live_def split: if_splits)
  next
    case OYield
    then show ?thesis
      using life_inv_enqueue [OF assms(1) l, of "EnqueueNext h s" False] assms(2) h
      by (simp add: EnqueueNext_frames)
  next
    case ODone
    then show ?thesis
      using life_inv_enqueue [OF assms(1) l, of "sc_Enqueue h True s" True] assms(2) h
      by (simp add: sc_Enqueue_frames)
  qed
qed

lemma class_frames: "ready_mset (s\<lparr>sc_class := c\<rparr>) = ready_mset s" "same_frames s (s\<lparr>sc_class := c\<rparr>)"
  by (simp_all add: ready_mset_def all_ready_def same_frames_def)

lemma reap_inv:
  assumes inv: "life_inv (s, st)" and t: "take_ready c s = Some (r, s0)" and f: "st (rt_handle r) = Finished"
    and d: "co_done co (rt_handle r) s0"
  shows "life_inv (ResumeReady co r c s0, st(rt_handle r := Gone))"
proof -
  let ?h = "rt_handle r"
  note tr = take_ready_frames [OF t]
  note dq = life_inv_dequeue [OF inv tr]
  have flag: "rt_destroy_when_done r" using dq(2) f by (simp split: if_splits)
  let ?f = "ForgetScheduling ?h s0"
  let ?g = "ForgetDetached ?h ?f"
  have i: "life_inv (?f, st(?h := Running))" using life_inv_frames [OF dq(1) ForgetScheduling_frames] .
  have di: "det_inv ?f" and mem: "?h \<in> set (sc_detached ?f)"
    using i dq(3) tr(2) by (auto simp: life_inv_alt same_frames_def)
  note fd = ForgetDetached_inv [OF di mem]
  have q: "ready_mset ?g = ready_mset ?f" "sc_destroyed ?g = sc_destroyed ?f"
    by (simp_all add: ForgetDetached_def Let_def ready_mset_def all_ready_def)
  have eq: "ResumeReady co r c s0 = destroy ?h ?g" using d flag by (simp add: ResumeReady_def Let_def)
  have de: "det_inv (destroy ?h ?g)" using fd(1) by (simp add: destroy_def det_inv_def)
  have "ready_mset (destroy ?h ?g) = ready_mset ?f" "sc_destroyed (destroy ?h ?g) = sc_destroyed ?f @ [?h]"
    "set (sc_detached (destroy ?h ?g)) = set (sc_detached ?f) - {?h}"
    using q fd(2) by (simp_all add: destroy_def ready_mset_def all_ready_def)
  with i de show ?thesis unfolding eq life_inv_alt
    by (auto simp: live_def split: if_splits)
qed

lemma life_step_inv: "life_step p q \<Longrightarrow> life_inv p \<Longrightarrow> life_inv q"
proof (induction rule: life_step.induct)
  case (step_act p q)
  then show ?case by (rule life_act_inv)
next
  case (step_merge s st)
  then show ?case by (rule life_inv_frames) (rule MergeDeferred_frames)+
next
  case (step_run c s r s0 h st co s1 st1 out)
  note dq = life_inv_dequeue [OF step_run.prems take_ready_frames [OF step_run.hyps(1)]]
  have "life_inv (s0\<lparr>sc_class := c\<rparr>, st(h := Running))"
    using life_inv_frames [OF dq(1) class_frames] step_run.hyps(2) by simp
  then have "life_inv (s1, st1)" "st1 h = Running"
    using life_acts [OF step_run.hyps(5)] by auto
  then have "life_inv (finish out h s1, st1(h := after out))" by (rule finish_inv)
  moreover have "ResumeReady co r c s0 = (finish out h s1)\<lparr>sc_class := sc_class s0\<rparr>"
    using step_run.hyps by (simp add: ResumeReady_def Let_def with_class_def)
  ultimately show ?case using life_inv_frames [OF _ class_frames] by metis
next
  case (step_reap c s r s0 h st co)
  then show ?case using reap_inv by blast
qed

text \<open>The worker as constructed.\<close>

definition sched_init :: "'x \<Rightarrow> ('w, 'x) sched" where
  "sched_init w = \<lparr>sc_ready = [], sc_next_ready = [], sc_fg_remote = [], sc_bg_ready = [],
     sc_next_bg_ready = [], sc_bg_remote = [], sc_bg_tasks = [], sc_detached = [],
     sc_index = (\<lambda>_. kNotDetached), sc_fg_turn = True, sc_bg_turn = True, sc_bg_deadline = 0,
     sc_fg_runtime = 0, sc_bg_runtime = 0, sc_window = 0, sc_warrant = 10, sc_class = Foreground,
     sc_stop_requested = False, sc_stopping = False, sc_destroyed = [], sc_world = w\<rparr>"

lemma life_inv_init: "life_inv (sched_init w, \<lambda>_. Unborn)"
  by (simp add: life_inv_def sched_init_def det_inv_def all_ready_def live_def)

lemma life_reach_inv:
  assumes "life_step\<^sup>*\<^sup>* (sched_init w, \<lambda>_. Unborn) p"
  shows "life_inv p"
  using assms by (induction rule: rtranclp_induct) (auto intro: life_inv_init life_step_inv)

lemma destroy_all:
  "sc_destroyed (fold (\<lambda>h t. destroy h (ForgetScheduling h t)) hs s) = sc_destroyed s @ hs \<and>
   sc_detached (fold (\<lambda>h t. destroy h (ForgetScheduling h t)) hs s) = sc_detached s"
  by (induction hs arbitrary: s) (simp_all add: destroy_def)

lemma DestroyDetachedTasks_destroyed:
  "sc_destroyed (DestroyDetachedTasks s) = sc_destroyed s @ sc_detached s"
  "sc_detached (DestroyDetachedTasks s) = []"
  using destroy_all [of "sc_detached s" "s\<lparr>sc_detached := []\<rparr>"] by (simp_all add: DestroyDetachedTasks_def)

text \<open>
  C6: in every history of spawning, waking, yielding, resuming, reaping and merging, each ready
  queue entry refers to a frame that has not been freed and no frame is queued twice, no frame is
  freed twice, every finished frame is still queued for reaping, and after the final
  \<open>DestroyDetachedTasks\<close> exactly the frames ever spawned have been freed, each once.
\<close>

theorem frames_destroyed_once:
  assumes "life_step\<^sup>*\<^sup>* (sched_init w, \<lambda>_. Unborn) (s, st)"
  shows "distinct (map rt_handle (all_ready s)) \<and>
    rt_handle ` set (all_ready s) \<inter> set (sc_destroyed s) = {} \<and>
    {h. st h = Finished} \<subseteq> rt_handle ` {r \<in> set (all_ready s). rt_destroy_when_done r} \<and>
    distinct (sc_destroyed (DestroyDetachedTasks s)) \<and>
    set (sc_destroyed (DestroyDetachedTasks s)) = {h. st h \<noteq> Unborn}"
proof -
  note inv = life_reach_inv [OF assms]
  note D = life_invD [OF inv]
  have q: "st (rt_handle r) = (if rt_destroy_when_done r then Finished else Queued)" if "r \<in> set (all_ready s)" for r
    using inv that by (simp add: life_inv_def)
  have "h \<in> rt_handle ` {r \<in> set (all_ready s). rt_destroy_when_done r}" if f: "st h = Finished" for h
  proof -
    have "h \<in> rt_handle ` set (all_ready s)" using inv f by (simp add: life_inv_def)
    then obtain r where "r \<in> set (all_ready s)" "h = rt_handle r" by auto
    with q [of r] f show ?thesis by (auto split: if_splits)
  qed
  moreover have "rt_handle ` set (all_ready s) \<inter> set (sc_destroyed s) = {}"
    using q D(2) by (force split: if_splits)
  moreover have "distinct (sc_detached s)" "distinct (sc_destroyed s)" "distinct (map rt_handle (all_ready s))"
    using inv by (simp_all add: life_inv_def det_inv_def)
  moreover have "set (sc_detached s) \<inter> set (sc_destroyed s) = {}" "set (sc_detached s) \<union> set (sc_destroyed s) = {h. st h \<noteq> Unborn}"
    using D by (auto simp: live_def) (metis live_def fstat.distinct)+
  ultimately show ?thesis by (auto simp: DestroyDetachedTasks_destroyed)
qed

theorem frames_destroyed_once_witness:
  "distinct (sc_destroyed (DestroyDetachedTasks (Spawn 7 (sched_init () :: (unit, unit) sched)))) \<and>
   set (sc_destroyed (DestroyDetachedTasks (Spawn 7 (sched_init () :: (unit, unit) sched)))) = {7}"
proof -
  let ?i = "sched_init () :: (unit, unit) sched"
  have "life_act (?i, \<lambda>_. Unborn) (spawn_by ViaSpawn 7 ?i, (\<lambda>_. Unborn)(7 := if sc_stop_requested ?i \<or> sc_stopping ?i then Gone else Queued))"
    by (rule act_spawn) (simp_all add: sched_init_def)
  then have "life_act (?i, \<lambda>_. Unborn) (Spawn 7 ?i, (\<lambda>_. Unborn)(7 := Queued))"
    by (simp add: sched_init_def)
  then have "life_step\<^sup>*\<^sup>* (?i, \<lambda>_. Unborn) (Spawn 7 ?i, (\<lambda>_. Unborn)(7 := Queued))"
    by (intro r_into_rtranclp step_act)
  from frames_destroyed_once [OF this] show ?thesis by (auto split: if_splits)
qed

section \<open>Drain loops\<close>

lemma DrainReadyUntil_ends:
  assumes "deadline \<le> clock k" "m \<le> k" "k - m < fuel"
  shows "\<exists>n t. DrainReadyUntil co clock deadline fuel m s = Some (n, t) \<and> m \<le> n \<and> n \<le> k + 1 \<and>
    (n = m \<longleftrightarrow> sc_ready s = [] \<and> sc_fg_remote s = []) \<and> (n = m \<longrightarrow> t = s) \<and>
    (sc_ready t = [] \<and> sc_fg_remote t = [] \<or> m < n \<and> deadline \<le> clock (n - 1))"
  using assms
proof (induction fuel arbitrary: m s)
  case (Suc fuel)
  let ?s = "snd (fg_round co s)"
  show ?case
  proof (cases "sc_ready s = [] \<and> sc_fg_remote s = [] \<or> deadline \<le> clock m")
    case True
    then show ?thesis using Suc.prems by (auto simp: DrainReadyUntil.simps [of _ _ _ "Suc fuel"] Let_def)
  next
    case False
    with Suc.prems have "m < k" by (metis le_neq_implies_less)
    with Suc.IH [of "m + 1" ?s] Suc.prems obtain n t where
      "DrainReadyUntil co clock deadline fuel (m + 1) ?s = Some (n, t)" "m + 1 \<le> n" "n \<le> k + 1"
      "sc_ready t = [] \<and> sc_fg_remote t = [] \<or> m + 1 < n \<and> deadline \<le> clock (n - 1)" by force
    with False show ?thesis by (auto simp: DrainReadyUntil.simps [of _ _ _ "Suc fuel"] Let_def)
  qed
qed simp

lemma bg_loop_ends:
  assumes "deadline \<le> clock k" "m \<le> k" "k - m < fuel"
  shows "\<exists>n t. bg_loop co clock deadline fuel m s = Some (n, t) \<and> m \<le> n \<and> n \<le> k + 1 \<and>
    (n = m \<longleftrightarrow> sc_bg_ready s = [] \<and> sc_bg_remote s = []) \<and> (n = m \<longrightarrow> t = s) \<and>
    (sc_bg_ready t = [] \<and> sc_bg_remote t = [] \<or> m < n \<and> deadline \<le> clock (n - 1))"
  using assms
proof (induction fuel arbitrary: m s)
  case (Suc fuel)
  let ?s = "snd (bg_round co s)"
  show ?case
  proof (cases "sc_bg_ready s = [] \<and> sc_bg_remote s = [] \<or> deadline \<le> clock m")
    case True
    then show ?thesis using Suc.prems by (auto simp: bg_loop.simps [of _ _ _ "Suc fuel"] Let_def)
  next
    case False
    with Suc.prems have "m < k" by (metis le_neq_implies_less)
    with Suc.IH [of "m + 1" ?s] Suc.prems obtain n t where
      "bg_loop co clock deadline fuel (m + 1) ?s = Some (n, t)" "m + 1 \<le> n" "n \<le> k + 1"
      "sc_bg_ready t = [] \<and> sc_bg_remote t = [] \<or> m + 1 < n \<and> deadline \<le> clock (n - 1)" by force
    with False show ?thesis by (auto simp: bg_loop.simps [of _ _ _ "Suc fuel"] Let_def)
  qed
qed simp

text \<open>
  C31: the drain loops end. If the cycle counter has reached the deadline by its \<open>k\<close>-th reading,
  both loops return after at most \<open>k + 1\<close> items, having resumed nothing only when there was
  nothing to run, and they stop only with empty queues or past the deadline; the background drain
  leaves no background deadline behind.
\<close>

theorem drains_bounded_by_deadline:
  assumes "deadline \<le> clock k" "k < fuel"
  shows "(\<exists>n t. DrainReadyUntil co clock deadline fuel 0 s = Some (n, t) \<and> n \<le> k + 1 \<and>
      (n = 0 \<longleftrightarrow> sc_ready s = [] \<and> sc_fg_remote s = []) \<and>
      (sc_ready t = [] \<and> sc_fg_remote t = [] \<or> 0 < n \<and> deadline \<le> clock (n - 1))) \<and>
    (\<exists>n t. DrainBackgroundUntil co clock deadline fuel s = Some (n, t) \<and> n \<le> k + 1 \<and>
      (n = 0 \<longleftrightarrow> sc_bg_ready s = [] \<and> sc_bg_remote s = []) \<and> sc_bg_deadline t = 0 \<and>
      (sc_bg_ready t = [] \<and> sc_bg_remote t = [] \<or> 0 < n \<and> deadline \<le> clock (n - 1)))"
proof (intro conjI)
  show "\<exists>n t. DrainReadyUntil co clock deadline fuel 0 s = Some (n, t) \<and> n \<le> k + 1 \<and>
      (n = 0 \<longleftrightarrow> sc_ready s = [] \<and> sc_fg_remote s = []) \<and>
      (sc_ready t = [] \<and> sc_fg_remote t = [] \<or> 0 < n \<and> deadline \<le> clock (n - 1))"
    using DrainReadyUntil_ends [of deadline clock k 0 fuel co s] assms by force
  obtain n t where "bg_loop co clock deadline fuel 0 (s\<lparr>sc_bg_deadline := deadline\<rparr>) = Some (n, t)" "n \<le> k + 1"
      "n = 0 \<longleftrightarrow> sc_bg_ready s = [] \<and> sc_bg_remote s = []"
      "sc_bg_ready t = [] \<and> sc_bg_remote t = [] \<or> 0 < n \<and> deadline \<le> clock (n - 1)"
    using bg_loop_ends [of deadline clock k 0 fuel co "s\<lparr>sc_bg_deadline := deadline\<rparr>"] assms by auto
  then show "\<exists>n t. DrainBackgroundUntil co clock deadline fuel s = Some (n, t) \<and> n \<le> k + 1 \<and>
      (n = 0 \<longleftrightarrow> sc_bg_ready s = [] \<and> sc_bg_remote s = []) \<and> sc_bg_deadline t = 0 \<and>
      (sc_bg_ready t = [] \<and> sc_bg_remote t = [] \<or> 0 < n \<and> deadline \<le> clock (n - 1))"
    by (intro exI [of _ n] exI [of _ "t\<lparr>sc_bg_deadline := 0\<rparr>"]) (simp add: DrainBackgroundUntil_def)
qed

text \<open>Code that yields forever: each resumption requeues the coroutine at once.\<close>

definition spin_code :: "(unit, unit) code" where
  "spin_code = \<lparr>co_done = \<lambda>_ _. False, co_resume = \<lambda>h. sc_Enqueue h False, co_run_fn = \<lambda>_ s. s,
     co_reply_deferred = \<lambda>_ _. True, co_PostReply = \<lambda>_ s. s\<rparr>"

theorem drains_bounded_by_deadline_witness:
  "\<exists>n t. DrainReadyUntil spin_code int 3 4 0 (Spawn 7 (sched_init ())) = Some (n, t) \<and> n \<le> 4 \<and> 0 < n"
proof -
  have "sc_ready (Spawn 7 (sched_init () :: (unit, unit) sched)) \<noteq> []"
    by (simp add: Spawn_def sched_init_def ForgetScheduling_def RegisterDetached_def sc_Enqueue_def IsBackground_def)
  with drains_bounded_by_deadline [of 3 int 3 4 spin_code "Spawn 7 (sched_init ())"] show ?thesis
    by (auto simp: numeral_eq_Suc)
qed

text \<open>The turn flags are private to the drain loops.\<close>

definition keeps_turns :: "('w, 'x) code \<Rightarrow> bool" where
  "keeps_turns co \<longleftrightarrow>
     (\<forall>h s. sc_fg_turn (co_resume co h s) = sc_fg_turn s \<and> sc_bg_turn (co_resume co h s) = sc_bg_turn s) \<and>
     (\<forall>w s. sc_fg_turn (co_run_fn co w s) = sc_fg_turn s \<and> sc_bg_turn (co_run_fn co w s) = sc_bg_turn s) \<and>
     (\<forall>w s. sc_fg_turn (co_PostReply co w s) = sc_fg_turn s \<and> sc_bg_turn (co_PostReply co w s) = sc_bg_turn s)"

lemma ResumeReady_turns:
  assumes "keeps_turns co"
  shows "sc_fg_turn (ResumeReady co r c s) = sc_fg_turn s" "sc_bg_turn (ResumeReady co r c s) = sc_bg_turn s"
  using assms
  by (simp_all add: ResumeReady_def Let_def with_class_def keeps_turns_def destroy_def ForgetDetached_def ForgetScheduling_def)

lemma RunRemoteWork_turns:
  assumes "keeps_turns co"
  shows "sc_fg_turn (RunRemoteWork co w s) = sc_fg_turn s" "sc_bg_turn (RunRemoteWork co w s) = sc_bg_turn s"
  using assms by (simp_all add: RunRemoteWork_def Let_def keeps_turns_def)

text \<open>
  C32: while both local coroutines and remote work are waiting, the drains serve them alternately:
  two consecutive rounds of the foreground loop, and of the background loop, never pick the same
  kind.
\<close>

theorem drain_rounds_alternate:
  assumes "keeps_turns co"
  shows "(sc_ready s \<noteq> [] \<and> sc_fg_remote s \<noteq> [] \<and> fg_round co s = (r1, s1) \<and>
      sc_ready s1 \<noteq> [] \<and> sc_fg_remote s1 \<noteq> [] \<and> fg_round co s1 = (r2, s2) \<longrightarrow> r2 = (\<not> r1)) \<and>
    (sc_bg_ready s \<noteq> [] \<and> sc_bg_remote s \<noteq> [] \<and> bg_round co s = (r1, s1) \<and>
      sc_bg_ready s1 \<noteq> [] \<and> sc_bg_remote s1 \<noteq> [] \<and> bg_round co s1 = (r2, s2) \<longrightarrow> r2 = (\<not> r1))"
  using assms
  by (auto simp: fg_round_def bg_round_def Let_def with_class_def ResumeReady_turns RunRemoteWork_turns split: if_splits)

definition turn_state :: "(unit, unit) sched" where
  "turn_state = (Spawn 7 (sched_init ()))\<lparr>sc_fg_remote := [(), ()]\<rparr>"

theorem drain_rounds_alternate_witness:
  "fst (fg_round spin_code turn_state) \<noteq> fst (fg_round spin_code (snd (fg_round spin_code turn_state)))"
proof -
  have k: "keeps_turns spin_code"
    by (simp add: keeps_turns_def spin_code_def sc_Enqueue_def Let_def)
  have n: "sc_ready turn_state \<noteq> []" "sc_fg_remote turn_state \<noteq> []"
    "sc_ready (snd (fg_round spin_code turn_state)) \<noteq> []" "sc_fg_remote (snd (fg_round spin_code turn_state)) \<noteq> []"
    by (simp_all add: turn_state_def fg_round_def RunRemoteWork_def with_class_def spin_code_def Spawn_def
        sched_init_def ForgetScheduling_def RegisterDetached_def sc_Enqueue_def IsBackground_def)
  show ?thesis
    using drain_rounds_alternate [OF k, of turn_state "fst (fg_round spin_code turn_state)" "snd (fg_round spin_code turn_state)"
        "fst (fg_round spin_code (snd (fg_round spin_code turn_state)))" "snd (fg_round spin_code (snd (fg_round spin_code turn_state)))"] n
    by auto
qed

end
