(* ===== verification/Worker_Loop.thy ===== *)
theory Worker_Loop
  imports Scheduler
begin

text \<open>
  The run loop of a worker, \<open>src/runtime/worker.cpp\<close>: \<open>PollStorage\<close>, \<open>Flush\<close>, \<open>BusyPoll\<close>,
  \<open>RunOnce\<close> and \<open>Run\<close> with their accounting. The mailbox drain, the backends and the connection
  table have theories of their own and act here on the part of the state the scheduler does not
  own; the loop is a function of what they report. The cycle counter is a sequence of readings.
\<close>

section \<open>Statistics\<close>

record SchedulerStats =
  ss_rounds :: u64
  ss_foreground_resumes :: u64
  ss_background_resumes :: u64
  ss_round_cycles :: u64
  ss_foreground_cycles :: u64
  ss_background_cycles :: u64
  ss_max_round_cycles :: u64
  ss_max_foreground_cycles :: u64
  ss_max_background_cycles :: u64
  ss_foreground_overruns :: u64
  ss_background_overruns :: u64
  ss_storage_poll_calls :: u64
  ss_storage_poll_empty :: u64
  ss_storage_completions :: u64
  ss_storage_max_completions :: u64
  ss_storage_poll_cycles :: u64
  ss_storage_max_poll_cycles :: u64

definition no_stats :: SchedulerStats where
  "no_stats = \<lparr>ss_rounds = 0, ss_foreground_resumes = 0, ss_background_resumes = 0, ss_round_cycles = 0,
     ss_foreground_cycles = 0, ss_background_cycles = 0, ss_max_round_cycles = 0, ss_max_foreground_cycles = 0,
     ss_max_background_cycles = 0, ss_foreground_overruns = 0, ss_background_overruns = 0,
     ss_storage_poll_calls = 0, ss_storage_poll_empty = 0, ss_storage_completions = 0,
     ss_storage_max_completions = 0, ss_storage_poll_cycles = 0, ss_storage_max_poll_cycles = 0\<rparr>"

text \<open>\<open>WorkerOptions\<close>, the fields the loop reads, and the cycle budgets derived from them.\<close>

record ('w, 'x) worker =
  wk_s :: "('w, 'x) sched"
  wk_tick :: nat
  wk_initialized :: bool
  wk_submit_failed :: bool
  wk_idle_timeout_ms :: int
  wk_busy_poll_us :: u32
  wk_spdk_max_completions :: u32
  wk_pre_poll_us :: u32
  wk_fg_budget :: u64
  wk_bg_budget :: u64
  wk_busy_poll_cycles :: u64
  wk_pre_poll_cycles :: u64
  wk_stats :: SchedulerStats

text \<open>
  The environment of the loop. A flag in a result is the boolean the C++ call returns; the
  sequence number operations are those on \<open>wake_seq_\<close> of the worker's own mailbox.
\<close>

record ('w, 'x) env =
  en_code :: "('w, 'x) code"
  en_clock :: "nat \<Rightarrow> int"
  en_DrainCrossCore :: "('w, 'x) sched \<Rightarrow> bool \<times> ('w, 'x) sched"
  en_NetPoll :: "('w, 'x) sched \<Rightarrow> bool \<times> ('w, 'x) sched"
  en_NeedsPolling :: "('w, 'x) sched \<Rightarrow> bool"
  en_StoragePoll :: "u32 \<Rightarrow> ('w, 'x) sched \<Rightarrow> (bool \<times> u32) \<times> ('w, 'x) sched"
  en_FlushWakes :: "('w, 'x) sched \<Rightarrow> ('w, 'x) sched"
  en_Submit :: "('w, 'x) sched \<Rightarrow> status \<times> ('w, 'x) sched"
  en_HasPending :: "('w, 'x) sched \<Rightarrow> bool"
  en_ReclaimConnections :: "('w, 'x) sched \<Rightarrow> ('w, 'x) sched"
  en_CheckIdle :: "int \<Rightarrow> ('w, 'x) sched \<Rightarrow> ('w, 'x) sched"
  en_wake_seq :: "('w, 'x) sched \<Rightarrow> u32"
  en_park_cas :: "u32 \<Rightarrow> ('w, 'x) sched \<Rightarrow> bool \<times> ('w, 'x) sched"
  en_Wait :: "int \<Rightarrow> ('w, 'x) sched \<Rightarrow> bool \<times> ('w, 'x) sched"
  en_unpark :: "('w, 'x) sched \<Rightarrow> ('w, 'x) sched"

section \<open>Steps of a round\<close>

definition CycleNow :: "('w, 'x) env \<Rightarrow> ('w, 'x) worker \<Rightarrow> int \<times> ('w, 'x) worker" where
  "CycleNow e w = (en_clock e (wk_tick w), w\<lparr>wk_tick := wk_tick w + 1\<rparr>)"

text \<open>\<open>static_cast<uint64_t>(CycleNow() - start)\<close>\<close>

definition elapsed_since :: "('w, 'x) env \<Rightarrow> int \<Rightarrow> ('w, 'x) worker \<Rightarrow> u64 \<times> ('w, 'x) worker" where
  "elapsed_since e start w = (let (now, w1) = CycleNow e w in (of_int (now - start), w1))"

definition on_sched :: "(('w, 'x) sched \<Rightarrow> 'r \<times> ('w, 'x) sched) \<Rightarrow> ('w, 'x) worker \<Rightarrow> 'r \<times> ('w, 'x) worker" where
  "on_sched f w = (let (r, s) = f (wk_s w) in (r, w\<lparr>wk_s := s\<rparr>))"

definition upd_sched :: "(('w, 'x) sched \<Rightarrow> ('w, 'x) sched) \<Rightarrow> ('w, 'x) worker \<Rightarrow> ('w, 'x) worker" where
  "upd_sched f w = w\<lparr>wk_s := f (wk_s w)\<rparr>"

definition RecordRound :: "('w, 'x) env \<Rightarrow> int \<Rightarrow> ('w, 'x) worker \<Rightarrow> ('w, 'x) worker" where
  "RecordRound e start w =
     (let (el, w1) = elapsed_since e start w; st = wk_stats w1 in
      w1\<lparr>wk_stats := st\<lparr>ss_rounds := ss_rounds st + 1, ss_round_cycles := ss_round_cycles st + el,
                        ss_max_round_cycles := max (ss_max_round_cycles st) el\<rparr>\<rparr>)"

definition TakeSchedulerStats :: "('w, 'x) worker \<Rightarrow> SchedulerStats \<times> ('w, 'x) worker" where
  "TakeSchedulerStats w = (wk_stats w, w\<lparr>wk_stats := no_stats\<rparr>)"

definition PollStorage :: "('w, 'x) env \<Rightarrow> ('w, 'x) worker \<Rightarrow> bool \<times> ('w, 'x) worker" where
  "PollStorage e w =
     (if \<not> en_NeedsPolling e (wk_s w) then (False, w)
      else let (start, w1) = CycleNow e w;
               ((did_work, completions), w2) = on_sched (en_StoragePoll e (wk_spdk_max_completions w)) w1;
               (el, w3) = elapsed_since e start w2; st = wk_stats w3
           in (did_work,
               w3\<lparr>wk_stats := st\<lparr>ss_storage_poll_calls := ss_storage_poll_calls st + 1,
                   ss_storage_poll_empty := ss_storage_poll_empty st + of_bool (completions = 0),
                   ss_storage_completions := ss_storage_completions st + ucast completions,
                   ss_storage_max_completions := max (ss_storage_max_completions st) (ucast completions),
                   ss_storage_poll_cycles := ss_storage_poll_cycles st + el,
                   ss_storage_max_poll_cycles := max (ss_storage_max_poll_cycles st) el\<rparr>\<rparr>))"

definition wk_Flush :: "('w, 'x) env \<Rightarrow> ('w, 'x) worker \<Rightarrow> ('w, 'x) worker" where
  "wk_Flush e w =
     (let (status, w1) = on_sched (en_Submit e) (upd_sched (en_FlushWakes e) w) in
      if \<not> status_ok status
      then if status = StUnavailable then w1 else w1\<lparr>wk_submit_failed := True\<rparr>
      else w1)"

text \<open>A foreground slice ending \<open>budget\<close> cycles after \<open>start\<close>.\<close>

definition fg_slice ::
  "('w, 'x) env \<Rightarrow> nat \<Rightarrow> int \<Rightarrow> u64 \<Rightarrow> ('w, 'x) worker \<Rightarrow> (nat \<times> ('w, 'x) worker) option" where
  "fg_slice e fuel start budget w =
     map_option (\<lambda>(n, s). (n, w\<lparr>wk_s := s, wk_tick := wk_tick w + n\<rparr>))
       (DrainReadyUntil (en_code e) (\<lambda>k. en_clock e (wk_tick w + k)) (start + sint budget) fuel 0 (wk_s w))"

definition bg_slice ::
  "('w, 'x) env \<Rightarrow> nat \<Rightarrow> int \<Rightarrow> u64 \<Rightarrow> ('w, 'x) worker \<Rightarrow> (nat \<times> ('w, 'x) worker) option" where
  "bg_slice e fuel start budget w =
     map_option (\<lambda>(n, s). (n, w\<lparr>wk_s := s, wk_tick := wk_tick w + n\<rparr>))
       (DrainBackgroundUntil (en_code e) (\<lambda>k. en_clock e (wk_tick w + k)) (start + sint budget) fuel (wk_s w))"

definition account_fg :: "nat \<Rightarrow> u64 \<Rightarrow> u64 \<Rightarrow> ('w, 'x) worker \<Rightarrow> ('w, 'x) worker" where
  "account_fg resumes cycles budget w =
     (let st = wk_stats w; s = wk_s w in
      w\<lparr>wk_s := s\<lparr>sc_fg_runtime := sc_fg_runtime s + cycles\<rparr>,
        wk_stats := st\<lparr>ss_foreground_resumes := ss_foreground_resumes st + of_nat resumes,
          ss_foreground_cycles := ss_foreground_cycles st + cycles,
          ss_max_foreground_cycles := max (ss_max_foreground_cycles st) cycles,
          ss_foreground_overruns := ss_foreground_overruns st + of_bool (budget < cycles)\<rparr>\<rparr>)"

definition account_bg :: "nat \<Rightarrow> u64 \<Rightarrow> u64 \<Rightarrow> ('w, 'x) worker \<Rightarrow> ('w, 'x) worker" where
  "account_bg resumes cycles budget w =
     (let st = wk_stats w; s = wk_s w in
      w\<lparr>wk_s := s\<lparr>sc_bg_runtime := sc_bg_runtime s + cycles\<rparr>,
        wk_stats := st\<lparr>ss_background_resumes := ss_background_resumes st + of_nat resumes,
          ss_background_cycles := ss_background_cycles st + cycles,
          ss_max_background_cycles := max (ss_max_background_cycles st) cycles,
          ss_background_overruns := ss_background_overruns st + of_bool (budget < cycles)\<rparr>\<rparr>)"

text \<open>The foreground slice of a round, with its accounting.\<close>

definition fg_phase :: "('w, 'x) env \<Rightarrow> nat \<Rightarrow> ('w, 'x) worker \<Rightarrow> (bool \<times> ('w, 'x) worker) option" where
  "fg_phase e fuel w =
     (let (start, w1) = CycleNow e w in
      Option.bind (fg_slice e fuel start (wk_fg_budget w) w1) (\<lambda>(resumes, w2).
        let (cycles, w3) = elapsed_since e start w2 in
        Some (resumes \<noteq> 0, if resumes \<noteq> 0 then account_fg resumes cycles (wk_fg_budget w) w3 else w3)))"

definition pre_poll_phase :: "('w, 'x) env \<Rightarrow> nat \<Rightarrow> ('w, 'x) worker \<Rightarrow> (bool \<times> ('w, 'x) worker) option" where
  "pre_poll_phase e fuel w =
     (if en_NeedsPolling e (wk_s w) \<and> wk_pre_poll_us w \<noteq> 0 \<and>
         (sc_ready (wk_s w) \<noteq> [] \<or> sc_next_ready (wk_s w) \<noteq> [] \<or> sc_fg_remote (wk_s w) \<noteq> [])
      then let (start, w1) = CycleNow e (upd_sched MergeDeferred w) in
        Option.bind (fg_slice e fuel start (wk_pre_poll_cycles w) w1) (\<lambda>(resumes, w2).
          if resumes \<noteq> 0
          then let (cycles, w3) = elapsed_since e start w2 in
            Some (True, account_fg resumes cycles (wk_pre_poll_cycles w) w3)
          else Some (False, w2))
      else Some (False, w))"

text \<open>\<open>None\<close> of the inner option is the early return of a failed submission.\<close>

definition bg_phase :: "('w, 'x) env \<Rightarrow> nat \<Rightarrow> ('w, 'x) worker \<Rightarrow> (bool option \<times> ('w, 'x) worker) option" where
  "bg_phase e fuel w =
     (if ShouldRunBackground (wk_s w)
      then let w1 = wk_Flush e w in
        if wk_submit_failed w1 then Some (None, w1)
        else let (start, w2) = CycleNow e w1 in
          Option.bind (bg_slice e fuel start (wk_bg_budget w) w2) (\<lambda>(resumes, w3).
            let (cycles, w4) = elapsed_since e start w3 in
            Some (Some (resumes \<noteq> 0), if resumes \<noteq> 0 then account_bg resumes cycles (wk_bg_budget w) w4 else w4))
      else Some (Some False, w))"

section \<open>Busy polling\<close>

text \<open>The body of a busy-poll round that found work.\<close>

definition busy_round :: "('w, 'x) env \<Rightarrow> nat \<Rightarrow> ('w, 'x) worker \<Rightarrow> ('w, 'x) worker option" where
  "busy_round e fuel w =
     (let (round_start, w1) = CycleNow e w in
      Option.bind (fg_phase e fuel (upd_sched MergeDeferred w1)) (\<lambda>(_, w2).
        Some (RecordRound e round_start
          (upd_sched MaybeResetRuntimeWindow (upd_sched (en_ReclaimConnections e) (wk_Flush e w2))))))"

fun busy_loop :: "('w, 'x) env \<Rightarrow> nat \<Rightarrow> int \<Rightarrow> nat \<Rightarrow> ('w, 'x) worker \<Rightarrow> (bool \<times> ('w, 'x) worker) option" where
  "busy_loop e fuel deadline 0 w = None"
| "busy_loop e fuel deadline (Suc k) w =
     (let (d1, w1) = on_sched (en_DrainCrossCore e) w;
          (d2, w2) = on_sched (en_NetPoll e) w1;
          (d3, w3) = PollStorage e w2
      in if d1 \<or> d2 \<or> d3 then map_option (Pair True) (busy_round e fuel w3)
         else let (now, w4) = CycleNow e w3 in
           if now < deadline then busy_loop e fuel deadline k w4 else Some (False, w4))"

definition BusyPoll :: "('w, 'x) env \<Rightarrow> nat \<Rightarrow> ('w, 'x) worker \<Rightarrow> (bool \<times> ('w, 'x) worker) option" where
  "BusyPoll e fuel w =
     (if wk_busy_poll_us w = 0 then Some (False, w)
      else let (now, w1) = CycleNow e w in
        busy_loop e fuel (now + sint (wk_busy_poll_cycles w)) fuel w1)"

section \<open>One iteration\<close>

definition has_queued :: "('w, 'x) sched \<Rightarrow> bool" where
  "has_queued s \<longleftrightarrow> sc_ready s \<noteq> [] \<or> sc_next_ready s \<noteq> [] \<or> sc_fg_remote s \<noteq> [] \<or>
     sc_bg_ready s \<noteq> [] \<or> sc_next_bg_ready s \<noteq> [] \<or> sc_bg_remote s \<noteq> []"

text \<open>\<open>RunOnce\<close> up to the decision whether background work runs; the flag is \<open>did_work\<close> so far.\<close>

definition front_phases :: "('w, 'x) env \<Rightarrow> nat \<Rightarrow> ('w, 'x) worker \<Rightarrow> (bool \<times> ('w, 'x) worker) option" where
  "front_phases e fuel w0 =
     (let (d1, w1) = on_sched (en_DrainCrossCore e) w0;
          (d2, w2) = on_sched (en_NetPoll e) w1
      in Option.bind (pre_poll_phase e fuel w2) (\<lambda>(d3, w3).
         let (d4, w4) = PollStorage e w3 in
         Option.bind (fg_phase e fuel (upd_sched MergeDeferred w4)) (\<lambda>(d5, w5).
           Some (d1 \<or> d2 \<or> d3 \<or> d4 \<or> d5, w5))))"

text \<open>Parts 1 to 3 of \<open>RunOnce\<close>: \<open>Inl\<close> is an early return, \<open>Inr\<close> carries \<open>did_work\<close>.\<close>

definition work_phases :: "('w, 'x) env \<Rightarrow> nat \<Rightarrow> ('w, 'x) worker \<Rightarrow> ((bool + bool) \<times> ('w, 'x) worker) option" where
  "work_phases e fuel w =
     (let (round_start, w0) = CycleNow e w;
          queued = has_queued (wk_s w0)
      in Option.bind (front_phases e fuel w0) (\<lambda>(front, w5).
         Option.bind (bg_phase e fuel w5) (\<lambda>(d6, w6).
           case d6 of
             None \<Rightarrow> Some (Inl False, w6)
           | Some d6 \<Rightarrow>
               let w7 = wk_Flush e w6 in
               if wk_submit_failed w7 then Some (Inl False, w7)
               else let d7 = en_HasPending e (wk_s w7) in
                 Some (Inr (queued \<or> front \<or> d6 \<or> d7),
                       RecordRound e round_start
                         (upd_sched MaybeResetRuntimeWindow (upd_sched (en_ReclaimConnections e) w7))))))"

text \<open>\<open>CheckIdleConnections\<close> returns at once without a positive timeout.\<close>

definition wk_CheckIdle :: "('w, 'x) env \<Rightarrow> int \<Rightarrow> ('w, 'x) worker \<Rightarrow> ('w, 'x) worker" where
  "wk_CheckIdle e timeout_ms w = (if timeout_ms \<le> 0 then w else upd_sched (en_CheckIdle e timeout_ms) w)"

datatype next_move = Return bool | Park int

text \<open>Part 4, the parking handshake: snapshot, recheck, compare-and-swap.\<close>

definition try_park :: "('w, 'x) env \<Rightarrow> int \<Rightarrow> ('w, 'x) worker \<Rightarrow> next_move \<times> ('w, 'x) worker" where
  "try_park e timeout_ms w =
     (let w1 = wk_CheckIdle e timeout_ms w;
          seq = en_wake_seq e (wk_s w1);
          (raced, w2) = on_sched (en_DrainCrossCore e) w1
      in if raced then (Return True, w2)
         else let (parked, w3) = on_sched (en_park_cas e seq) w2 in
           if \<not> parked then (Return True, w3) else (Park (if 0 < timeout_ms then 100 else - 1), w3))"

text \<open>Everything \<open>RunOnce\<close> does before it blocks: either it returns, or it is about to wait.\<close>

definition until_park :: "('w, 'x) env \<Rightarrow> nat \<Rightarrow> bool \<Rightarrow> ('w, 'x) worker \<Rightarrow> (next_move \<times> ('w, 'x) worker) option" where
  "until_park e fuel wait w =
     (if \<not> wk_initialized w \<or> wk_submit_failed w then Some (Return False, w)
      else Option.bind (work_phases e fuel w) (\<lambda>(r, w1).
        case r of
          Inl b \<Rightarrow> Some (Return b, w1)
        | Inr did_work \<Rightarrow>
            if \<not> wait then Some (Return did_work, w1)
            else if did_work then Some (Return True, w1)
            else Option.bind (BusyPoll e fuel w1) (\<lambda>(busy, w2).
              Some (if busy then (Return (\<not> wk_submit_failed w2), w2)
                    else if en_NeedsPolling e (wk_s w2) then (Return True, w2)
                    else try_park e (wk_idle_timeout_ms w) w2))))"

definition RunOnce :: "('w, 'x) env \<Rightarrow> nat \<Rightarrow> bool \<Rightarrow> ('w, 'x) worker \<Rightarrow> (bool \<times> ('w, 'x) worker) option" where
  "RunOnce e fuel wait w =
     Option.bind (until_park e fuel wait w) (\<lambda>(m, w1).
       case m of
         Return b \<Rightarrow> Some (b, w1)
       | Park timeout_ms \<Rightarrow>
           let (ok, w2) = on_sched (en_Wait e timeout_ms) w1 in
           Some (ok, upd_sched (en_unpark e) w2))"

section \<open>Blocking only when idle\<close>

text \<open>
  What the loop relies on: a call that reports no work has queued nothing, and neither flushing,
  reclaiming retired connections nor the parking compare-and-swap queues anything.
\<close>

definition same_queues :: "('w, 'x) sched \<Rightarrow> ('w, 'x) sched \<Rightarrow> bool" where
  "same_queues s t \<longleftrightarrow> sc_ready t = sc_ready s \<and> sc_next_ready t = sc_next_ready s \<and> sc_fg_remote t = sc_fg_remote s \<and>
     sc_bg_ready t = sc_bg_ready s \<and> sc_next_bg_ready t = sc_next_bg_ready s \<and> sc_bg_remote t = sc_bg_remote s"

definition quiet_env :: "('w, 'x) env \<Rightarrow> bool" where
  "quiet_env e \<longleftrightarrow>
     (\<forall>s t. en_DrainCrossCore e s = (False, t) \<longrightarrow> same_queues s t) \<and>
     (\<forall>s t. en_NetPoll e s = (False, t) \<longrightarrow> same_queues s t) \<and>
     (\<forall>n c s t. en_StoragePoll e n s = ((False, c), t) \<longrightarrow> same_queues s t) \<and>
     (\<forall>s. same_queues s (en_FlushWakes e s)) \<and> (\<forall>s. same_queues s (snd (en_Submit e s))) \<and>
     (\<forall>s. same_queues s (en_ReclaimConnections e s)) \<and> (\<forall>q s. same_queues s (snd (en_park_cas e q s)))"

named_theorems idle_intros "steps that leave an idle worker idle"

abbreviation idle :: "('w, 'x) worker \<Rightarrow> bool" where
  "idle w \<equiv> \<not> has_queued (wk_s w)"

lemma same_queues_idle: "same_queues s t \<Longrightarrow> \<not> has_queued s \<Longrightarrow> \<not> has_queued t"
  by (simp add: same_queues_def has_queued_def)

lemma CycleNow_sched: "CycleNow e w = (t, w1) \<Longrightarrow> wk_s w1 = wk_s w"
  by (auto simp: CycleNow_def)

lemma elapsed_since_sched: "elapsed_since e st w = (t, w1) \<Longrightarrow> wk_s w1 = wk_s w"
  by (auto simp: elapsed_since_def CycleNow_def Let_def)

lemma RecordRound_sched [simp]: "wk_s (RecordRound e st w) = wk_s w"
  by (simp add: RecordRound_def Let_def elapsed_since_def CycleNow_def)

lemma quiet_envD:
  assumes "quiet_env e" "\<not> has_queued s"
  shows "en_DrainCrossCore e s = (False, t) \<Longrightarrow> \<not> has_queued t" "en_NetPoll e s = (False, t) \<Longrightarrow> \<not> has_queued t"
    "en_StoragePoll e n s = ((False, c), t) \<Longrightarrow> \<not> has_queued t" "\<not> has_queued (en_FlushWakes e s)"
    "en_Submit e s = (x, t) \<Longrightarrow> \<not> has_queued t" "\<not> has_queued (en_ReclaimConnections e s)"
    "en_park_cas e q s = (b, t) \<Longrightarrow> \<not> has_queued t"
proof -
  note step = same_queues_idle [OF _ assms(2)]
  have q: "same_queues s (snd (en_Submit e s))" "same_queues s (snd (en_park_cas e q s))"
    using assms(1) by (auto simp: quiet_env_def)
  show "\<not> has_queued t" if "en_Submit e s = (x, t)" using step [OF q(1)] that by simp
  show "\<not> has_queued t" if "en_park_cas e q s = (b, t)" using step [OF q(2)] that by simp
qed (use assms(1) in \<open>auto simp: quiet_env_def same_queues_idle [OF _ assms(2)]\<close>)

lemma DrainCrossCore_idle [idle_intros]:
  "quiet_env e \<Longrightarrow> on_sched (en_DrainCrossCore e) w = (False, w1) \<Longrightarrow> idle w \<Longrightarrow> idle w1"
  by (cases "en_DrainCrossCore e (wk_s w)") (auto simp: on_sched_def dest: quiet_envD(1))

lemma NetPoll_idle [idle_intros]:
  "quiet_env e \<Longrightarrow> on_sched (en_NetPoll e) w = (False, w1) \<Longrightarrow> idle w \<Longrightarrow> idle w1"
  by (cases "en_NetPoll e (wk_s w)") (auto simp: on_sched_def dest: quiet_envD(2))

lemma park_cas_idle [idle_intros]:
  "quiet_env e \<Longrightarrow> on_sched (en_park_cas e q) w = (b, w1) \<Longrightarrow> idle w \<Longrightarrow> idle w1"
  by (cases "en_park_cas e q (wk_s w)") (auto simp: on_sched_def dest: quiet_envD(7))

lemma PollStorage_idle [idle_intros]:
  assumes "quiet_env e" "PollStorage e w = (False, w1)" "idle w"
  shows "idle w1"
  using assms
  by (cases "en_StoragePoll e (wk_spdk_max_completions w) (wk_s w)")
     (auto simp: PollStorage_def CycleNow_def elapsed_since_def on_sched_def Let_def
      split: if_splits dest: quiet_envD(3))

lemma Flush_idle [idle_intros]: "quiet_env e \<Longrightarrow> idle w \<Longrightarrow> idle (wk_Flush e w)"
  by (cases "en_Submit e (en_FlushWakes e (wk_s w))")
     (auto simp: wk_Flush_def on_sched_def upd_sched_def Let_def split: if_splits dest: quiet_envD(5) [OF _ quiet_envD(4)])

lemma Reclaim_idle [idle_intros]: "quiet_env e \<Longrightarrow> idle w \<Longrightarrow> idle (upd_sched (en_ReclaimConnections e) w)"
  by (simp add: upd_sched_def quiet_envD(6))

lemma MergeDeferred_idle [idle_intros]: "idle w \<Longrightarrow> idle (upd_sched MergeDeferred w)"
  by (simp add: upd_sched_def MergeDeferred_def has_queued_def)

lemma Reset_idle [idle_intros]: "idle w \<Longrightarrow> idle (upd_sched MaybeResetRuntimeWindow w)"
  by (simp add: upd_sched_def MaybeResetRuntimeWindow_def has_queued_def Let_def)

lemma DrainReadyUntil_idle: "\<not> has_queued s \<Longrightarrow> DrainReadyUntil co c d f m s = Some (m, s)"
  by (subst DrainReadyUntil.simps) (simp add: has_queued_def)

lemma fg_phase_idle [idle_intros]:
  assumes "fg_phase e fuel w = Some (b, w1)" "idle w"
  shows "idle w1"
  using assms
  by (auto simp: fg_phase_def fg_slice_def CycleNow_def elapsed_since_def Let_def DrainReadyUntil_idle)

lemma pre_poll_phase_idle [idle_intros]:
  assumes "pre_poll_phase e fuel w = Some (b, w1)" "idle w"
  shows "idle w1"
  using assms by (auto simp: pre_poll_phase_def has_queued_def split: if_splits)

lemma bg_phase_idle [idle_intros]:
  assumes "bg_phase e fuel w = Some (b, w1)" "idle w"
  shows "idle w1"
  using assms by (auto simp: bg_phase_def ShouldRunBackground_def has_queued_def split: if_splits)

lemma work_phases_idle:
  assumes "quiet_env e" "work_phases e fuel w = Some (Inr False, w1)"
  shows "idle w1"
proof -
  obtain t w0 where w0: "CycleNow e w = (t, w0)" by fastforce
  obtain d1 v1 where v1: "on_sched (en_DrainCrossCore e) w0 = (d1, v1)" by fastforce
  obtain d2 v2 where v2: "on_sched (en_NetPoll e) v1 = (d2, v2)" by fastforce
  obtain d3 v3 where v3: "pre_poll_phase e fuel v2 = Some (d3, v3)"
    using assms(2) by (auto simp: work_phases_def front_phases_def w0 v1 v2 Let_def bind_eq_Some_conv)
  obtain d4 v4 where v4: "PollStorage e v3 = (d4, v4)" by fastforce
  obtain d5 v5 where v5: "fg_phase e fuel (upd_sched MergeDeferred v4) = Some (d5, v5)"
    using assms(2) by (auto simp: work_phases_def front_phases_def w0 v1 v2 v3 v4 Let_def bind_eq_Some_conv)
  obtain d6 v6 where v6: "bg_phase e fuel v5 = Some (d6, v6)"
    using assms(2) by (auto simp: work_phases_def front_phases_def w0 v1 v2 v3 v4 v5 Let_def bind_eq_Some_conv)
  have r: "\<not> has_queued (wk_s w0)" "\<not> d1" "\<not> d2" "\<not> d4"
    "w1 = RecordRound e t (upd_sched MaybeResetRuntimeWindow (upd_sched (en_ReclaimConnections e) (wk_Flush e v6)))"
    using assms(2) by (auto simp: work_phases_def front_phases_def w0 v1 v2 v3 v4 v5 v6 Let_def split: option.splits if_splits)
  have "idle v1" using DrainCrossCore_idle [OF assms(1)] v1 r by simp
  then have "idle v2" using NetPoll_idle [OF assms(1)] v2 r by simp
  then have "idle v3" by (rule pre_poll_phase_idle [OF v3])
  then have "idle v4" using PollStorage_idle [OF assms(1)] v4 r by simp
  then have "idle v5" by (intro fg_phase_idle [OF v5] MergeDeferred_idle)
  then have "idle v6" by (rule bg_phase_idle [OF v6])
  then show ?thesis unfolding r(5) RecordRound_sched
    by (intro Reset_idle Reclaim_idle Flush_idle assms(1))
qed

lemma busy_loop_idle:
  "quiet_env e \<Longrightarrow> busy_loop e fuel dl k w = Some (False, w1) \<Longrightarrow> idle w \<Longrightarrow> idle w1"
proof (induction k arbitrary: w)
  case (Suc k)
  obtain d1 v1 where v1: "on_sched (en_DrainCrossCore e) w = (d1, v1)" by fastforce
  obtain d2 v2 where v2: "on_sched (en_NetPoll e) v1 = (d2, v2)" by fastforce
  obtain d3 v3 where v3: "PollStorage e v2 = (d3, v3)" by fastforce
  obtain t v4 where v4: "CycleNow e v3 = (t, v4)" by fastforce
  have d: "\<not> d1" "\<not> d2" "\<not> d3" using Suc.prems(2) by (auto simp: v1 v2 v3 Let_def)
  have "idle v1" using DrainCrossCore_idle [OF Suc.prems(1)] v1 d Suc.prems(3) by simp
  then have "idle v2" using NetPoll_idle [OF Suc.prems(1)] v2 d by simp
  then have "idle v3" using PollStorage_idle [OF Suc.prems(1)] v3 d by simp
  then have "idle v4" using CycleNow_sched [OF v4] by simp
  then show ?case
    using Suc.prems Suc.IH [of v4] d by (auto simp: v1 v2 v3 v4 Let_def split: if_splits)
qed simp

lemma BusyPoll_idle [idle_intros]:
  assumes "quiet_env e" "BusyPoll e fuel w = Some (False, w1)" "idle w"
  shows "idle w1"
  using assms by (auto simp: BusyPoll_def CycleNow_def Let_def split: if_splits dest: busy_loop_idle)

lemma try_park_idle:
  assumes q: "quiet_env e" and park: "try_park e i w = (Park t, w1)"
  shows "t = (if 0 < i then 100 else - 1) \<and> (i \<le> 0 \<and> idle w \<longrightarrow> idle w1)"
proof -
  let ?v = "wk_CheckIdle e i w"
  obtain d v4 where v4: "on_sched (en_DrainCrossCore e) ?v = (d, v4)" by fastforce
  obtain c v5 where v5: "on_sched (en_park_cas e (en_wake_seq e (wk_s ?v))) v4 = (c, v5)" by fastforce
  have f: "\<not> d" "w1 = v5" "t = (if 0 < i then 100 else - 1)"
    using park by (auto simp: try_park_def v4 v5 Let_def split: if_splits)
  have "idle w1" if "i \<le> 0" "idle w"
  proof -
    have "idle ?v" using that by (simp add: wk_CheckIdle_def)
    then have "idle v4" using DrainCrossCore_idle [OF q] v4 f by simp
    then show ?thesis unfolding f(2) by (rule park_cas_idle [OF q v5])
  qed
  with f show ?thesis by simp
qed

lemma until_park_idle:
  assumes q: "quiet_env e" and park: "until_park e fuel wait w = Some (Park t, w1)"
  shows "t = (if 0 < wk_idle_timeout_ms w then 100 else - 1) \<and> (wk_idle_timeout_ms w \<le> 0 \<longrightarrow> idle w1)"
proof -
  have g: "wk_initialized w" "\<not> wk_submit_failed w" using park by (auto simp: until_park_def split: if_splits)
  obtain r v1 where v1: "work_phases e fuel w = Some (r, v1)"
    using park g by (auto simp: until_park_def bind_eq_Some_conv)
  have r: "r = Inr False" and wait: wait
    using park g by (auto simp: until_park_def v1 split: sum.splits if_splits)
  obtain b v2 where v2: "BusyPoll e fuel v1 = Some (b, v2)"
    using park g wait by (auto simp: until_park_def v1 r bind_eq_Some_conv)
  have b: "\<not> b" "try_park e (wk_idle_timeout_ms w) v2 = (Park t, w1)"
    using park g wait by (auto simp: until_park_def v1 r v2 split: if_splits)
  have "idle v1" using work_phases_idle [OF q] v1 r by simp
  then have "idle v2" using BusyPoll_idle [OF q] v2 b by simp
  with try_park_idle [OF q b(2)] show ?thesis by simp
qed

section \<open>Every iteration returns or blocks\<close>

text \<open>A fuelled computation settles when every large enough fuel gives the same result.\<close>

definition settles :: "(nat \<Rightarrow> 'r option) \<Rightarrow> bool" where
  "settles m \<longleftrightarrow> (\<exists>F r. \<forall>f \<ge> F. m f = Some r)"

lemma settles_Some [intro, simp]: "settles (\<lambda>_. Some r)"
  by (auto simp: settles_def)

lemma settles_bind:
  assumes "settles m" "\<And>r. settles (k r)"
  shows "settles (\<lambda>f. Option.bind (m f) (\<lambda>r. k r f))"
proof -
  obtain F r where F: "\<And>f. F \<le> f \<Longrightarrow> m f = Some r" using assms(1) by (auto simp: settles_def)
  obtain G y where G: "\<And>f. G \<le> f \<Longrightarrow> k r f = Some y" using assms(2) [of r] by (auto simp: settles_def)
  have "Option.bind (m f) (\<lambda>r. k r f) = Some y" if "max F G \<le> f" for f using F [of f] G [of f] that by simp
  then show ?thesis unfolding settles_def by blast
qed

lemma settles_map: "settles m \<Longrightarrow> settles (\<lambda>f. map_option g (m f))"
  unfolding settles_def by (metis option.simps(9))

lemma settlesI:
  assumes "\<And>f g. f \<le> g \<Longrightarrow> m f \<noteq> None \<Longrightarrow> m g = m f" "m F = Some r"
  shows "settles m"
  using assms unfolding settles_def by (metis option.distinct(1))

lemma DrainReadyUntil_mono:
  "DrainReadyUntil co c d f m s \<noteq> None \<Longrightarrow> f \<le> g \<Longrightarrow> DrainReadyUntil co c d g m s = DrainReadyUntil co c d f m s"
proof (induction f arbitrary: g m s)
  case 0
  then show ?case by (auto simp: DrainReadyUntil.simps split: if_splits)
next
  case (Suc f)
  obtain g' where g: "g = Suc g'" "f \<le> g'" using Suc.prems(2) by (metis Suc_le_D Suc_le_mono)
  show ?case unfolding g(1)
    using Suc.prems(1) Suc.IH [OF _ g(2)]
    by (subst (1 2) DrainReadyUntil.simps) (subst (asm) DrainReadyUntil.simps, auto simp: Let_def)
qed

lemma bg_loop_mono:
  "bg_loop co c d f m s \<noteq> None \<Longrightarrow> f \<le> g \<Longrightarrow> bg_loop co c d g m s = bg_loop co c d f m s"
proof (induction f arbitrary: g m s)
  case 0
  then show ?case by (auto simp: bg_loop.simps split: if_splits)
next
  case (Suc f)
  obtain g' where g: "g = Suc g'" "f \<le> g'" using Suc.prems(2) by (metis Suc_le_D Suc_le_mono)
  show ?case unfolding g(1)
    using Suc.prems(1) Suc.IH [OF _ g(2)]
    by (subst (1 2) bg_loop.simps) (subst (asm) bg_loop.simps, auto simp: Let_def)
qed

text \<open>The counter passes every bound.\<close>

definition clock_advances :: "(nat \<Rightarrow> int) \<Rightarrow> bool" where
  "clock_advances c \<longleftrightarrow> (\<forall>b. \<exists>m. \<forall>k \<ge> m. b \<le> c k)"

lemma clock_advancesE:
  assumes "clock_advances c"
  obtains m where "t \<le> m" "\<And>k. m \<le> k \<Longrightarrow> b \<le> c k"
proof -
  obtain m where "\<forall>k \<ge> m. b \<le> c k" using assms unfolding clock_advances_def by blast
  then show ?thesis by (intro that [of "max t m"]) auto
qed

lemma fg_slice_settles:
  assumes "clock_advances (en_clock e)"
  shows "settles (\<lambda>fuel. fg_slice e fuel start budget w)"
proof -
  let ?c = "\<lambda>k. en_clock e (wk_tick w + k)" and ?d = "start + sint budget"
  obtain k where "wk_tick w \<le> k" "?d \<le> en_clock e k" by (rule clock_advancesE [OF assms]) auto
  then have "?d \<le> ?c (k - wk_tick w)" by simp
  from DrainReadyUntil_ends [of ?d ?c, OF this, of 0 "Suc (k - wk_tick w)" "en_code e" "wk_s w"]
  obtain r where r: "DrainReadyUntil (en_code e) ?c ?d (Suc (k - wk_tick w)) 0 (wk_s w) = Some r" by auto
  have "settles (\<lambda>fuel. DrainReadyUntil (en_code e) ?c ?d fuel 0 (wk_s w))"
  proof (rule settlesI)
    show "DrainReadyUntil (en_code e) ?c ?d (Suc (k - wk_tick w)) 0 (wk_s w) = Some r" by (rule r)
  qed (rule DrainReadyUntil_mono)
  then show ?thesis unfolding fg_slice_def by (rule settles_map)
qed

lemma bg_slice_settles:
  assumes "clock_advances (en_clock e)"
  shows "settles (\<lambda>fuel. bg_slice e fuel start budget w)"
proof -
  let ?c = "\<lambda>k. en_clock e (wk_tick w + k)" and ?d = "start + sint budget"
  let ?s = "(wk_s w)\<lparr>sc_bg_deadline := ?d\<rparr>"
  obtain k where "wk_tick w \<le> k" "?d \<le> en_clock e k" by (rule clock_advancesE [OF assms]) auto
  then have "?d \<le> ?c (k - wk_tick w)" by simp
  from bg_loop_ends [of ?d ?c, OF this, of 0 "Suc (k - wk_tick w)" "en_code e" ?s]
  obtain r where r: "bg_loop (en_code e) ?c ?d (Suc (k - wk_tick w)) 0 ?s = Some r" by auto
  have "settles (\<lambda>fuel. bg_loop (en_code e) ?c ?d fuel 0 ?s)"
  proof (rule settlesI)
    show "bg_loop (en_code e) ?c ?d (Suc (k - wk_tick w)) 0 ?s = Some r" by (rule r)
  qed (rule bg_loop_mono)
  then show ?thesis unfolding bg_slice_def DrainBackgroundUntil_def by (intro settles_map)
qed

lemma settles_if: "(b \<Longrightarrow> settles m) \<Longrightarrow> (\<not> b \<Longrightarrow> settles n) \<Longrightarrow> settles (\<lambda>f. if b then m f else n f)"
  by (cases b) auto

lemma settles_bind_pair:
  assumes "settles m" "\<And>a b. settles (\<lambda>f. k a b f)"
  shows "settles (\<lambda>f. Option.bind (m f) (\<lambda>(a, b). k a b f))"
  using settles_bind [OF assms(1), of "\<lambda>p. case p of (a, b) \<Rightarrow> k a b"] assms(2) by (simp add: case_prod_unfold)

lemma fg_phase_settles: "clock_advances (en_clock e) \<Longrightarrow> settles (\<lambda>fuel. fg_phase e fuel w)"
  unfolding fg_phase_def by (auto simp: Let_def case_prod_unfold intro!: settles_bind fg_slice_settles)

lemma pre_poll_phase_settles: "clock_advances (en_clock e) \<Longrightarrow> settles (\<lambda>fuel. pre_poll_phase e fuel w)"
  unfolding pre_poll_phase_def by (auto simp: Let_def case_prod_unfold intro!: settles_bind fg_slice_settles settles_if)

lemma bg_phase_settles: "clock_advances (en_clock e) \<Longrightarrow> settles (\<lambda>fuel. bg_phase e fuel w)"
  unfolding bg_phase_def by (auto simp: Let_def case_prod_unfold intro!: settles_bind bg_slice_settles settles_if)

lemma busy_round_settles: "clock_advances (en_clock e) \<Longrightarrow> settles (\<lambda>fuel. busy_round e fuel w)"
  unfolding busy_round_def by (auto simp: Let_def case_prod_unfold intro!: settles_bind fg_phase_settles)

lemma PollStorage_tick: "PollStorage e w = (d, w1) \<Longrightarrow> wk_tick w \<le> wk_tick w1"
  by (auto simp: PollStorage_def CycleNow_def elapsed_since_def on_sched_def Let_def split: if_splits prod.splits)

lemma on_sched_tick: "on_sched f w = (r, w1) \<Longrightarrow> wk_tick w1 = wk_tick w"
  by (auto simp: on_sched_def Let_def split: prod.splits)

lemma busy_loop_step:
  fixes e :: "('w, 'x) env"
  assumes adv: "clock_advances (en_clock e)"
    and rec: "\<And>v :: ('w, 'x) worker. wk_tick w < wk_tick v \<Longrightarrow> en_clock e (wk_tick v - 1) < deadline \<Longrightarrow>
      \<exists>F r. \<forall>fuel \<ge> F. \<forall>k. n < Suc k \<longrightarrow> busy_loop e fuel deadline k v = Some r"
  shows "\<exists>F r. \<forall>fuel \<ge> F. \<forall>k > n. busy_loop e fuel deadline k w = Some r"
proof -
  obtain d1 v1 where v1: "on_sched (en_DrainCrossCore e) w = (d1, v1)" by fastforce
  obtain d2 v2 where v2: "on_sched (en_NetPoll e) v1 = (d2, v2)" by fastforce
  obtain d3 v3 where v3: "PollStorage e v2 = (d3, v3)" by fastforce
  define v4 where "v4 = v3\<lparr>wk_tick := wk_tick v3 + 1\<rparr>"
  have t: "wk_tick w \<le> wk_tick v3" using PollStorage_tick [OF v3] on_sched_tick [OF v1] on_sched_tick [OF v2] by simp
  have unf: "busy_loop e fuel deadline (Suc k) w =
    (if d1 \<or> d2 \<or> d3 then map_option (Pair True) (busy_round e fuel v3)
     else if en_clock e (wk_tick v3) < deadline then busy_loop e fuel deadline k v4 else Some (False, v4))" for fuel k
    by (simp add: v1 v2 v3 v4_def CycleNow_def)
  have "\<exists>F r. \<forall>fuel \<ge> F. \<forall>k. n < Suc k \<longrightarrow> busy_loop e fuel deadline (Suc k) w = Some r"
  proof (cases "d1 \<or> d2 \<or> d3")
    case True
    from settles_map [OF busy_round_settles [OF adv, of v3], of "Pair True"]
    show ?thesis unfolding settles_def unf using True by auto
  next
    case False
    show ?thesis
    proof (cases "en_clock e (wk_tick v3) < deadline")
      case True
      with t rec [of v4] show ?thesis unfolding unf using False True by (simp add: v4_def)
    next
      case no: False
      then show ?thesis unfolding unf using False by auto
    qed
  qed
  then show ?thesis by (metis less_imp_Suc_add)
qed

lemma busy_loop_settles:
  fixes e :: "('w, 'x) env"
  assumes adv: "clock_advances (en_clock e)" and m: "\<And>k. m \<le> k \<Longrightarrow> deadline \<le> en_clock e k"
  shows "m \<le> wk_tick w + n \<Longrightarrow> \<exists>F r. \<forall>fuel \<ge> F. \<forall>k > n. busy_loop e fuel deadline k w = Some r"
proof (induction n arbitrary: w)
  case (0 w)
  show ?case
  proof (rule busy_loop_step [OF adv])
    fix v :: "('w, 'x) worker"
    assume "wk_tick w < wk_tick v" "en_clock e (wk_tick v - 1) < deadline"
    then show "\<exists>F r. \<forall>fuel \<ge> F. \<forall>k. 0 < Suc k \<longrightarrow> busy_loop e fuel deadline k v = Some r"
      using m [of "wk_tick v - 1"] 0 by linarith
  qed
next
  case (Suc n)
  show ?case
  proof (rule busy_loop_step [OF adv])
    fix v :: "('w, 'x) worker"
    assume "wk_tick w < wk_tick v" "en_clock e (wk_tick v - 1) < deadline"
    then show "\<exists>F r. \<forall>fuel \<ge> F. \<forall>k. Suc n < Suc k \<longrightarrow> busy_loop e fuel deadline k v = Some r"
      using Suc.IH [of v] Suc.prems by simp
  qed
qed

lemma BusyPoll_settles:
  assumes "clock_advances (en_clock e)"
  shows "settles (\<lambda>fuel. BusyPoll e fuel w)"
proof (cases "wk_busy_poll_us w = 0")
  case False
  let ?w = "w\<lparr>wk_tick := wk_tick w + 1\<rparr>"
  define d where "d = en_clock e (wk_tick w) + sint (wk_busy_poll_cycles w)"
  obtain m where "0 \<le> m" "\<And>k. m \<le> k \<Longrightarrow> d \<le> en_clock e k" using clock_advancesE [OF assms, of 0 d] by blast
  then obtain F r where "\<forall>fuel \<ge> F. \<forall>k > m. busy_loop e fuel d k ?w = Some r"
    using busy_loop_settles [OF assms, of m d ?w m] by auto
  then have "\<forall>fuel \<ge> max F (Suc m). BusyPoll e fuel w = Some r"
    using False by (simp add: BusyPoll_def CycleNow_def d_def)
  then show ?thesis unfolding settles_def by blast
qed (simp add: BusyPoll_def)

lemma work_phases_settles:
  assumes "clock_advances (en_clock e)"
  shows "settles (\<lambda>fuel. work_phases e fuel w)"
  unfolding work_phases_def front_phases_def Let_def case_prod_unfold
  by (intro settles_bind pre_poll_phase_settles fg_phase_settles bg_phase_settles assms)
     (auto split: option.splits)

lemma until_park_settles:
  assumes "clock_advances (en_clock e)"
  shows "settles (\<lambda>fuel. until_park e fuel wait w)"
  unfolding until_park_def case_prod_unfold
proof (intro settles_if settles_Some settles_bind work_phases_settles assms)
  fix r :: "(bool + bool) \<times> ('a, 'b) worker"
  show "settles (\<lambda>f. case fst r of Inl b \<Rightarrow> Some (Return b, snd r) | Inr did_work \<Rightarrow>
      if \<not> wait then Some (Return did_work, snd r) else if did_work then Some (Return True, snd r)
      else Option.bind (BusyPoll e f (snd r)) (\<lambda>p.
        Some (if fst p then (Return (\<not> wk_submit_failed (snd p)), snd p)
              else if en_NeedsPolling e (wk_s (snd p)) then (Return True, snd p)
              else try_park e (wk_idle_timeout_ms w) (snd p))))"
    by (cases "fst r") (auto intro!: settles_if settles_bind BusyPoll_settles assms)
qed

text \<open>
  C8: a worker never blocks without a timeout while it has something to run. Whenever an iteration
  reaches the blocking wait, its timeout is 100 ms if idle connections are being timed out and
  unbounded otherwise, and in the unbounded case all six scheduler queues are empty, provided
  only that a poll reporting no work has queued none.
\<close>

theorem blocks_only_when_idle:
  assumes "quiet_env e" "until_park e fuel wait w = Some (Park t, w1)"
  shows "t = (if 0 < wk_idle_timeout_ms w then 100 else - 1) \<and>
    (t = - 1 \<longrightarrow> sc_ready (wk_s w1) = [] \<and> sc_next_ready (wk_s w1) = [] \<and> sc_fg_remote (wk_s w1) = [] \<and>
      sc_bg_ready (wk_s w1) = [] \<and> sc_next_bg_ready (wk_s w1) = [] \<and> sc_bg_remote (wk_s w1) = [])"
  using until_park_idle [OF assms] by (auto simp: has_queued_def split: if_splits)

text \<open>An environment in which nothing ever happens, and a worker with one spawned task.\<close>

definition still_env :: "(unit, unit) env" where
  "still_env = \<lparr>en_code = spin_code, en_clock = int, en_DrainCrossCore = Pair False, en_NetPoll = Pair False,
     en_NeedsPolling = \<lambda>_. False, en_StoragePoll = \<lambda>_. Pair (False, 0), en_FlushWakes = id, en_Submit = Pair StOk,
     en_HasPending = \<lambda>_. False, en_ReclaimConnections = id, en_CheckIdle = \<lambda>_. id, en_wake_seq = \<lambda>_. 0,
     en_park_cas = \<lambda>_. Pair True, en_Wait = \<lambda>_. Pair True, en_unpark = id\<rparr>"

definition fresh_worker :: "(unit, unit) worker" where
  "fresh_worker = \<lparr>wk_s = sched_init (), wk_tick = 0, wk_initialized = True, wk_submit_failed = False,
     wk_idle_timeout_ms = - 1, wk_busy_poll_us = 0, wk_spdk_max_completions = 0, wk_pre_poll_us = 0,
     wk_fg_budget = 1000, wk_bg_budget = 50, wk_busy_poll_cycles = 1, wk_pre_poll_cycles = 1, wk_stats = no_stats\<rparr>"

lemma still_env_quiet: "quiet_env still_env"
  by (simp add: quiet_env_def still_env_def same_queues_def)

lemma fresh_worker_parks: "\<exists>w1. until_park still_env 1 True fresh_worker = Some (Park (- 1), w1)"
  by (simp add: until_park_def work_phases_def front_phases_def fresh_worker_def still_env_def CycleNow_def on_sched_def
      pre_poll_phase_def PollStorage_def fg_phase_def fg_slice_def DrainReadyUntil.simps sched_init_def upd_sched_def
      MergeDeferred_def elapsed_since_def bg_phase_def ShouldRunBackground_def wk_Flush_def RecordRound_def
      MaybeResetRuntimeWindow_def has_queued_def BusyPoll_def try_park_def wk_CheckIdle_def)

theorem blocks_only_when_idle_witness:
  "\<exists>w1. until_park still_env 1 True fresh_worker = Some (Park (- 1), w1) \<and> sc_ready (wk_s w1) = [] \<and> sc_bg_remote (wk_s w1) = []"
proof -
  obtain w1 where w1: "until_park still_env 1 True fresh_worker = Some (Park (- 1), w1)"
    using fresh_worker_parks by blast
  from blocks_only_when_idle [OF still_env_quiet this] w1 show ?thesis by auto
qed

text \<open>
  C30: one iteration of the run loop always comes to its end, by returning or by reaching the
  blocking wait: for a cycle counter that passes every bound there is a number of steps that
  suffices, whatever the coroutines do and however often they requeue themselves, and more steps
  do not change the outcome.
\<close>

theorem RunOnce_returns:
  assumes "clock_advances (en_clock e)"
  shows "\<exists>F r. \<forall>fuel \<ge> F. RunOnce e fuel wait w = Some r"
proof -
  have "settles (\<lambda>fuel. RunOnce e fuel wait w)"
    unfolding RunOnce_def case_prod_unfold
    by (rule settles_bind [OF until_park_settles [OF assms]]) (auto simp: Let_def split: next_move.splits)
  then show ?thesis by (simp add: settles_def)
qed

theorem RunOnce_returns_witness:
  "\<exists>fuel r. RunOnce (still_env\<lparr>en_Submit := Pair StUnavailable\<rparr>) fuel True (upd_sched (Spawn 7) fresh_worker) = Some r"
proof -
  have "clock_advances (en_clock (still_env\<lparr>en_Submit := Pair StUnavailable\<rparr>))"
    by (simp add: clock_advances_def still_env_def) (metis nat_le_iff)
  from RunOnce_returns [OF this] show ?thesis by blast
qed

section \<open>The background warrant\<close>

text \<open>
  What the loop relies on for its time accounting: the calls it makes and the coroutines it resumes
  leave the two runtime counters and the window length alone, and set no warrant above 100 per cent
  (\<open>SetBackgroundWarrantPercent\<close> refuses one). \<open>spent\<close> relates two states of the loop between which
  no window check lies: the counters grew by no more than the cycle counter advanced.
\<close>

definition keeps_budget :: "('w, 'x) sched \<Rightarrow> ('w, 'x) sched \<Rightarrow> bool" where
  "keeps_budget s t \<longleftrightarrow> sc_fg_runtime t = sc_fg_runtime s \<and> sc_bg_runtime t = sc_bg_runtime s \<and>
     sc_window t = sc_window s \<and> (sc_warrant s \<le> 100 \<longrightarrow> sc_warrant t \<le> 100)"






lemma keeps_budget_refl [simp]: "keeps_budget s s"
  by (simp add: keeps_budget_def)


lemma keeps_budget_fields [simp]:
  "keeps_budget s (t\<lparr>sc_ready := a\<rparr>) = keeps_budget s t" "keeps_budget s (t\<lparr>sc_fg_remote := b\<rparr>) = keeps_budget s t"
  "keeps_budget s (t\<lparr>sc_bg_ready := a\<rparr>) = keeps_budget s t" "keeps_budget s (t\<lparr>sc_bg_remote := b\<rparr>) = keeps_budget s t"
  "keeps_budget s (t\<lparr>sc_fg_turn := c\<rparr>) = keeps_budget s t" "keeps_budget s (t\<lparr>sc_bg_turn := c\<rparr>) = keeps_budget s t"
  "keeps_budget s (t\<lparr>sc_class := d\<rparr>) = keeps_budget s t" "keeps_budget s (t\<lparr>sc_bg_deadline := z\<rparr>) = keeps_budget s t"
  "keeps_budget s (MergeDeferred t) = keeps_budget s t" "keeps_budget s (destroy h t) = keeps_budget s t"
  "keeps_budget s (ForgetScheduling h t) = keeps_budget s t" "keeps_budget s (ForgetDetached h t) = keeps_budget s t"
  by (simp_all add: keeps_budget_def MergeDeferred_def destroy_def ForgetScheduling_def ForgetDetached_def Let_def)




















































end
