(* ===== verification/Worker_Stats.thy ===== *)
theory Worker_Stats
  imports Bycorf_Prelude
begin

text \<open>
  Configuration and statistics of a worker, \<open>src/runtime/worker.cpp\<close> and
  \<open>include/bycorf/runtime/worker.h\<close>: option checks, latency histograms and the accounting of
  storage traffic. Floating point is left out: conversions from microseconds to cycles and the
  percentile rank are parameters.
\<close>

section \<open>Options\<close>

record WorkerOptions =
  wo_ring_entries :: u32
  wo_recv_buffer_count :: u32
  wo_idle_timeout_ms :: int
  wo_busy_poll_us :: u32
  wo_foreground_budget_us :: u32
  wo_background_budget_us :: u32
  wo_background_warrant_percent :: u32
  wo_spdk_max_completions_per_poll :: u32
  wo_spdk_foreground_pre_poll_us :: u32

definition default_options :: WorkerOptions where
  "default_options = \<lparr>wo_ring_entries = 256, wo_recv_buffer_count = 1024, wo_idle_timeout_ms = - 1,
     wo_busy_poll_us = 0, wo_foreground_budget_us = 1000, wo_background_budget_us = 50,
     wo_background_warrant_percent = 10, wo_spdk_max_completions_per_poll = 0, wo_spdk_foreground_pre_poll_us = 0\<rparr>"

record budgets =
  bu_options :: WorkerOptions
  bu_foreground :: u64
  bu_background :: u64
  bu_busy_poll :: u64
  bu_pre_poll :: u64
  bu_window :: u64
  bu_initialized :: bool
  bu_submit_failed :: bool

text \<open>\<open>scaled us\<close> is \<open>frequency * us / 1000000\<close> truncated to 64 bits.\<close>

definition CyclesFromMicroseconds :: "(u32 \<Rightarrow> u64) \<Rightarrow> u32 \<Rightarrow> u64" where
  "CyclesFromMicroseconds scaled us = max 1 (scaled us)"

text \<open>
  \<open>Worker::Init\<close>. The three backends report a status each; \<open>up\<close> lists the backends left
  initialised, in the order kernel, network, storage.
\<close>

datatype backend = KernelBk | NetworkBk | StorageBk

definition worker_Init ::
  "(u32 \<Rightarrow> u64) \<Rightarrow> bool \<Rightarrow> status \<Rightarrow> status \<Rightarrow> status \<Rightarrow> WorkerOptions \<Rightarrow> budgets \<times> backend list \<Rightarrow>
   status \<times> budgets \<times> backend list" where
  "worker_Init scaled bound ker net sto options st = (case st of (b, up) \<Rightarrow>
     if bu_initialized b then (StOk, b, up)
     else if \<not> bound then (StFailedPrecondition, b, up)
     else if wo_foreground_budget_us options = 0 \<or> wo_background_budget_us options = 0 \<or>
             100 < wo_background_warrant_percent options
     then (StInvalidArgument, b, up)
     else let b1 = b\<lparr>bu_options := options,
                     bu_foreground := CyclesFromMicroseconds scaled (wo_foreground_budget_us options),
                     bu_background := CyclesFromMicroseconds scaled (wo_background_budget_us options),
                     bu_busy_poll := CyclesFromMicroseconds scaled (wo_busy_poll_us options),
                     bu_pre_poll := CyclesFromMicroseconds scaled (wo_spdk_foreground_pre_poll_us options),
                     bu_window := CyclesFromMicroseconds scaled 10000\<rparr> in
       if \<not> status_ok ker then (ker, b1, up)
       else if \<not> status_ok net then (net, b1, filter (\<lambda>k. k \<noteq> KernelBk) (up @ [KernelBk]))
       else if \<not> status_ok sto
       then (sto, b1, filter (\<lambda>k. k \<noteq> KernelBk) (filter (\<lambda>k. k \<noteq> NetworkBk) (up @ [KernelBk, NetworkBk])))
       else (StOk, b1\<lparr>bu_submit_failed := False, bu_initialized := True\<rparr>, up @ [KernelBk, NetworkBk, StorageBk]))"

definition worker_Shutdown :: "budgets \<times> backend list \<Rightarrow> budgets \<times> backend list" where
  "worker_Shutdown st = (case st of (b, up) \<Rightarrow>
     if \<not> bu_initialized b then (b, up)
     else (b\<lparr>bu_initialized := False\<rparr>,
           filter (\<lambda>k. k \<noteq> KernelBk) (filter (\<lambda>k. k \<noteq> NetworkBk) (filter (\<lambda>k. k \<noteq> StorageBk) up))))"

definition SetForegroundBudgetUs :: "(u32 \<Rightarrow> u64) \<Rightarrow> u32 \<Rightarrow> budgets \<Rightarrow> status \<times> budgets" where
  "SetForegroundBudgetUs scaled us b =
     (if us = 0 then (StInvalidArgument, b)
      else (StOk, b\<lparr>bu_options := (bu_options b)\<lparr>wo_foreground_budget_us := us\<rparr>,
                    bu_foreground := CyclesFromMicroseconds scaled us\<rparr>))"

definition SetBackgroundBudgetUs :: "(u32 \<Rightarrow> u64) \<Rightarrow> u32 \<Rightarrow> budgets \<Rightarrow> status \<times> budgets" where
  "SetBackgroundBudgetUs scaled us b =
     (if us = 0 then (StInvalidArgument, b)
      else (StOk, b\<lparr>bu_options := (bu_options b)\<lparr>wo_background_budget_us := us\<rparr>,
                    bu_background := CyclesFromMicroseconds scaled us\<rparr>))"

definition SetBackgroundWarrantPercent :: "u32 \<Rightarrow> budgets \<Rightarrow> status \<times> budgets" where
  "SetBackgroundWarrantPercent percent b =
     (if percent = 0 \<or> 100 < percent then (StInvalidArgument, b)
      else (StOk, b\<lparr>bu_options := (bu_options b)\<lparr>wo_background_warrant_percent := percent\<rparr>\<rparr>))"

definition SetSpdkMaxCompletionsPerPoll :: "u32 \<Rightarrow> budgets \<Rightarrow> budgets" where
  "SetSpdkMaxCompletionsPerPoll n b =
     b\<lparr>bu_options := (bu_options b)\<lparr>wo_spdk_max_completions_per_poll := n\<rparr>\<rparr>"

section \<open>Latency samples\<close>

definition kBucketUpperUs :: "u64 list" where
  "kBucketUpperUs = [1, 2, 3, 4, 5, 8, 10, 15, 20, 30, 40, 50, 75, 100, 150, 200, 300, 500, 750, 1000,
     1500, 2000, 5000, 10000]"

record LatencySampleStats =
  la_count :: u64
  la_sum_ns :: u64
  la_max_ns :: u64
  la_buckets :: "u64 list"

definition no_samples :: LatencySampleStats where
  "no_samples = \<lparr>la_count = 0, la_sum_ns = 0, la_max_ns = 0, la_buckets = replicate 24 0\<rparr>"

text \<open>\<open>std::lower_bound\<close>: the first position whose value is not below the key.\<close>

definition lower_bound :: "u64 list \<Rightarrow> u64 \<Rightarrow> nat" where
  "lower_bound bs x = length (takeWhile (\<lambda>b. b < x) bs)"

definition bucket_index :: "u64 \<Rightarrow> nat" where
  "bucket_index ns =
     (let us = (ns + 999) div 1000; it = lower_bound kBucketUpperUs us in
      if it = length kBucketUpperUs then length kBucketUpperUs - 1 else it)"

definition latency_Add :: "u64 \<Rightarrow> LatencySampleStats \<Rightarrow> LatencySampleStats" where
  "latency_Add ns l =
     l\<lparr>la_count := la_count l + 1, la_sum_ns := la_sum_ns l + ns, la_max_ns := max (la_max_ns l) ns,
       la_buckets := (la_buckets l)[bucket_index ns := la_buckets l ! bucket_index ns + 1]\<rparr>"

fun percentile_scan :: "u64 \<Rightarrow> u64 \<Rightarrow> (u64 \<times> u64) list \<Rightarrow> u64 option" where
  "percentile_scan target cumulative [] = None"
| "percentile_scan target cumulative ((n, upper) # rest) =
     (let cumulative = cumulative + n in
      if target \<le> cumulative then Some upper else percentile_scan target cumulative rest)"

text \<open>\<open>rank count\<close> is \<open>static_cast<uint64_t>(count * percentile + 0.999999)\<close>.\<close>

definition PercentileUpperUs :: "(u64 \<Rightarrow> u64) \<Rightarrow> LatencySampleStats \<Rightarrow> u64" where
  "PercentileUpperUs rank l =
     (if la_count l = 0 then 0
      else case percentile_scan (rank (la_count l)) 0 (zip (la_buckets l) kBucketUpperUs) of
        Some upper \<Rightarrow> upper | None \<Rightarrow> last kBucketUpperUs)"

section \<open>Storage traffic\<close>

record StorageFileIoStats =
  sf_submitted :: u64
  sf_durable :: u64

record StorageIoStats =
  si_read_operations :: u64
  si_read_bytes :: u64
  si_write_operations :: u64
  si_write_bytes :: u64
  si_fdatasync_operations :: u64
  si_fdatasync_bytes :: u64
  si_files :: "StorageFileIoStats list"

definition worker_RegisterFixedFiles :: "status \<Rightarrow> nat \<Rightarrow> StorageIoStats \<Rightarrow> status \<times> StorageIoStats" where
  "worker_RegisterFixedFiles status n t =
     (status, if status_ok status then t\<lparr>si_files := replicate n \<lparr>sf_submitted = 0, sf_durable = 0\<rparr>\<rparr> else t)"

text \<open>The statistics of \<open>SubmitWrite\<close> and \<open>SubmitWriteFixed\<close> after a submission of \<open>n\<close> bytes.\<close>

definition record_write_submission :: "status \<Rightarrow> nat \<Rightarrow> u64 \<Rightarrow> StorageIoStats \<Rightarrow> status \<times> StorageIoStats" where
  "record_write_submission status file n t =
     (status, if status_ok status \<and> file < length (si_files t)
              then t\<lparr>si_files := (si_files t)[file := (si_files t ! file)\<lparr>sf_submitted := sf_submitted (si_files t ! file) + n\<rparr>]\<rparr>
              else t)"

definition RecordStorageReadCompletion :: "u64 \<Rightarrow> StorageIoStats \<Rightarrow> StorageIoStats" where
  "RecordStorageReadCompletion n t =
     t\<lparr>si_read_operations := si_read_operations t + 1, si_read_bytes := si_read_bytes t + n\<rparr>"

definition RecordStorageWriteCompletion :: "u64 \<Rightarrow> StorageIoStats \<Rightarrow> StorageIoStats" where
  "RecordStorageWriteCompletion n t =
     t\<lparr>si_write_operations := si_write_operations t + 1, si_write_bytes := si_write_bytes t + n\<rparr>"

definition StorageWriteSubmissionBytes :: "nat \<Rightarrow> StorageIoStats \<Rightarrow> u64" where
  "StorageWriteSubmissionBytes file t = (if length (si_files t) \<le> file then 0 else sf_submitted (si_files t ! file))"

definition RecordFdatasyncCompletion :: "nat \<Rightarrow> u64 \<Rightarrow> StorageIoStats \<Rightarrow> StorageIoStats" where
  "RecordFdatasyncCompletion file n t0 =
     (let t = t0\<lparr>si_fdatasync_operations := si_fdatasync_operations t0 + 1\<rparr> in
      if length (si_files t) \<le> file then t
      else let f = si_files t ! file in
        if sf_durable f < n
        then t\<lparr>si_fdatasync_bytes := si_fdatasync_bytes t + (n - sf_durable f),
               si_files := (si_files t)[file := f\<lparr>sf_durable := n\<rparr>]\<rparr>
        else t)"

section \<open>Histograms\<close>

lemma lower_bound_le_iff:
  "sorted bs \<Longrightarrow> i < length bs \<Longrightarrow> lower_bound bs x \<le> i \<longleftrightarrow> x \<le> bs ! i"
proof (induction bs arbitrary: i)
  case (Cons b bs)
  then show ?case by (cases i) (auto simp: lower_bound_def not_less dest: nth_mem intro: order_trans)
qed simp

lemma lower_bound_le_length: "lower_bound bs x \<le> length bs"
  by (simp add: lower_bound_def length_takeWhile_le)

lemma buckets_sorted: "sorted kBucketUpperUs" "length kBucketUpperUs = 24" "last kBucketUpperUs = 10000"
  by (simp_all add: kBucketUpperUs_def)

lemma bucket_small: "i < 24 \<Longrightarrow> unat (kBucketUpperUs ! i) \<le> 10000"
proof -
  have "\<forall>b \<in> set kBucketUpperUs. unat b \<le> 10000" by (simp add: kBucketUpperUs_def)
  then show "i < 24 \<Longrightarrow> unat (kBucketUpperUs ! i) \<le> 10000" using buckets_sorted by simp
qed

lemma ceil_us: "unat ns \<le> 10000000 \<Longrightarrow> unat ((ns + 999) div 1000 :: u64) = (unat ns + 999) div 1000"
  using unat_add_exact [of ns 999] by (simp add: unat_div_distrib)

lemma bucket_index_le_iff:
  assumes "i < 24" "unat ns \<le> 10000000"
  shows "bucket_index ns \<le> i \<longleftrightarrow> unat ns \<le> 1000 * unat (kBucketUpperUs ! i)"
proof -
  let ?us = "(ns + 999) div 1000 :: u64"
  have "?us \<le> kBucketUpperUs ! 23"
    using ceil_us [OF assms(2)] assms(2) by (simp add: word_le_nat_alt kBucketUpperUs_def)
  then have "lower_bound kBucketUpperUs ?us \<le> 23" by (simp add: lower_bound_le_iff buckets_sorted)
  then have "bucket_index ns = lower_bound kBucketUpperUs ?us" by (simp add: bucket_index_def Let_def buckets_sorted)
  then have "bucket_index ns \<le> i \<longleftrightarrow> ?us \<le> kBucketUpperUs ! i" using assms(1) by (simp add: lower_bound_le_iff buckets_sorted)
  also have "\<dots> \<longleftrightarrow> unat ns \<le> 1000 * unat (kBucketUpperUs ! i)"
    using ceil_us [OF assms(2)] by (simp add: word_le_nat_alt) linarith
  finally show ?thesis .
qed

lemma bucket_index_less: "bucket_index ns < 24"
  using lower_bound_le_length [of kBucketUpperUs] by (auto simp: bucket_index_def Let_def buckets_sorted le_less)

definition samples :: "u64 list \<Rightarrow> LatencySampleStats" where
  "samples xs = fold latency_Add xs no_samples"

lemma samples_snoc: "samples (xs @ [x]) = latency_Add x (samples xs)"
  by (simp add: samples_def)

lemma samples_count: "la_count (samples xs) = of_nat (length xs)"
  by (induction xs rule: rev_induct) (simp_all add: samples_snoc latency_Add_def, simp add: samples_def no_samples_def)

lemma samples_buckets:
  "length (la_buckets (samples xs)) = 24 \<and>
   (\<forall>i < 24. la_buckets (samples xs) ! i = of_nat (length (filter (\<lambda>x. bucket_index x = i) xs)))"
proof (induction xs rule: rev_induct)
  case (snoc x xs)
  then show ?case using bucket_index_less [of x] by (auto simp: samples_snoc latency_Add_def nth_list_update)
qed (simp add: samples_def no_samples_def)

text \<open>The scan finds the first position at which the running total reaches the target.\<close>

lemma percentile_scan_first:
  assumes "unat cum + sum_list (map (\<lambda>p. unat (fst p)) ps) < 2 ^ 64" "unat target \<le> unat cum + sum_list (map (\<lambda>p. unat (fst p)) ps)"
    "unat cum < unat target"
  shows "\<exists>i < length ps. percentile_scan target cum ps = Some (snd (ps ! i)) \<and>
    unat target \<le> unat cum + sum_list (map (\<lambda>p. unat (fst p)) (take (Suc i) ps)) \<and>
    unat cum + sum_list (map (\<lambda>p. unat (fst p)) (take i ps)) < unat target"
  using assms
proof (induction ps arbitrary: cum)
  case (Cons p ps)
  obtain n u where p: "p = (n, u)" by fastforce
  have s: "unat (cum + n) = unat cum + unat n" using Cons.prems by (intro unat_add_exact) (simp add: p)
  show ?case
  proof (cases "target \<le> cum + n")
    case True
    then show ?thesis using Cons.prems s by (intro exI [of _ 0]) (simp add: p word_le_nat_alt)
  next
    case False
    then have "unat (cum + n) < unat target" by (simp add: word_le_nat_alt)
    with Cons.IH [of "cum + n"] Cons.prems s obtain i where
      "i < length ps" "percentile_scan target (cum + n) ps = Some (snd (ps ! i))"
      "unat target \<le> unat cum + unat n + sum_list (map (\<lambda>p. unat (fst p)) (take (Suc i) ps))"
      "unat cum + unat n + sum_list (map (\<lambda>p. unat (fst p)) (take i ps)) < unat target" by (auto simp: p)
    then show ?thesis using False by (intro exI [of _ "Suc i"]) (simp add: p)
  qed
qed simp

lemma filter_split_length:
  "length (filter (\<lambda>x. f x < Suc k) xs) = length (filter (\<lambda>x. f x < k) xs) + length (filter (\<lambda>x. f x = k) xs)" for f :: "'a \<Rightarrow> nat"
  by (induction xs) (auto simp: less_Suc_eq)

lemma samples_cumulative:
  assumes "length xs < 2 ^ 64" "k \<le> 24"
  shows "sum_list (map (\<lambda>p. unat (fst p)) (take k (zip (la_buckets (samples xs)) kBucketUpperUs))) =
    length (filter (\<lambda>x. bucket_index x < k) xs)"
  using assms(2)
proof (induction k)
  case (Suc k)
  let ?z = "zip (la_buckets (samples xs)) kBucketUpperUs"
  have b: "length (la_buckets (samples xs)) = 24" "la_buckets (samples xs) ! k = of_nat (length (filter (\<lambda>x. bucket_index x = k) xs))"
    using samples_buckets [of xs] Suc.prems by auto
  have "length (filter (\<lambda>x. bucket_index x = k) xs) < 2 ^ 64"
    using assms(1) length_filter_le [of _ xs] order_le_less_trans by blast
  then have "unat (la_buckets (samples xs) ! k) = length (filter (\<lambda>x. bucket_index x = k) xs)"
    by (simp add: b unat_of_nat)
  moreover have "take (Suc k) ?z = take k ?z @ [(la_buckets (samples xs) ! k, kBucketUpperUs ! k)]"
    using Suc.prems b buckets_sorted by (simp add: take_Suc_conv_app_nth)
  ultimately show ?case using Suc by (simp add: filter_split_length)
qed simp

lemma length_filter_mono: "(\<And>x. P x \<Longrightarrow> Q x) \<Longrightarrow> length (filter P xs) \<le> length (filter Q xs)"
  by (induction xs) auto

text \<open>
  The reported percentile is the right bucket bound. For a history of fewer than 2^64 samples
  of at most 10 ms, and a rank between one and the number of samples, at least rank samples are at
  most the returned bound, and for every smaller bucket bound fewer than rank samples are.
\<close>

lemma percentile_is_least_bound:
  assumes len: "length xs < 2 ^ 64" and small: "\<forall>x \<in> set xs. unat x \<le> 10000000"
    and rank: "0 < unat (rank (of_nat (length xs)))" "unat (rank (of_nat (length xs))) \<le> length xs"
  shows "let u = PercentileUpperUs rank (samples xs); r = unat (rank (of_nat (length xs))) in
    u \<in> set kBucketUpperUs \<and> r \<le> length (filter (\<lambda>x. unat x \<le> 1000 * unat u) xs) \<and>
    (\<forall>v \<in> set kBucketUpperUs. v < u \<longrightarrow> length (filter (\<lambda>x. unat x \<le> 1000 * unat v) xs) < r)"
proof -
  let ?z = "zip (la_buckets (samples xs)) kBucketUpperUs" and ?t = "rank (of_nat (length xs))"
  have lz: "length ?z = 24" using samples_buckets [of xs] buckets_sorted by simp
  have cum: "sum_list (map (\<lambda>p. unat (fst p)) (take k ?z)) = length (filter (\<lambda>x. bucket_index x < k) xs)" if "k \<le> 24" for k
    using samples_cumulative [OF len that] .
  have all: "sum_list (map (\<lambda>p. unat (fst p)) ?z) = length xs"
    using cum [of 24] lz bucket_index_less by simp
  obtain i where s: "i < length ?z" "percentile_scan ?t 0 ?z = Some (snd (?z ! i))"
    "unat ?t \<le> unat (0::u64) + sum_list (map (\<lambda>p. unat (fst p)) (take (Suc i) ?z))"
    "unat (0::u64) + sum_list (map (\<lambda>p. unat (fst p)) (take i ?z)) < unat ?t"
    using percentile_scan_first [of 0 ?z ?t] all len rank by auto
  then have i: "i < 24" "percentile_scan ?t 0 ?z = Some (snd (?z ! i))"
    "unat ?t \<le> length (filter (\<lambda>x. bucket_index x < Suc i) xs)" "length (filter (\<lambda>x. bucket_index x < i) xs) < unat ?t"
    using cum [of "Suc i"] cum [of i] samples_buckets [of xs] by (simp_all add: buckets_sorted)
  let ?u = "kBucketUpperUs ! i"
  have nz: "la_count (samples xs) \<noteq> 0"
    using rank len unat_of_nat [of "length xs", where 'a = 64] by (auto simp: samples_count)
  have u: "PercentileUpperUs rank (samples xs) = ?u"
    using i lz nz by (simp add: PercentileUpperUs_def samples_count)
  have flt: "filter (\<lambda>x. bucket_index x < Suc j) xs = filter (\<lambda>x. unat x \<le> 1000 * unat (kBucketUpperUs ! j)) xs" if "j < 24" for j
    using small that by (intro filter_cong) (auto simp: less_Suc_eq_le bucket_index_le_iff)
  have "length (filter (\<lambda>x. unat x \<le> 1000 * unat v) xs) < unat ?t" if v: "v \<in> set kBucketUpperUs" "v < ?u" for v
  proof -
    obtain j where j: "j < 24" "v = kBucketUpperUs ! j" using v by (metis in_set_conv_nth buckets_sorted(2))
    have "\<not> i \<le> j" using v(2) j sorted_nth_mono [OF buckets_sorted(1), of i j] buckets_sorted(2) leD by auto
    then have ji: "Suc j \<le> i" by simp
    have "length (filter (\<lambda>x. bucket_index x < Suc j) xs) \<le> length (filter (\<lambda>x. bucket_index x < i) xs)"
      using ji by (intro length_filter_mono) auto
    then show ?thesis using flt [OF j(1)] i j by simp
  qed
  then show ?thesis using i u flt [OF i(1)] buckets_sorted by (auto simp: Let_def)
qed

section \<open>Durability accounting\<close>

text \<open>
  What one worker does to the counters of a registered file table: submissions, fdatasync
  barriers that report the submission counter read when they were issued, and completions.
\<close>

datatype storage_event =
    WriteSubmitted nat u64
  | ReadDone u64
  | WriteDone u64
  | Fdatasynced nat u64

fun record_event :: "storage_event \<Rightarrow> StorageIoStats \<Rightarrow> StorageIoStats" where
  "record_event (WriteSubmitted f n) t = snd (record_write_submission StOk f n t)"
| "record_event (ReadDone n) t = RecordStorageReadCompletion n t"
| "record_event (WriteDone n) t = RecordStorageWriteCompletion n t"
| "record_event (Fdatasynced f n) t = RecordFdatasyncCompletion f n t"

lemma record_event_files [simp]: "length (si_files (record_event ev t)) = length (si_files t)"
  by (cases ev) (simp_all add: record_write_submission_def RecordStorageReadCompletion_def
      RecordStorageWriteCompletion_def RecordFdatasyncCompletion_def Let_def)

lemma sum_list_update_word: "i < length xs \<Longrightarrow> sum_list (xs[i := v]) = sum_list xs - xs ! i + v" for xs :: "u64 list"
  by (induction xs arbitrary: i) (auto split: nat.splits simp: algebra_simps)

lemma durable_sum_step:
  assumes "si_fdatasync_bytes t = sum_list (map sf_durable (si_files t))"
  shows "si_fdatasync_bytes (record_event ev t) = sum_list (map sf_durable (si_files (record_event ev t)))"
proof (cases ev)
  case (Fdatasynced f n)
  then show ?thesis
    using assms by (auto simp: RecordFdatasyncCompletion_def Let_def map_update sum_list_update_word algebra_simps)
next
  case (WriteSubmitted f n)
  have "map sf_durable ((si_files t)[f := (si_files t ! f)\<lparr>sf_submitted := x\<rparr>]) = map sf_durable (si_files t)"
    if "f < length (si_files t)" for x
    using that by (simp add: map_update list_update_same_conv [THEN iffD2])
  then show ?thesis using WriteSubmitted assms by (simp add: record_write_submission_def)
qed (use assms in \<open>simp_all add: RecordStorageReadCompletion_def RecordStorageWriteCompletion_def\<close>)

lemma durable_mono_step:
  "f < length (si_files t) \<Longrightarrow> sf_durable (si_files t ! f) \<le> sf_durable (si_files (record_event ev t) ! f)"
  by (cases ev) (auto simp: record_write_submission_def RecordStorageReadCompletion_def
      RecordStorageWriteCompletion_def RecordFdatasyncCompletion_def Let_def nth_list_update)

text \<open>
  The fdatasync byte counter counts each durable byte once. Whatever the order in which
  barriers complete, out of order and repeated ones included, the counter of a freshly registered
  file table equals the sum of the files' durable positions (modulo 2^64), and no file's durable
  position ever moves back.
\<close>

lemma fdatasync_bytes_counted_once:
  assumes "si_fdatasync_bytes t = 0" "t1 = snd (worker_RegisterFixedFiles StOk n t)" "f < n"
  shows "si_fdatasync_bytes (fold record_event evs t1) = sum_list (map sf_durable (si_files (fold record_event evs t1))) \<and>
    sf_durable (si_files (fold record_event evs t1) ! f) \<le> sf_durable (si_files (fold record_event (evs @ [ev]) t1) ! f)"
proof -
  have "sum_list (replicate n (0::u64)) = 0" by (induction n) auto
  then have base: "si_fdatasync_bytes t1 = sum_list (map sf_durable (si_files t1))" "length (si_files t1) = n"
    using assms by (simp_all add: worker_RegisterFixedFiles_def)
  have "si_fdatasync_bytes (fold record_event evs t1) = sum_list (map sf_durable (si_files (fold record_event evs t1))) \<and>
      length (si_files (fold record_event evs t1)) = n"
    using base by (induction evs rule: rev_induct) (auto simp: durable_sum_step)
  then show ?thesis using durable_mono_step [of f "fold record_event evs t1" ev] assms(3) by simp
qed

definition no_storage :: StorageIoStats where
  "no_storage = \<lparr>si_read_operations = 0, si_read_bytes = 0, si_write_operations = 0, si_write_bytes = 0,
     si_fdatasync_operations = 0, si_fdatasync_bytes = 0, si_files = []\<rparr>"

section \<open>Initialisation\<close>

text \<open>
  Initialisation is all or nothing. Starting from a worker with no backend up, a failed
  \<open>Init\<close> leaves it uninitialised with no backend up and shutting down has nothing to do; a
  successful one brings up all three and \<open>Shutdown\<close> takes all three down again; and success
  implies positive budgets and a warrant of at most 100 percent.
\<close>

lemma worker_Init_all_or_nothing:
  assumes "\<not> bu_initialized b" "worker_Init scaled bound ker net sto options (b, []) = (st, b1, up)"
  shows "(st = StOk \<longleftrightarrow> bu_initialized b1) \<and> (st \<noteq> StOk \<longrightarrow> up = []) \<and>
    (st = StOk \<longrightarrow> up = [KernelBk, NetworkBk, StorageBk] \<and> bu_options b1 = options \<and> wo_background_warrant_percent options \<le> 100 \<and>
       0 < bu_foreground b1 \<and> 0 < bu_background b1 \<and> 0 < bu_window b1) \<and>
    snd (worker_Shutdown (b1, up)) = [] \<and> \<not> bu_initialized (fst (worker_Shutdown (b1, up)))"
proof -
  have pos: "0 < max 1 x" for x :: u64 by (simp add: less_max_iff_disj word_gt_0)
  show ?thesis
    using assms pos
    by (auto simp: worker_Init_def worker_Shutdown_def Let_def CyclesFromMicroseconds_def status_ok_def split: if_splits)
qed

definition raw_worker :: budgets where
  "raw_worker = \<lparr>bu_options = default_options, bu_foreground = 0, bu_background = 0, bu_busy_poll = 0, bu_pre_poll = 0,
     bu_window = 0, bu_initialized = False, bu_submit_failed = False\<rparr>"

text \<open>
  \<open>Init\<close> and the run-time setter disagree on the smallest background warrant: zero percent
  is accepted at start-up and rejected afterwards.
\<close>

lemma zero_warrant_only_at_init:
  "fst (worker_Init scaled True StOk StOk StOk (default_options\<lparr>wo_background_warrant_percent := 0\<rparr>) (raw_worker, [])) = StOk \<and>
   fst (SetBackgroundWarrantPercent 0 b) = StInvalidArgument"
  by (simp add: raw_worker_def default_options_def worker_Init_def SetBackgroundWarrantPercent_def Let_def)

end
