(* ===== verification/Uring_Submit.thy ===== *)
theory Uring_Submit
  imports Bycorf_Prelude
begin

text \<open>
  The submission side of the kernel backend, \<open>src/io/io_uring_backend.cpp\<close>: preparing
  operations, the software queue behind a full submission ring, submitting, and cancelling what
  the kernel has not consumed yet. The kernel is a parameter: how many ring entries an enter call
  consumes and what it returns are inputs.
\<close>

section \<open>Submission entries\<close>

text \<open>
  A submission entry records the preparation call that filled it and the fields the backend sets
  afterwards. Pointers are 64-bit words, lengths 32-bit words.
\<close>

datatype prep =
    PrepOpenatDirect u64 int u32 u32
  | PrepCloseDirect u32
  | PrepReadFixed int u64 u32 u64 u32
  | PrepRead int u64 u32 u64
  | PrepWrite int u64 u32 u64
  | PrepWriteFixed int u64 u32 u64 u32
  | PrepFsync int
  | PrepTimeout u64
  | PrepPollAdd int u32
  | PrepSend int u64 u32
  | PrepSendMsg int u64
  | PrepAcceptMultishot int
  | PrepConnect int u64 u32
  | PrepCancel u64
  | PrepRecvMultishot int
  | PrepRecv int u64 u32
  | PrepMsgRing int u64
  | PrepNop

record sqe =
  sq_prep :: prep
  sq_fixed_file :: bool
  sq_buffer_select :: bool
  sq_poll_first :: bool
  sq_user_data :: u64

definition sqe_of :: "prep \<Rightarrow> u64 \<Rightarrow> sqe" where
  "sqe_of p d = \<lparr>sq_prep = p, sq_fixed_file = False, sq_buffer_select = False, sq_poll_first = False, sq_user_data = d\<rparr>"

text \<open>The socket opcodes \<open>CancelUnsubmittedForFd\<close> names, with their descriptor.\<close>

fun socket_fd :: "prep \<Rightarrow> int option" where
  "socket_fd (PrepSend fd a n) = Some fd"
| "socket_fd (PrepSendMsg fd m) = Some fd"
| "socket_fd (PrepRecv fd a n) = Some fd"
| "socket_fd (PrepRecvMultishot fd) = Some fd"
| "socket_fd (PrepAcceptMultishot fd) = Some fd"
| "socket_fd (PrepConnect fd a n) = Some fd"
| "socket_fd (PrepPollAdd fd ev) = Some fd"
| "socket_fd _ = None"

fun cancel_target :: "prep \<Rightarrow> u64 option" where
  "cancel_target (PrepCancel target) = Some target"
| "cancel_target _ = None"

section \<open>Completion tags\<close>

text \<open>The addresses of the four sentinel variables.\<close>

record tags =
  tg_wake_poll :: u64
  tg_cross_core :: u64
  tg_peer_cancel :: u64
  tg_cancel_request :: u64

definition kRecvTag :: u64 where "kRecvTag = 1"
definition kPeerDisconnectTag :: u64 where "kPeerDisconnectTag = 2"
definition kConnectionTagMask :: u64 where "kConnectionTagMask = 3"

definition EncodeMultishotData :: "u64 \<Rightarrow> u64" where
  "EncodeMultishotData c = c OR kRecvTag"

definition IsMultishotData :: "u64 \<Rightarrow> bool" where
  "IsMultishotData d \<longleftrightarrow> d AND kConnectionTagMask = kRecvTag"

definition DecodeMultishotConnection :: "u64 \<Rightarrow> u64" where
  "DecodeMultishotConnection d = d AND NOT kConnectionTagMask"

definition EncodePeerDisconnectData :: "u64 \<Rightarrow> u64" where
  "EncodePeerDisconnectData c = c OR kPeerDisconnectTag"

definition IsPeerDisconnectData :: "u64 \<Rightarrow> bool" where
  "IsPeerDisconnectData d \<longleftrightarrow> d AND kConnectionTagMask = kPeerDisconnectTag"

definition DecodePeerDisconnectConnection :: "u64 \<Rightarrow> u64" where
  "DecodePeerDisconnectConnection d = d AND NOT kConnectionTagMask"

section \<open>State\<close>

text \<open>
  \<open>ur_sq\<close> holds the ring entries between the kernel's head and the local tail, \<open>ur_entries\<close>
  the ring's size, \<open>ur_pending\<close> the software queue and \<open>ur_completions\<close> the synthetic completions
  waiting for dispatch. \<open>ur_consumed\<close> is the history of entries taken by the kernel.
\<close>

record uring =
  ur_initialized :: bool
  ur_may_cancel :: bool
  ur_multishot :: bool
  ur_wake_armed :: bool
  ur_owns_wake_fd :: bool
  ur_files_registered :: bool
  ur_buffers_registered :: bool
  ur_entries :: nat
  ur_sq :: "sqe list"
  ur_pending :: "sqe list"
  ur_completions :: "(u64 \<times> int) list"
  ur_rearm :: "u64 list"
  ur_wake_fd :: int
  ur_buf_entries :: u32
  ur_buf_size :: u32
  ur_buf_ring :: "u16 list"
  ur_consumed :: "sqe list"

text \<open>\<open>AcquireSqe\<close> with the descriptor written at once: \<open>None\<close> when the ring is full.\<close>

definition acquire_and_fill :: "sqe \<Rightarrow> uring \<Rightarrow> uring option" where
  "acquire_and_fill q u =
     (if \<not> ur_initialized u then None
      else if length (ur_sq u) < ur_entries u then Some (u\<lparr>ur_sq := ur_sq u @ [q]\<rparr>) else None)"

definition QueuePrepared :: "sqe \<Rightarrow> uring \<Rightarrow> status \<times> uring" where
  "QueuePrepared q u =
     (if \<not> ur_initialized u then (StFailedPrecondition, u) else (StOk, u\<lparr>ur_pending := ur_pending u @ [q]\<rparr>))"

definition SubmitOrQueue :: "sqe \<Rightarrow> uring \<Rightarrow> status \<times> uring" where
  "SubmitOrQueue q u =
     (case (if ur_initialized u \<and> ur_pending u = [] then acquire_and_fill q u else None) of
        Some u1 \<Rightarrow> (StOk, u1)
      | None \<Rightarrow> QueuePrepared q u)"

section \<open>Operations\<close>

definition SubmitOpenDirect :: "u64 \<Rightarrow> bool \<Rightarrow> int \<Rightarrow> u32 \<Rightarrow> u32 \<Rightarrow> u64 \<Rightarrow> uring \<Rightarrow> status \<times> uring" where
  "SubmitOpenDirect path path_empty flags mode file tag u =
     (if \<not> ur_files_registered u \<or> path_empty then (StFailedPrecondition, u)
      else SubmitOrQueue (sqe_of (PrepOpenatDirect path flags mode file) tag) u)"

definition SubmitCloseDirect :: "u32 \<Rightarrow> u64 \<Rightarrow> uring \<Rightarrow> status \<times> uring" where
  "SubmitCloseDirect file tag = SubmitOrQueue (sqe_of (PrepCloseDirect file) tag)"

definition SubmitReadFixed :: "u32 \<Rightarrow> u64 \<Rightarrow> u64 \<Rightarrow> u32 \<Rightarrow> u64 \<Rightarrow> u64 \<Rightarrow> uring \<Rightarrow> status \<times> uring" where
  "SubmitReadFixed file data n index offset tag =
     SubmitOrQueue ((sqe_of (PrepReadFixed (sint file) data (ucast n) offset index) tag)\<lparr>sq_fixed_file := True\<rparr>)"

definition SubmitRead :: "u32 \<Rightarrow> u64 \<Rightarrow> u64 \<Rightarrow> u64 \<Rightarrow> u64 \<Rightarrow> uring \<Rightarrow> status \<times> uring" where
  "SubmitRead file data n offset tag =
     SubmitOrQueue ((sqe_of (PrepRead (sint file) data (ucast n) offset) tag)\<lparr>sq_fixed_file := True\<rparr>)"

definition SubmitWrite :: "u32 \<Rightarrow> u64 \<Rightarrow> u64 \<Rightarrow> u64 \<Rightarrow> u64 \<Rightarrow> uring \<Rightarrow> status \<times> uring" where
  "SubmitWrite file data n offset tag =
     SubmitOrQueue ((sqe_of (PrepWrite (sint file) data (ucast n) offset) tag)\<lparr>sq_fixed_file := True\<rparr>)"

definition SubmitWriteFixed :: "u32 \<Rightarrow> u64 \<Rightarrow> u64 \<Rightarrow> u32 \<Rightarrow> u64 \<Rightarrow> u64 \<Rightarrow> uring \<Rightarrow> status \<times> uring" where
  "SubmitWriteFixed file data n index offset tag =
     SubmitOrQueue ((sqe_of (PrepWriteFixed (sint file) data (ucast n) offset index) tag)\<lparr>sq_fixed_file := True\<rparr>)"

definition SubmitFdatasync :: "u32 \<Rightarrow> u64 \<Rightarrow> uring \<Rightarrow> status \<times> uring" where
  "SubmitFdatasync file tag =
     SubmitOrQueue ((sqe_of (PrepFsync (sint file)) tag)\<lparr>sq_fixed_file := True\<rparr>)"

definition SubmitTimeout :: "u64 \<Rightarrow> u64 \<Rightarrow> uring \<Rightarrow> status \<times> uring" where
  "SubmitTimeout timespec tag = SubmitOrQueue (sqe_of (PrepTimeout timespec) tag)"

text \<open>\<open>RegisteredFile\<close>: a plain descriptor, or a slot of the registered file table.\<close>

record RegisteredFile =
  rf_fd :: int
  rf_fixed_index :: u32
  rf_is_fixed :: bool

definition file_fd :: "RegisteredFile \<Rightarrow> int" where
  "file_fd f = (if rf_is_fixed f then sint (rf_fixed_index f) else rf_fd f)"

definition SubmitSend :: "RegisteredFile \<Rightarrow> u64 \<Rightarrow> u64 \<Rightarrow> u64 \<Rightarrow> uring \<Rightarrow> status \<times> uring" where
  "SubmitSend f data n tag =
     SubmitOrQueue ((sqe_of (PrepSend (file_fd f) data (ucast n)) tag)\<lparr>sq_fixed_file := rf_is_fixed f\<rparr>)"

definition SubmitSendMsg :: "RegisteredFile \<Rightarrow> u64 \<Rightarrow> u64 \<Rightarrow> uring \<Rightarrow> status \<times> uring" where
  "SubmitSendMsg f msg tag =
     SubmitOrQueue ((sqe_of (PrepSendMsg (file_fd f) msg) tag)\<lparr>sq_fixed_file := rf_is_fixed f\<rparr>)"

definition SubmitAcceptMultishot :: "int \<Rightarrow> u64 \<Rightarrow> uring \<Rightarrow> status \<times> uring" where
  "SubmitAcceptMultishot fd tag = SubmitOrQueue (sqe_of (PrepAcceptMultishot fd) tag)"

definition SubmitConnect :: "int \<Rightarrow> u64 \<Rightarrow> u32 \<Rightarrow> u64 \<Rightarrow> uring \<Rightarrow> status \<times> uring" where
  "SubmitConnect fd address len tag u =
     (if fd < 0 \<or> address = 0 \<or> tag = 0 then (StInvalidArgument, u)
      else SubmitOrQueue (sqe_of (PrepConnect fd address len) tag) u)"

definition SubmitPoll :: "int \<Rightarrow> u32 \<Rightarrow> u64 \<Rightarrow> uring \<Rightarrow> status \<times> uring" where
  "SubmitPoll fd events tag u =
     (if fd < 0 \<or> tag = 0 then (StInvalidArgument, u)
      else SubmitOrQueue (sqe_of (PrepPollAdd fd events) tag) u)"

definition WakeRemote :: "tags \<Rightarrow> int \<Rightarrow> uring \<Rightarrow> uring" where
  "WakeRemote tg ring_fd u = snd (SubmitOrQueue (sqe_of (PrepMsgRing ring_fd (tg_cross_core tg)) (tg_cross_core tg)) u)"

section \<open>Software queue\<close>

fun drain_loop :: "sqe list \<Rightarrow> uring \<Rightarrow> bool \<times> uring" where
  "drain_loop [] u = (False, u\<lparr>ur_pending := []\<rparr>)"
| "drain_loop (q # qs) u =
     (case acquire_and_fill q u of
        None \<Rightarrow> (False, u\<lparr>ur_pending := q # qs\<rparr>)
      | Some u1 \<Rightarrow> (True, snd (drain_loop qs u1)))"

definition DrainPending :: "uring \<Rightarrow> bool \<times> uring" where
  "DrainPending u = (if ur_pending u = [] then (False, u) else drain_loop (ur_pending u) u)"

definition HasPending :: "uring \<Rightarrow> bool" where
  "HasPending u \<longleftrightarrow> ur_initialized u \<and> (ur_pending u \<noteq> [] \<or> ur_completions u \<noteq> [] \<or> ur_sq u \<noteq> [])"

definition SubmitError :: "int \<Rightarrow> status" where
  "SubmitError rc = (if rc = - EBUSY \<or> rc = - EINTR \<or> rc = - EAGAIN then StUnavailable else StInternal)"

text \<open>An enter call in which the kernel consumes \<open>k\<close> entries from the head of the ring.\<close>

definition kernel_enter :: "nat \<Rightarrow> uring \<Rightarrow> uring" where
  "kernel_enter k u = u\<lparr>ur_sq := drop k (ur_sq u), ur_consumed := ur_consumed u @ take k (ur_sq u)\<rparr>"

definition SubmitSlow :: "nat \<Rightarrow> int \<Rightarrow> uring \<Rightarrow> status \<times> uring" where
  "SubmitSlow k rc u =
     (if \<not> ur_initialized u then (StFailedPrecondition, u)
      else let u1 = snd (DrainPending u);
               u2 = kernel_enter k u1;
               u3 = snd (DrainPending u2)
           in (if rc < 0 then SubmitError rc else StOk, u3))"

definition ur_Submit :: "nat \<Rightarrow> int \<Rightarrow> uring \<Rightarrow> status \<times> uring" where
  "ur_Submit k rc u =
     (if ur_initialized u \<and> ur_pending u = []
      then (if 0 \<le> rc then StOk else SubmitError rc, kernel_enter k u)
      else SubmitSlow k rc u)"

section \<open>Cancellation\<close>

definition neutral_sqe :: "tags \<Rightarrow> sqe" where
  "neutral_sqe tg = sqe_of PrepNop (tg_cancel_request tg)"

definition CancelUnsubmittedMatching :: "tags \<Rightarrow> (sqe \<Rightarrow> bool) \<Rightarrow> int \<Rightarrow> uring \<Rightarrow> bool \<times> uring" where
  "CancelUnsubmittedMatching tg matches result u =
     (if \<not> ur_initialized u then (False, u)
      else let hit = filter matches (ur_sq u) @ filter matches (ur_pending u) in
        (hit \<noteq> [],
         u\<lparr>ur_completions := ur_completions u @ map (\<lambda>q. (sq_user_data q, result)) hit,
           ur_sq := map (\<lambda>q. if matches q then neutral_sqe tg else q) (ur_sq u),
           ur_pending := filter (\<lambda>q. \<not> matches q) (ur_pending u)\<rparr>))"

definition CancelByData :: "tags \<Rightarrow> u64 \<Rightarrow> u64 \<Rightarrow> uring \<Rightarrow> status \<times> uring" where
  "CancelByData tg target completion u =
     (if \<not> ur_initialized u then (StFailedPrecondition, u)
      else let (cancelled, u1) = CancelUnsubmittedMatching tg (\<lambda>q. sq_user_data q = target) (- ECANCELED) u in
        if cancelled then (StOk, u1\<lparr>ur_completions := ur_completions u1 @ [(completion, 0)]\<rparr>)
        else let (status, u2) = SubmitOrQueue (sqe_of (PrepCancel target) completion) u1 in
          (status, if status_ok status then u2\<lparr>ur_may_cancel := True\<rparr> else u2))"

definition socket_match :: "int \<Rightarrow> sqe \<Rightarrow> bool" where
  "socket_match fd q \<longleftrightarrow> \<not> sq_fixed_file q \<and> socket_fd (sq_prep q) = Some fd"

definition CancelUnsubmittedForFd :: "tags \<Rightarrow> int \<Rightarrow> uring \<Rightarrow> uring" where
  "CancelUnsubmittedForFd tg fd u =
     (if fd < 0 then u else snd (CancelUnsubmittedMatching tg (socket_match fd) (- ECANCELED) u))"

definition SubmitCancel :: "tags \<Rightarrow> u64 \<Rightarrow> uring \<Rightarrow> status \<times> uring" where
  "SubmitCancel tg target u =
     (if target = 0 then (StInvalidArgument, u) else CancelByData tg target (tg_cancel_request tg) u)"

definition RetireUnsubmittedCancels :: "tags \<Rightarrow> u64 \<Rightarrow> uring \<Rightarrow> uring" where
  "RetireUnsubmittedCancels tg target u =
     (if \<not> ur_initialized u then u\<lparr>ur_may_cancel := False\<rparr>
      else let other_cancels = list_ex (\<lambda>q. cancel_target (sq_prep q) \<noteq> None \<and> cancel_target (sq_prep q) \<noteq> Some target)
                 (ur_sq u @ ur_pending u);
               u1 = snd (CancelUnsubmittedMatching tg (\<lambda>q. cancel_target (sq_prep q) = Some target) (- ENOENT) u)
           in u1\<lparr>ur_may_cancel := other_cancels\<rparr>)"

section \<open>Registration\<close>

definition RegisterFixedFiles :: "int \<Rightarrow> u32 \<Rightarrow> uring \<Rightarrow> status \<times> uring" where
  "RegisterFixedFiles rc n u =
     (if \<not> ur_initialized u \<or> n = 0 \<or> ur_files_registered u then (StFailedPrecondition, u)
      else if rc < 0 then (StResourceExhausted, u) else (StOk, u\<lparr>ur_files_registered := True\<rparr>))"

definition RegisterBuffers :: "int \<Rightarrow> nat \<Rightarrow> uring \<Rightarrow> status \<times> uring" where
  "RegisterBuffers rc n u =
     (if \<not> ur_initialized u \<or> n = 0 \<or> ur_buffers_registered u then (StFailedPrecondition, u)
      else if rc < 0 then (StResourceExhausted, u) else (StOk, u\<lparr>ur_buffers_registered := True\<rparr>))"

definition UnregisterStorageResources :: "uring \<Rightarrow> uring" where
  "UnregisterStorageResources u = u\<lparr>ur_buffers_registered := False, ur_files_registered := False\<rparr>"

section \<open>Tags\<close>

lemma tag_word_cases:
  assumes "c AND 3 = (0 :: u64)"
  shows "(c OR 1) AND 3 = 1" "(c OR 2) AND 3 = 2" "(c OR 1) AND NOT 3 = c" "(c OR 2) AND NOT 3 = c"
proof -
  have m: "c AND NOT 3 = c"
  proof -
    have "c = (c AND 3) OR (c AND NOT 3)" by (simp add: bit.conj_disj_distrib [symmetric])
    then show ?thesis using assms by simp
  qed
  show "(c OR 1) AND 3 = 1" "(c OR 2) AND 3 = 2" using assms by (simp_all add: bit.conj_disj_distrib2)
  show "(c OR 1) AND NOT 3 = c" "(c OR 2) AND NOT 3 = c" using m by (simp_all add: bit.conj_disj_distrib2)
qed

text \<open>
  C39: completion tags decode to the connection they were made from. For a connection aligned to
  four bytes the receive and the peer-disconnect tag are told apart by the low bits, neither is
  mistaken for an aligned completion object or sentinel, and decoding returns the address.
\<close>

theorem connection_tags_roundtrip:
  assumes "c AND kConnectionTagMask = 0"
  shows "IsMultishotData (EncodeMultishotData c) \<and> \<not> IsPeerDisconnectData (EncodeMultishotData c) \<and>
    DecodeMultishotConnection (EncodeMultishotData c) = c \<and>
    IsPeerDisconnectData (EncodePeerDisconnectData c) \<and> \<not> IsMultishotData (EncodePeerDisconnectData c) \<and>
    DecodePeerDisconnectConnection (EncodePeerDisconnectData c) = c \<and>
    \<not> IsMultishotData c \<and> \<not> IsPeerDisconnectData c"
  using assms tag_word_cases [of c]
  by (simp add: IsMultishotData_def IsPeerDisconnectData_def EncodeMultishotData_def EncodePeerDisconnectData_def
      DecodeMultishotConnection_def DecodePeerDisconnectConnection_def kRecvTag_def kPeerDisconnectTag_def kConnectionTagMask_def)

theorem connection_tags_roundtrip_witness:
  "DecodeMultishotConnection (EncodeMultishotData 0x7f00aa40) = 0x7f00aa40 \<and> IsPeerDisconnectData (EncodePeerDisconnectData 0x7f00aa40)"
  using connection_tags_roundtrip [of "0x7f00aa40"] by (simp add: kConnectionTagMask_def)

section \<open>The submission queue is a FIFO\<close>

definition accepted :: "uring \<Rightarrow> sqe list" where
  "accepted u = ur_sq u @ ur_pending u"

definition ring_ok :: "uring \<Rightarrow> bool" where
  "ring_ok u \<longleftrightarrow> ur_initialized u \<and> length (ur_sq u) \<le> ur_entries u"

lemma SubmitOrQueue_spec:
  assumes "ring_ok u"
  shows "fst (SubmitOrQueue q u) = StOk" "accepted (snd (SubmitOrQueue q u)) = accepted u @ [q]"
    "ring_ok (snd (SubmitOrQueue q u))" "ur_consumed (snd (SubmitOrQueue q u)) = ur_consumed u"
    "ur_completions (snd (SubmitOrQueue q u)) = ur_completions u" "ur_may_cancel (snd (SubmitOrQueue q u)) = ur_may_cancel u"
  using assms
  by (auto simp: SubmitOrQueue_def acquire_and_fill_def QueuePrepared_def accepted_def ring_ok_def split: option.splits if_splits)

lemma drain_loop_spec:
  assumes "ring_ok u"
  shows "accepted (snd (drain_loop qs u)) = ur_sq u @ qs \<and> ring_ok (snd (drain_loop qs u)) \<and>
    ur_consumed (snd (drain_loop qs u)) = ur_consumed u \<and> ur_completions (snd (drain_loop qs u)) = ur_completions u \<and>
    ur_may_cancel (snd (drain_loop qs u)) = ur_may_cancel u \<and>
    (ur_pending (snd (drain_loop qs u)) = [] \<or> length (ur_sq (snd (drain_loop qs u))) = ur_entries u)"
  using assms
proof (induction qs arbitrary: u)
  case (Cons q qs)
  show ?case
  proof (cases "length (ur_sq u) < ur_entries u")
    case True
    let ?u = "u\<lparr>ur_sq := ur_sq u @ [q]\<rparr>"
    have "ring_ok ?u" using Cons.prems True by (simp add: ring_ok_def)
    from Cons.IH [OF this] show ?thesis using Cons.prems True by (simp add: acquire_and_fill_def ring_ok_def)
  next
    case False
    then show ?thesis using Cons.prems by (simp add: acquire_and_fill_def ring_ok_def accepted_def)
  qed
qed (simp add: accepted_def ring_ok_def)

lemma DrainPending_spec:
  assumes "ring_ok u"
  shows "accepted (snd (DrainPending u)) = accepted u" "ring_ok (snd (DrainPending u))"
    "ur_consumed (snd (DrainPending u)) = ur_consumed u" "ur_completions (snd (DrainPending u)) = ur_completions u"
    "ur_may_cancel (snd (DrainPending u)) = ur_may_cancel u"
    "ur_pending (snd (DrainPending u)) = [] \<or> length (ur_sq (snd (DrainPending u))) = ur_entries u"
  using drain_loop_spec [OF assms, of "ur_pending u"] assms by (auto simp: DrainPending_def accepted_def)

lemma kernel_enter_spec:
  "ur_consumed (kernel_enter k u) @ accepted (kernel_enter k u) = ur_consumed u @ accepted u"
  "ring_ok u \<Longrightarrow> ring_ok (kernel_enter k u)" "ur_completions (kernel_enter k u) = ur_completions u"
  "ur_may_cancel (kernel_enter k u) = ur_may_cancel u"
  "set (accepted (kernel_enter k u)) \<subseteq> set (accepted u)"
  by (auto simp: kernel_enter_def accepted_def ring_ok_def dest: in_set_dropD)

lemma Submit_spec:
  assumes "ring_ok u"
  shows "ur_consumed (snd (ur_Submit k rc u)) @ accepted (snd (ur_Submit k rc u)) = ur_consumed u @ accepted u"
    "ring_ok (snd (ur_Submit k rc u))" "ur_completions (snd (ur_Submit k rc u)) = ur_completions u"
    "ur_may_cancel (snd (ur_Submit k rc u)) = ur_may_cancel u"
    "set (accepted (snd (ur_Submit k rc u))) \<subseteq> set (accepted u)"
proof -
  note D1 = DrainPending_spec [OF assms]
  note K = kernel_enter_spec [where k = k and u = "snd (DrainPending u)"]
  note D2 = DrainPending_spec [OF K(2) [OF D1(2)]]
  have i: "ur_initialized u" using assms by (simp add: ring_ok_def)
  show "ur_consumed (snd (ur_Submit k rc u)) @ accepted (snd (ur_Submit k rc u)) = ur_consumed u @ accepted u"
    "ring_ok (snd (ur_Submit k rc u))" "ur_completions (snd (ur_Submit k rc u)) = ur_completions u"
    "ur_may_cancel (snd (ur_Submit k rc u)) = ur_may_cancel u"
    "set (accepted (snd (ur_Submit k rc u))) \<subseteq> set (accepted u)"
    using i D1 K D2 kernel_enter_spec [where k = k and u = u] assms by (simp_all add: ur_Submit_def SubmitSlow_def Let_def)
qed

text \<open>What a worker does to the backend between two completions.\<close>

datatype submit_event = USubmit sqe | UEnter nat int | UDrain

fun do_submit :: "submit_event \<Rightarrow> uring \<Rightarrow> status \<times> uring" where
  "do_submit (USubmit q) u = SubmitOrQueue q u"
| "do_submit (UEnter k rc) u = ur_Submit k rc u"
| "do_submit UDrain u = (StOk, snd (DrainPending u))"

fun submitted :: "submit_event list \<Rightarrow> sqe list" where
  "submitted [] = []"
| "submitted (USubmit q # es) = q # submitted es"
| "submitted (_ # es) = submitted es"

lemma do_submit_spec:
  assumes "ring_ok u"
  shows "ring_ok (snd (do_submit e u))"
    "ur_consumed (snd (do_submit e u)) @ accepted (snd (do_submit e u)) = ur_consumed u @ accepted u @ submitted [e]"
  using assms by (cases e; simp add: SubmitOrQueue_spec Submit_spec DrainPending_spec)+

text \<open>
  C24: operations reach the kernel in the order they were accepted. Whatever the ring size and
  however many entries each enter call takes, none included, the entries consumed so far followed
  by those in the ring and the software queue are exactly the accepted submissions in order; no
  submission to an initialised backend is refused; and the ring never holds more entries than it
  has.
\<close>

theorem submission_is_fifo:
  assumes "ring_ok u" "u1 = fold (\<lambda>e v. snd (do_submit e v)) es u"
  shows "ur_consumed u1 @ ur_sq u1 @ ur_pending u1 = ur_consumed u @ ur_sq u @ ur_pending u @ submitted es \<and>
    length (ur_sq u1) \<le> ur_entries u1 \<and> fst (SubmitOrQueue q u1) = StOk"
proof -
  have "ring_ok u1 \<and> ur_consumed u1 @ accepted u1 = ur_consumed u @ accepted u @ submitted es"
    unfolding assms(2) using assms(1)
  proof (induction es arbitrary: u)
    case (Cons e es)
    note S = do_submit_spec [OF Cons.prems, of e]
    from Cons.IH [OF S(1)] S(2) show ?case by (cases e) simp_all
  qed simp
  then show ?thesis using SubmitOrQueue_spec(1) [of u1 q] by (auto simp: accepted_def ring_ok_def)
qed

definition small_ring :: uring where
  "small_ring = \<lparr>ur_initialized = True, ur_may_cancel = False, ur_multishot = False, ur_wake_armed = False,
     ur_owns_wake_fd = False, ur_files_registered = False, ur_buffers_registered = False, ur_entries = 1, ur_sq = [],
     ur_pending = [], ur_completions = [], ur_rearm = [], ur_wake_fd = 5, ur_buf_entries = 0, ur_buf_size = 0,
     ur_buf_ring = [], ur_consumed = []\<rparr>"

theorem submission_is_fifo_witness:
  "let u1 = fold (\<lambda>e v. snd (do_submit e v))
      [USubmit (sqe_of (PrepTimeout 1) 8), USubmit (sqe_of (PrepTimeout 2) 16), UEnter 1 1, USubmit (sqe_of PrepNop 24)] small_ring in
   ur_consumed u1 @ ur_sq u1 @ ur_pending u1 = [sqe_of (PrepTimeout 1) 8, sqe_of (PrepTimeout 2) 16, sqe_of PrepNop 24] \<and>
   length (ur_sq u1) \<le> ur_entries u1"
proof -
  have "ring_ok small_ring" by (simp add: ring_ok_def small_ring_def)
  from submission_is_fifo [OF this refl] show ?thesis by (simp add: Let_def small_ring_def del: fold.simps)
qed

section \<open>Cancelling what has not been submitted\<close>

lemma Cancel_spec:
  assumes "ring_ok u" "CancelUnsubmittedMatching tg matches result u = (hit, u1)"
  shows "ring_ok u1" "ur_consumed u1 = ur_consumed u" "hit \<longleftrightarrow> (\<exists>q \<in> set (accepted u). matches q)"
    "ur_completions u1 = ur_completions u @ map (\<lambda>q. (sq_user_data q, result)) (filter matches (accepted u))"
    "set (accepted u1) \<subseteq> {q \<in> set (accepted u). \<not> matches q} \<union> {neutral_sqe tg}"
    "filter (\<lambda>q. q \<noteq> neutral_sqe tg) (accepted u1) = filter (\<lambda>q. q \<noteq> neutral_sqe tg \<and> \<not> matches q) (accepted u)"
    "ur_may_cancel u1 = ur_may_cancel u"
proof -
  have f: "filter (\<lambda>q. q \<noteq> n) (map (\<lambda>q. if matches q then n else q) xs) = filter (\<lambda>q. q \<noteq> n \<and> \<not> matches q) xs" for n xs
    by (induction xs) auto
  show "ring_ok u1" "ur_consumed u1 = ur_consumed u" "hit \<longleftrightarrow> (\<exists>q \<in> set (accepted u). matches q)"
    "ur_completions u1 = ur_completions u @ map (\<lambda>q. (sq_user_data q, result)) (filter matches (accepted u))"
    "set (accepted u1) \<subseteq> {q \<in> set (accepted u). \<not> matches q} \<union> {neutral_sqe tg}"
    "filter (\<lambda>q. q \<noteq> neutral_sqe tg) (accepted u1) = filter (\<lambda>q. q \<noteq> neutral_sqe tg \<and> \<not> matches q) (accepted u)"
    "ur_may_cancel u1 = ur_may_cancel u"
    using assms f by (auto simp: CancelUnsubmittedMatching_def accepted_def ring_ok_def Let_def filter_empty_conv conj_commute)
qed

text \<open>
  C25: closing a descriptor leaves no operation behind on its number. After
  \<open>CancelUnsubmittedForFd\<close> neither the ring nor the software queue holds a socket operation on
  that descriptor, each one found there got exactly one completion with \<open>-ECANCELED\<close>, in order,
  and every other operation is still queued in its place.
\<close>

theorem closed_fd_has_no_queued_io:
  assumes "ring_ok u" "0 \<le> fd" "u1 = CancelUnsubmittedForFd tg fd u"
  shows "list_all (\<lambda>q. \<not> socket_match fd q) (ur_sq u1 @ ur_pending u1) \<and>
    ur_completions u1 = ur_completions u @ map (\<lambda>q. (sq_user_data q, - ECANCELED)) (filter (socket_match fd) (ur_sq u @ ur_pending u)) \<and>
    filter (\<lambda>q. q \<noteq> neutral_sqe tg) (ur_sq u1 @ ur_pending u1) =
      filter (\<lambda>q. q \<noteq> neutral_sqe tg \<and> \<not> socket_match fd q) (ur_sq u @ ur_pending u)"
proof -
  obtain hit v where v: "CancelUnsubmittedMatching tg (socket_match fd) (- ECANCELED) u = (hit, v)" by fastforce
  then have "u1 = v" using assms by (simp add: CancelUnsubmittedForFd_def)
  moreover have "\<not> socket_match fd (neutral_sqe tg)" by (simp add: socket_match_def neutral_sqe_def sqe_of_def)
  ultimately show ?thesis using Cancel_spec [OF assms(1) v] by (auto simp: accepted_def list_all_iff)
qed

definition some_tags :: tags where
  "some_tags = \<lparr>tg_wake_poll = 0x100, tg_cross_core = 0x104, tg_peer_cancel = 0x108, tg_cancel_request = 0x10c\<rparr>"

definition busy_ring :: uring where
  "busy_ring = small_ring\<lparr>ur_sq := [sqe_of (PrepSend 7 0 4) 0x20], ur_pending := [sqe_of (PrepRecvMultishot 9) 0x31, sqe_of (PrepPollAdd 7 1) 0x40]\<rparr>"

theorem closed_fd_has_no_queued_io_witness:
  "ur_completions (CancelUnsubmittedForFd some_tags 7 busy_ring) = [(0x20, - ECANCELED), (0x40, - ECANCELED)]"
proof -
  have "ring_ok busy_ring" by (simp add: ring_ok_def busy_ring_def small_ring_def)
  from closed_fd_has_no_queued_io [OF this _ refl, of 7 some_tags]
  show ?thesis by (simp add: busy_ring_def small_ring_def socket_match_def sqe_of_def)
qed

text \<open>The requests a worker makes of the backend, cancellations included.\<close>

datatype backend_event =
    EvSubmit sqe
  | EvEnter nat int
  | EvDrain
  | EvCancelFd int
  | EvCancel u64 u64
  | EvRetire u64

fun do_event :: "tags \<Rightarrow> backend_event \<Rightarrow> uring \<Rightarrow> uring" where
  "do_event tg (EvSubmit q) u = snd (SubmitOrQueue q u)"
| "do_event tg (EvEnter k rc) u = snd (ur_Submit k rc u)"
| "do_event tg EvDrain u = snd (DrainPending u)"
| "do_event tg (EvCancelFd fd) u = CancelUnsubmittedForFd tg fd u"
| "do_event tg (EvCancel target completion) u = snd (CancelByData tg target completion u)"
| "do_event tg (EvRetire target) u = RetireUnsubmittedCancels tg target u"

text \<open>The tags under which an event asks for a completion.\<close>

fun requested :: "backend_event \<Rightarrow> u64 list" where
  "requested (EvSubmit q) = [sq_user_data q]"
| "requested (EvCancel target completion) = [completion]"
| "requested _ = []"

text \<open>
  The completions a tag will see: one per entry consumed by the kernel or still queued, and one
  per synthetic completion.
\<close>

definition owed :: "u64 \<Rightarrow> uring \<Rightarrow> nat" where
  "owed d u = count_list (map sq_user_data (ur_consumed u @ accepted u)) d + count_list (map fst (ur_completions u)) d"

lemma count_cancelled:
  assumes "sq_user_data n \<noteq> d"
  shows "count_list (map sq_user_data (map (\<lambda>q. if m q then n else q) xs)) d + count_list (map sq_user_data (filter m xs)) d =
    count_list (map sq_user_data xs) d"
  using assms by (induction xs) auto

lemma count_filtered:
  "count_list (map f (filter (\<lambda>q. \<not> m q) xs)) d + count_list (map f (filter m xs)) d = count_list (map f xs) d"
  by (induction xs) auto

lemma Cancel_owed:
  assumes "ring_ok u" "d \<noteq> tg_cancel_request tg"
  shows "owed d (snd (CancelUnsubmittedMatching tg m r u)) = owed d u"
proof -
  have "sq_user_data (neutral_sqe tg) \<noteq> d" using assms by (simp add: neutral_sqe_def sqe_of_def)
  from count_cancelled [OF this, of m "ur_sq u"] count_filtered [of sq_user_data m "ur_pending u" d] assms(1)
  show ?thesis
    by (simp add: CancelUnsubmittedMatching_def owed_def accepted_def Let_def ring_ok_def comp_def)
qed

lemma owed_cong:
  "ur_consumed v @ accepted v = ur_consumed u @ accepted u \<Longrightarrow> ur_completions v = ur_completions u \<Longrightarrow> owed d v = owed d u"
  by (simp add: owed_def)

lemma SubmitOrQueue_owed:
  "ring_ok u \<Longrightarrow> owed d (snd (SubmitOrQueue q u)) = owed d u + of_bool (sq_user_data q = d)"
  by (simp add: owed_def SubmitOrQueue_spec)

lemma owed_updates [simp]:
  "owed d (u\<lparr>ur_may_cancel := b\<rparr>) = owed d u" "ring_ok (u\<lparr>ur_may_cancel := b\<rparr>) = ring_ok u"
  "owed d (u\<lparr>ur_completions := ur_completions u @ [(c, r)]\<rparr>) = owed d u + of_bool (c = d)"
  "ring_ok (u\<lparr>ur_completions := cs\<rparr>) = ring_ok u"
  by (simp_all add: owed_def accepted_def ring_ok_def)

lemma CancelByData_spec:
  assumes "ring_ok u" "d \<noteq> tg_cancel_request tg"
  shows "ring_ok (snd (CancelByData tg target completion u))"
    "owed d (snd (CancelByData tg target completion u)) = owed d u + of_bool (completion = d)"
proof -
  obtain hit v where v: "CancelUnsubmittedMatching tg (\<lambda>q. sq_user_data q = target) (- ECANCELED) u = (hit, v)" by fastforce
  note C = Cancel_spec [OF assms(1) v]
  have o: "owed d v = owed d u" using Cancel_owed [OF assms] v by (metis snd_conv)
  have i: "ur_initialized u" using assms(1) by (simp add: ring_ok_def)
  let ?q = "sqe_of (PrepCancel target) completion"
  note S = SubmitOrQueue_spec [OF C(1), of ?q] SubmitOrQueue_owed [OF C(1), of d ?q]
  have e: "snd (CancelByData tg target completion u) =
    (if hit then v\<lparr>ur_completions := ur_completions v @ [(completion, 0)]\<rparr> else (snd (SubmitOrQueue ?q v))\<lparr>ur_may_cancel := True\<rparr>)"
    using i v S(1) by (auto simp: CancelByData_def case_prod_unfold Let_def)
  show "ring_ok (snd (CancelByData tg target completion u))" unfolding e using C(1) S by simp
  show "owed d (snd (CancelByData tg target completion u)) = owed d u + of_bool (completion = d)"
    unfolding e using o S by (simp add: sqe_of_def)
qed

lemma do_event_spec:
  assumes "ring_ok u" "d \<noteq> tg_cancel_request tg"
  shows "ring_ok (do_event tg e u) \<and> owed d (do_event tg e u) = owed d u + count_list (requested e) d"
proof (cases e)
  case (EvEnter k rc)
  note S = Submit_spec [OF assms(1), of k rc]
  show ?thesis using EvEnter S(2) owed_cong [OF S(1,3)] by simp
next
  case EvDrain
  note S = DrainPending_spec [OF assms(1)]
  show ?thesis using EvDrain S(2) by (simp add: owed_def S)
next
  case (EvCancelFd fd)
  obtain hit v where v: "CancelUnsubmittedMatching tg (socket_match fd) (- ECANCELED) u = (hit, v)" by fastforce
  show ?thesis using EvCancelFd v Cancel_spec(1) [OF assms(1) v] Cancel_owed [OF assms, of "socket_match fd" "- ECANCELED"] assms
    by (simp add: CancelUnsubmittedForFd_def)
next
  case (EvRetire target)
  obtain hit v where v: "CancelUnsubmittedMatching tg (\<lambda>q. cancel_target (sq_prep q) = Some target) (- ENOENT) u = (hit, v)" by fastforce
  have "ring_ok v" using Cancel_spec(1) [OF assms(1) v] .
  moreover have "owed d v = owed d u" using Cancel_owed [OF assms, of "\<lambda>q. cancel_target (sq_prep q) = Some target" "- ENOENT"] v by simp
  ultimately show ?thesis using EvRetire v assms
    by (simp add: RetireUnsubmittedCancels_def Let_def)
qed (use assms in \<open>simp_all add: SubmitOrQueue_spec SubmitOrQueue_owed CancelByData_spec\<close>)

text \<open>
  C14: every accepted request is answered exactly once. For any sequence of submissions, enter
  calls, cancellations by descriptor or by tag and retirements, the completions a tag is due (one
  per entry consumed or still queued under it and one per synthetic completion) grow by exactly
  the number of requests made under that tag: cancelling an unsubmitted operation neither loses
  its completion nor duplicates it.
\<close>

theorem every_request_answered_once:
  assumes "ring_ok u" "d \<noteq> tg_cancel_request tg"
  shows "owed d (fold (do_event tg) es u) = owed d u + count_list (concat (map requested es)) d"
  using assms
proof (induction es arbitrary: u)
  case (Cons e es)
  note S = do_event_spec [OF Cons.prems, of e]
  with Cons.IH [of "do_event tg e u"] Cons.prems show ?case by (simp add: count_list_append)
qed simp

theorem every_request_answered_once_witness:
  "owed 0x40 (fold (do_event some_tags) [EvSubmit (sqe_of (PrepSend 3 0 9) 0x40), EvCancelFd 3, EvEnter 1 1] small_ring) = 1"
proof -
  have "ring_ok small_ring" "(0x40 :: u64) \<noteq> tg_cancel_request some_tags" by (simp_all add: ring_ok_def small_ring_def some_tags_def)
  from every_request_answered_once [OF this, of "[EvSubmit (sqe_of (PrepSend 3 0 9) 0x40), EvCancelFd 3, EvEnter 1 1]"]
  show ?thesis by (simp add: sqe_of_def owed_def small_ring_def accepted_def del: fold.simps)
qed

end
