(* ===== verification/Connections.thy ===== *)
theory Connections
  imports Bycorf_Prelude
begin

text \<open>
  The connection table of a worker: \<open>include/bycorf/net/connection.h\<close> and the connection part
  of \<open>src/runtime/worker.cpp\<close>. Adding, closing, retiring, reclaiming and idle-timing
  connections, with the storage borrows that keep a closed connection's memory alive. What the
  network backend does to a connection when one of its operations is cancelled is a parameter.
\<close>

section \<open>State\<close>

datatype ConnectionState = kActive | kClosing | kDraining | kRetired

datatype CloseMode = kLocalClose | kPeerClosed | kLocalError | kIdleTimeout | kWorkerShutdown

record ReceivedBuffer =
  rb_buffer_id :: u16
  rb_size :: u32
  rb_offset :: u32

text \<open>A reader handle of 0 is the null handle.\<close>

record Connection =
  cn_id :: u64
  cn_fd :: int
  cn_read_waiter :: nat
  cn_last_error :: status
  cn_last_active_ms :: int
  cn_inflight_ops :: u32
  cn_state :: ConnectionState
  cn_closing :: bool
  cn_closed :: bool
  cn_read_inflight :: bool
  cn_write_inflight :: bool
  cn_recv_armed :: bool
  cn_recv_eof :: bool
  cn_retired :: bool
  cn_received :: "ReceivedBuffer list"
  cn_borrows :: u32

text \<open>
  \<open>ct_ready\<close>, \<open>ct_closed_fds\<close>, \<open>ct_released\<close> and \<open>ct_freed\<close> record the readers enqueued, the
  descriptors passed to \<open>CloseSocket\<close>, the receive buffers returned to the backend and the
  connections whose storage was freed.
\<close>

record table =
  ct_conns :: "u64 \<Rightarrow> Connection option"
  ct_retired :: "u64 list"
  ct_next_id :: u64
  ct_active :: u64
  ct_process_active :: u64
  ct_ready :: "nat list"
  ct_closed_fds :: "int list"
  ct_cancelled_fds :: "int list"
  ct_released :: "(u64 \<times> u16) list"
  ct_freed :: "u64 list"

definition empty_table :: table where
  "empty_table = \<lparr>ct_conns = \<lambda>_. None, ct_retired = [], ct_next_id = 1, ct_active = 0, ct_process_active = 0,
     ct_ready = [], ct_closed_fds = [], ct_cancelled_fds = [], ct_released = [], ct_freed = []\<rparr>"

text \<open>The backend: how cancelling the disconnect poll and the receive changes the connection.\<close>

record net_ops =
  no_cancel_poll :: "Connection \<Rightarrow> Connection"
  no_cancel_recv :: "Connection \<Rightarrow> Connection"
  no_is_dpdk :: "int \<Rightarrow> bool"

section \<open>Operations\<close>

definition BorrowConnectionStorage :: "Connection \<Rightarrow> Connection option" where
  "BorrowConnectionStorage c = (if cn_borrows c = - 1 then None else Some (c\<lparr>cn_borrows := cn_borrows c + 1\<rparr>))"

definition ReleaseConnectionStorage :: "Connection \<Rightarrow> Connection option" where
  "ReleaseConnectionStorage c = (if cn_borrows c = 0 then None else Some (c\<lparr>cn_borrows := cn_borrows c - 1\<rparr>))"

text \<open>The new id, or \<open>None\<close> for the null pointer returned on a bad descriptor.\<close>

definition AddConnection :: "int \<Rightarrow> Connection \<Rightarrow> table \<Rightarrow> u64 option \<times> table" where
  "AddConnection now_ms c t =
     (if cn_fd c < 0 then (None, t)
      else let i = ct_next_id t in
        (Some i, t\<lparr>ct_next_id := i + 1,
                   ct_conns := (ct_conns t)(i \<mapsto> c\<lparr>cn_id := i, cn_last_active_ms := now_ms\<rparr>),
                   ct_active := ct_active t + 1, ct_process_active := ct_process_active t + 1\<rparr>))"

definition DiscardReceivedBuffers :: "Connection \<Rightarrow> table \<Rightarrow> Connection \<times> table" where
  "DiscardReceivedBuffers c t =
     (c\<lparr>cn_received := []\<rparr>, t\<lparr>ct_released := ct_released t @ map (\<lambda>b. (cn_id c, rb_buffer_id b)) (cn_received c)\<rparr>)"

definition RetireConnection :: "Connection \<Rightarrow> table \<Rightarrow> Connection \<times> table" where
  "RetireConnection c t =
     (if cn_retired c then (c, t)
      else let c1 = c\<lparr>cn_retired := True, cn_closing := True,
                      cn_state := (if cn_recv_armed c \<or> cn_inflight_ops c \<noteq> 0 \<or> cn_read_waiter c \<noteq> 0 \<or> cn_read_inflight c \<or>
                                      cn_write_inflight c \<or> cn_received c \<noteq> []
                                   then kDraining else kRetired)\<rparr>;
               (c2, t1) = DiscardReceivedBuffers c1 t
           in (c2, t1\<lparr>ct_retired := ct_retired t1 @ [cn_id c2]\<rparr>))"

text \<open>The descriptor part of \<open>BeginClose\<close>: cancel what is queued on it, forget it, close it.\<close>

definition close_descriptor :: "net_ops \<Rightarrow> Connection \<Rightarrow> table \<Rightarrow> Connection \<times> table" where
  "close_descriptor net c t =
     (if 0 \<le> cn_fd c
      then let fd = cn_fd c;
               t1 = (if \<not> no_is_dpdk net fd then t\<lparr>ct_cancelled_fds := ct_cancelled_fds t @ [fd]\<rparr> else t)
           in (c\<lparr>cn_fd := - 1, cn_closed := True\<rparr>, t1\<lparr>ct_closed_fds := ct_closed_fds t1 @ [fd]\<rparr>)
      else (c\<lparr>cn_closed := True\<rparr>, t))"

definition wake_reader :: "Connection \<Rightarrow> table \<Rightarrow> Connection \<times> table" where
  "wake_reader c t =
     (if cn_read_waiter c \<noteq> 0
      then (c\<lparr>cn_read_waiter := 0, cn_read_inflight := False\<rparr>, t\<lparr>ct_ready := ct_ready t @ [cn_read_waiter c]\<rparr>)
      else (c, t))"

definition close_connection :: "net_ops \<Rightarrow> status \<Rightarrow> CloseMode \<Rightarrow> Connection \<Rightarrow> table \<Rightarrow> Connection \<times> table" where
  "close_connection net reason mode c t =
     (if cn_state c = kRetired then (c, t)
      else let t1 = (if cn_state c = kActive
                     then t\<lparr>ct_active := ct_active t - 1, ct_process_active := ct_process_active t - 1\<rparr> else t);
               c1 = (if \<not> status_ok reason \<or> status_ok (cn_last_error c) then c\<lparr>cn_last_error := reason\<rparr> else c);
               c2 = no_cancel_poll net (c1\<lparr>cn_closing := True, cn_state := kClosing\<rparr>);
               c3 = (if cn_recv_armed c2 then no_cancel_recv net c2 else c2);
               (c4, t2) = close_descriptor net c3 t1;
               c5 = (if mode \<noteq> kPeerClosed then c4\<lparr>cn_recv_eof := False\<rparr> else c4);
               (c6, t3) = wake_reader c5 t2
           in RetireConnection c6 t3)"

text \<open>\<open>BeginClose\<close> on a connection of the table; an absent one is the null pointer.\<close>

definition BeginClose :: "net_ops \<Rightarrow> status \<Rightarrow> CloseMode \<Rightarrow> u64 \<Rightarrow> table \<Rightarrow> table" where
  "BeginClose net reason mode i t =
     (case ct_conns t i of
        None \<Rightarrow> t
      | Some c \<Rightarrow> let (c1, t1) = close_connection net reason mode c t in t1\<lparr>ct_conns := (ct_conns t1)(i \<mapsto> c1)\<rparr>)"

definition CanReclaim :: "Connection \<Rightarrow> bool" where
  "CanReclaim c \<longleftrightarrow> cn_state c \<noteq> kActive \<and> cn_inflight_ops c = 0 \<and> cn_borrows c = 0 \<and> cn_read_waiter c = 0 \<and>
     \<not> cn_read_inflight c \<and> \<not> cn_write_inflight c \<and> \<not> cn_recv_armed c \<and> cn_received c = []"

fun reclaim_loop :: "u64 list \<Rightarrow> u64 list \<Rightarrow> table \<Rightarrow> table" where
  "reclaim_loop [] still t = t\<lparr>ct_retired := still\<rparr>"
| "reclaim_loop (i # is) still t =
     (case ct_conns t i of
        None \<Rightarrow> reclaim_loop is still t
      | Some c \<Rightarrow>
          if \<not> CanReclaim c
          then reclaim_loop is (still @ [i]) (t\<lparr>ct_conns := (ct_conns t)(i \<mapsto> c\<lparr>cn_state := kDraining\<rparr>)\<rparr>)
          else reclaim_loop is still (t\<lparr>ct_conns := (ct_conns t)(i := None), ct_freed := ct_freed t @ [i]\<rparr>))"

definition ReclaimConnections :: "table \<Rightarrow> table" where
  "ReclaimConnections t = (if ct_retired t = [] then t else reclaim_loop (ct_retired t) [] t)"

text \<open>One step of the idle sweep over the table, whose iteration order is given by the caller.\<close>

definition check_idle_one :: "net_ops \<Rightarrow> int \<Rightarrow> int \<Rightarrow> u64 \<Rightarrow> table \<Rightarrow> table" where
  "check_idle_one net timeout_ms now_ms i t =
     (case ct_conns t i of
        None \<Rightarrow> t
      | Some c \<Rightarrow>
          if cn_retired c \<or> cn_closed c \<or> cn_last_active_ms c \<le> 0 then t
          else if now_ms - cn_last_active_ms c < timeout_ms then t
          else BeginClose net StDeadlineExceeded kIdleTimeout i
                 (t\<lparr>ct_conns := (ct_conns t)(i \<mapsto> c\<lparr>cn_last_error := StDeadlineExceeded\<rparr>)\<rparr>))"

definition CheckIdleConnections :: "net_ops \<Rightarrow> int \<Rightarrow> int \<Rightarrow> u64 list \<Rightarrow> table \<Rightarrow> table" where
  "CheckIdleConnections net timeout_ms now_ms order t =
     (if timeout_ms \<le> 0 then t else fold (check_idle_one net timeout_ms now_ms) order t)"

section \<open>Invariant\<close>

text \<open>The backend leaves alone what it does not own.\<close>

definition keeps_identity :: "(Connection \<Rightarrow> Connection) \<Rightarrow> bool" where
  "keeps_identity f \<longleftrightarrow> (\<forall>c. cn_id (f c) = cn_id c \<and> cn_state (f c) = cn_state c \<and> cn_retired (f c) = cn_retired c \<and>
     cn_fd (f c) = cn_fd c \<and> cn_borrows (f c) = cn_borrows c \<and> cn_read_waiter (f c) = cn_read_waiter c)"

definition net_ok :: "net_ops \<Rightarrow> bool" where
  "net_ok net \<longleftrightarrow> keeps_identity (no_cancel_poll net) \<and> keeps_identity (no_cancel_recv net)"

text \<open>A connection is active exactly until it is retired, and keeps a descriptor exactly as long.\<close>

definition conn_ok :: "u64 \<Rightarrow> Connection \<Rightarrow> bool" where
  "conn_ok i c \<longleftrightarrow> cn_id c = i \<and> (cn_state c = kActive \<longleftrightarrow> \<not> cn_retired c) \<and> (cn_retired c \<longrightarrow> cn_fd c < 0)"

definition active_ids :: "table \<Rightarrow> u64 set" where
  "active_ids t = {i. \<exists>c. ct_conns t i = Some c \<and> cn_state c = kActive}"

definition table_inv :: "table \<Rightarrow> bool" where
  "table_inv t \<longleftrightarrow>
     (\<forall>i c. ct_conns t i = Some c \<longrightarrow> conn_ok i c \<and> i < ct_next_id t) \<and>
     finite (dom (ct_conns t)) \<and> distinct (ct_retired t) \<and>
     set (ct_retired t) = {i. \<exists>c. ct_conns t i = Some c \<and> cn_retired c} \<and>
     ct_active t = of_nat (card (active_ids t)) \<and>
     distinct (ct_freed t) \<and> set (ct_freed t) \<inter> dom (ct_conns t) = {} \<and> (\<forall>i \<in> set (ct_freed t). i < ct_next_id t)"

lemma RetireConnection_spec:
  assumes "RetireConnection c t = (c1, t1)"
  shows "cn_id c1 = cn_id c" "cn_retired c1" "cn_fd c1 = cn_fd c" "cn_borrows c1 = cn_borrows c"
    "cn_state c \<noteq> kActive \<Longrightarrow> cn_state c1 \<noteq> kActive" "ct_conns t1 = ct_conns t" "ct_active t1 = ct_active t"
    "ct_retired t1 = ct_retired t @ (if cn_retired c then [] else [cn_id c])" "ct_freed t1 = ct_freed t"
    "ct_next_id t1 = ct_next_id t" "ct_closed_fds t1 = ct_closed_fds t" "ct_ready t1 = ct_ready t"
    "\<not> cn_retired c \<Longrightarrow> cn_received c1 = []" "cn_read_waiter c1 = cn_read_waiter c"
  using assms by (auto simp: RetireConnection_def DiscardReceivedBuffers_def Let_def split: if_splits)

lemma close_descriptor_spec:
  assumes "close_descriptor net c t = (c1, t1)"
  shows "cn_id c1 = cn_id c" "cn_retired c1 = cn_retired c" "cn_fd c1 < 0" "cn_borrows c1 = cn_borrows c" "cn_state c1 = cn_state c"
    "cn_read_waiter c1 = cn_read_waiter c" "ct_conns t1 = ct_conns t" "ct_active t1 = ct_active t" "ct_retired t1 = ct_retired t"
    "ct_freed t1 = ct_freed t" "ct_next_id t1 = ct_next_id t" "ct_ready t1 = ct_ready t"
    "ct_closed_fds t1 = ct_closed_fds t @ (if 0 \<le> cn_fd c then [cn_fd c] else [])"
  using assms by (auto simp: close_descriptor_def Let_def split: if_splits)

lemma wake_reader_spec:
  assumes "wake_reader c t = (c1, t1)"
  shows "cn_id c1 = cn_id c" "cn_retired c1 = cn_retired c" "cn_fd c1 = cn_fd c" "cn_borrows c1 = cn_borrows c" "cn_state c1 = cn_state c"
    "cn_read_waiter c1 = 0" "ct_conns t1 = ct_conns t" "ct_active t1 = ct_active t" "ct_retired t1 = ct_retired t"
    "ct_freed t1 = ct_freed t" "ct_next_id t1 = ct_next_id t" "ct_closed_fds t1 = ct_closed_fds t"
    "ct_ready t1 = ct_ready t @ (if cn_read_waiter c \<noteq> 0 then [cn_read_waiter c] else [])"
  using assms by (auto simp: wake_reader_def split: if_splits)

lemma close_connection_spec:
  assumes "close_connection net reason mode c t = (c1, t1)" "net_ok net" "cn_state c \<noteq> kRetired"
  shows "cn_id c1 = cn_id c" "cn_retired c1" "cn_fd c1 < 0" "cn_state c1 \<noteq> kActive" "cn_borrows c1 = cn_borrows c"
    "ct_conns t1 = ct_conns t" "ct_active t1 = ct_active t - of_bool (cn_state c = kActive)"
    "ct_retired t1 = ct_retired t @ (if cn_retired c then [] else [cn_id c])" "ct_freed t1 = ct_freed t"
    "ct_next_id t1 = ct_next_id t" "ct_closed_fds t1 = ct_closed_fds t @ (if 0 \<le> cn_fd c then [cn_fd c] else [])"
    "ct_ready t1 = ct_ready t @ (if cn_read_waiter c \<noteq> 0 then [cn_read_waiter c] else [])"
    "\<not> cn_retired c \<Longrightarrow> cn_received c1 = []" "cn_read_waiter c1 = 0"
proof -
  define ta where "ta = (if cn_state c = kActive
    then t\<lparr>ct_active := ct_active t - 1, ct_process_active := ct_process_active t - 1\<rparr> else t)"
  define ca where "ca = (if \<not> status_ok reason \<or> status_ok (cn_last_error c) then c\<lparr>cn_last_error := reason\<rparr> else c)"
  define cb where "cb = no_cancel_poll net (ca\<lparr>cn_closing := True, cn_state := kClosing\<rparr>)"
  define cc where "cc = (if cn_recv_armed cb then no_cancel_recv net cb else cb)"
  obtain cd td where d: "close_descriptor net cc ta = (cd, td)" by fastforce
  define ce where "ce = (if mode \<noteq> kPeerClosed then cd\<lparr>cn_recv_eof := False\<rparr> else cd)"
  obtain cf tf where f: "wake_reader ce td = (cf, tf)" by fastforce
  have eq: "RetireConnection cf tf = (c1, t1)"
    using assms(1,3) f unfolding close_connection_def Let_def ta_def [symmetric] ca_def [symmetric] cb_def [symmetric]
      cc_def [symmetric] d ce_def by simp
  have ca: "cn_id ca = cn_id c" "cn_retired ca = cn_retired c" "cn_fd ca = cn_fd c" "cn_borrows ca = cn_borrows c" "cn_read_waiter ca = cn_read_waiter c"
    by (simp_all add: ca_def)
  have cc: "cn_id cc = cn_id c" "cn_retired cc = cn_retired c" "cn_fd cc = cn_fd c" "cn_borrows cc = cn_borrows c"
    "cn_read_waiter cc = cn_read_waiter c" "cn_state cc = kClosing"
    using assms(2) ca by (simp_all add: cc_def cb_def net_ok_def keeps_identity_def)
  have ta: "ct_conns ta = ct_conns t" "ct_active ta = ct_active t - of_bool (cn_state c = kActive)" "ct_retired ta = ct_retired t"
    "ct_freed ta = ct_freed t" "ct_next_id ta = ct_next_id t" "ct_closed_fds ta = ct_closed_fds t" "ct_ready ta = ct_ready t"
    by (simp_all add: ta_def)
  have ce: "cn_id ce = cn_id cd" "cn_retired ce = cn_retired cd" "cn_fd ce = cn_fd cd" "cn_borrows ce = cn_borrows cd"
    "cn_state ce = cn_state cd" "cn_read_waiter ce = cn_read_waiter cd" by (simp_all add: ce_def)
  note F = wake_reader_spec [OF f] close_descriptor_spec [OF d] ce cc ta
  have f2: "cn_id cf = cn_id c" "cn_retired cf = cn_retired c" "cn_fd cf < 0" "cn_borrows cf = cn_borrows c" "cn_state cf = kClosing"
    "ct_conns tf = ct_conns t" "ct_active tf = ct_active t - of_bool (cn_state c = kActive)" "ct_retired tf = ct_retired t"
    "ct_freed tf = ct_freed t" "ct_next_id tf = ct_next_id t" "cn_read_waiter cf = 0"
    "ct_closed_fds tf = ct_closed_fds t @ (if 0 \<le> cn_fd c then [cn_fd c] else [])"
    "ct_ready tf = ct_ready t @ (if cn_read_waiter c \<noteq> 0 then [cn_read_waiter c] else [])"
    unfolding F by (simp_all only: refl close_descriptor_spec(3) [OF d])
  note R = RetireConnection_spec [OF eq]
  show "cn_id c1 = cn_id c" "cn_retired c1" "cn_fd c1 < 0" "cn_state c1 \<noteq> kActive" "cn_borrows c1 = cn_borrows c"
    "ct_conns t1 = ct_conns t" "ct_active t1 = ct_active t - of_bool (cn_state c = kActive)"
    "ct_retired t1 = ct_retired t @ (if cn_retired c then [] else [cn_id c])" "ct_freed t1 = ct_freed t"
    "ct_next_id t1 = ct_next_id t" "ct_closed_fds t1 = ct_closed_fds t @ (if 0 \<le> cn_fd c then [cn_fd c] else [])"
    "ct_ready t1 = ct_ready t @ (if cn_read_waiter c \<noteq> 0 then [cn_read_waiter c] else [])"
    "\<not> cn_retired c \<Longrightarrow> cn_received c1 = []" "cn_read_waiter c1 = 0"
    using R f2 by simp_all
qed

lemma table_invD:
  assumes "table_inv t" "ct_conns t i = Some c"
  shows "conn_ok i c" "i < ct_next_id t" "i \<in> set (ct_retired t) \<longleftrightarrow> cn_retired c" "i \<notin> set (ct_freed t)"
  using assms by (auto simp: table_inv_def)

lemma finite_active: "table_inv t \<Longrightarrow> finite (active_ids t)"
  by (rule finite_subset [of _ "dom (ct_conns t)"]) (auto simp: active_ids_def table_inv_def)

text \<open>Replacing one connection by one that is not active, as closing does.\<close>

lemma BeginClose_inv:
  assumes inv: "table_inv t" and net: "net_ok net"
  shows "table_inv (BeginClose net reason mode i t)"
proof (cases "ct_conns t i")
  case (Some c)
  note D = table_invD [OF inv Some]
  obtain c1 t1 where e: "close_connection net reason mode c t = (c1, t1)" by fastforce
  have b: "BeginClose net reason mode i t = t1\<lparr>ct_conns := (ct_conns t1)(i \<mapsto> c1)\<rparr>" by (simp add: BeginClose_def Some e)
  show ?thesis
  proof (cases "cn_state c = kRetired")
    case True
    then have "c1 = c" "t1 = t" using e by (simp_all add: close_connection_def)
    then show ?thesis using inv Some unfolding b by (simp add: fun_upd_idem)
  next
    case False
    note S = close_connection_spec [OF e net False]
    have ok: "conn_ok i c1" using S D by (auto simp: conn_ok_def)
    have act: "active_ids (t1\<lparr>ct_conns := (ct_conns t1)(i \<mapsto> c1)\<rparr>) = active_ids t - {i}"
      using S by (auto simp: active_ids_def)
    have "of_nat (card (active_ids t - {i})) = ct_active t1"
    proof (cases "cn_state c = kActive")
      case True
      then have m: "i \<in> active_ids t" using Some by (simp add: active_ids_def)
      then have "card (active_ids t) = Suc (card (active_ids t - {i}))" using finite_active [OF inv] by (metis card_Suc_Diff1)
      then show ?thesis using S(7) inv True by (simp add: table_inv_def)
    next
      case no: False
      then have "i \<notin> active_ids t" using Some by (simp add: active_ids_def)
      then show ?thesis using S(7) inv no by (simp add: table_inv_def)
    qed
    moreover have "set (ct_retired t1) = insert i (set (ct_retired t))" "distinct (ct_retired t1)"
      using S D inv by (auto simp: conn_ok_def table_inv_def)
    ultimately show ?thesis
      using inv ok S Some unfolding b table_inv_def act by (auto simp: conn_ok_def)
  qed
qed (use inv in \<open>simp add: BeginClose_def\<close>)

definition reclaimable :: "table \<Rightarrow> u64 \<Rightarrow> bool" where
  "reclaimable t i \<longleftrightarrow> (case ct_conns t i of None \<Rightarrow> False | Some c \<Rightarrow> CanReclaim c)"

definition kept :: "table \<Rightarrow> u64 \<Rightarrow> bool" where
  "kept t i \<longleftrightarrow> (case ct_conns t i of None \<Rightarrow> False | Some c \<Rightarrow> \<not> CanReclaim c)"

lemma reclaim_loop_spec:
  assumes "distinct is"
  shows "ct_conns (reclaim_loop is still t) = (\<lambda>i. if i \<in> set is
      then (case ct_conns t i of None \<Rightarrow> None | Some c \<Rightarrow> if CanReclaim c then None else Some (c\<lparr>cn_state := kDraining\<rparr>))
      else ct_conns t i) \<and>
    ct_retired (reclaim_loop is still t) = still @ filter (kept t) is \<and>
    ct_freed (reclaim_loop is still t) = ct_freed t @ filter (reclaimable t) is \<and>
    ct_next_id (reclaim_loop is still t) = ct_next_id t \<and> ct_active (reclaim_loop is still t) = ct_active t"
  using assms
proof (induction "is" arbitrary: still t)
  case (Cons i "is")
  have ni: "i \<notin> set is" and d: "distinct is" using Cons.prems by auto
  note IH = Cons.IH [OF d]
  show ?case
  proof (cases "ct_conns t i")
    case None
    then show ?thesis using IH [of still t] by (auto simp: kept_def reclaimable_def fun_eq_iff)
  next
    case (Some c)
    show ?thesis
    proof (cases "CanReclaim c")
      case True
      let ?t = "t\<lparr>ct_conns := (ct_conns t)(i := None), ct_freed := ct_freed t @ [i]\<rparr>"
      have "filter (kept ?t) is = filter (kept t) is" "filter (reclaimable ?t) is = filter (reclaimable t) is"
        using ni by (auto intro!: filter_cong simp: kept_def reclaimable_def split: if_splits)
      then show ?thesis using IH [of still ?t] Some True ni by (auto simp: kept_def [of t i] reclaimable_def [of t i] fun_eq_iff)
    next
      case False
      let ?t = "t\<lparr>ct_conns := (ct_conns t)(i \<mapsto> c\<lparr>cn_state := kDraining\<rparr>)\<rparr>"
      have "filter (kept ?t) is = filter (kept t) is" "filter (reclaimable ?t) is = filter (reclaimable t) is"
        using ni by (auto intro!: filter_cong simp: kept_def reclaimable_def split: if_splits)
      then show ?thesis using IH [of "still @ [i]" ?t] Some False ni by (auto simp: kept_def [of t i] reclaimable_def [of t i] fun_eq_iff)
    qed
  qed
qed (simp add: fun_eq_iff)

lemma ReclaimConnections_spec:
  assumes "table_inv t"
  shows "ct_conns (ReclaimConnections t) = (\<lambda>i. if i \<in> set (ct_retired t)
      then (case ct_conns t i of None \<Rightarrow> None | Some c \<Rightarrow> if CanReclaim c then None else Some (c\<lparr>cn_state := kDraining\<rparr>))
      else ct_conns t i)"
    "ct_retired (ReclaimConnections t) = filter (kept t) (ct_retired t)"
    "ct_freed (ReclaimConnections t) = ct_freed t @ filter (reclaimable t) (ct_retired t)"
    "ct_next_id (ReclaimConnections t) = ct_next_id t" "ct_active (ReclaimConnections t) = ct_active t"
proof -
  have "distinct (ct_retired t)" using assms by (simp add: table_inv_def)
  note L = reclaim_loop_spec [OF this, of "[]" t]
  show "ct_conns (ReclaimConnections t) = (\<lambda>i. if i \<in> set (ct_retired t)
      then (case ct_conns t i of None \<Rightarrow> None | Some c \<Rightarrow> if CanReclaim c then None else Some (c\<lparr>cn_state := kDraining\<rparr>))
      else ct_conns t i)"
    using L by (cases "ct_retired t = []") (auto simp: ReclaimConnections_def)
qed (use reclaim_loop_spec [of "ct_retired t" "[]" t] assms in \<open>auto simp: ReclaimConnections_def table_inv_def\<close>)

lemma ReclaimConnections_inv:
  assumes inv: "table_inv t"
  shows "table_inv (ReclaimConnections t)"
proof -
  let ?r = "ReclaimConnections t"
  note S = ReclaimConnections_spec [OF inv]
  have look: "ct_conns ?r i = Some c \<longleftrightarrow> (i \<notin> set (ct_retired t) \<and> ct_conns t i = Some c \<or>
      i \<in> set (ct_retired t) \<and> (\<exists>d. ct_conns t i = Some d \<and> \<not> CanReclaim d \<and> c = d\<lparr>cn_state := kDraining\<rparr>))" for i c
    by (auto simp: S(1) split: option.splits)
  have ret: "i \<in> set (ct_retired t) \<Longrightarrow> \<exists>c. ct_conns t i = Some c \<and> cn_retired c" for i
    using inv by (auto simp: table_inv_def)
  have ok: "conn_ok i c \<and> i < ct_next_id ?r" if c: "ct_conns ?r i = Some c" for i c
  proof (cases "i \<in> set (ct_retired t)")
    case True
    then obtain d where d: "ct_conns t i = Some d" "c = d\<lparr>cn_state := kDraining\<rparr>" "cn_retired d"
      using c look ret by fastforce
    then show ?thesis using table_invD [OF inv d(1)] S by (simp add: conn_ok_def)
  next
    case False
    then show ?thesis using c look table_invD [OF inv] S by auto
  qed
  have act: "active_ids ?r = active_ids t"
  proof -
    have "\<And>i c. ct_conns t i = Some c \<Longrightarrow> cn_state c = kActive \<Longrightarrow> i \<notin> set (ct_retired t)"
      using table_invD [OF inv] by (auto simp: conn_ok_def)
    then show ?thesis unfolding active_ids_def look by auto
  qed
  have retired: "set (ct_retired ?r) = {i. \<exists>c. ct_conns ?r i = Some c \<and> cn_retired c}"
  proof -
    have "i \<in> set (ct_retired ?r) \<longleftrightarrow> (\<exists>c. ct_conns ?r i = Some c \<and> cn_retired c)" for i
      unfolding S(2) look using ret [of i] table_invD(3) [OF inv, of i] by (auto simp: kept_def split: option.splits)
    then show ?thesis by auto
  qed
  have fin: "finite (dom (ct_conns ?r))"
    by (rule finite_subset [of _ "dom (ct_conns t)"]) (use look inv in \<open>auto simp: table_inv_def dom_def\<close>)
  have freed: "distinct (ct_freed ?r)" "set (ct_freed ?r) \<inter> dom (ct_conns ?r) = {}" "\<forall>i \<in> set (ct_freed ?r). i < ct_next_id ?r"
  proof -
    have "i \<notin> set (ct_freed t)" "i < ct_next_id t" if "i \<in> set (ct_retired t)" for i
      using ret [OF that] table_invD [OF inv] by auto
    then show "distinct (ct_freed ?r)" "\<forall>i \<in> set (ct_freed ?r). i < ct_next_id ?r"
      unfolding S(3) S(4) using inv by (auto simp: table_inv_def)
    have gone: "i \<notin> dom (ct_conns ?r)" if "i \<in> set (filter (reclaimable t) (ct_retired t))" for i
      using that by (auto simp: S(1) reclaimable_def split: option.splits)
    have "i \<notin> dom (ct_conns ?r)" if "i \<in> set (ct_freed t)" for i
    proof -
      have "ct_conns t i = None" using inv that by (auto simp: table_inv_def)
      then show ?thesis by (simp add: S(1) dom_def)
    qed
    with gone show "set (ct_freed ?r) \<inter> dom (ct_conns ?r) = {}" unfolding S(3) by auto
  qed
  show ?thesis unfolding table_inv_def
    using ok fin retired freed act inv S(2,5) by (auto simp: table_inv_def)
qed

lemma AddConnection_inv:
  assumes inv: "table_inv t" and c: "cn_state c = kActive" "\<not> cn_retired c" and id: "ct_next_id t \<noteq> - 1"
  shows "table_inv (snd (AddConnection now_ms c t))"
proof (cases "cn_fd c < 0")
  case False
  let ?i = "ct_next_id t" and ?r = "snd (AddConnection now_ms c t)"
  have lt: "?i < ?i + 1" using word_less_plus_one [OF id] .
  define d where "d = c\<lparr>cn_id := ?i, cn_last_active_ms := now_ms\<rparr>"
  have fresh: "ct_conns t ?i = None" using table_invD(2) [OF inv, of ?i] by (cases "ct_conns t ?i") auto
  have nf: "?i \<notin> set (ct_freed t)" using inv unfolding table_inv_def by (metis less_irrefl)
  have r: "ct_conns ?r = (ct_conns t)(?i \<mapsto> d)" "ct_next_id ?r = ?i + 1" "ct_active ?r = ct_active t + 1"
    "ct_retired ?r = ct_retired t" "ct_freed ?r = ct_freed t"
    using False by (simp_all add: AddConnection_def Let_def d_def)
  have act: "active_ids ?r = insert ?i (active_ids t)" "?i \<notin> active_ids t"
    using c fresh by (auto simp: active_ids_def r d_def)
  have "conn_ok i e \<and> i < ct_next_id ?r" if "ct_conns ?r i = Some e" for i e
  proof (cases "i = ?i")
    case True
    then show ?thesis using that c lt by (auto simp: r d_def conn_ok_def)
  next
    case False
    then have "ct_conns t i = Some e" using that by (simp add: r)
    from table_invD [OF inv this] show ?thesis using lt by (auto simp: r)
  qed
  moreover have "set (ct_retired ?r) = {i. \<exists>e. ct_conns ?r i = Some e \<and> cn_retired e}"
    using inv fresh c by (auto simp: table_inv_def r d_def)
  moreover have "ct_active ?r = of_nat (card (active_ids ?r))"
    using inv finite_active [OF inv] act by (simp add: table_inv_def r)
  moreover have "set (ct_freed ?r) \<inter> dom (ct_conns ?r) = {}" using inv nf by (auto simp: table_inv_def r)
  moreover have "i < ct_next_id ?r" if "i \<in> set (ct_freed ?r)" for i
    using that inv lt unfolding table_inv_def r by (metis less_trans)
  ultimately show ?thesis unfolding table_inv_def using inv by (simp add: r table_inv_def)
qed (use inv in \<open>simp add: AddConnection_def\<close>)

text \<open>I/O on a live table entry: everything but identity, life-cycle state and descriptor may change.\<close>

definition io_change :: "Connection \<Rightarrow> Connection \<Rightarrow> bool" where
  "io_change c d \<longleftrightarrow> cn_id d = cn_id c \<and> cn_state d = cn_state c \<and> cn_retired d = cn_retired c \<and> cn_fd d = cn_fd c"

lemma io_change_inv:
  assumes inv: "table_inv t" and c: "ct_conns t i = Some c" and io: "io_change c d"
  shows "table_inv (t\<lparr>ct_conns := (ct_conns t)(i \<mapsto> d)\<rparr>)"
proof -
  have act: "active_ids (t\<lparr>ct_conns := (ct_conns t)(i \<mapsto> d)\<rparr>) = active_ids t"
    using c io by (auto simp: active_ids_def io_change_def)
  have "{j. \<exists>e. ((ct_conns t)(i \<mapsto> d)) j = Some e \<and> cn_retired e} = {j. \<exists>e. ct_conns t j = Some e \<and> cn_retired e}"
    using c io by (auto simp: io_change_def)
  with inv c io show ?thesis unfolding table_inv_def act
    by (auto simp: io_change_def conn_ok_def)
qed

lemma check_idle_one_inv:
  assumes "table_inv t" "net_ok net"
  shows "table_inv (check_idle_one net timeout_ms now_ms i t)"
proof (cases "ct_conns t i")
  case (Some c)
  have "table_inv (t\<lparr>ct_conns := (ct_conns t)(i \<mapsto> c\<lparr>cn_last_error := StDeadlineExceeded\<rparr>)\<rparr>)"
    using assms(1) Some by (rule io_change_inv) (simp add: io_change_def)
  then show ?thesis using assms Some by (simp add: check_idle_one_def BeginClose_inv)
qed (use assms in \<open>simp add: check_idle_one_def\<close>)

lemma CheckIdleConnections_inv:
  assumes "table_inv t" "net_ok net"
  shows "table_inv (CheckIdleConnections net timeout_ms now_ms order t)"
proof -
  have "table_inv (fold (check_idle_one net timeout_ms now_ms) order t)"
    using assms(1) by (induction order arbitrary: t) (simp_all add: check_idle_one_inv assms(2))
  then show ?thesis using assms by (simp add: CheckIdleConnections_def)
qed

section \<open>Histories\<close>

inductive conn_step :: "net_ops \<Rightarrow> table \<Rightarrow> table \<Rightarrow> bool" for net where
  cs_add: "cn_state c = kActive \<Longrightarrow> \<not> cn_retired c \<Longrightarrow> ct_next_id t \<noteq> - 1 \<Longrightarrow>
    conn_step net t (snd (AddConnection now_ms c t))"
| cs_close: "conn_step net t (BeginClose net reason mode i t)"
| cs_io: "ct_conns t i = Some c \<Longrightarrow> io_change c d \<Longrightarrow> conn_step net t (t\<lparr>ct_conns := (ct_conns t)(i \<mapsto> d)\<rparr>)"
| cs_reclaim: "conn_step net t (ReclaimConnections t)"
| cs_idle: "conn_step net t (CheckIdleConnections net timeout_ms now_ms order t)"

lemma conn_step_inv: "conn_step net t u \<Longrightarrow> net_ok net \<Longrightarrow> table_inv t \<Longrightarrow> table_inv u"
  by (induction rule: conn_step.induct)
     (simp_all add: AddConnection_inv BeginClose_inv io_change_inv ReclaimConnections_inv CheckIdleConnections_inv)

lemma empty_table_inv: "table_inv empty_table"
  by (simp add: table_inv_def empty_table_def active_ids_def)

lemma conn_reach_inv:
  assumes "net_ok net" "(conn_step net)\<^sup>*\<^sup>* empty_table t"
  shows "table_inv t"
  using assms(2) by (induction rule: rtranclp_induct)
    (auto intro: conn_step_inv assms(1) empty_table_inv)

text \<open>
  C11: storage safety of the connection table. In every history of adding, closing, idle-timing,
  I/O and reclaiming, one more reclamation frees exactly the retired connections that no
  operation, reader, undelivered buffer or storage borrow still refers to; no connection is freed
  twice; and the active count equals the number of active connections.
\<close>

theorem reclaim_frees_exactly_unreferenced:
  assumes "net_ok net" "(conn_step net)\<^sup>*\<^sup>* empty_table t" "ct_conns t i = Some c"
  shows "(ct_conns (ReclaimConnections t) i = None \<longleftrightarrow>
      cn_retired c \<and> cn_inflight_ops c = 0 \<and> cn_borrows c = 0 \<and> cn_read_waiter c = 0 \<and> \<not> cn_read_inflight c \<and>
      \<not> cn_write_inflight c \<and> \<not> cn_recv_armed c \<and> cn_received c = []) \<and>
    (i \<in> set (ct_freed (ReclaimConnections t)) \<longleftrightarrow> ct_conns (ReclaimConnections t) i = None) \<and>
    distinct (ct_freed (ReclaimConnections t)) \<and>
    ct_active t = of_nat (card (active_ids t))"
proof -
  have inv: "table_inv t" using conn_reach_inv [OF assms(1,2)] .
  note S = ReclaimConnections_spec [OF inv] and D = table_invD [OF inv assms(3)]
  have "cn_state c = kActive \<longleftrightarrow> \<not> cn_retired c" using D by (simp add: conn_ok_def)
  then have "ct_conns (ReclaimConnections t) i = None \<longleftrightarrow> cn_retired c \<and> CanReclaim c"
    using D assms(3) by (simp add: S(1))
  moreover have "i \<in> set (ct_freed (ReclaimConnections t)) \<longleftrightarrow> cn_retired c \<and> CanReclaim c"
    using D assms(3) by (auto simp: S(3) reclaimable_def)
  moreover have "distinct (ct_freed (ReclaimConnections t))" "ct_active t = of_nat (card (active_ids t))"
    using ReclaimConnections_inv [OF inv] inv by (simp_all add: table_inv_def)
  ultimately show ?thesis using D by (auto simp: CanReclaim_def conn_ok_def)
qed

definition plain_net :: net_ops where
  "plain_net = \<lparr>no_cancel_poll = id, no_cancel_recv = id, no_is_dpdk = \<lambda>_. False\<rparr>"

definition fresh_conn :: "int \<Rightarrow> Connection" where
  "fresh_conn fd = \<lparr>cn_id = 0, cn_fd = fd, cn_read_waiter = 0, cn_last_error = StOk, cn_last_active_ms = 0,
     cn_inflight_ops = 0, cn_state = kActive, cn_closing = False, cn_closed = False, cn_read_inflight = False,
     cn_write_inflight = False, cn_recv_armed = False, cn_recv_eof = False, cn_retired = False, cn_received = [], cn_borrows = 0\<rparr>"

lemma plain_net_ok: "net_ok plain_net"
  by (simp add: net_ok_def plain_net_def keeps_identity_def)

definition closed_table :: table where
  "closed_table = BeginClose plain_net StOk kLocalClose 1 (snd (AddConnection 5 (fresh_conn 9) empty_table))"

theorem reclaim_frees_exactly_unreferenced_witness:
  "ct_conns (ReclaimConnections closed_table) 1 = None \<and> ct_freed (ReclaimConnections closed_table) = [1]"
proof -
  let ?t = "snd (AddConnection 5 (fresh_conn 9) empty_table)"
  have r: "(conn_step plain_net)\<^sup>*\<^sup>* empty_table closed_table"
  proof (rule rtranclp_trans)
    show "(conn_step plain_net)\<^sup>*\<^sup>* empty_table ?t"
      by (intro r_into_rtranclp cs_add) (simp_all add: fresh_conn_def empty_table_def)
    show "(conn_step plain_net)\<^sup>*\<^sup>* ?t closed_table" unfolding closed_table_def by (intro r_into_rtranclp cs_close)
  qed
  have c: "\<exists>c. ct_conns closed_table 1 = Some c \<and> cn_retired c \<and> CanReclaim c"
    by (simp add: closed_table_def BeginClose_def AddConnection_def fresh_conn_def empty_table_def close_connection_def plain_net_def
        close_descriptor_def wake_reader_def RetireConnection_def DiscardReceivedBuffers_def CanReclaim_def)
  have f: "ct_freed (ReclaimConnections closed_table) = [1]"
    by (simp add: closed_table_def BeginClose_def AddConnection_def fresh_conn_def empty_table_def close_connection_def plain_net_def
        close_descriptor_def wake_reader_def RetireConnection_def DiscardReceivedBuffers_def CanReclaim_def ReclaimConnections_def)
  from c obtain c where "ct_conns closed_table 1 = Some c" "cn_retired c" "CanReclaim c" by blast
  with reclaim_frees_exactly_unreferenced [OF plain_net_ok r, of 1 c] f show ?thesis by (simp add: CanReclaim_def)
qed

text \<open>
  Closing takes effect once. The first \<open>BeginClose\<close> of a connection closes its descriptor and
  enqueues its waiting reader, once each, and takes it off the active count; any later one, for
  whatever reason and mode, touches neither descriptors nor readers nor counts nor the retired list.
\<close>

lemma BeginClose_once:
  assumes "net_ok net" "(conn_step net)\<^sup>*\<^sup>* empty_table t" "ct_conns t i = Some c" "\<not> cn_retired c" "0 \<le> cn_fd c"
    "t1 = BeginClose net reason mode i t" "t2 = BeginClose net reason2 mode2 i t1"
  shows "ct_closed_fds t1 = ct_closed_fds t @ [cn_fd c] \<and>
    ct_ready t1 = ct_ready t @ (if cn_read_waiter c \<noteq> 0 then [cn_read_waiter c] else []) \<and>
    ct_active t1 = ct_active t - 1 \<and> ct_retired t1 = ct_retired t @ [i] \<and>
    ct_closed_fds t2 = ct_closed_fds t1 \<and> ct_ready t2 = ct_ready t1 \<and> ct_active t2 = ct_active t1 \<and> ct_retired t2 = ct_retired t1"
proof -
  have inv: "table_inv t" using conn_reach_inv [OF assms(1,2)] .
  note D = table_invD [OF inv assms(3)]
  have a: "cn_state c = kActive" "cn_id c = i" using D assms(4) by (auto simp: conn_ok_def)
  obtain c1 u1 where e1: "close_connection net reason mode c t = (c1, u1)" by fastforce
  note S1 = close_connection_spec [OF e1 assms(1)]
  have t1: "t1 = u1\<lparr>ct_conns := (ct_conns u1)(i \<mapsto> c1)\<rparr>" using assms(3,6) by (simp add: BeginClose_def e1)
  obtain c2 u2 where e2: "close_connection net reason2 mode2 c1 t1 = (c2, u2)" by fastforce
  have t2: "t2 = u2\<lparr>ct_conns := (ct_conns u2)(i \<mapsto> c2)\<rparr>" using assms(7) t1 e2 by (simp add: BeginClose_def)
  have "ct_closed_fds u2 = ct_closed_fds t1 \<and> ct_ready u2 = ct_ready t1 \<and> ct_active u2 = ct_active t1 \<and> ct_retired u2 = ct_retired t1"
  proof (cases "cn_state c1 = kRetired")
    case True
    then show ?thesis using e2 by (simp add: close_connection_def)
  next
    case False
    from close_connection_spec [OF e2 assms(1) False] show ?thesis using S1 a by simp
  qed
  then show ?thesis using S1 a assms(4,5) t1 t2 by simp
qed

end
