(* ===== verification/Uring_Recv.thy ===== *)
theory Uring_Recv
  imports Uring_Submit Connections
begin

text \<open>
  The completion side of the kernel backend, \<open>src/io/io_uring_backend.cpp\<close>: set-up and
  tear-down, the wake poll, multishot receives with their provided buffers, the peer-disconnect
  poll, completion dispatch, polling and waiting. Completion objects and the disconnect callback
  are parameters, as are the results of system calls.
\<close>

section \<open>State\<close>

text \<open>The part of a connection the backend reads and writes.\<close>

record uconn =
  uc_file :: RegisteredFile
  uc_read_waiter :: nat
  uc_last_error :: status
  uc_last_active_ms :: int
  uc_inflight_ops :: u32
  uc_state :: ConnectionState
  uc_mode_multishot :: bool
  uc_closing :: bool
  uc_closed :: bool
  uc_read_inflight :: bool
  uc_recv_paused :: bool
  uc_recv_armed :: bool
  uc_needs_recv_rearm :: bool
  uc_recv_eof :: bool
  uc_poll_armed :: bool
  uc_poll_cancel_requested :: bool
  uc_read_buffer_size :: u64
  uc_received :: "ReceivedBuffer list"

record ustate =
  us_ring :: uring
  us_conns :: "u64 \<Rightarrow> uconn"
  us_ready :: "nat list"
  us_stop_requested :: bool
  us_stopping :: bool

record cqe =
  cq_user_data :: u64
  cq_res :: int
  cq_more :: bool
  cq_buffer :: "u16 option"

text \<open>What a completion object and a disconnect callback do, and the clock and errno mapping.\<close>

record callbacks =
  cb_complete :: "u64 \<Rightarrow> int \<Rightarrow> bool \<Rightarrow> ustate \<Rightarrow> ustate"
  cb_peer :: "u64 \<Rightarrow> ustate \<Rightarrow> ustate"
  cb_has_peer :: "u64 \<Rightarrow> ustate \<Rightarrow> bool"
  cb_now_ms :: int
  cb_errno_status :: "int \<Rightarrow> status"

definition upd_ring :: "(uring \<Rightarrow> uring) \<Rightarrow> ustate \<Rightarrow> ustate" where
  "upd_ring f s = s\<lparr>us_ring := f (us_ring s)\<rparr>"

definition upd_conn :: "u64 \<Rightarrow> (uconn \<Rightarrow> uconn) \<Rightarrow> ustate \<Rightarrow> ustate" where
  "upd_conn c f s = s\<lparr>us_conns := (us_conns s)(c := f (us_conns s c))\<rparr>"

section \<open>Set-up and tear-down\<close>

text \<open>\<open>InitMultishotRecv\<close>: \<open>setup\<close> tells whether the kernel granted the buffer ring.\<close>

definition InitMultishotRecv :: "u32 \<Rightarrow> u32 \<Rightarrow> bool \<Rightarrow> uring \<Rightarrow> uring" where
  "InitMultishotRecv n sz setup u =
     (if n = 0 then u\<lparr>ur_multishot := False\<rparr>
      else if \<not> setup then u\<lparr>ur_buf_entries := 0, ur_buf_size := 0, ur_buf_ring := [], ur_multishot := False\<rparr>
      else u\<lparr>ur_buf_entries := n, ur_buf_size := sz, ur_buf_ring := map (\<lambda>i. of_nat i) [0..<unat n], ur_multishot := True\<rparr>)"

definition ArmWakePoll :: "tags \<Rightarrow> uring \<Rightarrow> bool \<times> uring" where
  "ArmWakePoll tg u =
     (if ur_wake_fd u < 0 \<or> ur_wake_armed u then (0 \<le> ur_wake_fd u, u)
      else let (status, u1) = SubmitOrQueue (sqe_of (PrepPollAdd (ur_wake_fd u) 1) (tg_wake_poll tg)) u in
        if \<not> status_ok status then (False, u1) else (True, u1\<lparr>ur_wake_armed := True\<rparr>))"

text \<open>What the process holds open on behalf of the backend: the ring, an eventfd of its own, the buffer ring.\<close>

record resources =
  re_ring :: bool
  re_wake_fd :: "int option"
  re_buf_ring :: bool

definition no_resources :: resources where
  "no_resources = \<lparr>re_ring = False, re_wake_fd = None, re_buf_ring = False\<rparr>"

record init_results =
  ir_queue_rc :: int
  ir_nodrop :: bool
  ir_eventfd :: int
  ir_buf_ring :: bool

definition ur_Init ::
  "tags \<Rightarrow> init_results \<Rightarrow> u32 \<Rightarrow> u32 \<Rightarrow> u32 \<Rightarrow> int \<Rightarrow> uring \<times> resources \<Rightarrow> status \<times> uring \<times> resources" where
  "ur_Init tg ir entries recv_count recv_size wake_fd st = (case st of (u, re) \<Rightarrow>
     if ur_initialized u then (StOk, u, re)
     else if ir_queue_rc ir < 0
     then (if ir_queue_rc ir = - ENOMEM then StResourceExhausted else StInternal, u, re)
     else let re1 = re\<lparr>re_ring := True\<rparr>; u1 = u\<lparr>ur_entries := unat entries, ur_sq := []\<rparr> in
       if \<not> ir_nodrop ir then (StFailedPrecondition, u1, re1\<lparr>re_ring := False\<rparr>)
       else let owns = (wake_fd < 0); fd = (if owns then ir_eventfd ir else wake_fd) in
         if owns \<and> fd < 0
         then (StInternal, u1\<lparr>ur_wake_fd := fd, ur_owns_wake_fd := True\<rparr>, re1\<lparr>re_ring := False\<rparr>)
         else let re2 = (if owns then re1\<lparr>re_wake_fd := Some fd\<rparr> else re1);
                  u2 = InitMultishotRecv recv_count recv_size (ir_buf_ring ir)
                         (u1\<lparr>ur_wake_fd := fd, ur_owns_wake_fd := owns, ur_initialized := True\<rparr>);
                  re3 = re2\<lparr>re_buf_ring := ur_multishot u2\<rparr>;
                  (armed, u3) = ArmWakePoll tg u2
              in if \<not> armed
                 then (StInternal,
                       u3\<lparr>ur_initialized := False, ur_wake_fd := - 1, ur_buf_entries := 0, ur_buf_size := 0, ur_buf_ring := [], ur_multishot := False\<rparr>,
                       re3\<lparr>re_buf_ring := False, re_wake_fd := (if owns then None else re_wake_fd re3), re_ring := False\<rparr>)
                 else (StOk, u3, re3))"

definition ur_Shutdown :: "uring \<times> resources \<Rightarrow> uring \<times> resources" where
  "ur_Shutdown st = (case st of (u, re) \<Rightarrow>
     if \<not> ur_initialized u then (u, re)
     else let u1 = UnregisterStorageResources
                (u\<lparr>ur_initialized := False, ur_pending := [], ur_completions := [], ur_may_cancel := False, ur_rearm := []\<rparr>)
          in (u1\<lparr>ur_wake_armed := False, ur_wake_fd := - 1, ur_sq := [], ur_buf_entries := 0, ur_buf_size := 0,
                 ur_buf_ring := [], ur_multishot := False\<rparr>,
              re\<lparr>re_buf_ring := False,
                 re_wake_fd := (if 0 \<le> ur_wake_fd u \<and> ur_owns_wake_fd u then None else re_wake_fd re),
                 re_ring := False\<rparr>))"

section \<open>Receive buffers\<close>

definition RecycleMultishotBuffer :: "u16 \<Rightarrow> uring \<Rightarrow> uring" where
  "RecycleMultishotBuffer b u =
     (if \<not> ur_multishot u \<or> unat (ur_buf_entries u) \<le> unat b then u
      else u\<lparr>ur_buf_ring := ur_buf_ring u @ [b]\<rparr>)"

text \<open>The viewed range as an offset into the backing storage and a length, or \<open>None\<close> for an empty span.\<close>

definition ViewRecvBuffer :: "uring \<Rightarrow> uconn \<Rightarrow> u16 \<Rightarrow> nat \<Rightarrow> nat \<Rightarrow> (nat \<times> nat) option" where
  "ViewRecvBuffer u c b off n =
     (if ur_multishot u \<and> uc_mode_multishot c
      then if unat (ur_buf_entries u) \<le> unat b \<or> unat (ur_buf_size u) < off \<or> unat (ur_buf_size u) - off < n then None
           else Some (unat b * unat (ur_buf_size u) + off, n)
      else if b \<noteq> 0 \<or> unat (uc_read_buffer_size c) < off \<or> unat (uc_read_buffer_size c) - off < n then None
      else Some (off, n))"

definition ReleaseRecvBuffer :: "u64 \<Rightarrow> u16 \<Rightarrow> ustate \<Rightarrow> ustate" where
  "ReleaseRecvBuffer c b s =
     (if ur_multishot (us_ring s) \<and> uc_mode_multishot (us_conns s c) then upd_ring (RecycleMultishotBuffer b) s else s)"

section \<open>Receiving\<close>

definition recv_sqe :: "u64 \<Rightarrow> uconn \<Rightarrow> bool \<Rightarrow> u64 \<Rightarrow> sqe" where
  "recv_sqe c k multishot buf =
     (sqe_of (if multishot then PrepRecvMultishot (file_fd (uc_file k))
              else PrepRecv (file_fd (uc_file k)) buf (ucast (uc_read_buffer_size k))) (EncodeMultishotData c))
       \<lparr>sq_buffer_select := multishot, sq_poll_first := True, sq_fixed_file := rf_is_fixed (uc_file k)\<rparr>"

text \<open>\<open>buf c\<close> is the address of the connection's own read buffer, \<open>sz\<close> the configured buffer size.\<close>

definition StartRecvMultishot :: "(u64 \<Rightarrow> u64) \<Rightarrow> u64 \<Rightarrow> u64 \<Rightarrow> ustate \<Rightarrow> status \<times> ustate" where
  "StartRecvMultishot buf sz c s =
     (if c = 0 then (StInvalidArgument, s)
      else let k = us_conns s c in
        if uc_recv_armed k \<or> uc_closed k \<or> uc_closing k \<or> uc_recv_paused k then (StOk, s)
        else let multishot = (ur_multishot (us_ring s) \<and> uc_mode_multishot k) in
          if \<not> multishot \<and> uc_received k \<noteq> [] then (StOk, s)
          else let s1 = (if \<not> multishot \<and> uc_read_buffer_size k = 0
                         then upd_conn c (\<lambda>k. k\<lparr>uc_read_buffer_size := sz\<rparr>) s else s);
                   (status, u) = SubmitOrQueue (recv_sqe c (us_conns s1 c) multishot (buf c)) (us_ring s1);
                   s2 = s1\<lparr>us_ring := u\<rparr>
               in if \<not> status_ok status then (status, s2)
                  else (StOk, upd_conn c (\<lambda>k. k\<lparr>uc_recv_armed := True, uc_inflight_ops := uc_inflight_ops k + 1\<rparr>) s2))"

definition SubmitCancelRecv :: "tags \<Rightarrow> u64 \<Rightarrow> u64 \<Rightarrow> ustate \<Rightarrow> status \<times> ustate" where
  "SubmitCancelRecv tg c tag s =
     (if c = 0 then (StInvalidArgument, s)
      else let (status, u) = CancelByData tg (EncodeMultishotData c) (if tag \<noteq> 0 then tag else tg_cancel_request tg) (us_ring s) in
        (status, s\<lparr>us_ring := u\<rparr>))"

definition StartPeerDisconnectPoll :: "u32 \<Rightarrow> u64 \<Rightarrow> ustate \<Rightarrow> status \<times> ustate" where
  "StartPeerDisconnectPoll events c s =
     (if c = 0 then (StInvalidArgument, s)
      else let k = us_conns s c in
        if uc_poll_armed k \<or> uc_closed k \<or> uc_closing k then (StOk, s)
        else let (status, u) = SubmitOrQueue ((sqe_of (PrepPollAdd (file_fd (uc_file k)) events) (EncodePeerDisconnectData c))
                   \<lparr>sq_fixed_file := rf_is_fixed (uc_file k)\<rparr>) (us_ring s);
                 s1 = s\<lparr>us_ring := u\<rparr>
             in if \<not> status_ok status then (status, s1)
                else (StOk, upd_conn c (\<lambda>k. k\<lparr>uc_poll_armed := True, uc_poll_cancel_requested := False,
                                            uc_inflight_ops := uc_inflight_ops k + 1\<rparr>) s1))"

definition CancelPeerDisconnectPoll :: "tags \<Rightarrow> u64 \<Rightarrow> ustate \<Rightarrow> status \<times> ustate" where
  "CancelPeerDisconnectPoll tg c s =
     (if c = 0 \<or> \<not> uc_poll_armed (us_conns s c) \<or> uc_poll_cancel_requested (us_conns s c) then (StOk, s)
      else let (status, u) = CancelByData tg (EncodePeerDisconnectData c) (tg_peer_cancel tg) (us_ring s); s1 = s\<lparr>us_ring := u\<rparr> in
        if \<not> status_ok status then (status, s1)
        else (StOk, upd_conn c (\<lambda>k. k\<lparr>uc_poll_cancel_requested := True\<rparr>) s1))"

section \<open>Completions\<close>

text \<open>The first part of \<open>HandleMultishotRecv\<close>: the result; the flag asks to wake the reader.\<close>

definition recv_result :: "callbacks \<Rightarrow> bool \<Rightarrow> cqe \<Rightarrow> uconn \<Rightarrow> bool \<times> uconn" where
  "recv_result cb multishot q k =
     (let b = (case cq_buffer q of None \<Rightarrow> 0 | Some b \<Rightarrow> b) in
      if 0 < cq_res q \<and> (cq_buffer q \<noteq> None \<or> \<not> multishot)
      then (True, k\<lparr>uc_last_active_ms := cb_now_ms cb,
                    uc_received := uc_received k @ [\<lparr>rb_buffer_id = b, rb_size = of_int (cq_res q), rb_offset = 0\<rparr>]\<rparr>)
      else if cq_res q = 0 then (True, k\<lparr>uc_recv_eof := True\<rparr>)
      else if cq_res q < 0 \<and> cq_res q \<noteq> - ECANCELED \<and> cq_res q \<noteq> - ENOBUFS
      then (True, k\<lparr>uc_last_error := cb_errno_status cb (- cq_res q)\<rparr>)
      else if 0 < cq_res q then (True, k\<lparr>uc_last_error := StInternal\<rparr>)
      else (False, k))"

text \<open>The terminal completion of a receive: accounting, and whether the receive is to be re-armed.\<close>

definition recv_terminal :: "bool \<Rightarrow> uconn \<Rightarrow> bool \<times> uconn" where
  "recv_terminal multishot k0 =
     (let k = k0\<lparr>uc_recv_armed := False, uc_inflight_ops := (if 0 < uc_inflight_ops k0 then uc_inflight_ops k0 - 1 else uc_inflight_ops k0)\<rparr> in
      if multishot \<and> \<not> uc_recv_paused k \<and> uc_state k = kActive \<and> \<not> uc_closed k \<and> \<not> uc_closing k \<and> \<not> uc_recv_eof k
      then if \<not> uc_needs_recv_rearm k then (True, k\<lparr>uc_needs_recv_rearm := True\<rparr>) else (False, k)
      else if uc_state k \<noteq> kActive then (False, k\<lparr>uc_state := kDraining\<rparr>)
      else (False, k))"

definition HandleMultishotRecv :: "callbacks \<Rightarrow> u64 \<Rightarrow> cqe \<Rightarrow> ustate \<Rightarrow> ustate" where
  "HandleMultishotRecv cb c q s =
     (if c = 0 then s
      else let multishot = (ur_multishot (us_ring s) \<and> uc_mode_multishot (us_conns s c));
               (notify, k1) = recv_result cb multishot q (us_conns s c);
               s1 = upd_conn c (\<lambda>_. k1) s;
               s2 = (case cq_buffer q of
                       Some b \<Rightarrow> if cq_res q \<le> 0 then upd_ring (RecycleMultishotBuffer b) s1 else s1
                     | None \<Rightarrow> s1);
               s3 = (if \<not> cq_more q
                     then let (rearm, k2) = recv_terminal multishot (us_conns s2 c); t = upd_conn c (\<lambda>_. k2) s2 in
                       if rearm then upd_ring (\<lambda>u. u\<lparr>ur_rearm := ur_rearm u @ [c]\<rparr>) t else t
                     else s2);
               w = uc_read_waiter (us_conns s3 c)
           in if notify \<and> w \<noteq> 0
              then (upd_conn c (\<lambda>k. k\<lparr>uc_read_waiter := 0, uc_read_inflight := False\<rparr>) s3)\<lparr>us_ready := us_ready s3 @ [w]\<rparr>
              else s3)"

text \<open>\<open>POLLERR | POLLHUP | POLLRDHUP\<close>\<close>

definition kDisconnectEvents :: u32 where "kDisconnectEvents = 0x2018"

definition HandlePeerDisconnect :: "callbacks \<Rightarrow> u64 \<Rightarrow> cqe \<Rightarrow> ustate \<Rightarrow> ustate" where
  "HandlePeerDisconnect cb c q s =
     (if c = 0 then s
      else let s1 = upd_conn c (\<lambda>k. k\<lparr>uc_poll_armed := False, uc_poll_cancel_requested := False,
                     uc_inflight_ops := (if uc_inflight_ops k \<noteq> 0 then uc_inflight_ops k - 1 else uc_inflight_ops k)\<rparr>) s in
        if cq_res q < 0 \<or> uc_state (us_conns s1 c) \<noteq> kActive then s1
        else if (of_int (cq_res q) :: u32) AND kDisconnectEvents = 0 then s1
        else if cb_has_peer cb c s1 then cb_peer cb c s1 else s1)"

definition HandleWakePoll :: "tags \<Rightarrow> ustate \<Rightarrow> ustate" where
  "HandleWakePoll tg s =
     (let s1 = upd_ring (\<lambda>u. u\<lparr>ur_wake_armed := False\<rparr>) s;
          s2 = (if us_stop_requested s1 then s1\<lparr>us_stopping := True\<rparr> else s1)
      in if \<not> us_stopping s2 then upd_ring (\<lambda>u. snd (ArmWakePoll tg u)) s2 else s2)"

text \<open>Before a terminal completion is dispatched, cancels of its tag that wait unsubmitted are retired.\<close>

definition pre_dispatch :: "tags \<Rightarrow> cqe \<Rightarrow> uring \<Rightarrow> uring" where
  "pre_dispatch tg q u = (if ur_may_cancel u \<and> \<not> cq_more q then RetireUnsubmittedCancels tg (cq_user_data q) u else u)"

definition DispatchCqe :: "tags \<Rightarrow> callbacks \<Rightarrow> cqe \<Rightarrow> ustate \<Rightarrow> ustate" where
  "DispatchCqe tg cb q s0 =
     (let s = upd_ring (pre_dispatch tg q) s0; d = cq_user_data q in
      if d = tg_wake_poll tg then HandleWakePoll tg s
      else if d = tg_cross_core tg then s
      else if d = tg_peer_cancel tg then s
      else if d = tg_cancel_request tg then s
      else if IsMultishotData d then HandleMultishotRecv cb (DecodeMultishotConnection d) q s
      else if IsPeerDisconnectData d then HandlePeerDisconnect cb (DecodePeerDisconnectConnection d) q s
      else if d \<noteq> 0 then cb_complete cb d (cq_res q) (cq_more q) s
      else s)"

definition DrainPendingCompletions :: "tags \<Rightarrow> callbacks \<Rightarrow> ustate \<Rightarrow> bool \<times> ustate" where
  "DrainPendingCompletions tg cb s =
     (if ur_completions (us_ring s) = [] then (False, s)
      else let batch = ur_completions (us_ring s) in
        (True, fold (\<lambda>(d, r). DispatchCqe tg cb \<lparr>cq_user_data = d, cq_res = r, cq_more = False, cq_buffer = None\<rparr>) batch
                 (upd_ring (\<lambda>u. u\<lparr>ur_completions := []\<rparr>) s)))"

definition ReapCompletions :: "tags \<Rightarrow> callbacks \<Rightarrow> cqe list \<Rightarrow> ustate \<Rightarrow> bool \<times> ustate" where
  "ReapCompletions tg cb cqes s = (cqes \<noteq> [], fold (DispatchCqe tg cb) cqes s)"

definition rearm_one :: "(u64 \<Rightarrow> u64) \<Rightarrow> u64 \<Rightarrow> u64 \<Rightarrow> ustate \<Rightarrow> ustate" where
  "rearm_one buf sz c s0 =
     (let s = upd_conn c (\<lambda>k. k\<lparr>uc_needs_recv_rearm := False\<rparr>) s0; k = us_conns s c in
      if uc_state k = kActive \<and> \<not> uc_closed k \<and> \<not> uc_closing k \<and> \<not> uc_recv_eof k \<and> \<not> uc_recv_paused k
      then let (status, s1) = StartRecvMultishot buf sz c s in
        if \<not> status_ok status then upd_conn c (\<lambda>k. k\<lparr>uc_last_error := status\<rparr>) s1 else s1
      else s)"

definition DrainRecvRearm :: "(u64 \<Rightarrow> u64) \<Rightarrow> u64 \<Rightarrow> ustate \<Rightarrow> ustate" where
  "DrainRecvRearm buf sz s =
     (let batch = ur_rearm (us_ring s) in
      if batch = [] then s else fold (rearm_one buf sz) batch (upd_ring (\<lambda>u. u\<lparr>ur_rearm := []\<rparr>) s))"

definition PollDeferred :: "tags \<Rightarrow> callbacks \<Rightarrow> (u64 \<Rightarrow> u64) \<Rightarrow> u64 \<Rightarrow> ustate \<Rightarrow> bool \<times> ustate" where
  "PollDeferred tg cb buf sz s =
     (let (p1, s1) = DrainPendingCompletions tg cb s;
          s2 = DrainRecvRearm buf sz s1;
          (p2, u) = DrainPending (us_ring s2)
      in (p1 \<or> p2, s2\<lparr>us_ring := u\<rparr>))"

definition ur_Poll :: "tags \<Rightarrow> callbacks \<Rightarrow> (u64 \<Rightarrow> u64) \<Rightarrow> u64 \<Rightarrow> cqe list \<Rightarrow> ustate \<Rightarrow> bool \<times> ustate" where
  "ur_Poll tg cb buf sz cqes s =
     (if \<not> ur_initialized (us_ring s) then (False, s)
      else let (p1, s1) = ReapCompletions tg cb cqes s; u = us_ring s1 in
        if ur_completions u \<noteq> [] \<or> ur_rearm u \<noteq> [] \<or> ur_pending u \<noteq> []
        then let (p2, s2) = PollDeferred tg cb buf sz s1 in (p1 \<or> p2, s2)
        else (p1, s1))"

text \<open>
  \<open>Wait\<close>: \<open>rc\<close> and \<open>q\<close> are what the wait call returns, \<open>cqes\<close> the completions found by the
  final poll. The first component of the result tells whether the kernel was entered.
\<close>

definition ur_Wait ::
  "tags \<Rightarrow> callbacks \<Rightarrow> (u64 \<Rightarrow> u64) \<Rightarrow> u64 \<Rightarrow> int \<Rightarrow> int \<Rightarrow> cqe \<Rightarrow> cqe list \<Rightarrow> ustate \<Rightarrow> bool \<times> bool \<times> ustate" where
  "ur_Wait tg cb buf sz timeout_ms rc q cqes s =
     (if HasPending (us_ring s) then (False, True, s)
      else if 0 \<le> timeout_ms \<and> rc = - ETIME then (True, True, s)
      else if rc = - EINTR \<or> rc = - EAGAIN then (True, True, s)
      else if rc < 0 then (True, False, s)
      else (True, True, snd (ur_Poll tg cb buf sz cqes (DispatchCqe tg cb q s))))"

section \<open>Provided buffers\<close>

lemma recv_result_ids:
  "map rb_buffer_id (uc_received (snd (recv_result cb m q k))) =
   map rb_buffer_id (uc_received k) @ (if 0 < cq_res q \<and> (cq_buffer q \<noteq> None \<or> \<not> m) then [case cq_buffer q of None \<Rightarrow> 0 | Some b \<Rightarrow> b] else [])"
  "uc_mode_multishot (snd (recv_result cb m q k)) = uc_mode_multishot k"
  by (auto simp: recv_result_def Let_def)

lemma recv_terminal_frame:
  "uc_received (snd (recv_terminal m k)) = uc_received k" "uc_mode_multishot (snd (recv_terminal m k)) = uc_mode_multishot k"
  by (simp_all add: recv_terminal_def Let_def)

lemma HandleMultishotRecv_buffers:
  assumes "c \<noteq> 0"
  shows "uc_received (us_conns (HandleMultishotRecv cb c q s) c) =
      uc_received (snd (recv_result cb (ur_multishot (us_ring s) \<and> uc_mode_multishot (us_conns s c)) q (us_conns s c)))"
    "ur_buf_ring (us_ring (HandleMultishotRecv cb c q s)) =
      (case cq_buffer q of Some b \<Rightarrow> if cq_res q \<le> 0 then ur_buf_ring (RecycleMultishotBuffer b (us_ring s)) else ur_buf_ring (us_ring s)
       | None \<Rightarrow> ur_buf_ring (us_ring s))"
    "e \<noteq> c \<Longrightarrow> us_conns (HandleMultishotRecv cb c q s) e = us_conns s e"
  using assms
  by (auto simp: HandleMultishotRecv_def Let_def upd_conn_def upd_ring_def RecycleMultishotBuffer_def recv_terminal_frame
      split: option.splits prod.splits) (metis recv_terminal_frame(1) snd_conv)+

lemma Recycle_in_range:
  "ur_multishot u \<Longrightarrow> unat b < unat (ur_buf_entries u) \<Longrightarrow> RecycleMultishotBuffer b u = u\<lparr>ur_buf_ring := ur_buf_ring u @ [b]\<rparr>"
  by (simp add: RecycleMultishotBuffer_def)

lemma ReleaseRecvBuffer_all:
  assumes "ur_multishot (us_ring s)" "uc_mode_multishot (us_conns s c)" "\<forall>b \<in> set bs. unat b < unat (ur_buf_entries (us_ring s))"
  shows "fold (ReleaseRecvBuffer c) bs s = s\<lparr>us_ring := (us_ring s)\<lparr>ur_buf_ring := ur_buf_ring (us_ring s) @ bs\<rparr>\<rparr>"
  using assms
proof (induction bs arbitrary: s)
  case (Cons b bs)
  let ?t = "s\<lparr>us_ring := (us_ring s)\<lparr>ur_buf_ring := ur_buf_ring (us_ring s) @ [b]\<rparr>\<rparr>"
  have "ReleaseRecvBuffer c b s = ?t" using Cons.prems by (simp add: ReleaseRecvBuffer_def upd_ring_def Recycle_in_range)
  then show ?case using Cons.IH [of ?t] Cons.prems by simp
qed simp

text \<open>
  C26: no provided buffer is lost or handed out twice. A receive completion that carries buffer
  \<open>b\<close> puts it either in the connection's queue of received buffers or back in the ring, whatever
  the result, and touches no other connection; releasing the queued buffers then returns every
  one of them to the ring.
\<close>

theorem provided_buffers_conserved:
  assumes "c \<noteq> 0" "ur_multishot (us_ring s)" "uc_mode_multishot (us_conns s c)" "cq_buffer q = Some b"
    and range: "\<forall>x \<in> insert b (set (map rb_buffer_id (uc_received (us_conns s c)))). unat x < unat (ur_buf_entries (us_ring s))"
    and s1: "s1 = HandleMultishotRecv cb c q s"
  shows "mset (ur_buf_ring (us_ring s1)) + mset (map rb_buffer_id (uc_received (us_conns s1 c))) =
      add_mset b (mset (ur_buf_ring (us_ring s)) + mset (map rb_buffer_id (uc_received (us_conns s c)))) \<and>
    (\<forall>e. e \<noteq> c \<longrightarrow> us_conns s1 e = us_conns s e) \<and>
    mset (ur_buf_ring (us_ring (fold (ReleaseRecvBuffer c) (map rb_buffer_id (uc_received (us_conns s c))) s))) =
      mset (ur_buf_ring (us_ring s)) + mset (map rb_buffer_id (uc_received (us_conns s c)))"
proof -
  note B = HandleMultishotRecv_buffers [OF assms(1), where cb = cb and q = q and s = s]
  have "map rb_buffer_id (uc_received (us_conns s1 c)) = map rb_buffer_id (uc_received (us_conns s c)) @ (if 0 < cq_res q then [b] else [])"
    unfolding s1 B(1) recv_result_ids using assms(4) by simp
  moreover have "ur_buf_ring (us_ring s1) = ur_buf_ring (us_ring s) @ (if 0 < cq_res q then [] else [b])"
    unfolding s1 B(2) using assms range by (simp add: Recycle_in_range)
  ultimately show ?thesis
    using ReleaseRecvBuffer_all [OF assms(2,3), of "map rb_buffer_id (uc_received (us_conns s c))"] range B(3) by (auto simp: s1)
qed

definition one_conn :: uconn where
  "one_conn = \<lparr>uc_file = \<lparr>rf_fd = 9, rf_fixed_index = 0, rf_is_fixed = False\<rparr>, uc_read_waiter = 77, uc_last_error = StOk,
     uc_last_active_ms = 0, uc_inflight_ops = 1, uc_state = kActive, uc_mode_multishot = True, uc_closing = False,
     uc_closed = False, uc_read_inflight = True, uc_recv_paused = False, uc_recv_armed = True, uc_needs_recv_rearm = False,
     uc_recv_eof = False, uc_poll_armed = False, uc_poll_cancel_requested = False, uc_read_buffer_size = 0, uc_received = []\<rparr>"

definition one_state :: ustate where
  "one_state = \<lparr>us_ring = InitMultishotRecv 4 4096 True small_ring, us_conns = \<lambda>_. one_conn, us_ready = [],
     us_stop_requested = False, us_stopping = False\<rparr>"

definition no_callbacks :: callbacks where
  "no_callbacks = \<lparr>cb_complete = \<lambda>_ _ _ s. s, cb_peer = \<lambda>_ s. s, cb_has_peer = \<lambda>_ _. False, cb_now_ms = 0, cb_errno_status = \<lambda>_. StInternal\<rparr>"

theorem provided_buffers_conserved_witness:
  "let s1 = HandleMultishotRecv no_callbacks 64 \<lparr>cq_user_data = 65, cq_res = 10, cq_more = True, cq_buffer = Some 3\<rparr>
       (one_state\<lparr>us_ring := (us_ring one_state)\<lparr>ur_buf_ring := [0, 1, 2]\<rparr>\<rparr>) in
   mset (ur_buf_ring (us_ring s1)) + mset (map rb_buffer_id (uc_received (us_conns s1 64))) = {#3, 0, 1, 2#}"
  using provided_buffers_conserved [of 64 "one_state\<lparr>us_ring := (us_ring one_state)\<lparr>ur_buf_ring := [0, 1, 2]\<rparr>\<rparr>"
      "\<lparr>cq_user_data = 65, cq_res = 10, cq_more = True, cq_buffer = Some 3\<rparr>" 3 _ no_callbacks]
  by (simp add: one_state_def one_conn_def InitMultishotRecv_def)

text \<open>
  Views of receive buffers stay inside the storage and apart. A view of a provided buffer
  lies within the \<open>entries * size\<close> bytes of backing storage, and views of two different buffers
  do not overlap; a view of a connection's own buffer lies within that buffer.
\<close>

lemma recv_views_in_bounds_and_disjoint:
  assumes "ViewRecvBuffer u k b off n = Some (lo, len)"
  shows "(ur_multishot u \<and> uc_mode_multishot k \<longrightarrow> lo + len \<le> unat (ur_buf_entries u) * unat (ur_buf_size u) \<and>
      (\<forall>b2 off2 n2 lo2 len2. ViewRecvBuffer u k b2 off2 n2 = Some (lo2, len2) \<and> b2 \<noteq> b \<longrightarrow> lo + len \<le> lo2 \<or> lo2 + len2 \<le> lo)) \<and>
    (\<not> (ur_multishot u \<and> uc_mode_multishot k) \<longrightarrow> lo + len \<le> unat (uc_read_buffer_size k)) \<and> len = n"
proof -
  let ?e = "unat (ur_buf_entries u)" and ?z = "unat (ur_buf_size u)"
  have slot: "i * ?z + ?z \<le> j * ?z" if "i < j" for i j :: nat
    using that by (metis Suc_leI mult_Suc add.commute mult_le_mono1)
  have view: "\<exists>o'. lo' = unat b' * ?z + o' \<and> o' + len' \<le> ?z \<and> unat b' < ?e"
    if "ViewRecvBuffer u k b' o2 n' = Some (lo', len')" "ur_multishot u \<and> uc_mode_multishot k" for b' o2 n' lo' len'
    using that by (auto simp: ViewRecvBuffer_def split: if_splits intro!: exI [of _ o2])
  have in_bounds: "lo' + len' \<le> ?e * ?z" if "ViewRecvBuffer u k b' o2 n' = Some (lo', len')" "ur_multishot u \<and> uc_mode_multishot k" for b' o2 n' lo' len'
    using view [OF that] slot [of "unat b'" ?e for b'] by force
  have apart: "lo + len \<le> lo2 \<or> lo2 + len2 \<le> lo"
    if m: "ur_multishot u \<and> uc_mode_multishot k" and v: "ViewRecvBuffer u k b2 off2 n2 = Some (lo2, len2)" "b2 \<noteq> b" for b2 off2 n2 lo2 len2
  proof -
    obtain o1 o2 where o: "lo = unat b * ?z + o1" "o1 + len \<le> ?z" "lo2 = unat b2 * ?z + o2" "o2 + len2 \<le> ?z"
      using view [OF assms m] view [OF v(1) m] by auto
    have "unat b < unat b2 \<or> unat b2 < unat b" using v(2) by (metis linorder_neqE_nat word_unat_eq_iff)
    then show ?thesis using o slot [of "unat b" "unat b2"] slot [of "unat b2" "unat b"] by auto
  qed
  have "\<not> (ur_multishot u \<and> uc_mode_multishot k) \<longrightarrow> lo + len \<le> unat (uc_read_buffer_size k)" "len = n"
    using assms by (auto simp: ViewRecvBuffer_def split: if_splits)
  then show ?thesis using in_bounds [OF assms] apart by blast
qed

section \<open>Operations in flight\<close>

text \<open>What happens to one connection: it is armed, and the kernel reports on what is armed.\<close>

datatype conn_event = CeStartRecv | CeStartPoll u32 | CeRecv cqe | CePoll cqe

fun do_conn_event :: "callbacks \<Rightarrow> (u64 \<Rightarrow> u64) \<Rightarrow> u64 \<Rightarrow> u64 \<Rightarrow> conn_event \<Rightarrow> ustate \<Rightarrow> ustate" where
  "do_conn_event cb buf sz c CeStartRecv s = snd (StartRecvMultishot buf sz c s)"
| "do_conn_event cb buf sz c (CeStartPoll ev) s = snd (StartPeerDisconnectPoll ev c s)"
| "do_conn_event cb buf sz c (CeRecv q) s = (if uc_recv_armed (us_conns s c) then HandleMultishotRecv cb c q s else s)"
| "do_conn_event cb buf sz c (CePoll q) s = (if uc_poll_armed (us_conns s c) then HandlePeerDisconnect cb c q s else s)"

definition in_flight :: "uconn \<Rightarrow> nat" where
  "in_flight k = of_bool (uc_recv_armed k) + of_bool (uc_poll_armed k)"

text \<open>A disconnect callback may close the connection; it starts and ends no operation.\<close>

definition callback_ok :: "callbacks \<Rightarrow> bool" where
  "callback_ok cb \<longleftrightarrow> (\<forall>c s. uc_inflight_ops (us_conns (cb_peer cb c s) c) = uc_inflight_ops (us_conns s c) \<and>
     uc_recv_armed (us_conns (cb_peer cb c s) c) = uc_recv_armed (us_conns s c) \<and>
     uc_poll_armed (us_conns (cb_peer cb c s) c) = uc_poll_armed (us_conns s c))"

lemma unat_minus_one_pos: "x \<noteq> 0 \<Longrightarrow> unat (x - 1) = unat x - 1" for x :: u32
  by (simp add: unat_minus_one)

lemma unat_u32_Suc: "unat x + 1 < 2 ^ 32 \<Longrightarrow> unat (x + 1) = unat x + 1" for x :: u32
  using unat_add_exact [of x 1] by simp

text \<open>The three fields the count depends on.\<close>

definition flight :: "uconn \<Rightarrow> u32 \<times> bool \<times> bool" where
  "flight k = (uc_inflight_ops k, uc_recv_armed k, uc_poll_armed k)"

lemma StartRecv_conn:
  "flight (us_conns (snd (StartRecvMultishot buf sz c s)) c) = flight (us_conns s c) \<or>
   \<not> uc_recv_armed (us_conns s c) \<and> flight (us_conns (snd (StartRecvMultishot buf sz c s)) c) =
     (uc_inflight_ops (us_conns s c) + 1, True, uc_poll_armed (us_conns s c))"
  by (simp add: StartRecvMultishot_def Let_def upd_conn_def case_prod_unfold flight_def)

lemma StartPoll_conn:
  "flight (us_conns (snd (StartPeerDisconnectPoll ev c s)) c) = flight (us_conns s c) \<or>
   \<not> uc_poll_armed (us_conns s c) \<and> flight (us_conns (snd (StartPeerDisconnectPoll ev c s)) c) =
     (uc_inflight_ops (us_conns s c) + 1, uc_recv_armed (us_conns s c), True)"
  by (simp add: StartPeerDisconnectPoll_def Let_def upd_conn_def case_prod_unfold flight_def)

lemma StartRecv_flight:
  assumes "unat (uc_inflight_ops (us_conns s c)) = base + in_flight (us_conns s c)" "base + 2 < 2 ^ 32"
  shows "unat (uc_inflight_ops (us_conns (snd (StartRecvMultishot buf sz c s)) c)) =
    base + in_flight (us_conns (snd (StartRecvMultishot buf sz c s)) c)"
proof -
  have "unat (uc_inflight_ops (us_conns s c)) + 1 < 2 ^ 32" if "\<not> uc_recv_armed (us_conns s c)"
    using that assms by (simp add: in_flight_def)
  then show ?thesis using StartRecv_conn [of buf sz c s] assms unat_u32_Suc [of "uc_inflight_ops (us_conns s c)"]
    unfolding flight_def prod.inject in_flight_def by (elim disjE conjE) simp_all
qed

lemma StartPoll_flight:
  assumes "unat (uc_inflight_ops (us_conns s c)) = base + in_flight (us_conns s c)" "base + 2 < 2 ^ 32"
  shows "unat (uc_inflight_ops (us_conns (snd (StartPeerDisconnectPoll ev c s)) c)) =
    base + in_flight (us_conns (snd (StartPeerDisconnectPoll ev c s)) c)"
proof -
  have "unat (uc_inflight_ops (us_conns s c)) + 1 < 2 ^ 32" if "\<not> uc_poll_armed (us_conns s c)"
    using that assms by (simp add: in_flight_def)
  then show ?thesis using StartPoll_conn [of ev c s] assms unat_u32_Suc [of "uc_inflight_ops (us_conns s c)"]
    unfolding flight_def prod.inject in_flight_def by (elim disjE conjE) simp_all
qed

lemma recv_result_flight:
  "uc_inflight_ops (snd (recv_result cb m q k)) = uc_inflight_ops k" "uc_recv_armed (snd (recv_result cb m q k)) = uc_recv_armed k"
  "uc_poll_armed (snd (recv_result cb m q k)) = uc_poll_armed k"
  by (simp_all add: recv_result_def Let_def)

lemma recv_terminal_flight:
  "uc_inflight_ops (snd (recv_terminal m k)) = (if 0 < uc_inflight_ops k then uc_inflight_ops k - 1 else uc_inflight_ops k)"
  "\<not> uc_recv_armed (snd (recv_terminal m k))" "uc_poll_armed (snd (recv_terminal m k)) = uc_poll_armed k"
  by (simp_all add: recv_terminal_def Let_def)

lemma HandleMultishotRecv_flight:
  assumes "c \<noteq> 0"
  shows "uc_inflight_ops (us_conns (HandleMultishotRecv cb c q s) c) =
      (let i = uc_inflight_ops (us_conns s c) in if \<not> cq_more q \<and> 0 < i then i - 1 else i)"
    "uc_recv_armed (us_conns (HandleMultishotRecv cb c q s) c) = (uc_recv_armed (us_conns s c) \<and> cq_more q)"
    "uc_poll_armed (us_conns (HandleMultishotRecv cb c q s) c) = uc_poll_armed (us_conns s c)"
proof -
  define m where "m = (ur_multishot (us_ring s) \<and> uc_mode_multishot (us_conns s c))"
  define k1 where "k1 = snd (recv_result cb m q (us_conns s c))"
  define k2 where "k2 = (if cq_more q then k1 else snd (recv_terminal m k1))"
  have k: "us_conns (HandleMultishotRecv cb c q s) c = k2 \<or>
      us_conns (HandleMultishotRecv cb c q s) c = k2\<lparr>uc_read_waiter := 0, uc_read_inflight := False\<rparr>"
    using assms
    by (auto simp: HandleMultishotRecv_def Let_def upd_conn_def upd_ring_def m_def [symmetric] k1_def k2_def split: option.splits prod.splits)
  have f: "uc_inflight_ops k2 = (let i = uc_inflight_ops (us_conns s c) in if \<not> cq_more q \<and> 0 < i then i - 1 else i)"
    "uc_recv_armed k2 = (uc_recv_armed (us_conns s c) \<and> cq_more q)" "uc_poll_armed k2 = uc_poll_armed (us_conns s c)"
    by (cases "cq_more q"; simp add: k2_def k1_def recv_terminal_flight recv_result_flight Let_def)+
  show "uc_inflight_ops (us_conns (HandleMultishotRecv cb c q s) c) =
      (let i = uc_inflight_ops (us_conns s c) in if \<not> cq_more q \<and> 0 < i then i - 1 else i)" using k f(1) by auto
  show "uc_recv_armed (us_conns (HandleMultishotRecv cb c q s) c) = (uc_recv_armed (us_conns s c) \<and> cq_more q)" using k f(2) by auto
  show "uc_poll_armed (us_conns (HandleMultishotRecv cb c q s) c) = uc_poll_armed (us_conns s c)" using k f(3) by auto
qed

lemma HandlePeerDisconnect_flight:
  assumes "c \<noteq> 0" "callback_ok cb"
  shows "uc_inflight_ops (us_conns (HandlePeerDisconnect cb c q s) c) =
      (let i = uc_inflight_ops (us_conns s c) in if i \<noteq> 0 then i - 1 else i)"
    "uc_recv_armed (us_conns (HandlePeerDisconnect cb c q s) c) = uc_recv_armed (us_conns s c)"
    "\<not> uc_poll_armed (us_conns (HandlePeerDisconnect cb c q s) c)"
  using assms by (simp_all add: HandlePeerDisconnect_def Let_def upd_conn_def callback_ok_def)

lemma conn_event_flight:
  assumes "c \<noteq> 0" "callback_ok cb" and inv: "unat (uc_inflight_ops (us_conns s c)) = base + in_flight (us_conns s c)" and "base + 2 < 2 ^ 32"
  shows "unat (uc_inflight_ops (us_conns (do_conn_event cb buf sz c e s) c)) = base + in_flight (us_conns (do_conn_event cb buf sz c e s) c)"
proof (cases e)
  case (CeRecv q)
  show ?thesis
  proof (cases "uc_recv_armed (us_conns s c) \<and> \<not> cq_more q")
    case True
    then have "unat (uc_inflight_ops (us_conns s c)) \<noteq> 0" using inv by (simp add: in_flight_def)
    then have "uc_inflight_ops (us_conns s c) \<noteq> 0" by auto
    then show ?thesis using CeRecv True inv
      by (simp add: HandleMultishotRecv_flight [OF assms(1)] in_flight_def unat_minus_one_pos Let_def word_gt_0)
  next
    case False
    then show ?thesis using CeRecv inv by (auto simp: HandleMultishotRecv_flight [OF assms(1)] in_flight_def Let_def)
  qed
next
  case (CePoll q)
  show ?thesis
  proof (cases "uc_poll_armed (us_conns s c)")
    case True
    then have "unat (uc_inflight_ops (us_conns s c)) \<noteq> 0" using inv by (simp add: in_flight_def)
    then have "uc_inflight_ops (us_conns s c) \<noteq> 0" by auto
    then show ?thesis using CePoll True inv
      by (simp add: HandlePeerDisconnect_flight [OF assms(1,2)] in_flight_def unat_minus_one_pos Let_def)
  qed (use CePoll inv in simp)
qed (use assms in \<open>simp_all add: StartRecv_flight StartPoll_flight\<close>)

text \<open>
  The in-flight count of a connection is exact. Over any sequence of arming receives and
  disconnect polls and of their completions, \<open>inflight_ops_\<close> exceeds its starting value by exactly
  one for an armed receive and one for an armed poll, so it returns to that value, and the
  connection becomes reclaimable, exactly when neither is armed.
\<close>

lemma inflight_count_exact:
  assumes "c \<noteq> 0" "callback_ok cb" "unat (uc_inflight_ops (us_conns s c)) = base + in_flight (us_conns s c)" "base + 2 < 2 ^ 32"
    and "k = us_conns (fold (do_conn_event cb buf sz c) es s) c"
  shows "unat (uc_inflight_ops k) = base + of_bool (uc_recv_armed k) + of_bool (uc_poll_armed k)"
proof -
  have "unat (uc_inflight_ops (us_conns (fold (do_conn_event cb buf sz c) es s) c)) = base + in_flight (us_conns (fold (do_conn_event cb buf sz c) es s) c)"
    using assms(3)
  proof (induction es arbitrary: s)
    case (Cons e es)
    from Cons.IH [OF conn_event_flight [OF assms(1,2) Cons.prems assms(4)]] show ?case by simp
  qed simp
  then show ?thesis by (simp add: assms(5) in_flight_def)
qed

section \<open>Cancels never outlive their target\<close>

definition is_cancel :: "sqe \<Rightarrow> bool" where
  "is_cancel q \<longleftrightarrow> cancel_target (sq_prep q) \<noteq> None"

text \<open>The flag \<open>may_have_unsubmitted_cancels_\<close> is set whenever an unsubmitted cancel exists.\<close>

definition cancel_flag_ok :: "uring \<Rightarrow> bool" where
  "cancel_flag_ok u \<longleftrightarrow> ring_ok u \<and> (ur_may_cancel u \<or> (\<forall>q \<in> set (accepted u). \<not> is_cancel q))"

lemma neutral_not_cancel: "\<not> is_cancel (neutral_sqe tg)"
  by (simp add: is_cancel_def neutral_sqe_def sqe_of_def)

lemma Cancel_flag_ok:
  assumes "cancel_flag_ok u"
  shows "cancel_flag_ok (snd (CancelUnsubmittedMatching tg m r u))"
proof -
  obtain hit v where v: "CancelUnsubmittedMatching tg m r u = (hit, v)" by fastforce
  have "ring_ok u" using assms by (simp add: cancel_flag_ok_def)
  note C = Cancel_spec [OF this v]
  show ?thesis using assms C(1,5,7) neutral_not_cancel [of tg] by (auto simp: v cancel_flag_ok_def)
qed

lemma Retire_spec:
  assumes "ring_ok u" "u1 = RetireUnsubmittedCancels tg target u"
  shows "\<forall>q \<in> set (accepted u1). cancel_target (sq_prep q) \<noteq> Some target" "cancel_flag_ok u1"
proof -
  let ?m = "\<lambda>q. cancel_target (sq_prep q) = Some target"
  obtain hit v where v: "CancelUnsubmittedMatching tg ?m (- ENOENT) u = (hit, v)" by fastforce
  note C = Cancel_spec [OF assms(1) v]
  have u1: "accepted u1 = accepted v" "ring_ok u1"
    "ur_may_cancel u1 = list_ex (\<lambda>q. cancel_target (sq_prep q) \<noteq> None \<and> cancel_target (sq_prep q) \<noteq> Some target) (accepted u)"
    using assms v C(1) by (auto simp: RetireUnsubmittedCancels_def ring_ok_def accepted_def Let_def)
  show "\<forall>q \<in> set (accepted u1). cancel_target (sq_prep q) \<noteq> Some target"
    using C(5) by (auto simp: u1 neutral_sqe_def sqe_of_def)
  show "cancel_flag_ok u1"
    using C(5) neutral_not_cancel [of tg] unfolding cancel_flag_ok_def u1 list_ex_iff is_cancel_def by (fastforce simp: u1(2))
qed

fun plain_submit :: "backend_event \<Rightarrow> bool" where
  "plain_submit (EvSubmit q) = (\<not> is_cancel q)"
| "plain_submit _ = True"

lemma CancelByData_flag:
  assumes "cancel_flag_ok u"
  shows "cancel_flag_ok (snd (CancelByData tg target completion u))"
proof -
  obtain hit v where v: "CancelUnsubmittedMatching tg (\<lambda>q. sq_user_data q = target) (- ECANCELED) u = (hit, v)" by fastforce
  have fv: "cancel_flag_ok v" using Cancel_flag_ok [OF assms] v by (metis snd_conv)
  then have rv: "ring_ok v" by (simp add: cancel_flag_ok_def)
  have i: "ur_initialized u" using assms by (simp add: cancel_flag_ok_def ring_ok_def)
  let ?q = "sqe_of (PrepCancel target) completion"
  note S = SubmitOrQueue_spec [OF rv, of ?q]
  have "snd (CancelByData tg target completion u) =
    (if hit then v\<lparr>ur_completions := ur_completions v @ [(completion, 0)]\<rparr> else (snd (SubmitOrQueue ?q v))\<lparr>ur_may_cancel := True\<rparr>)"
    using i v S(1) by (auto simp: CancelByData_def case_prod_unfold Let_def)
  then show ?thesis using fv S(3) by (auto simp: cancel_flag_ok_def accepted_def)
qed

lemma do_event_flag:
  assumes "cancel_flag_ok u" "plain_submit e"
  shows "cancel_flag_ok (do_event tg e u)"
proof -
  have r: "ring_ok u" using assms(1) by (simp add: cancel_flag_ok_def)
  show ?thesis
  proof (cases e)
    case (EvEnter k rc)
    then show ?thesis using Submit_spec(2,4,5) [OF r, of k rc] assms(1) by (auto simp: cancel_flag_ok_def)
  next
    case (EvCancelFd fd)
    then show ?thesis using Cancel_flag_ok [OF assms(1)] assms(1) by (simp add: CancelUnsubmittedForFd_def)
  next
    case (EvRetire target)
    then show ?thesis using Retire_spec(2) [OF r refl] by simp
  qed (use assms r in \<open>auto simp: cancel_flag_ok_def SubmitOrQueue_spec DrainPending_spec CancelByData_flag [unfolded cancel_flag_ok_def]\<close>)
qed

text \<open>
  C17: when the last completion of an operation is dispatched, no cancel request for it is left
  waiting. After any sequence of submissions, enter calls and cancellations, at the point where
  the handler of a terminal completion runs, neither the ring nor the software queue holds a
  cancel aimed at the completed tag, so a tag reused by the handler cannot be cancelled by
  mistake.
\<close>

theorem no_stale_cancel_at_dispatch:
  assumes "cancel_flag_ok u" "list_all plain_submit es" "\<not> cq_more q" "u1 = pre_dispatch tg q (fold (do_event tg) es u)"
  shows "list_all (\<lambda>x. cancel_target (sq_prep x) \<noteq> Some (cq_user_data q)) (ur_sq u1 @ ur_pending u1)"
proof -
  have f: "cancel_flag_ok (fold (do_event tg) es u)"
    using assms(1,2) by (induction es arbitrary: u) (simp_all add: do_event_flag)
  then have r: "ring_ok (fold (do_event tg) es u)" by (simp add: cancel_flag_ok_def)
  show ?thesis
  proof (cases "ur_may_cancel (fold (do_event tg) es u)")
    case True
    then have "u1 = RetireUnsubmittedCancels tg (cq_user_data q) (fold (do_event tg) es u)"
      using assms(3,4) by (simp add: pre_dispatch_def)
    from Retire_spec(1) [OF r this] show ?thesis by (simp add: list_all_iff accepted_def)
  next
    case False
    then have "u1 = fold (do_event tg) es u" using assms(4) by (simp add: pre_dispatch_def)
    then show ?thesis using f False by (auto simp: cancel_flag_ok_def is_cancel_def list_all_iff accepted_def)
  qed
qed

theorem no_stale_cancel_at_dispatch_witness:
  "let u1 = pre_dispatch some_tags \<lparr>cq_user_data = 0x40, cq_res = 0, cq_more = False, cq_buffer = None\<rparr>
       (fold (do_event some_tags) [EvSubmit (sqe_of (PrepSend 3 0 9) 0x40), EvEnter 1 1, EvCancel 0x40 0x80] small_ring) in
   list_all (\<lambda>x. cancel_target (sq_prep x) \<noteq> Some 0x40) (ur_sq u1 @ ur_pending u1)"
proof -
  have "cancel_flag_ok small_ring" by (simp add: cancel_flag_ok_def ring_ok_def small_ring_def accepted_def)
  moreover have "list_all plain_submit [EvSubmit (sqe_of (PrepSend 3 0 9) 0x40), EvEnter 1 1, EvCancel 0x40 0x80]"
    by (simp add: is_cancel_def sqe_of_def)
  ultimately show ?thesis
    using no_stale_cancel_at_dispatch [OF _ _ _ refl, of small_ring _ "\<lparr>cq_user_data = 0x40, cq_res = 0, cq_more = False, cq_buffer = None\<rparr>" some_tags]
    by (simp add: Let_def del: fold.simps)
qed

section \<open>Set-up\<close>

text \<open>
  A failed \<open>Init\<close> holds nothing. Starting from an uninitialised backend that owns no
  resources, a failed initialisation leaves the backend uninitialised with ring, eventfd and
  buffer ring released, and after a successful one \<open>Shutdown\<close> releases all of them, closing the
  eventfd only if the backend created it.
\<close>

lemma ur_Init_releases_on_failure:
  assumes "\<not> ur_initialized u" "\<not> ur_wake_armed u" "ur_Init tg ir entries n sz wake_fd (u, no_resources) = (st, u1, re)"
  shows "(st \<noteq> StOk \<longrightarrow> \<not> ur_initialized u1 \<and> re = no_resources) \<and>
    (st = StOk \<longrightarrow> ur_initialized u1 \<and> re_ring re \<and> ur_wake_armed u1 \<and> (re_wake_fd re \<noteq> None \<longleftrightarrow> wake_fd < 0)) \<and>
    snd (ur_Shutdown (u1, re)) = no_resources \<and> \<not> HasPending (fst (ur_Shutdown (u1, re)))"
proof -
  have [simp]: "ur_wake_fd (InitMultishotRecv n sz b v) = ur_wake_fd v" "ur_wake_armed (InitMultishotRecv n sz b v) = ur_wake_armed v"
    "ur_initialized (InitMultishotRecv n sz b v) = ur_initialized v" "ur_owns_wake_fd (InitMultishotRecv n sz b v) = ur_owns_wake_fd v" for b v
    by (simp_all add: InitMultishotRecv_def)
  have arm: "fst (ArmWakePoll tg v) \<and> ur_wake_armed (snd (ArmWakePoll tg v)) \<and> ur_initialized (snd (ArmWakePoll tg v)) \<and>
      ur_wake_fd (snd (ArmWakePoll tg v)) = ur_wake_fd v \<and> ur_owns_wake_fd (snd (ArmWakePoll tg v)) = ur_owns_wake_fd v"
    if "0 \<le> ur_wake_fd v" "\<not> ur_wake_armed v" "ur_initialized v" for v
    using that by (auto simp: ArmWakePoll_def SubmitOrQueue_def acquire_and_fill_def QueuePrepared_def Let_def split: option.splits)
  show ?thesis
    using assms arm
    by (auto simp: ur_Init_def Let_def case_prod_unfold ur_Shutdown_def no_resources_def HasPending_def UnregisterStorageResources_def split: if_splits)
qed

end
