(* ===== verification/Spdk_Backend.thy ===== *)
theory Spdk_Backend
  imports Bycorf_Prelude
begin

text \<open>
  The user-space storage backend, \<open>src/io/spdk_storage.cpp\<close>: device paths, request validation,
  the per-controller channels of a worker with their software queues, opening and closing fixed
  files, deferred retries and polling. The device library is a parameter: the return code of a
  command submission, the number of commands outstanding on a queue pair and the completions a
  poll reports are inputs.
\<close>

section \<open>Paths\<close>

definition kSpdkPrefix :: string where "kSpdkPrefix = ''spdk://''"

definition SPDK_NVMF_TRADDR_MAX_LEN :: nat where "SPDK_NVMF_TRADDR_MAX_LEN = 256"

fun starts_with :: "string \<Rightarrow> string \<Rightarrow> bool" where
  "starts_with [] s = True"
| "starts_with (p # ps) [] = False"
| "starts_with (p # ps) (c # cs) = (p = c \<and> starts_with ps cs)"

definition digit_of :: "char \<Rightarrow> nat option" where
  "digit_of c = (let n = of_char c :: nat in if 48 \<le> n \<and> n \<le> 57 then Some (n - 48) else None)"

text \<open>
  \<open>std::from_chars\<close> on a 32-bit unsigned value, as used here: the value if the whole text is a
  nonempty digit sequence that does not overflow.
\<close>

fun from_chars_acc :: "string \<Rightarrow> nat \<Rightarrow> nat option" where
  "from_chars_acc [] v = Some v"
| "from_chars_acc (c # cs) v =
     (case digit_of c of
        None \<Rightarrow> None
      | Some d \<Rightarrow> if 2 ^ 32 \<le> 10 * v + d then None else from_chars_acc cs (10 * v + d))"

definition from_chars :: "string \<Rightarrow> u32 option" where
  "from_chars s = (if s = [] then None else map_option of_nat (from_chars_acc s 0))"

text \<open>\<open>std::to_string\<close> on an unsigned value.\<close>

definition digit_char :: "nat \<Rightarrow> char" where "digit_char d = char_of (d + 48)"

fun nat_digits :: "nat \<Rightarrow> string" where
  "nat_digits n = (if n < 10 then [digit_char n] else nat_digits (n div 10) @ [digit_char (n mod 10)])"

declare nat_digits.simps [simp del]

record ParsedPath =
  pp_traddr :: string
  pp_nsid :: u32
  pp_canonical :: string

definition canonical_path :: "string \<Rightarrow> u32 \<Rightarrow> string" where
  "canonical_path addr nsid = kSpdkPrefix @ addr @ ''/'' @ nat_digits (unat nsid)"

text \<open>The namespace after the address: 1 by default, otherwise the number behind the slash.\<close>

definition namespace_of :: "string \<Rightarrow> status + u32" where
  "namespace_of rest =
     (if rest = [] then Inr 1
      else let ns = tl rest in
        if ns = [] then Inl StInvalidArgument
        else case from_chars ns of
          None \<Rightarrow> Inl StInvalidArgument
        | Some v \<Rightarrow> if v = 0 then Inl StInvalidArgument else Inr v)"

definition ParsePath :: "string \<Rightarrow> status + ParsedPath" where
  "ParsePath path =
     bindE (guardE StInvalidArgument (starts_with kSpdkPrefix path)) (\<lambda>_.
     let body = drop (length kSpdkPrefix) path in
     bindE (guardE StInvalidArgument (body \<noteq> [])) (\<lambda>_.
     let addr = takeWhile (\<lambda>c. c \<noteq> CHR ''/'') body; rest = dropWhile (\<lambda>c. c \<noteq> CHR ''/'') body in
     bindE (namespace_of rest) (\<lambda>nsid.
     bindE (guardE StInvalidArgument (addr \<noteq> [] \<and> length addr < SPDK_NVMF_TRADDR_MAX_LEN)) (\<lambda>_.
     Inr \<lparr>pp_traddr = addr, pp_nsid = nsid, pp_canonical = canonical_path addr nsid\<rparr>))))"

definition IsSpdkStoragePath :: "string \<Rightarrow> bool" where
  "IsSpdkStoragePath path = starts_with kSpdkPrefix path"

section \<open>Devices\<close>

record SpdkDevice =
  sd_controller :: nat
  sd_ns :: nat
  sd_sector_size :: u32
  sd_sector_shift :: nat
  sd_size_bytes :: u64
  sd_write_cache :: bool

text \<open>\<open>std::countr_zero\<close>\<close>

fun countr_zero_acc :: "nat \<Rightarrow> nat \<Rightarrow> nat" where
  "countr_zero_acc 0 n = 0"
| "countr_zero_acc (Suc k) n = (if odd n then 0 else Suc (countr_zero_acc k (n div 2)))"

definition countr_zero32 :: "u32 \<Rightarrow> nat" where
  "countr_zero32 w = (if w = 0 then 32 else countr_zero_acc 32 (unat w))"

text \<open>The last part of \<open>GetDevice\<close>: the namespace's sector size is checked and cached.\<close>

definition make_device :: "nat \<Rightarrow> nat \<Rightarrow> u32 \<Rightarrow> u64 \<Rightarrow> bool \<Rightarrow> status + SpdkDevice" where
  "make_device controller ns sector bytes vwc =
     (if sector = 0 \<or> sector AND (sector - 1) \<noteq> 0 then Inl StFailedPrecondition
      else Inr \<lparr>sd_controller = controller, sd_ns = ns, sd_sector_size = sector, sd_sector_shift = countr_zero32 sector,
                sd_size_bytes = bytes, sd_write_cache = vwc\<rparr>)"

text \<open>
  The registries behind \<open>GetDevice\<close>: devices by canonical path, controllers by address. The
  environment reports whether it initialised, which controller a probe attaches, whether its
  metadata queue pair could be allocated, and the namespaces of a controller. \<open>rg_sync\<close> tells
  which controllers still hold their metadata queue pair.
\<close>

record registry =
  rg_devices :: "string \<Rightarrow> SpdkDevice option"
  rg_controllers :: "string \<Rightarrow> nat option"
  rg_sync :: "nat \<Rightarrow> bool"

record probe_env =
  pe_enabled :: bool
  pe_env_status :: status
  pe_probe :: "string \<Rightarrow> nat option"
  pe_sync_qpair :: "nat \<Rightarrow> bool"
  pe_ns :: "nat \<Rightarrow> u32 \<Rightarrow> (nat \<times> u32 \<times> u64 \<times> bool) option"

definition GetController :: "probe_env \<Rightarrow> string \<Rightarrow> registry \<Rightarrow> (status + nat) \<times> registry" where
  "GetController pe addr rg =
     (case rg_controllers rg addr of
        Some c \<Rightarrow> (Inr c, rg)
      | None \<Rightarrow>
          (case pe_probe pe addr of
             None \<Rightarrow> (Inl StNotFound, rg)
           | Some c \<Rightarrow>
               if \<not> pe_sync_qpair pe c then (Inl StResourceExhausted, rg)
               else (Inr c, rg\<lparr>rg_controllers := (rg_controllers rg)(addr \<mapsto> c), rg_sync := (rg_sync rg)(c := True)\<rparr>)))"

definition GetDevice :: "probe_env \<Rightarrow> string \<Rightarrow> registry \<Rightarrow> (status + SpdkDevice) \<times> registry" where
  "GetDevice pe path rg =
     (if \<not> pe_enabled pe then (Inl StFailedPrecondition, rg)
      else case ParsePath path of
        Inl e \<Rightarrow> (Inl e, rg)
      | Inr pp \<Rightarrow>
          (case rg_devices rg (pp_canonical pp) of
             Some d \<Rightarrow> (Inr d, rg)
           | None \<Rightarrow>
               if \<not> status_ok (pe_env_status pe) then (Inl (pe_env_status pe), rg)
               else (case GetController pe (pp_traddr pp) rg of
                       (Inl e, rg1) \<Rightarrow> (Inl e, rg1)
                     | (Inr c, rg1) \<Rightarrow>
                         (case pe_ns pe c (pp_nsid pp) of
                            None \<Rightarrow> (Inl StNotFound, rg1)
                          | Some (ns, sector, bytes, vwc) \<Rightarrow>
                              (case make_device c ns sector bytes vwc of
                                 Inl e \<Rightarrow> (Inl e, rg1)
                               | Inr d \<Rightarrow> (Inr d, rg1\<lparr>rg_devices := (rg_devices rg1)(pp_canonical pp \<mapsto> d)\<rparr>))))))"

section \<open>Synchronous metadata I/O\<close>

text \<open>
  \<open>SubmitSync\<close>: \<open>submit lba count\<close> and \<open>flush_rc\<close> are the return codes of the commands,
  \<open>outcome\<close> the result of waiting for one (\<open>None\<close> a failed queue pair, \<open>Some e\<close> a completion
  with error flag \<open>e\<close>). The result carries the blocks actually requested.
\<close>

definition SubmitSync ::
  "SpdkDevice \<Rightarrow> bool \<Rightarrow> (u64 \<Rightarrow> u32 \<Rightarrow> int) \<Rightarrow> bool option \<Rightarrow> int \<Rightarrow> bool option \<Rightarrow> u64 \<Rightarrow> u64 \<Rightarrow> bool \<Rightarrow> bool \<Rightarrow>
   status \<times> (u64 \<times> u32) option" where
  "SubmitSync d has_qpair submit io_outcome flush_rc flush_outcome bytes offset write flush =
     (if bytes = 0 then (StOk, None)
      else if (offset OR bytes) AND ucast (sd_sector_size d - 1) \<noteq> 0 \<or> sd_size_bytes d < offset \<or> sd_size_bytes d - offset < bytes
      then (StInvalidArgument, None)
      else let lba = drop_bit (sd_sector_shift d) offset; lba_count = ucast (drop_bit (sd_sector_shift d) bytes) :: u32 in
        if \<not> has_qpair then (StFailedPrecondition, None)
        else if submit lba lba_count \<noteq> 0 then (StUnavailable, None)
        else case io_outcome of
          None \<Rightarrow> (StUnavailable, Some (lba, lba_count))
        | Some err \<Rightarrow>
            if err then (StDataLoss, Some (lba, lba_count))
            else if \<not> write \<or> \<not> flush then (StOk, Some (lba, lba_count))
            else if flush_rc \<noteq> 0 then (StUnavailable, Some (lba, lba_count))
            else (case flush_outcome of
                    None \<Rightarrow> (StUnavailable, Some (lba, lba_count))
                  | Some ferr \<Rightarrow> (if ferr then StDataLoss else StOk, Some (lba, lba_count))))"

text \<open>
  The blocking calls of \<open>spdk::sync\<close>. \<open>alloc\<close> tells whether the temporary DMA buffer could be
  allocated and \<open>dma\<close> is what the device leaves in it; the results are the status, the caller's
  buffer and the registry.
\<close>

record sync_env =
  sy_alloc :: bool
  sy_submit :: "u64 \<Rightarrow> u32 \<Rightarrow> int"
  sy_outcome :: "bool option"
  sy_flush_rc :: int
  sy_flush_outcome :: "bool option"

definition SubmitSync_on :: "sync_env \<Rightarrow> SpdkDevice \<Rightarrow> registry \<Rightarrow> nat \<Rightarrow> u64 \<Rightarrow> bool \<Rightarrow> bool \<Rightarrow> status" where
  "SubmitSync_on sy d rg len offset write flush =
     fst (SubmitSync d (rg_sync rg (sd_controller d)) (sy_submit sy) (sy_outcome sy) (sy_flush_rc sy) (sy_flush_outcome sy) (of_nat len) offset write flush)"

definition sync_Read :: "probe_env \<Rightarrow> sync_env \<Rightarrow> string \<Rightarrow> u8 list \<Rightarrow> u8 list \<Rightarrow> u64 \<Rightarrow> registry \<Rightarrow> status \<times> u8 list \<times> registry" where
  "sync_Read pe sy path output dma offset rg =
     (case GetDevice pe path rg of
        (Inl e, rg1) \<Rightarrow> (e, output, rg1)
      | (Inr d, rg1) \<Rightarrow>
          if \<not> sy_alloc sy then (StResourceExhausted, output, rg1)
          else let st = SubmitSync_on sy d rg1 (length output) offset False False in
            (st, if status_ok st then dma else output, rg1))"

definition sync_Write :: "probe_env \<Rightarrow> sync_env \<Rightarrow> string \<Rightarrow> u8 list \<Rightarrow> u64 \<Rightarrow> bool \<Rightarrow> registry \<Rightarrow> status \<times> registry" where
  "sync_Write pe sy path input offset flush rg =
     (case GetDevice pe path rg of
        (Inl e, rg1) \<Rightarrow> (e, rg1)
      | (Inr d, rg1) \<Rightarrow>
          if \<not> sy_alloc sy then (StResourceExhausted, rg1)
          else (SubmitSync_on sy d rg1 (length input) offset True flush, rg1))"

definition sync_ReadDma :: "probe_env \<Rightarrow> sync_env \<Rightarrow> string \<Rightarrow> nat \<Rightarrow> u64 \<Rightarrow> registry \<Rightarrow> status \<times> registry" where
  "sync_ReadDma pe sy path len offset rg =
     (if len = 0 then (StInvalidArgument, rg)
      else case GetDevice pe path rg of
        (Inl e, rg1) \<Rightarrow> (e, rg1)
      | (Inr d, rg1) \<Rightarrow> (SubmitSync_on sy d rg1 len offset False False, rg1))"

definition sync_WriteDma :: "probe_env \<Rightarrow> sync_env \<Rightarrow> string \<Rightarrow> nat \<Rightarrow> u64 \<Rightarrow> bool \<Rightarrow> registry \<Rightarrow> status \<times> registry" where
  "sync_WriteDma pe sy path len offset flush rg =
     (if len = 0 then (StInvalidArgument, rg)
      else case GetDevice pe path rg of
        (Inl e, rg1) \<Rightarrow> (e, rg1)
      | (Inr d, rg1) \<Rightarrow> (SubmitSync_on sy d rg1 len offset True flush, rg1))"

text \<open>\<open>ReleaseSpdkStorageMetadataQpairs\<close>, for the controllers that were attached.\<close>

definition ReleaseSpdkStorageMetadataQpairs :: "registry \<Rightarrow> registry" where
  "ReleaseSpdkStorageMetadataQpairs rg = rg\<lparr>rg_sync := (\<lambda>_. False)\<rparr>"

section \<open>The worker's backend\<close>

datatype Operation = kRead | kWrite | kFlush

record PendingIo =
  pi_tag :: nat
  pi_buffer :: u64
  pi_lba :: u64
  pi_count :: u32
  pi_file :: nat
  pi_operation :: Operation

record OpenFile =
  of_device :: "SpdkDevice option"
  of_qpair :: nat
  of_channel :: nat

definition closed_file :: OpenFile where
  "closed_file = \<lparr>of_device = None, of_qpair = 0, of_channel = 0\<rparr>"

record ControllerChannel =
  ch_controller :: nat
  ch_qpair :: nat
  ch_open_files :: nat
  ch_pending :: "PendingIo list"

text \<open>
  A queue pair of 0 is the null pointer. \<open>sp_success\<close> is the tag's \<open>success_result_\<close>;
  \<open>sp_issued\<close> records, per queue pair, the requests the device accepted, and \<open>sp_flight\<close> the commands
  the device holds, each as its queue pair and tag: issued and not yet reported complete. Neither
  is read by the backend.
\<close>

record spdk =
  sp_worker :: bool
  sp_files :: "OpenFile list"
  sp_channels :: "ControllerChannel list"
  sp_completions :: "(nat \<times> int) list"
  sp_next_poll :: nat
  sp_generation :: nat
  sp_outstanding :: nat
  sp_success :: "nat \<Rightarrow> int"
  sp_issued :: "nat \<Rightarrow> PendingIo list"
  sp_flight :: "(nat \<times> nat) multiset"

definition HasOutstanding :: "spdk \<Rightarrow> bool" where
  "HasOutstanding s \<longleftrightarrow> sp_outstanding s \<noteq> 0 \<or> sp_completions s \<noteq> []"

definition sp_RegisterFixedFiles :: "nat \<Rightarrow> spdk \<Rightarrow> status \<times> spdk" where
  "sp_RegisterFixedFiles n s =
     (if \<not> sp_worker s \<or> n = 0 \<or> sp_files s \<noteq> [] then (StFailedPrecondition, s)
      else (StOk, s\<lparr>sp_files := replicate n closed_file\<rparr>))"

text \<open>A buffer is its address and length; \<open>dma\<close> tells whether an address is DMA addressable.\<close>

definition sp_RegisterBuffers :: "(u64 \<Rightarrow> bool) \<Rightarrow> (u64 \<times> u64) list \<Rightarrow> spdk \<Rightarrow> status" where
  "sp_RegisterBuffers dma bufs s =
     (if \<not> sp_worker s \<or> bufs = [] then StFailedPrecondition
      else if list_ex (\<lambda>(base, len). base = 0 \<or> len = 0 \<or> \<not> dma base) bufs then StInvalidArgument
      else StOk)"

definition sp_Lookup :: "nat \<Rightarrow> spdk \<Rightarrow> OpenFile option" where
  "sp_Lookup file s =
     (if file < length (sp_files s) \<and> of_qpair (sp_files s ! file) \<noteq> 0 then Some (sp_files s ! file) else None)"

text \<open>The position of the controller's channel, or the number of channels.\<close>

fun find_channel :: "nat \<Rightarrow> ControllerChannel list \<Rightarrow> nat" where
  "find_channel c [] = 0"
| "find_channel c (ch # chs) = (if ch_controller ch = c then 0 else Suc (find_channel c chs))"

text \<open>\<open>alloc\<close> is the queue pair a new channel gets, 0 if allocation fails; \<open>rdwr\<close> the access flag.\<close>

definition sp_SubmitOpenDirect :: "(status + SpdkDevice) \<Rightarrow> nat \<Rightarrow> bool \<Rightarrow> nat \<Rightarrow> nat \<Rightarrow> spdk \<Rightarrow> status \<times> spdk" where
  "sp_SubmitOpenDirect device alloc rdwr file tag s =
     (if \<not> rdwr \<or> length (sp_files s) \<le> file \<or> tag = 0 then (StInvalidArgument, s)
      else case device of
        Inl e \<Rightarrow> (e, s)
      | Inr d \<Rightarrow>
          if of_qpair (sp_files s ! file) \<noteq> 0 then (StAlreadyExists, s)
          else let i = find_channel (sd_controller d) (sp_channels s) in
            if i = length (sp_channels s) \<and> alloc = 0 then (StResourceExhausted, s)
            else let s1 = (if i = length (sp_channels s)
                           then s\<lparr>sp_channels := sp_channels s @ [\<lparr>ch_controller = sd_controller d, ch_qpair = alloc, ch_open_files = 0, ch_pending = []\<rparr>],
                                  sp_generation := sp_generation s + 1\<rparr>
                           else s);
                     ch = sp_channels s1 ! i
                 in (StOk, s1\<lparr>sp_files := (sp_files s1)[file := \<lparr>of_device = Some d, of_qpair = ch_qpair ch, of_channel = i\<rparr>],
                               sp_channels := (sp_channels s1)[i := ch\<lparr>ch_open_files := ch_open_files ch + 1\<rparr>],
                               sp_completions := sp_completions s1 @ [(tag, 0)]\<rparr>))"

definition erase_at :: "nat \<Rightarrow> 'a list \<Rightarrow> 'a list" where
  "erase_at i xs = take i xs @ drop (Suc i) xs"

definition shift_file :: "nat \<Rightarrow> OpenFile \<Rightarrow> OpenFile" where
  "shift_file i f = (if of_qpair f \<noteq> 0 \<and> i < of_channel f then f\<lparr>of_channel := of_channel f - 1\<rparr> else f)"

definition sp_SubmitCloseDirect :: "nat \<Rightarrow> nat \<Rightarrow> spdk \<Rightarrow> status \<times> spdk" where
  "sp_SubmitCloseDirect file tag s =
     (case sp_Lookup file s of
        None \<Rightarrow> (StFailedPrecondition, s)
      | Some f \<Rightarrow>
          if tag = 0 \<or> sp_outstanding s \<noteq> 0 then (StFailedPrecondition, s)
          else let i = of_channel f; ch = sp_channels s ! i; n = ch_open_files ch - 1;
                   s1 = s\<lparr>sp_channels := (sp_channels s)[i := ch\<lparr>ch_open_files := n\<rparr>]\<rparr>;
                   s2 = (if n = 0
                         then let chs = erase_at i (sp_channels s1) in
                           s1\<lparr>sp_channels := chs, sp_generation := sp_generation s1 + 1,
                              sp_files := map (shift_file i) (sp_files s1),
                              sp_next_poll := (if chs = [] then 0
                                               else if length chs \<le> sp_next_poll s1 then sp_next_poll s1 mod length chs
                                               else sp_next_poll s1)\<rparr>
                         else s1)
               in (StOk, s2\<lparr>sp_files := (sp_files s2)[file := closed_file], sp_completions := sp_completions s2 @ [(tag, 0)]\<rparr>))"

section \<open>Requests\<close>

text \<open>
  The device library and the caller's completion objects. \<open>dv_rc\<close> is the return code of issuing a
  request on a queue pair, \<open>dv_busy\<close> the number of commands outstanding there, \<open>dv_process\<close> the
  completions (tag and error flag) a poll of a queue pair delivers under a limit, and
  \<open>dv_complete\<close> what a completion object does.
\<close>

record device =
  dv_rc :: "nat \<Rightarrow> PendingIo \<Rightarrow> spdk \<Rightarrow> int"
  dv_busy :: "nat \<Rightarrow> spdk \<Rightarrow> nat"
  dv_process :: "nat \<Rightarrow> nat \<Rightarrow> spdk \<Rightarrow> (nat \<times> bool) list"
  dv_complete :: "nat \<Rightarrow> int \<Rightarrow> spdk \<Rightarrow> spdk"

definition sp_ENOMEM :: int where "sp_ENOMEM = 12"
definition sp_EIO :: int where "sp_EIO = 5"

definition sp_TrySubmit :: "device \<Rightarrow> nat \<Rightarrow> PendingIo \<Rightarrow> spdk \<Rightarrow> int \<times> spdk" where
  "sp_TrySubmit dv qpair r s =
     (let rc = dv_rc dv qpair r s in
      (rc, if rc = 0 then s\<lparr>sp_issued := (sp_issued s)(qpair := sp_issued s qpair @ [r]),
                           sp_flight := add_mset (qpair, pi_tag r) (sp_flight s)\<rparr> else s))"

definition QueuePending :: "bool \<Rightarrow> nat \<Rightarrow> PendingIo \<Rightarrow> spdk \<Rightarrow> status \<times> spdk" where
  "QueuePending alloc i r s =
     (if \<not> alloc then (StResourceExhausted, s)
      else let ch = sp_channels s ! i in
        (StOk, s\<lparr>sp_channels := (sp_channels s)[i := ch\<lparr>ch_pending := ch_pending ch @ [r]\<rparr>],
                 sp_outstanding := sp_outstanding s + 1\<rparr>))"

definition SubmitOrDefer :: "device \<Rightarrow> bool \<Rightarrow> nat \<Rightarrow> PendingIo \<Rightarrow> spdk \<Rightarrow> status \<times> spdk" where
  "SubmitOrDefer dv alloc i r s =
     (let ch = sp_channels s ! i in
      if ch_pending ch \<noteq> [] then QueuePending alloc i r s
      else let (rc, s1) = sp_TrySubmit dv (ch_qpair ch) r s in
        if rc = 0 then (StOk, s1\<lparr>sp_outstanding := sp_outstanding s1 + 1\<rparr>)
        else if rc = - sp_ENOMEM \<and> dv_busy dv (ch_qpair ch) s1 \<noteq> 0 then QueuePending alloc i r s1
        else (StUnavailable, s1))"

text \<open>The request \<open>SubmitIo\<close> builds, or \<open>None\<close> when range or alignment is refused.\<close>

definition io_request :: "SpdkDevice \<Rightarrow> nat \<Rightarrow> u64 \<Rightarrow> u64 \<Rightarrow> u64 \<Rightarrow> bool \<Rightarrow> nat \<Rightarrow> PendingIo option" where
  "io_request d file buffer bytes offset write tag =
     (if 0x7fffffff < bytes \<or> (offset OR bytes) AND ucast (sd_sector_size d - 1) \<noteq> 0 \<or>
         0xffffffff < drop_bit (sd_sector_shift d) bytes \<or> sd_size_bytes d < offset \<or> sd_size_bytes d - offset < bytes
      then None
      else Some \<lparr>pi_tag = tag, pi_buffer = buffer, pi_lba = drop_bit (sd_sector_shift d) offset,
                 pi_count = ucast (drop_bit (sd_sector_shift d) bytes), pi_file = file,
                 pi_operation = (if write then kWrite else kRead)\<rparr>)"

definition sp_SubmitIo :: "device \<Rightarrow> bool \<Rightarrow> nat \<Rightarrow> u64 \<Rightarrow> u64 \<Rightarrow> u64 \<Rightarrow> bool \<Rightarrow> nat \<Rightarrow> spdk \<Rightarrow> status \<times> spdk" where
  "sp_SubmitIo dv alloc file buffer bytes offset write tag s =
     (case sp_Lookup file s of
        None \<Rightarrow> (StInvalidArgument, s)
      | Some f \<Rightarrow>
          if buffer = 0 \<or> bytes = 0 \<or> tag = 0 then (StInvalidArgument, s)
          else (case of_device f of
                  None \<Rightarrow> (StInvalidArgument, s)
                | Some d \<Rightarrow>
                    (case io_request d file buffer bytes offset write tag of
                       None \<Rightarrow> (StInvalidArgument, s)
                     | Some r \<Rightarrow>
                         SubmitOrDefer dv alloc (of_channel f) r (s\<lparr>sp_success := (sp_success s)(tag := uint bytes)\<rparr>))))"

definition sp_SubmitRead :: "device \<Rightarrow> bool \<Rightarrow> nat \<Rightarrow> u64 \<Rightarrow> u64 \<Rightarrow> u64 \<Rightarrow> nat \<Rightarrow> spdk \<Rightarrow> status \<times> spdk" where
  "sp_SubmitRead dv alloc file buffer bytes offset tag = sp_SubmitIo dv alloc file buffer bytes offset False tag"

definition sp_SubmitWrite :: "device \<Rightarrow> bool \<Rightarrow> nat \<Rightarrow> u64 \<Rightarrow> u64 \<Rightarrow> u64 \<Rightarrow> nat \<Rightarrow> spdk \<Rightarrow> status \<times> spdk" where
  "sp_SubmitWrite dv alloc file buffer bytes offset tag = sp_SubmitIo dv alloc file buffer bytes offset True tag"

definition sp_SubmitFdatasync :: "device \<Rightarrow> bool \<Rightarrow> nat \<Rightarrow> nat \<Rightarrow> spdk \<Rightarrow> status \<times> spdk" where
  "sp_SubmitFdatasync dv alloc file tag s =
     (case sp_Lookup file s of
        None \<Rightarrow> (StInvalidArgument, s)
      | Some f \<Rightarrow>
          if tag = 0 then (StInvalidArgument, s)
          else let s1 = s\<lparr>sp_success := (sp_success s)(tag := 0)\<rparr> in
            if \<not> (case of_device f of None \<Rightarrow> False | Some d \<Rightarrow> sd_write_cache d)
            then (StOk, s1\<lparr>sp_completions := sp_completions s1 @ [(tag, 0)]\<rparr>)
            else SubmitOrDefer dv alloc (of_channel f)
                   \<lparr>pi_tag = tag, pi_buffer = 0, pi_lba = 0, pi_count = 0, pi_file = file, pi_operation = kFlush\<rparr> s1)"

section \<open>Completions and polling\<close>

definition CompleteRequest :: "device \<Rightarrow> nat \<Rightarrow> int \<Rightarrow> spdk \<Rightarrow> spdk" where
  "CompleteRequest dv tag result s = dv_complete dv tag result (s\<lparr>sp_outstanding := sp_outstanding s - 1\<rparr>)"

definition CompleteAsync :: "device \<Rightarrow> nat \<times> bool \<Rightarrow> spdk \<Rightarrow> spdk" where
  "CompleteAsync dv c s = CompleteRequest dv (fst c) (if snd c then - sp_EIO else sp_success s (fst c)) s"

record SpdkPollResult =
  pr_did_work :: bool
  pr_completions :: nat

text \<open>\<open>RetryDeferred\<close>; \<open>None\<close> is a loop cut short. \<open>limit = 0\<close> means no limit.\<close>

fun RetryDeferred :: "device \<Rightarrow> nat \<Rightarrow> nat \<Rightarrow> nat \<Rightarrow> nat \<Rightarrow> nat \<Rightarrow> SpdkPollResult \<Rightarrow> spdk \<Rightarrow> (SpdkPollResult \<times> spdk) option" where
  "RetryDeferred dv generation i limit fuel submitted res s =
     (if ch_pending (sp_channels s ! i) = [] \<or> \<not> (limit = 0 \<or> submitted < limit) then Some (res, s)
      else case fuel of
        0 \<Rightarrow> None
      | Suc k \<Rightarrow>
          let ch = sp_channels s ! i; r = hd (ch_pending ch); (rc, s1) = sp_TrySubmit dv (ch_qpair ch) r s in
          if rc = - sp_ENOMEM \<and> dv_busy dv (ch_qpair ch) s1 \<noteq> 0 then Some (res, s1)
          else let s2 = s1\<lparr>sp_channels := (sp_channels s1)[i := ch\<lparr>ch_pending := tl (ch_pending ch)\<rparr>]\<rparr>;
                   res1 = res\<lparr>pr_did_work := True\<rparr>
               in if rc \<noteq> 0
                  then let s3 = CompleteRequest dv (pi_tag r) rc s2; res2 = res1\<lparr>pr_completions := pr_completions res1 + 1\<rparr> in
                    if sp_generation s3 \<noteq> generation then Some (res2, s3)
                    else RetryDeferred dv generation i limit k (submitted + 1) res2 s3
                  else RetryDeferred dv generation i limit k (submitted + 1) res1 s2)"

declare RetryDeferred.simps [simp del]

text \<open>
  \<open>spdk_nvme_qpair_process_completions\<close>: the completions the device reports on a queue pair under
  a limit. Their commands leave the device; the callbacks are dispatched next.
\<close>

definition process_completions :: "device \<Rightarrow> nat \<Rightarrow> nat \<Rightarrow> spdk \<Rightarrow> (nat \<times> bool) list \<times> spdk" where
  "process_completions dv qpair limit s =
     (let done = dv_process dv qpair limit s in
      (done, s\<lparr>sp_flight := sp_flight s - mset (map (\<lambda>c. (qpair, fst c)) done)\<rparr>))"

text \<open>
  The traversal of \<open>Poll\<close>: \<open>visits\<close> are the rounds left, \<open>visited\<close> the rounds done. The list
  returned is the sequence of channel positions whose queue pair was polled.
\<close>

fun poll_loop ::
  "device \<Rightarrow> nat \<Rightarrow> nat \<Rightarrow> nat \<Rightarrow> nat \<Rightarrow> nat \<Rightarrow> nat \<Rightarrow> nat \<Rightarrow> SpdkPollResult \<Rightarrow> spdk \<Rightarrow> (nat list \<times> SpdkPollResult \<times> spdk) option" where
  "poll_loop dv fuel max_completions generation first n 0 visited res s = Some ([], res, s)"
| "poll_loop dv fuel max_completions generation first n (Suc visits) visited res s =
     (let index = (first + visited) mod n;
          remaining = (if max_completions = 0 then 0 else if max_completions \<le> pr_completions res then 0 else max_completions - pr_completions res)
      in if max_completions \<noteq> 0 \<and> remaining = 0 then Some ([], res, s\<lparr>sp_next_poll := index\<rparr>)
         else let qpair = ch_qpair (sp_channels s ! index);
                  s1 = s\<lparr>sp_next_poll := (index + 1) mod n\<rparr>;
                  (done, s1') = process_completions dv qpair remaining s1;
                  s2 = fold (CompleteAsync dv) done s1';
                  res1 = (if done \<noteq> [] then res\<lparr>pr_did_work := True, pr_completions := pr_completions res + length done\<rparr> else res)
              in if sp_generation s2 \<noteq> generation then Some ([index], res1, s2)
                 else if ch_pending (sp_channels s2 ! index) \<noteq> []
                 then Option.bind (RetryDeferred dv generation index max_completions fuel 0 res1 s2) (\<lambda>(res2, s3).
                        if sp_generation s3 \<noteq> generation then Some ([index], res2, s3)
                        else map_option (\<lambda>(v, x). (index # v, x)) (poll_loop dv fuel max_completions generation first n visits (visited + 1) res2 s3))
                 else map_option (\<lambda>(v, x). (index # v, x)) (poll_loop dv fuel max_completions generation first n visits (visited + 1) res1 s2))"

definition sp_Poll :: "device \<Rightarrow> nat \<Rightarrow> nat \<Rightarrow> spdk \<Rightarrow> (nat list \<times> SpdkPollResult \<times> spdk) option" where
  "sp_Poll dv fuel max_completions s =
     (let batch = sp_completions s;
          (res, s1) = (if batch \<noteq> []
            then (\<lparr>pr_did_work = True, pr_completions = length batch\<rparr>, fold (\<lambda>(tag, r). dv_complete dv tag r) batch (s\<lparr>sp_completions := []\<rparr>))
            else (\<lparr>pr_did_work = False, pr_completions = 0\<rparr>, s))
      in poll_loop dv fuel max_completions (sp_generation s1) (sp_next_poll s1) (length (sp_channels s1)) (length (sp_channels s1)) 0 res s1)"

text \<open>\<open>Shutdown\<close>: poll until nothing is outstanding, then free the queue pairs, here the list freed.\<close>

fun drain_outstanding :: "device \<Rightarrow> nat \<Rightarrow> nat \<Rightarrow> spdk \<Rightarrow> spdk option" where
  "drain_outstanding dv fuel 0 s = (if HasOutstanding s then None else Some s)"
| "drain_outstanding dv fuel (Suc k) s =
     (if HasOutstanding s
      then Option.bind (sp_Poll dv fuel 0 s) (\<lambda>(_, _, s1). drain_outstanding dv fuel k s1)
      else Some s)"

definition sp_Shutdown :: "device \<Rightarrow> nat \<Rightarrow> spdk \<Rightarrow> (nat list \<times> spdk) option" where
  "sp_Shutdown dv fuel s =
     (if \<not> sp_worker s then Some ([], s)
      else map_option (\<lambda>s1.
        (filter (\<lambda>q. q \<noteq> 0) (map ch_qpair (sp_channels s1)),
         s1\<lparr>sp_files := [], sp_channels := [], sp_completions := [], sp_next_poll := 0, sp_generation := 0, sp_worker := False\<rparr>))
        (drain_outstanding dv fuel fuel s))"

section \<open>Client operations and reachable states\<close>

definition sp_Init :: "bool \<Rightarrow> spdk \<Rightarrow> status \<times> spdk" where
  "sp_Init owned s = (if \<not> owned then (StInvalidArgument, s) else (StOk, s\<lparr>sp_worker := True\<rparr>))"

text \<open>
  The operations a worker or a completion callback may perform, and a device whose completion
  objects perform any sequence of them. Polling is not among them: callbacks never poll.
\<close>

datatype sp_op =
    OpInit bool
  | OpRegister nat
  | OpOpen "status + SpdkDevice" nat bool nat nat
  | OpClose nat nat
  | OpIo bool nat u64 u64 u64 bool nat
  | OpSync bool nat nat

primrec do_op :: "device \<Rightarrow> sp_op \<Rightarrow> spdk \<Rightarrow> spdk" where
  "do_op dv (OpInit owned) s = snd (sp_Init owned s)"
| "do_op dv (OpRegister n) s = snd (sp_RegisterFixedFiles n s)"
| "do_op dv (OpOpen device alloc rdwr file tag) s = snd (sp_SubmitOpenDirect device alloc rdwr file tag s)"
| "do_op dv (OpClose file tag) s = snd (sp_SubmitCloseDirect file tag s)"
| "do_op dv (OpIo alloc file buffer bytes offset write tag) s = snd (sp_SubmitIo dv alloc file buffer bytes offset write tag s)"
| "do_op dv (OpSync alloc file tag) s = snd (sp_SubmitFdatasync dv alloc file tag s)"

definition with_callbacks :: "device \<Rightarrow> (nat \<Rightarrow> int \<Rightarrow> spdk \<Rightarrow> sp_op list) \<Rightarrow> device" where
  "with_callbacks dv cb = dv\<lparr>dv_complete := \<lambda>tag result s. fold (do_op dv) (cb tag result s) s\<rparr>"

definition fresh_backend :: spdk where
  "fresh_backend = \<lparr>sp_worker = False, sp_files = [], sp_channels = [], sp_completions = [], sp_next_poll = 0, sp_generation = 0,
     sp_outstanding = 0, sp_success = (\<lambda>_. 0), sp_issued = (\<lambda>_. []), sp_flight = {#}\<rparr>"

inductive sp_reach :: "device \<Rightarrow> (nat \<Rightarrow> int \<Rightarrow> spdk \<Rightarrow> sp_op list) \<Rightarrow> spdk \<Rightarrow> bool" for dv cb where
  fresh: "sp_reach dv cb fresh_backend"
| op: "sp_reach dv cb s \<Longrightarrow> sp_reach dv cb (do_op dv x s)"
| poll: "sp_reach dv cb s \<Longrightarrow> sp_Poll (with_callbacks dv cb) fuel limit s = Some (v, res, s') \<Longrightarrow> sp_reach dv cb s'"
| shutdown: "sp_reach dv cb s \<Longrightarrow> sp_Shutdown (with_callbacks dv cb) fuel s = Some (freed, s') \<Longrightarrow> sp_reach dv cb s'"

end
