(* ===== verification/Spdk_Requests.thy ===== *)
theory Spdk_Requests
  imports Spdk_Backend
begin

text \<open>
  Request validation and device paths of the user-space storage backend: accepted ranges lie on
  the device and canonical paths are fixed points of parsing.
\<close>

section \<open>Request ranges\<close>

lemma countr_zero_acc_pow2: "k < n \<Longrightarrow> countr_zero_acc n (2 ^ k) = k"
  by (induction n arbitrary: k) (auto simp: less_Suc_eq_0_disj)

lemma make_device_pow2:
  assumes "make_device c ns sector bytes vwc = Inr d"
  obtains k where "k < 32" "unat (sd_sector_size d) = 2 ^ k" "sd_sector_shift d = k" "sd_size_bytes d = bytes"
proof -
  have "is_pow2 sector" using assms by (auto simp: make_device_def is_pow2_def split: if_splits)
  then obtain k where k: "k < 32" "unat sector = 2 ^ k" by (auto simp: is_pow2_iff)
  moreover have "sector \<noteq> 0" using k by (metis power_eq_0_iff unsigned_0 zero_neq_numeral)
  ultimately have "countr_zero32 sector = k" by (simp add: countr_zero32_def countr_zero_acc_pow2)
  then show ?thesis using that k assms by (auto simp: make_device_def split: if_splits)
qed

lemma sector_mask:
  assumes "unat (w :: u32) = 2 ^ k" "k < 32"
  shows "ucast (w - 1) = (mask k :: u64)"
proof -
  have nz: "w \<noteq> 0" using assms by (metis power_eq_0_iff unsigned_0 zero_neq_numeral)
  have "unat (ucast (w - 1) :: u64) = unat (mask k :: u64)"
    using assms nz by (simp add: unat_ucast_u32 unat_minus_one unat_eq_nat_uint [of "mask k"] uint_mask_eq nat_mask_eq min_def)
      (simp add: mask_eq_exp_minus_1)
  then show ?thesis by (rule unsigned_word_eqI)
qed

lemma aligned_parts:
  assumes "(a OR b) AND (mask k :: u64) = 0"
  shows "2 ^ k dvd unat a" "2 ^ k dvd unat b"
proof -
  have "(a AND mask k) OR (b AND mask k) = 0" using assms by (simp add: bit.conj_disj_distrib2)
  then have z: "take_bit k a = 0" "take_bit k b = 0" by (simp_all add: or_eq_0_iff take_bit_eq_mask)
  have "unat (take_bit k a) = 0" "unat (take_bit k b) = 0" using z by simp_all
  then have "take_bit k (unat a) = 0" "take_bit k (unat b) = 0" by (simp_all add: unsigned_take_bit_eq)
  then show "2 ^ k dvd unat a" "2 ^ k dvd unat b" by (simp_all add: take_bit_eq_mod mod_eq_0_iff_dvd)
qed

lemma unat_drop_bit: "unat (drop_bit k a) = unat a div 2 ^ k" for a :: u64
  unfolding unat_drop_bit_eq by (rule drop_bit_eq_div)

lemma unat_ucast_down: "unat (x :: u64) < 2 ^ 32 \<Longrightarrow> unat (ucast x :: u32) = unat x"
  by (simp add: unsigned_ucast_eq take_bit_nat_eq_self)

text \<open>
  C28: an accepted request lies on the device. For a device as discovered, the blocks of a request
  built by \<open>SubmitIo\<close> cover exactly the bytes asked for, starting at the byte offset, end within
  the device, and are at least one block for a nonempty request; no 64-bit or 32-bit value wraps
  on the way.
\<close>

theorem io_request_on_device:
  assumes "make_device c ns sector size_bytes vwc = Inr d" "io_request d file buffer bytes offset write tag = Some r" "bytes \<noteq> 0"
  shows "unat (pi_lba r) * unat (sd_sector_size d) = unat offset \<and>
    unat (pi_count r) * unat (sd_sector_size d) = unat bytes \<and> 0 < unat (pi_count r) \<and>
    (unat (pi_lba r) + unat (pi_count r)) * unat (sd_sector_size d) \<le> unat size_bytes"
proof -
  obtain k where k: "k < 32" "unat (sd_sector_size d) = 2 ^ k" "sd_sector_shift d = k" "sd_size_bytes d = size_bytes"
    using make_device_pow2 [OF assms(1)] .
  have m: "ucast (sd_sector_size d - 1) = (mask k :: u64)" using sector_mask k by simp
  have g: "bytes \<le> 0x7fffffff" "(offset OR bytes) AND mask k = 0" "offset \<le> size_bytes" "bytes \<le> size_bytes - offset"
    "pi_lba r = drop_bit k offset" "pi_count r = ucast (drop_bit k bytes)"
    using assms(2) k m by (auto simp: io_request_def not_less split: if_splits)
  have b31: "unat bytes \<le> 0x7fffffff" using g(1) by (simp add: word_le_nat_alt)
  have "unat bytes div 2 ^ k \<le> unat bytes" by (rule div_le_dividend)
  then have "unat bytes div 2 ^ k < 4294967296" using b31 by linarith
  then have cnt: "unat (pi_count r) = unat bytes div 2 ^ k" by (simp add: g(6) unat_ucast_down unat_drop_bit)
  have lba: "unat (pi_lba r) = unat offset div 2 ^ k" by (simp add: g(5) unat_drop_bit)
  have dv: "2 ^ k dvd unat offset" "2 ^ k dvd unat bytes" using aligned_parts [OF g(2)] .
  have fit: "unat offset + unat bytes \<le> unat size_bytes"
    using g(3,4) by (simp add: word_le_nat_alt unat_sub)
  have "0 < unat bytes" using assms(3) by (simp add: unat_gt_0)
  then have "0 < unat bytes div 2 ^ k" using dv(2) by (auto elim: dvdE)
  then show ?thesis using dv fit by (simp add: cnt lba k(2) distrib_right dvd_div_mult_self)
qed

theorem io_request_on_device_witness:
  "\<exists>d r. make_device 1 1 512 0x100000 True = Inr d \<and> io_request d 0 64 4096 1024 True 3 = Some r \<and>
     unat (pi_lba r) * unat (sd_sector_size d) = 1024 \<and> (unat (pi_lba r) + unat (pi_count r)) * unat (sd_sector_size d) \<le> 0x100000"
proof -
  define d where "d = \<lparr>sd_controller = 1, sd_ns = 1, sd_sector_size = 512, sd_sector_shift = 9, sd_size_bytes = 0x100000, sd_write_cache = True\<rparr>"
  have "countr_zero32 512 = 9" using countr_zero_acc_pow2 [of 9 32] by (simp add: countr_zero32_def)
  then have d: "make_device 1 1 512 0x100000 True = Inr d" by (simp add: make_device_def d_def)
  obtain r where r: "io_request d 0 64 4096 1024 True 3 = Some r" by (simp add: io_request_def d_def)
  from io_request_on_device [OF d r] d r show ?thesis by auto
qed

text \<open>
  C40: what a successful synchronous transfer moved. When \<open>SubmitSync\<close> reports success for a
  nonempty transfer on a device as discovered, the command issued starts at the block of the byte
  offset and the range lies on the device, but its block count is the requested one modulo 2^32:
  all bytes asked for were moved exactly when they are fewer than 2^32 blocks. The asynchronous
  path refuses every longer range.
\<close>

theorem SubmitSync_truncates_block_count:
  assumes dev: "make_device c ns sector size_bytes vwc = Inr d" and bytes: "bytes \<noteq> 0"
    and run: "SubmitSync d has_qpair submit io_outcome flush_rc flush_outcome bytes offset write flush = (StOk, moved)"
  shows "\<exists>lba count. moved = Some (lba, count) \<and> unat lba * unat (sd_sector_size d) = unat offset \<and>
    unat offset + unat bytes \<le> unat size_bytes \<and>
    unat count = (unat bytes div unat (sd_sector_size d)) mod 2 ^ 32 \<and>
    (unat count * unat (sd_sector_size d) = unat bytes \<longleftrightarrow> unat bytes < 2 ^ 32 * unat (sd_sector_size d)) \<and>
    (2 ^ 32 * unat (sd_sector_size d) \<le> unat bytes \<longrightarrow> io_request d file buffer bytes offset write' tag = None)"
proof -
  obtain k where k: "k < 32" "unat (sd_sector_size d) = 2 ^ k" "sd_sector_shift d = k" "sd_size_bytes d = size_bytes"
    using make_device_pow2 [OF dev] .
  have m: "ucast (sd_sector_size d - 1) = (mask k :: u64)" using sector_mask k by simp
  define lba where "lba = drop_bit k offset"
  define count where "count = (ucast (drop_bit k bytes) :: u32)"
  have g: "(offset OR bytes) AND mask k = 0" "offset \<le> size_bytes" "bytes \<le> size_bytes - offset" "moved = Some (lba, count)"
    using run bytes k m by (auto simp: SubmitSync_def Let_def not_less lba_def count_def split: if_splits option.splits)
  have cnt: "unat count = (unat bytes div 2 ^ k) mod 2 ^ 32"
    unfolding count_def unsigned_ucast_eq by (simp add: unat_drop_bit take_bit_eq_mod)
  have lba: "unat lba = unat offset div 2 ^ k" by (simp add: lba_def unat_drop_bit)
  have dv: "2 ^ k dvd unat offset" "2 ^ k dvd unat bytes" using aligned_parts [OF g(1)] .
  then obtain n where n: "unat bytes = 2 ^ k * n" by (elim dvdE)
  have fit: "unat offset + unat bytes \<le> unat size_bytes" using g(2,3) by (simp add: word_le_nat_alt unat_sub)
  have exact: "unat count * 2 ^ k = unat bytes \<longleftrightarrow> unat bytes < 2 ^ 32 * 2 ^ k" by (simp add: cnt n mod_eq_self_iff_div_eq_0 div_eq_0_iff)
  have "io_request d file buffer bytes offset write' tag = None" if "2 ^ 32 * 2 ^ k \<le> unat bytes"
  proof -
    have "2 ^ 32 * 1 \<le> (2 ^ 32 * 2 ^ k :: nat)" by (rule mult_le_mono) simp_all
    from order_trans [OF this that] have "0x7fffffff < bytes" by (simp add: word_less_nat_alt)
    then show ?thesis by (simp add: io_request_def)
  qed
  then show ?thesis using g(4) cnt lba dv fit exact k(2) by auto
qed

text \<open>2^32 + 5 blocks of 512 bytes on a device of 4 TiB: success, and five blocks moved.\<close>

theorem SubmitSync_truncates_block_count_witness:
  "\<exists>d lba count. make_device 1 1 512 0x40000000000 True = Inr d \<and>
     SubmitSync d True (\<lambda>_ _. 0) (Some False) 0 (Some False) 0x20000000a00 512 True True = (StOk, Some (lba, count)) \<and>
     unat lba = 1 \<and> unat count = 5 \<and> unat count * unat (sd_sector_size d) \<noteq> 0x20000000a00 \<and>
     io_request d 0 64 0x20000000a00 512 True 3 = None"
proof -
  define d where "d = \<lparr>sd_controller = 1, sd_ns = 1, sd_sector_size = 512, sd_sector_shift = 9, sd_size_bytes = 0x40000000000, sd_write_cache = True\<rparr>"
  have "countr_zero32 512 = 9" using countr_zero_acc_pow2 [of 9 32] by (simp add: countr_zero32_def)
  then have d: "make_device 1 1 512 0x40000000000 True = Inr d" by (simp add: make_device_def d_def)
  obtain moved where run: "SubmitSync d True (\<lambda>_ _. 0) (Some False) 0 (Some False) 0x20000000a00 512 True True = (StOk, moved)"
    by (simp add: SubmitSync_def d_def)
  from SubmitSync_truncates_block_count [OF d _ run, of 0 64 True 3] d run show ?thesis by (auto simp: d_def)
qed

section \<open>Canonical paths\<close>

lemma digit_of_char: "d < 10 \<Longrightarrow> digit_of (digit_char d) = Some d"
  by (simp add: digit_of_def digit_char_def)

lemma from_chars_acc_snoc:
  assumes "from_chars_acc cs v = Some w" "digit_of c = Some d" "10 * w + d < 2 ^ 32"
  shows "from_chars_acc (cs @ [c]) v = Some (10 * w + d)"
  using assms(1)
proof (induction cs arbitrary: v)
  case Nil
  then show ?case using assms(2,3) by (simp add: not_le)
next
  case (Cons e cs)
  then obtain k where k: "digit_of e = Some k" by (cases "digit_of e") simp_all
  then have "\<not> 2 ^ 32 \<le> 10 * v + k" using Cons.prems by (cases "2 ^ 32 \<le> 10 * v + k") simp_all
  then show ?case using Cons k by simp
qed

lemma nat_digits_nonempty [simp]: "nat_digits n \<noteq> []"
  by (subst nat_digits.simps) simp

lemma from_chars_acc_digits: "n < 2 ^ 32 \<Longrightarrow> from_chars_acc (nat_digits n) 0 = Some n"
proof (induction n rule: less_induct)
  case (less n)
  show ?case
  proof (cases "n < 10")
    case True
    have "nat_digits n = [digit_char n]" using True by (subst nat_digits.simps) (rule if_P)
    moreover have "\<not> 2 ^ 32 \<le> n" using less.prems by simp
    ultimately show ?thesis by (simp add: digit_of_char [OF True])
  next
    case False
    have d: "nat_digits n = nat_digits (n div 10) @ [digit_char (n mod 10)]"
      using False by (subst nat_digits.simps) (rule if_not_P)
    have "n div 10 < n" using False by simp
    moreover have "n div 10 < 2 ^ 32" using div_le_dividend less.prems by (rule order_le_less_trans)
    ultimately have "from_chars_acc (nat_digits (n div 10)) 0 = Some (n div 10)" by (rule less.IH)
    moreover have "digit_of (digit_char (n mod 10)) = Some (n mod 10)" by (rule digit_of_char) simp
    moreover have "10 * (n div 10) + n mod 10 < 2 ^ 32" using less.prems by simp
    ultimately have "from_chars_acc (nat_digits n) 0 = Some (10 * (n div 10) + n mod 10)"
      unfolding d by (rule from_chars_acc_snoc)
    then show ?thesis by simp
  qed
qed

lemma word_of_nat_unat_u32: "word_of_nat (unat v) = v" for v :: u32
  by simp

lemma from_chars_digits: "from_chars (nat_digits (unat v)) = Some v" for v :: u32
proof -
  have "unat v < 2 ^ 32" using unsigned_less [of v] by simp
  then show ?thesis by (simp add: from_chars_def from_chars_acc_digits word_of_nat_unat_u32)
qed

lemma starts_with_append [simp]: "starts_with p (p @ s)"
  by (induction p) auto

lemma ParsePath_canonical:
  assumes "addr \<noteq> []" "CHR ''/'' \<notin> set addr" "length addr < SPDK_NVMF_TRADDR_MAX_LEN" "nsid \<noteq> 0"
  shows "ParsePath (canonical_path addr nsid) = Inr \<lparr>pp_traddr = addr, pp_nsid = nsid, pp_canonical = canonical_path addr nsid\<rparr>"
proof -
  have ne: "\<forall>x\<in>set addr. x \<noteq> CHR ''/''" using assms(2) by auto
  have "takeWhile (\<lambda>c. c \<noteq> CHR ''/'') (addr @ ''/'' @ nat_digits (unat nsid)) = addr"
    "dropWhile (\<lambda>c. c \<noteq> CHR ''/'') (addr @ ''/'' @ nat_digits (unat nsid)) = ''/'' @ nat_digits (unat nsid)"
    using ne by (simp_all add: takeWhile_append2 dropWhile_append2)
  then show ?thesis using assms
    by (simp add: ParsePath_def canonical_path_def namespace_of_def from_chars_digits)
qed

text \<open>
  Canonical paths are fixed points. Whatever spelling a device path had, with or without a
  namespace and with leading zeros, a successful parse yields a canonical path that parses to the
  same address, namespace and canonical path, so that the device table is keyed consistently.
\<close>

lemma ParsePath_roundtrip:
  assumes "ParsePath path = Inr pp"
  shows "ParsePath (pp_canonical pp) = Inr pp \<and> IsSpdkStoragePath (pp_canonical pp)"
proof -
  define addr where "addr = takeWhile (\<lambda>c. c \<noteq> CHR ''/'') (drop (length kSpdkPrefix) path)"
  obtain nsid where nsid: "namespace_of (dropWhile (\<lambda>c. c \<noteq> CHR ''/'') (drop (length kSpdkPrefix) path)) = Inr nsid"
    and addr: "addr \<noteq> []" "length addr < SPDK_NVMF_TRADDR_MAX_LEN"
    and pp: "pp = \<lparr>pp_traddr = addr, pp_nsid = nsid, pp_canonical = canonical_path addr nsid\<rparr>"
    using assms unfolding ParsePath_def Let_def addr_def [symmetric] bindE_Inr_iff guardE_Inr_iff by blast
  have "nsid \<noteq> 0" using nsid by (auto simp: namespace_of_def Let_def split: if_splits option.splits)
  moreover have "CHR ''/'' \<notin> set addr" unfolding addr_def using set_takeWhileD by fastforce
  ultimately have "ParsePath (canonical_path addr nsid) = Inr pp" unfolding pp using addr by (intro ParsePath_canonical)
  then show ?thesis by (simp add: pp IsSpdkStoragePath_def canonical_path_def)
qed

end
