(* ===== verification/Spdk_Tables.thy ===== *)
theory Spdk_Tables
  imports Spdk_Backend "HOL-Library.Sublist"
begin

text \<open>
  The file and channel tables of the user-space storage backend: an invariant over every
  sequence of client operations, completion callbacks and polls, the order in which requests
  reach a queue pair, and the round-robin traversal of \<open>Poll\<close>.
\<close>

section \<open>Invariant of the tables\<close>

text \<open>
  The invariant of the tables, with \<open>k\<close> requests that have left the device or the software queue and
  whose completion is being dispatched.
\<close>

definition open_on :: "nat \<Rightarrow> OpenFile list \<Rightarrow> nat" where
  "open_on i files = length (filter (\<lambda>f. of_qpair f \<noteq> 0 \<and> of_channel f = i) files)"

definition file_ok :: "ControllerChannel list \<Rightarrow> OpenFile \<Rightarrow> bool" where
  "file_ok chs f \<longleftrightarrow> of_qpair f = 0 \<or>
     of_channel f < length chs \<and> ch_qpair (chs ! of_channel f) = of_qpair f \<and>
     map_option sd_controller (of_device f) = Some (ch_controller (chs ! of_channel f))"

definition table_inv :: "OpenFile list \<Rightarrow> ControllerChannel list \<Rightarrow> nat \<Rightarrow> bool" where
  "table_inv files chs nxt \<longleftrightarrow> list_all (file_ok chs) files \<and>
     (\<forall>i<length chs. ch_open_files (chs ! i) = open_on i files \<and> 0 < open_on i files \<and> ch_qpair (chs ! i) \<noteq> 0) \<and>
     distinct (map ch_controller chs) \<and> (nxt < length chs \<or> chs = [] \<and> nxt = 0)"

definition queued :: "ControllerChannel list \<Rightarrow> nat" where
  "queued chs = sum_list (map (\<lambda>ch. length (ch_pending ch)) chs)"

definition pending_inv :: "OpenFile list \<Rightarrow> ControllerChannel list \<Rightarrow> bool" where
  "pending_inv files chs \<longleftrightarrow> (\<forall>i<length chs. \<forall>r\<in>set (ch_pending (chs ! i)).
     pi_file r < length files \<and> of_qpair (files ! pi_file r) \<noteq> 0 \<and> of_channel (files ! pi_file r) = i)"

text \<open>Every command the device holds was issued on the queue pair of a channel.\<close>

definition flight_on :: "ControllerChannel list \<Rightarrow> (nat \<times> nat) multiset \<Rightarrow> bool" where
  "flight_on chs F \<longleftrightarrow> fst ` set_mset F \<subseteq> ch_qpair ` set chs"

definition spdk_inv :: "nat \<Rightarrow> spdk \<Rightarrow> bool" where
  "spdk_inv k s \<longleftrightarrow> table_inv (sp_files s) (sp_channels s) (sp_next_poll s) \<and> pending_inv (sp_files s) (sp_channels s) \<and>
     flight_on (sp_channels s) (sp_flight s) \<and> sp_outstanding s = k + queued (sp_channels s) + size (sp_flight s)"

definition static :: "ControllerChannel \<Rightarrow> nat \<times> nat \<times> nat" where
  "static ch = (ch_controller ch, ch_qpair ch, ch_open_files ch)"

lemma static_nth:
  assumes "map static chs = map static chs'" "i < length chs"
  shows "ch_controller (chs ! i) = ch_controller (chs' ! i)" "ch_qpair (chs ! i) = ch_qpair (chs' ! i)" "ch_open_files (chs ! i) = ch_open_files (chs' ! i)"
proof -
  have "length chs = length chs'" using assms(1) by (rule map_eq_imp_length_eq)
  then have "static (chs ! i) = static (chs' ! i)" using assms by (metis nth_map)
  then show "ch_controller (chs ! i) = ch_controller (chs' ! i)" "ch_qpair (chs ! i) = ch_qpair (chs' ! i)" "ch_open_files (chs ! i) = ch_open_files (chs' ! i)"
    by (simp_all add: static_def)
qed

lemma file_ok_static: "map static chs = map static chs' \<Longrightarrow> file_ok chs f = file_ok chs' f"
  using map_eq_imp_length_eq [of static chs static chs'] static_nth [of chs chs' "of_channel f"] by (auto simp: file_ok_def)

lemma map_controller_static:
  assumes "map static chs = map static chs'"
  shows "map ch_controller chs = map ch_controller chs'"
proof (rule nth_equalityI)
  show l: "length (map ch_controller chs) = length (map ch_controller chs')" using map_eq_imp_length_eq [OF assms] by simp
  show "map ch_controller chs ! i = map ch_controller chs' ! i" if "i < length (map ch_controller chs)" for i
    using that l static_nth(1) [OF assms, of i] by simp
qed

lemma table_inv_static:
  assumes "table_inv files chs n" "map static chs = map static chs'"
  shows "table_inv files chs' n"
proof -
  have l: "length chs = length chs'" using assms(2) by (rule map_eq_imp_length_eq)
  have "file_ok chs' = file_ok chs" using file_ok_static [OF assms(2)] by auto
  then show ?thesis using assms(1) l static_nth [OF assms(2)] map_controller_static [OF assms(2)]
    by (auto simp: table_inv_def)
qed

lemma map_static_update [simp]: "map static (chs[i := (chs ! i)\<lparr>ch_pending := p\<rparr>]) = map static chs"
  by (cases "i < length chs") (simp_all add: list_eq_iff_nth_eq nth_list_update static_def)

lemma length_filter_update:
  "i < length xs \<Longrightarrow> length (filter P (xs[i := y])) + (if P (xs ! i) then 1 else 0) = length (filter P xs) + (if P y then 1 else 0)"
proof (induction xs arbitrary: i)
  case (Cons x xs)
  then show ?case using Cons.IH [of "i - 1"] by (cases i) simp_all
qed simp

lemma open_on_update:
  assumes "file < length files"
  shows "open_on i (files[file := g]) + (if of_qpair (files ! file) \<noteq> 0 \<and> of_channel (files ! file) = i then 1 else 0) =
    open_on i files + (if of_qpair g \<noteq> 0 \<and> of_channel g = i then 1 else 0)"
  unfolding open_on_def by (rule length_filter_update [OF assms])

lemma queued_update:
  "i < length chs \<Longrightarrow> queued (chs[i := ch]) + length (ch_pending (chs ! i)) = queued chs + length (ch_pending ch)"
  unfolding queued_def by (induction chs arbitrary: i) (auto split: nat.splits)

lemma queued_zero: "queued chs = 0 \<longleftrightarrow> (\<forall>ch\<in>set chs. ch_pending ch = [])"
  by (auto simp: queued_def)

lemma map_qpair_static:
  assumes "map static chs = map static chs'"
  shows "ch_qpair ` set chs = ch_qpair ` set chs'"
proof -
  have "map (fst \<circ> snd) (map static chs) = map (fst \<circ> snd) (map static chs')" using assms by simp
  then have "map ch_qpair chs = map ch_qpair chs'" by (simp add: static_def comp_def)
  then show ?thesis by (metis list.set_map)
qed

lemma flight_on_static: "map static chs = map static chs' \<Longrightarrow> flight_on chs F = flight_on chs' F"
  unfolding flight_on_def using map_qpair_static by metis

lemma flight_on_pending [simp]: "flight_on (chs[i := (chs ! i)\<lparr>ch_pending := p\<rparr>]) F = flight_on chs F"
  by (rule flight_on_static) simp

lemma flight_on_bump [simp]: "flight_on (chs[i := (chs ! i)\<lparr>ch_open_files := n\<rparr>]) F = flight_on chs F"
proof -
  have "map ch_qpair (chs[i := (chs ! i)\<lparr>ch_open_files := n\<rparr>]) = map ch_qpair chs"
    by (cases "i < length chs") (simp_all add: list_eq_iff_nth_eq nth_list_update)
  then show ?thesis unfolding flight_on_def by (metis list.set_map)
qed

lemma flight_on_simps [simp]: "flight_on chs {#}" "flight_on chs F \<Longrightarrow> flight_on (chs @ cs) F" "flight_on chs F \<Longrightarrow> flight_on chs (F - G)"
  by (auto simp: flight_on_def dest: in_diffD)

lemma table_inv_open_file:
  assumes "table_inv files chs n" "file < length files" "of_qpair (files ! file) \<noteq> 0"
  shows "of_channel (files ! file) < length chs" "ch_qpair (chs ! of_channel (files ! file)) = of_qpair (files ! file)"
    "map_option sd_controller (of_device (files ! file)) = Some (ch_controller (chs ! of_channel (files ! file)))"
  using assms by (auto simp: table_inv_def list_all_length file_ok_def)

text \<open>Admitting a request on the channel of an open file.\<close>

lemma QueuePending_inv:
  assumes "spdk_inv k s" "sp_Lookup (pi_file r) s = Some f"
  shows "spdk_inv k (snd (QueuePending alloc (of_channel f) r s))"
proof -
  have f: "pi_file r < length (sp_files s)" "f = sp_files s ! pi_file r" "of_qpair f \<noteq> 0"
    using assms(2) by (auto simp: sp_Lookup_def split: if_splits)
  have i: "of_channel f < length (sp_channels s)"
    using table_inv_open_file(1) [of "sp_files s" "sp_channels s" "sp_next_poll s" "pi_file r"] assms(1) f by (simp add: spdk_inv_def)
  define p where "p = ch_pending (sp_channels s ! of_channel f) @ [r]"
  have "pending_inv (sp_files s) ((sp_channels s)[of_channel f := (sp_channels s ! of_channel f)\<lparr>ch_pending := p\<rparr>])"
    using assms(1) f i by (auto simp: spdk_inv_def pending_inv_def nth_list_update p_def)
  then show ?thesis using assms(1) queued_update [OF i, of "(sp_channels s ! of_channel f)\<lparr>ch_pending := p\<rparr>"]
    by (auto simp: spdk_inv_def QueuePending_def Let_def p_def intro: table_inv_static)
qed

lemma spdk_inv_fields:
  "spdk_inv k (s\<lparr>sp_success := x\<rparr>) = spdk_inv k s" "spdk_inv k (s\<lparr>sp_issued := y\<rparr>) = spdk_inv k s"
  "spdk_inv k (s\<lparr>sp_completions := z\<rparr>) = spdk_inv k s" "spdk_inv k (s\<lparr>sp_worker := w\<rparr>) = spdk_inv k s"
  "spdk_inv k (s\<lparr>sp_generation := g\<rparr>) = spdk_inv k s"
  by (simp_all add: spdk_inv_def)

lemma sp_Lookup_fields [simp]:
  "sp_Lookup file (s\<lparr>sp_success := x\<rparr>) = sp_Lookup file s" "sp_Lookup file (s\<lparr>sp_issued := y\<rparr>) = sp_Lookup file s"
  by (simp_all add: sp_Lookup_def)

lemma SubmitOrDefer_inv:
  assumes "spdk_inv k s" "sp_Lookup (pi_file r) s = Some f"
  shows "spdk_inv k (snd (SubmitOrDefer dv alloc (of_channel f) r s))"
proof -
  have "pi_file r < length (sp_files s)" "of_qpair (sp_files s ! pi_file r) \<noteq> 0" "f = sp_files s ! pi_file r"
    using assms(2) by (auto simp: sp_Lookup_def split: if_splits)
  then have "of_channel f < length (sp_channels s)"
    using table_inv_open_file(1) [of "sp_files s" "sp_channels s" "sp_next_poll s" "pi_file r"] assms(1) by (simp add: spdk_inv_def)
  then have "spdk_inv k (s\<lparr>sp_issued := y, sp_flight := add_mset (ch_qpair (sp_channels s ! of_channel f), t) (sp_flight s),
      sp_outstanding := Suc (sp_outstanding s)\<rparr>)" for y t
    using assms(1) by (simp add: spdk_inv_def flight_on_def)
  then show ?thesis using assms QueuePending_inv [of k _ r f alloc]
    by (simp add: SubmitOrDefer_def sp_TrySubmit_def Let_def spdk_inv_fields)
qed

lemma SubmitIo_inv: "spdk_inv k s \<Longrightarrow> spdk_inv k (snd (sp_SubmitIo dv alloc file buffer bytes offset write tag s))"
  by (auto simp: sp_SubmitIo_def io_request_def spdk_inv_fields split: option.splits intro!: SubmitOrDefer_inv)

lemma SubmitFdatasync_inv: "spdk_inv k s \<Longrightarrow> spdk_inv k (snd (sp_SubmitFdatasync dv alloc file tag s))"
  by (auto simp: sp_SubmitFdatasync_def Let_def spdk_inv_fields split: option.splits intro!: SubmitOrDefer_inv)

lemma find_channel_le: "find_channel c chs \<le> length chs"
  by (induction chs) auto

lemma find_channel_found: "find_channel c chs < length chs \<Longrightarrow> ch_controller (chs ! find_channel c chs) = c"
  by (induction chs) auto

lemma find_channel_none: "find_channel c chs = length chs \<longleftrightarrow> c \<notin> ch_controller ` set chs"
  by (induction chs) auto

text \<open>Opening: one file more on an existing channel, and a new channel with its first file.\<close>

lemma file_ok_bump: "file_ok (chs[i := (chs ! i)\<lparr>ch_open_files := n\<rparr>]) f = file_ok chs f"
  by (cases "i < length chs") (auto simp: file_ok_def nth_list_update)

lemma map_controller_bump: "map ch_controller (chs[i := (chs ! i)\<lparr>ch_open_files := n\<rparr>]) = map ch_controller chs"
  by (cases "i < length chs") (simp_all add: list_eq_iff_nth_eq nth_list_update)

lemma pending_inv_bump: "pending_inv files (chs[i := (chs ! i)\<lparr>ch_open_files := n\<rparr>]) = pending_inv files chs"
  by (cases "i < length chs") (auto simp: pending_inv_def nth_list_update)

lemma queued_bump: "queued (chs[i := (chs ! i)\<lparr>ch_open_files := n\<rparr>]) = queued chs"
  using queued_update [of i chs "(chs ! i)\<lparr>ch_open_files := n\<rparr>"] by (cases "i < length chs") (simp_all add: not_less list_update_beyond)

lemma file_ok_append: "file_ok chs f \<Longrightarrow> file_ok (chs @ [ch]) f"
  by (auto simp: file_ok_def nth_append)

lemma open_on_beyond: "list_all (file_ok chs) files \<Longrightarrow> length chs \<le> i \<Longrightarrow> open_on i files = 0"
  by (auto simp: open_on_def filter_empty_conv list_all_iff file_ok_def)

lemma list_all_update: "list_all P xs \<Longrightarrow> P y \<Longrightarrow> list_all P (xs[i := y])"
  using set_update_subset_insert [of xs i y] by (auto simp: list_all_iff)

definition open_inv :: "OpenFile list \<Rightarrow> ControllerChannel list \<Rightarrow> nat \<Rightarrow> bool" where
  "open_inv files chs e \<longleftrightarrow> list_all (file_ok chs) files \<and> distinct (map ch_controller chs) \<and>
     (\<forall>i<length chs. ch_open_files (chs ! i) = open_on i files \<and> (i = e \<or> 0 < open_on i files) \<and> ch_qpair (chs ! i) \<noteq> 0)"

lemma open_file_inv:
  assumes "open_inv files chs e" "e = i \<or> e \<ge> length chs" "i < length chs" "file < length files" "of_qpair (files ! file) = 0"
    "ch_controller (chs ! i) = sd_controller d" "nxt \<le> i \<or> nxt < length chs"
  shows "table_inv (files[file := \<lparr>of_device = Some d, of_qpair = ch_qpair (chs ! i), of_channel = i\<rparr>])
    (chs[i := (chs ! i)\<lparr>ch_open_files := ch_open_files (chs ! i) + 1\<rparr>]) nxt"
proof -
  define g where "g = \<lparr>of_device = Some d, of_qpair = ch_qpair (chs ! i), of_channel = i\<rparr>"
  have q: "ch_qpair (chs ! i) \<noteq> 0" using assms(1,3) by (simp add: open_inv_def)
  have o: "open_on j (files[file := g]) = open_on j files + (if j = i then 1 else 0)" for j
    using open_on_update [OF assms(4), of j g] assms(5) q by (auto simp: g_def)
  have "list_all (file_ok chs) (files[file := g])"
    using assms(1,3,6) by (intro list_all_update) (auto simp: open_inv_def file_ok_def g_def)
  then have "list_all (file_ok (chs[i := (chs ! i)\<lparr>ch_open_files := ch_open_files (chs ! i) + 1\<rparr>])) (files[file := g])"
    by (simp add: list_all_iff file_ok_bump)
  then show ?thesis using assms(1,2,3,7) o unfolding g_def [symmetric]
    by (auto simp: open_inv_def table_inv_def map_controller_bump nth_list_update)
qed

lemma pending_inv_open:
  assumes "pending_inv files chs" "of_qpair (files ! file) = 0"
  shows "pending_inv (files[file := g]) chs"
  unfolding pending_inv_def
proof (intro allI impI ballI)
  fix i r assume "i < length chs" "r \<in> set (ch_pending (chs ! i))"
  then have "pi_file r < length files" "of_qpair (files ! pi_file r) \<noteq> 0" "of_channel (files ! pi_file r) = i"
    using assms(1) by (auto simp: pending_inv_def)
  moreover then have "files[file := g] ! pi_file r = files ! pi_file r" using assms(2) by (metis nth_list_update_neq)
  ultimately show "pi_file r < length (files[file := g]) \<and> of_qpair (files[file := g] ! pi_file r) \<noteq> 0 \<and> of_channel (files[file := g] ! pi_file r) = i"
    by simp
qed

lemma table_open_inv: "table_inv files chs n \<Longrightarrow> open_inv files chs e"
  by (simp add: table_inv_def open_inv_def)

lemma SubmitOpenDirect_inv:
  assumes "spdk_inv k s"
  shows "spdk_inv k (snd (sp_SubmitOpenDirect device alloc rdwr file tag s))"
proof (cases "\<exists>d. device = Inr d \<and> rdwr \<and> file < length (sp_files s) \<and> tag \<noteq> 0 \<and> of_qpair (sp_files s ! file) = 0")
  case False
  then show ?thesis using assms by (auto simp: sp_SubmitOpenDirect_def split: sum.splits)
next
  case True
  then obtain d where d: "device = Inr d" "rdwr" "file < length (sp_files s)" "tag \<noteq> 0" "of_qpair (sp_files s ! file) = 0" by auto
  define i where "i = find_channel (sd_controller d) (sp_channels s)"
  have t: "table_inv (sp_files s) (sp_channels s) (sp_next_poll s)" and p: "pending_inv (sp_files s) (sp_channels s)"
    using assms by (simp_all add: spdk_inv_def)
  consider "i < length (sp_channels s)" | "i = length (sp_channels s)" "alloc = 0" | "i = length (sp_channels s)" "alloc \<noteq> 0"
    using find_channel_le [of "sd_controller d" "sp_channels s"] by (fastforce simp: i_def)
  then show ?thesis
  proof cases
    case 1
    have "ch_controller (sp_channels s ! i) = sd_controller d" using 1 find_channel_found by (simp add: i_def)
    moreover have "sp_next_poll s < length (sp_channels s)" using t 1 by (auto simp: table_inv_def)
    ultimately show ?thesis using 1 d open_file_inv [of "sp_files s" "sp_channels s" i i "file" d "sp_next_poll s"] table_open_inv [OF t, of i] pending_inv_open [OF p d(5)] assms
      by (simp add: sp_SubmitOpenDirect_def i_def [symmetric] Let_def spdk_inv_def pending_inv_bump queued_bump)
  next
    case 2
    then show ?thesis using d assms by (simp add: sp_SubmitOpenDirect_def i_def [symmetric] Let_def)
  next
    case 3
    define chs where "chs = sp_channels s @ [\<lparr>ch_controller = sd_controller d, ch_qpair = alloc, ch_open_files = 0, ch_pending = []\<rparr>]"
    have la: "list_all (file_ok (sp_channels s)) (sp_files s)" using t by (simp add: table_inv_def)
    have "open_inv (sp_files s) chs i"
      using t 3 la find_channel_none [of "sd_controller d" "sp_channels s"] open_on_beyond [OF la, of i]
      by (auto simp: open_inv_def table_inv_def chs_def nth_append i_def list_all_iff less_Suc_eq intro: file_ok_append)
    moreover have "ch_controller (chs ! i) = sd_controller d" "i < length chs" using 3 by (simp_all add: chs_def)
    moreover have "sp_next_poll s < length chs" using t by (auto simp: table_inv_def chs_def)
    moreover have "pending_inv (sp_files s) chs" using p by (auto simp: pending_inv_def chs_def nth_append less_Suc_eq)
    moreover have "queued chs = queued (sp_channels s)" by (simp add: queued_def chs_def)
    moreover have "flight_on chs (sp_flight s)" using assms by (simp add: spdk_inv_def chs_def)
    ultimately show ?thesis using d 3 assms open_file_inv [of "sp_files s" chs i i "file" d "sp_next_poll s"] pending_inv_open [of "sp_files s" chs "file"]
      by (simp add: sp_SubmitOpenDirect_def i_def [symmetric] Let_def spdk_inv_def pending_inv_bump queued_bump flip: chs_def)
  qed
qed

text \<open>Closing: one file less on its channel, and the last file together with its channel.\<close>

lemma erase_at_length: "i < length xs \<Longrightarrow> length (erase_at i xs) = length xs - 1"
  by (simp add: erase_at_def)

lemma erase_at_nth: "i < length xs \<Longrightarrow> j < length xs - 1 \<Longrightarrow> erase_at i xs ! j = xs ! (if j < i then j else Suc j)"
  by (auto simp: erase_at_def nth_append min_def)

lemma erase_at_subset: "set (erase_at i xs) \<subseteq> set xs"
  by (auto simp: erase_at_def dest: in_set_takeD in_set_dropD)

lemma erase_at_map: "map f (erase_at i xs) = erase_at i (map f xs)"
  by (simp add: erase_at_def take_map drop_map)

lemma distinct_erase_at: "distinct xs \<Longrightarrow> distinct (erase_at i xs)"
  using set_take_disj_set_drop_if_distinct [of xs i "Suc i"] by (simp add: erase_at_def)

lemma open_on_shift:
  assumes "open_on i files = 0"
  shows "open_on j (map (shift_file i) files) = open_on (if j < i then j else Suc j) files"
proof -
  have "f \<in> set files \<Longrightarrow> of_channel f = i \<Longrightarrow> of_qpair f = 0" for f
    using assms by (auto simp: open_on_def filter_empty_conv)
  then have "filter (\<lambda>f. of_qpair (shift_file i f) \<noteq> 0 \<and> of_channel (shift_file i f) = j) files =
    filter (\<lambda>f. of_qpair f \<noteq> 0 \<and> of_channel f = (if j < i then j else Suc j)) files"
    by (intro filter_cong) (auto simp: shift_file_def)
  then show ?thesis by (simp add: open_on_def filter_map comp_def)
qed

lemma file_ok_shift:
  assumes "file_ok chs f" "of_qpair f = 0 \<or> of_channel f \<noteq> i" "i < length chs"
  shows "file_ok (erase_at i chs) (shift_file i f)"
  using assms by (auto simp: file_ok_def shift_file_def erase_at_length erase_at_nth)

lemma open_inv_close:
  assumes "table_inv files chs nxt" "file < length files" "of_qpair (files ! file) \<noteq> 0" "i = of_channel (files ! file)"
  shows "open_inv (files[file := closed_file]) (chs[i := (chs ! i)\<lparr>ch_open_files := ch_open_files (chs ! i) - 1\<rparr>]) i"
proof -
  have i: "i < length chs" using table_inv_open_file(1) assms by simp
  have o: "open_on j (files[file := closed_file]) + (if j = i then 1 else 0) = open_on j files" for j
    using open_on_update [OF assms(2), of j closed_file] assms(3,4) by (auto simp: closed_file_def)
  have "list_all (file_ok chs) (files[file := closed_file])"
    using assms(1) by (intro list_all_update) (auto simp: table_inv_def file_ok_def closed_file_def)
  moreover have "j < length chs \<Longrightarrow> j \<noteq> i \<Longrightarrow> open_on j (files[file := closed_file]) = open_on j files" for j using o [of j] by simp
  ultimately show ?thesis using assms(1) i o [of i]
    by (auto simp: open_inv_def table_inv_def map_controller_bump nth_list_update list_all_iff file_ok_bump)
qed

lemma open_inv_erase:
  assumes "open_inv files chs i" "i < length chs" "open_on i files = 0"
  shows "open_inv (map (shift_file i) files) (erase_at i chs) (length chs)"
proof -
  have "f \<in> set files \<Longrightarrow> of_qpair f = 0 \<or> of_channel f \<noteq> i" for f
    using assms(3) by (auto simp: open_on_def filter_empty_conv)
  then have "list_all (file_ok (erase_at i chs)) (map (shift_file i) files)"
    using assms file_ok_shift by (auto simp: open_inv_def list_all_iff)
  moreover have "ch_open_files (erase_at i chs ! j) = open_on j (map (shift_file i) files) \<and> 0 < open_on j (map (shift_file i) files) \<and>
      ch_qpair (erase_at i chs ! j) \<noteq> 0" if j: "j < length (erase_at i chs)" for j
  proof -
    have "(if j < i then j else Suc j) < length chs" "(if j < i then j else Suc j) \<noteq> i" using j assms(2) by (auto simp: erase_at_length)
    then show ?thesis using assms(1,2) j unfolding open_on_shift [OF assms(3)] by (simp only: open_inv_def erase_at_nth erase_at_length) blast
  qed
  ultimately show ?thesis using assms(1) by (simp add: open_inv_def erase_at_map distinct_erase_at)
qed

lemma open_inv_table:
  assumes "open_inv files chs e" "e < length chs \<Longrightarrow> 0 < open_on e files" "nxt < length chs \<or> chs = [] \<and> nxt = 0"
  shows "table_inv files chs nxt"
  using assms by (auto simp: open_inv_def table_inv_def)

lemma shift_closed [simp]: "shift_file i closed_file = closed_file"
  by (simp add: shift_file_def closed_file_def)

lemma pending_inv_empty: "queued chs = 0 \<Longrightarrow> pending_inv files chs"
  by (auto simp: queued_zero pending_inv_def)

lemma SubmitCloseDirect_inv:
  assumes "spdk_inv k s"
  shows "spdk_inv k (snd (sp_SubmitCloseDirect file tag s))"
proof (cases "\<exists>f. sp_Lookup file s = Some f \<and> tag \<noteq> 0 \<and> sp_outstanding s = 0")
  case False
  then show ?thesis using assms by (auto simp: sp_SubmitCloseDirect_def split: option.splits)
next
  case True
  then have f: "sp_Lookup file s = Some (sp_files s ! file)" "tag \<noteq> 0" "sp_outstanding s = 0"
    "file < length (sp_files s)" "of_qpair (sp_files s ! file) \<noteq> 0"
    by (auto simp: sp_Lookup_def split: if_splits)
  have t: "table_inv (sp_files s) (sp_channels s) (sp_next_poll s)" and k: "k = 0" "queued (sp_channels s) = 0" "sp_flight s = {#}"
    using assms f(3) by (simp_all add: spdk_inv_def)
  define i where "i = of_channel (sp_files s ! file)"
  define files where "files = (sp_files s)[file := closed_file]"
  define m where "m = ch_open_files (sp_channels s ! i) - 1"
  define chs where "chs = (sp_channels s)[i := (sp_channels s ! i)\<lparr>ch_open_files := m\<rparr>]"
  have i: "i < length (sp_channels s)" using table_inv_open_file(1) [OF t f(4,5)] by (simp add: i_def)
  have oi: "open_inv files chs i" unfolding files_def chs_def m_def using open_inv_close [OF t f(4,5) i_def] by simp
  have n: "m = open_on i files" using oi i by (auto simp: open_inv_def chs_def)
  have q: "queued chs = 0" "length chs = length (sp_channels s)" using k by (simp_all add: chs_def queued_bump)
  show ?thesis
  proof (cases "open_on i files = 0")
    case False
    then have "table_inv files chs (sp_next_poll s)" using oi t by (intro open_inv_table [of _ _ i]) (auto simp: table_inv_def q(2) chs_def)
    then show ?thesis using f k q False n pending_inv_empty [of chs]
      unfolding sp_SubmitCloseDirect_def Let_def f(1) option.case i_def [symmetric] m_def [symmetric] chs_def [symmetric]
      by (simp add: spdk_inv_def files_def [symmetric])
  next
    case True
    have qe: "queued (erase_at i chs) = 0" using q(1) erase_at_subset [of i chs] by (auto simp: queued_zero)
    have mf: "(map (shift_file i) (sp_files s))[file := closed_file] = map (shift_file i) files" by (simp add: files_def map_update)
    have "table_inv (map (shift_file i) files) (erase_at i chs) nxt" if "nxt < length (erase_at i chs) \<or> erase_at i chs = [] \<and> nxt = 0" for nxt
      using open_inv_erase [OF oi _ True] i q(2) that erase_at_length [of i chs] by (intro open_inv_table) auto
    then show ?thesis using f k n qe mf True pending_inv_empty [of "erase_at i chs"]
      unfolding sp_SubmitCloseDirect_def Let_def f(1) option.case i_def [symmetric] m_def [symmetric] chs_def [symmetric]
      by (simp add: spdk_inv_def)
  qed
qed

lemma Register_inv: "spdk_inv k s \<Longrightarrow> spdk_inv k (snd (sp_RegisterFixedFiles n s))"
proof -
  assume inv: "spdk_inv k s"
  have "sp_channels s = []" if "sp_files s = []"
    using inv that by (cases "sp_channels s") (auto simp: spdk_inv_def table_inv_def open_on_def)
  then show ?thesis using inv
    by (auto simp: sp_RegisterFixedFiles_def spdk_inv_def table_inv_def pending_inv_def file_ok_def closed_file_def list_all_iff)
qed

lemma do_op_inv: "spdk_inv k s \<Longrightarrow> spdk_inv k (do_op dv x s)"
  by (cases x) (auto simp: sp_Init_def spdk_inv_fields Register_inv SubmitOpenDirect_inv SubmitCloseDirect_inv SubmitIo_inv SubmitFdatasync_inv)

lemma do_ops_inv: "spdk_inv k s \<Longrightarrow> spdk_inv k (fold (do_op dv) xs s)"
  by (induction xs arbitrary: s) (simp_all add: do_op_inv)

text \<open>A change of generation, or the same channels and the same cursor.\<close>

definition advances :: "spdk \<Rightarrow> spdk \<Rightarrow> bool" where
  "advances s s' \<longleftrightarrow> sp_generation s < sp_generation s' \<or>
     sp_generation s' = sp_generation s \<and> length (sp_channels s') = length (sp_channels s) \<and> sp_next_poll s' = sp_next_poll s"

lemma advances_refl [simp]: "advances s s"
  by (simp add: advances_def)

lemma advances_trans: "advances s s' \<Longrightarrow> advances s' s'' \<Longrightarrow> advances s s''"
  by (auto simp: advances_def)

lemma advances_SubmitOrDefer: "advances s (snd (SubmitOrDefer dv alloc i r s))"
  by (simp add: SubmitOrDefer_def QueuePending_def sp_TrySubmit_def Let_def advances_def)

lemma advances_io: "advances s (snd (sp_SubmitIo dv alloc file buffer bytes offset write tag s))"
  using advances_SubmitOrDefer [of "s\<lparr>sp_success := (sp_success s)(tag := uint bytes)\<rparr>" dv alloc]
  by (auto simp: sp_SubmitIo_def advances_def split: option.splits)

lemma advances_sync: "advances s (snd (sp_SubmitFdatasync dv alloc file tag s))"
  using advances_SubmitOrDefer [of "s\<lparr>sp_success := (sp_success s)(tag := 0)\<rparr>" dv alloc]
  by (auto simp: sp_SubmitFdatasync_def Let_def advances_def split: option.splits)

lemma advances_op: "advances s (do_op dv x s)"
proof (cases x)
  case (OpOpen device alloc rdwr fl tag)
  then show ?thesis by (auto simp: sp_SubmitOpenDirect_def Let_def advances_def split: sum.splits)
next
  case (OpClose fl tag)
  then show ?thesis by (auto simp: sp_SubmitCloseDirect_def Let_def advances_def split: option.splits)
qed (simp_all add: advances_io advances_sync, simp_all add: sp_Init_def sp_RegisterFixedFiles_def advances_def)

lemma advances_ops: "advances s (fold (do_op dv) xs s)"
  by (induction xs arbitrary: s) (auto intro: advances_trans advances_op)

lemma with_callbacks_simps [simp]:
  "dv_rc (with_callbacks dv cb) = dv_rc dv" "dv_busy (with_callbacks dv cb) = dv_busy dv" "dv_process (with_callbacks dv cb) = dv_process dv"
  "dv_complete (with_callbacks dv cb) tag x s = fold (do_op dv) (cb tag x s) s"
  by (simp_all add: with_callbacks_def)

lemma CompleteRequest_inv:
  assumes "spdk_inv (Suc k) s"
  shows "spdk_inv k (CompleteRequest (with_callbacks dv cb) tag x s)"
proof -
  have "spdk_inv k (s\<lparr>sp_outstanding := sp_outstanding s - 1\<rparr>)" using assms by (simp add: spdk_inv_def)
  then show ?thesis by (simp add: CompleteRequest_def do_ops_inv)
qed

lemma advances_CompleteRequest: "advances s (CompleteRequest (with_callbacks dv cb) tag x s)"
  using advances_ops [of "s\<lparr>sp_outstanding := sp_outstanding s - 1\<rparr>"] by (auto simp: CompleteRequest_def advances_def)

lemma completions_inv: "spdk_inv (k + length cs) s \<Longrightarrow> spdk_inv k (fold (CompleteAsync (with_callbacks dv cb)) cs s)"
  by (induction cs arbitrary: s) (auto simp: CompleteAsync_def intro: CompleteRequest_inv)

lemma advances_completions: "advances s (fold (CompleteAsync (with_callbacks dv cb)) cs s)"
  by (induction cs arbitrary: s) (auto simp: CompleteAsync_def intro: advances_trans advances_CompleteRequest)

lemma batch_inv: "spdk_inv k s \<Longrightarrow> spdk_inv k (fold (\<lambda>(tag, x). dv_complete (with_callbacks dv cb) tag x) cs s)"
  by (induction cs arbitrary: s) (auto simp: do_ops_inv)

lemma advances_batch: "advances s (fold (\<lambda>(tag, x). dv_complete (with_callbacks dv cb) tag x) cs s)"
proof (induction cs arbitrary: s)
  case (Cons c cs)
  show ?case using advances_trans [OF advances_ops Cons.IH] by (cases c) simp
qed simp

text \<open>Taking a request off the software queue: one completion is owed for it.\<close>

lemma pop_inv:
  assumes "spdk_inv k s" "i < length (sp_channels s)" "ch_pending (sp_channels s ! i) \<noteq> []"
  shows "spdk_inv (Suc k) (s\<lparr>sp_channels := (sp_channels s)[i := (sp_channels s ! i)\<lparr>ch_pending := tl (ch_pending (sp_channels s ! i))\<rparr>]\<rparr>)"
proof -
  define p where "p = tl (ch_pending (sp_channels s ! i))"
  define chs where "chs = (sp_channels s)[i := (sp_channels s ! i)\<lparr>ch_pending := p\<rparr>]"
  have "set p \<subseteq> set (ch_pending (sp_channels s ! i))" by (auto simp: p_def dest: list.set_sel(2) [OF assms(3)])
  then have "pending_inv (sp_files s) chs" using assms(1,2) by (auto simp: spdk_inv_def pending_inv_def chs_def nth_list_update)
  moreover have "Suc (queued chs) = queued (sp_channels s)"
    using queued_update [OF assms(2), of "(sp_channels s ! i)\<lparr>ch_pending := p\<rparr>"] assms(3) by (simp add: chs_def p_def neq_Nil_conv) (auto simp: neq_Nil_conv)
  moreover have "table_inv (sp_files s) chs (sp_next_poll s)"
    using assms(1) by (auto simp: spdk_inv_def chs_def intro: table_inv_static)
  moreover have "flight_on chs (sp_flight s)" using assms(1) by (simp add: spdk_inv_def chs_def)
  ultimately show ?thesis using assms(1) unfolding p_def [symmetric] chs_def [symmetric] by (simp add: spdk_inv_def)
qed

text \<open>A request that left the software queue for the device.\<close>

lemma flight_inv:
  "spdk_inv (Suc k) s \<Longrightarrow> q \<in> ch_qpair ` set (sp_channels s) \<Longrightarrow>
   spdk_inv k (s\<lparr>sp_issued := y, sp_flight := add_mset (q, x) (sp_flight s)\<rparr>)"
  by (simp add: spdk_inv_def flight_on_def)

text \<open>One round of the retry loop, with its intermediate states named.\<close>

definition popped :: "nat \<Rightarrow> spdk \<Rightarrow> spdk" where
  "popped i s = s\<lparr>sp_channels := (sp_channels s)[i := (sp_channels s ! i)\<lparr>ch_pending := tl (ch_pending (sp_channels s ! i))\<rparr>]\<rparr>"

lemma RetryDeferred_stop:
  "ch_pending (sp_channels s ! i) = [] \<or> \<not> (limit = 0 \<or> n < limit) \<Longrightarrow> RetryDeferred dv g i limit fuel n res s = Some (res, s)"
  by (subst RetryDeferred.simps) simp

lemma RetryDeferred_round:
  fixes dv i s
  defines "q \<equiv> ch_qpair (sp_channels s ! i)" and "r \<equiv> hd (ch_pending (sp_channels s ! i))"
  defines "rc \<equiv> dv_rc dv q r s" and "s1 \<equiv> snd (sp_TrySubmit dv q r s)"
  defines "s3 \<equiv> CompleteRequest dv (pi_tag r) rc (popped i s1)"
  assumes "ch_pending (sp_channels s ! i) \<noteq> []" "limit = 0 \<or> n < limit"
  shows "RetryDeferred dv g i limit (Suc fuel) n res s =
    (if rc = - sp_ENOMEM \<and> dv_busy dv q s1 \<noteq> 0 then Some (res, s1)
     else if rc = 0 then RetryDeferred dv g i limit fuel (n + 1) (res\<lparr>pr_did_work := True\<rparr>) (popped i s1)
     else if sp_generation s3 \<noteq> g then Some (res\<lparr>pr_did_work := True, pr_completions := pr_completions res + 1\<rparr>, s3)
     else RetryDeferred dv g i limit fuel (n + 1) (res\<lparr>pr_did_work := True, pr_completions := pr_completions res + 1\<rparr>) s3)"
proof -
  have t: "sp_TrySubmit dv q r s = (rc, s1)" by (simp add: s1_def rc_def sp_TrySubmit_def Let_def)
  have c: "sp_channels s1 = sp_channels s" by (simp add: s1_def sp_TrySubmit_def Let_def)
  have p: "popped i s1 = s1\<lparr>sp_channels := (sp_channels s1)[i := (sp_channels s ! i)\<lparr>ch_pending := tl (ch_pending (sp_channels s ! i))\<rparr>]\<rparr>"
    by (simp add: popped_def c)
  show ?thesis
    unfolding RetryDeferred.simps [of dv g i limit "Suc fuel"] Let_def q_def [symmetric] r_def [symmetric] t prod.case nat.case p [symmetric] s3_def [symmetric]
    using assms(6,7) by simp
qed

lemma RetryDeferred_inv:
  assumes "RetryDeferred (with_callbacks dv cb) g i limit fuel n res s = Some (res', s')"
    "spdk_inv k s" "i < length (sp_channels s)" "g = sp_generation s"
  shows "spdk_inv k s' \<and> advances s s'"
  using assms
proof (induction fuel arbitrary: n res s)
  case 0
  then show ?case by (subst (asm) RetryDeferred.simps) (auto split: if_splits)
next
  case (Suc fuel)
  define q where "q = ch_qpair (sp_channels s ! i)"
  define r where "r = hd (ch_pending (sp_channels s ! i))"
  define rc where "rc = dv_rc dv q r s"
  define s1 where "s1 = snd (sp_TrySubmit (with_callbacks dv cb) q r s)"
  define s3 where "s3 = CompleteRequest (with_callbacks dv cb) (pi_tag r) rc (popped i s1)"
  have s1: "rc \<noteq> 0 \<longrightarrow> s1 = s" "advances s s1" "sp_channels s1 = sp_channels s" "sp_generation s1 = sp_generation s"
    by (simp_all add: s1_def sp_TrySubmit_def rc_def Let_def advances_def)
  have s2: "advances s (popped i s1)" "sp_generation (popped i s1) = sp_generation s" "length (sp_channels (popped i s1)) = length (sp_channels s)"
    using s1 by (simp_all add: popped_def advances_def)
  show ?case
  proof (cases "ch_pending (sp_channels s ! i) = [] \<or> \<not> (limit = 0 \<or> n < limit)")
    case True
    then show ?thesis using Suc.prems RetryDeferred_stop [OF True] by simp
  next
    case False
    then have pop: "spdk_inv (Suc k) (popped i s)" using pop_inv [of k s i] Suc.prems(2,3) by (simp add: popped_def)
    have "q \<in> ch_qpair ` set (sp_channels (popped i s))"
      using imageI [OF nth_mem [of i "sp_channels (popped i s)"], of ch_qpair] Suc.prems(3) by (simp add: popped_def q_def)
    then have inv2: "rc = 0 \<Longrightarrow> spdk_inv k (popped i s1)"
      using flight_inv [OF pop, of q "pi_tag r" "(sp_issued s)(q := sp_issued s q @ [r])"]
      by (simp add: s1_def sp_TrySubmit_def rc_def Let_def popped_def spdk_inv_def)
    have s3: "rc \<noteq> 0 \<Longrightarrow> spdk_inv k s3" "advances s s3"
      using CompleteRequest_inv [OF pop] s1(1) advances_trans [OF s2(1) advances_CompleteRequest] by (simp_all add: s3_def)
    have IH2: "rc = 0 \<Longrightarrow> RetryDeferred (with_callbacks dv cb) g i limit fuel n' b (popped i s1) = Some (res', s') \<Longrightarrow> ?thesis" for n' b
      using Suc.IH [OF _ inv2] s2 Suc.prems(3,4) advances_trans [OF s2(1)] by simp
    have IH3: "rc \<noteq> 0 \<Longrightarrow> sp_generation s3 = g \<Longrightarrow> RetryDeferred (with_callbacks dv cb) g i limit fuel n' b s3 = Some (res', s') \<Longrightarrow> ?thesis" for n' b
      using Suc.IH [OF _ s3(1)] s3(2) Suc.prems(3,4) advances_trans [OF s3(2)] by (auto simp: advances_def)
    have "(if rc = - sp_ENOMEM \<and> dv_busy dv q s1 \<noteq> 0 then Some (res, s1)
     else if rc = 0 then RetryDeferred (with_callbacks dv cb) g i limit fuel (n + 1) (res\<lparr>pr_did_work := True\<rparr>) (popped i s1)
     else if sp_generation s3 \<noteq> g then Some (res\<lparr>pr_did_work := True, pr_completions := pr_completions res + 1\<rparr>, s3)
     else RetryDeferred (with_callbacks dv cb) g i limit fuel (n + 1) (res\<lparr>pr_did_work := True, pr_completions := pr_completions res + 1\<rparr>) s3) = Some (res', s')"
      using Suc.prems(1) False RetryDeferred_round [of s i limit n "with_callbacks dv cb" g fuel res]
      unfolding s3_def s1_def rc_def q_def r_def by simp
    moreover have "rc = - sp_ENOMEM \<Longrightarrow> rc \<noteq> 0" by (simp add: sp_ENOMEM_def)
    ultimately show ?thesis using IH2 IH3 s1 s3 Suc.prems(2) by (auto split: if_splits)
  qed
qed

section \<open>Polling\<close>

text \<open>
  What is relied on of the device library: a poll of a queue pair reports only commands that were
  issued on that queue pair and have not been reported yet, each at most once.
\<close>

definition honest :: "device \<Rightarrow> bool" where
  "honest dv \<longleftrightarrow> (\<forall>q limit s. mset (map (\<lambda>c. (q, fst c)) (dv_process dv q limit s)) \<subseteq># sp_flight s)"

definition visits_rotate :: "nat \<Rightarrow> nat \<Rightarrow> nat \<Rightarrow> nat \<Rightarrow> nat \<Rightarrow> nat list \<Rightarrow> SpdkPollResult \<Rightarrow> spdk \<Rightarrow> bool" where
  "visits_rotate limit first n visits visited v res s \<longleftrightarrow>
     v = map (\<lambda>j. (first + visited + j) mod n) [0..<length v] \<and> sp_next_poll s = (first + visited + length v) mod n \<and>
     (length v = visits \<or> length v < visits \<and> limit \<noteq> 0 \<and> limit \<le> pr_completions res)"

lemma visits_rotate_step:
  assumes "visits_rotate limit first n visits (Suc visited) v res s"
  shows "visits_rotate limit first n (Suc visits) visited ((first + visited) mod n # v) res s"
proof -
  have "map (\<lambda>j. (first + visited + j) mod n) [0..<Suc (length v)] = (first + visited) mod n # map (\<lambda>j. (first + Suc visited + j) mod n) [0..<length v]"
    by (simp add: upt_conv_Cons map_Suc_upt [symmetric] del: upt_Suc)
  then show ?thesis using assms by (simp add: visits_rotate_def del: upt_Suc)
qed

text \<open>One visit: the cursor is advanced, the queue pair polled and the completions dispatched.\<close>

definition visit :: "device \<Rightarrow> nat \<Rightarrow> nat \<Rightarrow> nat \<Rightarrow> SpdkPollResult \<Rightarrow> spdk \<Rightarrow> SpdkPollResult \<times> spdk" where
  "visit D n index remaining res s =
     (let (cs, s1) = process_completions D (ch_qpair (sp_channels s ! index)) remaining (s\<lparr>sp_next_poll := (index + 1) mod n\<rparr>)
      in (if cs \<noteq> [] then res\<lparr>pr_did_work := True, pr_completions := pr_completions res + length cs\<rparr> else res,
          fold (CompleteAsync D) cs s1))"

lemma poll_loop_round:
  fixes first visited n D limit res s g fuel visits
  defines "index \<equiv> (first + visited) mod n"
  defines "remaining \<equiv> (if limit = 0 then 0 else if limit \<le> pr_completions res then 0 else limit - pr_completions res)"
  defines "res1 \<equiv> fst (visit D n index remaining res s)" and "s2 \<equiv> snd (visit D n index remaining res s)"
  defines "cont \<equiv> (\<lambda>b t. map_option (\<lambda>(v, x). (index # v, x)) (poll_loop D fuel limit g first n visits (visited + 1) b t))"
  shows "poll_loop D fuel limit g first n (Suc visits) visited res s =
    (if limit \<noteq> 0 \<and> remaining = 0 then Some ([], res, s\<lparr>sp_next_poll := index\<rparr>)
     else if sp_generation s2 \<noteq> g then Some ([index], res1, s2)
     else if ch_pending (sp_channels s2 ! index) \<noteq> []
     then Option.bind (RetryDeferred D g index limit fuel 0 res1 s2) (\<lambda>(b, t). if sp_generation t \<noteq> g then Some ([index], b, t) else cont b t)
     else cont res1 s2)"
  unfolding poll_loop.simps(2) Let_def index_def [symmetric] remaining_def [symmetric] res1_def s2_def visit_def cont_def case_prod_unfold fst_conv snd_conv by simp

lemma visit_inv:
  assumes "honest dv" "spdk_inv 0 s" "n = length (sp_channels s)" "0 < n" "visit (with_callbacks dv cb) n index remaining res s = (res1, s2)"
  shows "spdk_inv 0 s2 \<and> advances (s\<lparr>sp_next_poll := (index + 1) mod n\<rparr>) s2"
proof -
  define s1 where "s1 = s\<lparr>sp_next_poll := (index + 1) mod n\<rparr>"
  define cs where "cs = dv_process dv (ch_qpair (sp_channels s ! index)) remaining s1"
  define M where "M = mset (map (\<lambda>c. (ch_qpair (sp_channels s ! index), fst c)) cs)"
  define t where "t = s1\<lparr>sp_flight := sp_flight s1 - M\<rparr>"
  have "table_inv (sp_files s) (sp_channels s) ((index + 1) mod n)"
    using assms(2-4) mod_less_divisor [OF assms(4), of "index + 1"] by (auto simp: spdk_inv_def table_inv_def)
  moreover have "M \<subseteq># sp_flight s1" using assms(1) unfolding honest_def cs_def M_def by blast
  then have "size (sp_flight s1) = size (sp_flight s1 - M) + length cs"
    using size_Diff_submset [of M] size_mset_mono [of M "sp_flight s1"] by (simp add: M_def)
  ultimately have "spdk_inv (0 + length cs) t" using assms(2) by (simp add: t_def s1_def spdk_inv_def)
  then have "spdk_inv 0 (fold (CompleteAsync (with_callbacks dv cb)) cs t)" by (rule completions_inv)
  moreover have "advances s1 (fold (CompleteAsync (with_callbacks dv cb)) cs t)"
    using advances_completions [of t] by (auto simp: t_def advances_def)
  moreover have "process_completions (with_callbacks dv cb) (ch_qpair (sp_channels s ! index)) remaining s1 = (cs, t)"
    by (simp add: process_completions_def cs_def t_def M_def Let_def)
  ultimately show ?thesis using assms(5) by (auto simp: visit_def s1_def)
qed

lemma poll_loop_spec:
  assumes "poll_loop (with_callbacks dv cb) fuel limit (sp_generation s) first n visits visited res s = Some (v, res', s')"
    "honest dv" "spdk_inv 0 s" "n = length (sp_channels s)" "sp_next_poll s = (first + visited) mod n" "visits \<le> n"
  shows "spdk_inv 0 s' \<and> sp_generation s \<le> sp_generation s' \<and>
    (sp_generation s' = sp_generation s \<longrightarrow> visits_rotate limit first n visits visited v res' s')"
  using assms(1,3-)
proof (induction visits arbitrary: visited res s v)
  case 0
  then show ?case by (simp add: visits_rotate_def)
next
  case (Suc visits)
  define index where "index = (first + visited) mod n"
  define remaining where "remaining = (if limit = 0 then 0 else if limit \<le> pr_completions res then 0 else limit - pr_completions res)"
  define s1 where "s1 = s\<lparr>sp_next_poll := (index + 1) mod n\<rparr>"
  obtain res1 s2 where vis: "visit (with_callbacks dv cb) n index remaining res s = (res1, s2)" by fastforce
  note round = Suc.prems(1) [unfolded poll_loop_round, folded index_def remaining_def, unfolded vis fst_conv snd_conv]
  have n: "0 < n" using Suc.prems(5) by simp
  have v2: "spdk_inv 0 s2" "advances s1 s2" using visit_inv [OF assms(2) Suc.prems(2,3) n vis] by (simp_all add: s1_def)
  have s1: "sp_next_poll s1 = (first + (visited + 1)) mod n" "length (sp_channels s1) = n" "sp_generation s1 = sp_generation s" "index < n"
    using Suc.prems(3) n by (simp_all add: s1_def index_def mod_Suc_eq)
  have more: ?case if h: "map_option (\<lambda>(v, x). (index # v, x)) (poll_loop (with_callbacks dv cb) fuel limit (sp_generation s) first n visits (visited + 1) b t) = Some (v, res', s')"
    "spdk_inv 0 t" "advances s1 t" "sp_generation t = sp_generation s" for b t
  proof -
    obtain v1 where v1: "poll_loop (with_callbacks dv cb) fuel limit (sp_generation t) first n visits (visited + 1) b t = Some (v1, res', s')" "v = index # v1"
      using h(1,4) by auto
    have "sp_next_poll t = (first + (visited + 1)) mod n" "n = length (sp_channels t)" using h(3,4) s1 by (auto simp: advances_def)
    from Suc.IH [OF v1(1) h(2) this(2,1)] show ?thesis
      using h(4) v1(2) Suc.prems(5) visits_rotate_step [of limit first n visits visited v1 res' s'] by (simp add: index_def)
  qed
  have stop: ?case if "s' = t" "spdk_inv 0 t" "advances s1 t" "sp_generation t \<noteq> sp_generation s" for t
    using that s1(3) by (auto simp: advances_def)
  consider "limit \<noteq> 0 \<and> remaining = 0" | "\<not> (limit \<noteq> 0 \<and> remaining = 0)" "sp_generation s2 \<noteq> sp_generation s"
    | "\<not> (limit \<noteq> 0 \<and> remaining = 0)" "sp_generation s2 = sp_generation s" "ch_pending (sp_channels s2 ! index) = []"
    | b t where "sp_generation s2 = sp_generation s" "RetryDeferred (with_callbacks dv cb) (sp_generation s) index limit fuel 0 res1 s2 = Some (b, t)"
      "\<not> (limit \<noteq> 0 \<and> remaining = 0)" "ch_pending (sp_channels s2 ! index) \<noteq> []"
    using round by (auto simp: bind_eq_Some_conv split: if_splits)
  then show ?case
  proof cases
    case 1
    then have "limit \<le> pr_completions res" by (simp add: remaining_def split: if_splits)
    then show ?thesis using 1 round Suc.prems(2,4) by (auto simp: visits_rotate_def index_def spdk_inv_def)
  next
    case 2
    then show ?thesis using round stop [OF _ v2] by (auto split: if_splits)
  next
    case 3
    show ?thesis by (rule more [OF _ v2 3(2), of res1]) (use round 3 in auto)
  next
    case 4
    have "index < length (sp_channels s2)" using v2(2) s1 4(1) by (auto simp: advances_def)
    then have "spdk_inv 0 t \<and> advances s1 t" using RetryDeferred_inv [OF 4(2) v2(1)] 4(1) advances_trans [OF v2(2)] by simp
    then show ?thesis using round 4 stop more by (cases "sp_generation t = sp_generation s") auto
  qed
qed

lemma Poll_spec:
  assumes "sp_Poll (with_callbacks dv cb) fuel limit s = Some (v, res, s')" "honest dv" "spdk_inv 0 s"
  shows "spdk_inv 0 s' \<and> sp_generation s \<le> sp_generation s' \<and>
    (sp_generation s' = sp_generation s \<longrightarrow> visits_rotate limit (sp_next_poll s) (length (sp_channels s)) (length (sp_channels s)) 0 v res s')"
proof -
  define s1 where "s1 = (if sp_completions s \<noteq> []
    then fold (\<lambda>(tag, r). dv_complete (with_callbacks dv cb) tag r) (sp_completions s) (s\<lparr>sp_completions := []\<rparr>) else s)"
  obtain res0 where p: "poll_loop (with_callbacks dv cb) fuel limit (sp_generation s1) (sp_next_poll s1) (length (sp_channels s1)) (length (sp_channels s1)) 0 res0 s1 = Some (v, res, s')"
    using assms(1) by (auto simp: sp_Poll_def Let_def s1_def split: if_splits)
  have inv: "spdk_inv 0 s1" using assms(3) batch_inv [of 0 "s\<lparr>sp_completions := []\<rparr>"] by (simp add: s1_def spdk_inv_fields)
  have adv: "advances s s1" using advances_batch [of "s\<lparr>sp_completions := []\<rparr>"] by (auto simp: s1_def advances_def)
  have "sp_next_poll s1 = (sp_next_poll s1 + 0) mod length (sp_channels s1)"
    using inv by (auto simp: spdk_inv_def table_inv_def)
  from poll_loop_spec [OF p assms(2) inv refl this order_refl] adv show ?thesis by (auto simp: advances_def)
qed

lemma drain_inv:
  "drain_outstanding (with_callbacks dv cb) fuel k s = Some s' \<Longrightarrow> honest dv \<Longrightarrow> spdk_inv 0 s \<Longrightarrow> spdk_inv 0 s' \<and> \<not> HasOutstanding s'"
  by (induction k arbitrary: s) (auto split: if_splits simp: bind_eq_Some_conv dest: Poll_spec)

lemma reach_inv: "sp_reach dv cb s \<Longrightarrow> honest dv \<Longrightarrow> spdk_inv 0 s"
proof (induction rule: sp_reach.induct)
  case fresh
  show ?case by (simp add: fresh_backend_def spdk_inv_def table_inv_def pending_inv_def queued_def)
next
  case (op s x)
  then show ?case by (simp add: do_op_inv)
next
  case (poll s fuel limit v res s')
  then show ?case using Poll_spec by blast
next
  case (shutdown s fuel freed s')
  show ?case
  proof (cases "sp_worker s")
    case True
    then obtain z where z: "drain_outstanding (with_callbacks dv cb) fuel fuel s = Some z"
      "s' = z\<lparr>sp_files := [], sp_channels := [], sp_completions := [], sp_next_poll := 0, sp_generation := 0, sp_worker := False\<rparr>"
      using shutdown.hyps(2) by (auto simp: sp_Shutdown_def)
    have "sp_outstanding z = 0 \<and> sp_flight z = {#}"
      using drain_inv [OF z(1) shutdown.prems shutdown.IH [OF shutdown.prems]] by (auto simp: HasOutstanding_def spdk_inv_def)
    then show ?thesis by (simp add: z(2) spdk_inv_def table_inv_def pending_inv_def queued_def)
  qed (use shutdown in \<open>simp add: sp_Shutdown_def\<close>)
qed

text \<open>
  C21: the tables stay consistent and the outstanding count is exact. After any sequence of opens,
  closes, submissions, polls and shutdowns, with completion callbacks that themselves open, close
  and submit: every open file's cached channel position is in range and names the queue pair and
  controller of its device; every channel counts exactly its open files, of which there is at least
  one; no controller has two channels; every deferred request names an open file of the channel it
  waits on; every command the device holds is on the queue pair of a channel, where polling finds
  it; and the outstanding count is exactly the deferred requests and the commands the device holds,
  so that a close, refused while it is positive, and a shutdown, which polls until it is 0, never
  free a queue pair with a command in flight nor drop a deferred request. The device library is
  taken to report only commands issued on the polled queue pair, each at most once.
\<close>

theorem spdk_tables_consistent:
  assumes "sp_reach dv cb s" "honest dv"
  shows "list_all (file_ok (sp_channels s)) (sp_files s) \<and>
    (\<forall>i<length (sp_channels s). ch_open_files (sp_channels s ! i) = open_on i (sp_files s) \<and> 0 < open_on i (sp_files s)) \<and>
    distinct (map ch_controller (sp_channels s)) \<and> pending_inv (sp_files s) (sp_channels s) \<and>
    fst ` set_mset (sp_flight s) \<subseteq> ch_qpair ` set (sp_channels s) \<and>
    sp_outstanding s = queued (sp_channels s) + size (sp_flight s)"
  using reach_inv [OF assms] by (simp add: spdk_inv_def table_inv_def flight_on_def)

text \<open>A device that always accepts and completes every command of the queue pair.\<close>

definition good_device :: device where
  "good_device = \<lparr>dv_rc = (\<lambda>_ _ _. 0), dv_busy = (\<lambda>_ _. 0),
     dv_process = (\<lambda>q limit s. map (\<lambda>t. (t, False)) (sorted_list_of_multiset (image_mset snd (filter_mset (\<lambda>p. fst p = q) (sp_flight s))))),
     dv_complete = (\<lambda>_ _ s. s)\<rparr>"

lemma good_device_honest: "honest good_device"
proof -
  have "image_mset (\<lambda>p. (q, snd p)) (filter_mset (\<lambda>p. fst p = q) F) = filter_mset (\<lambda>p. fst p = q) F" for q and F :: "(nat \<times> nat) multiset"
    by (induction F) auto
  then show ?thesis by (simp add: honest_def good_device_def image_mset.compositionality comp_def)
qed

definition small_device :: SpdkDevice where
  "small_device = \<lparr>sd_controller = 1, sd_ns = 1, sd_sector_size = 512, sd_sector_shift = 9, sd_size_bytes = 0x100000, sd_write_cache = True\<rparr>"

text \<open>A backend with one open file and one write in flight.\<close>

definition writing :: spdk where
  "writing = fold (do_op good_device) [OpInit True, OpRegister 1, OpOpen (Inr small_device) 7 True 0 1, OpIo True 0 64 4096 0 True 3] fresh_backend"

lemma writing_reach: "sp_reach good_device (\<lambda>_ _ _. []) writing"
  unfolding writing_def fold.simps comp_def id_def by (intro sp_reach.intros)

lemmas writing_simps = writing_def fresh_backend_def sp_Init_def sp_RegisterFixedFiles_def sp_SubmitOpenDirect_def closed_file_def Let_def
  sp_SubmitIo_def sp_Lookup_def io_request_def small_device_def SubmitOrDefer_def sp_TrySubmit_def good_device_def

theorem spdk_tables_consistent_witness:
  "length (sp_channels writing) = 1 \<and> ch_open_files (sp_channels writing ! 0) = open_on 0 (sp_files writing) \<and>
   sp_outstanding writing = queued (sp_channels writing) + size (sp_flight writing) \<and> sp_outstanding writing = 1"
proof -
  have "length (sp_channels writing) = 1" "sp_outstanding writing = 1" by (simp_all add: writing_simps)
  then show ?thesis using spdk_tables_consistent [OF writing_reach good_device_honest] by simp
qed

text \<open>
  Round-robin polling. A poll during which no callback opens or closes a channel visits the
  channels in cyclic order from the position the previous poll left, each at most once, and
  leaves the position behind the last one visited; it stops short of a full round only when the
  completion budget is used up. So no queue pair starves.
\<close>

lemma Poll_visits_round_robin:
  assumes "sp_reach dv cb s" "honest dv" "sp_Poll (with_callbacks dv cb) fuel limit s = Some (v, res, s')" "sp_generation s' = sp_generation s"
  shows "v = map (\<lambda>j. (sp_next_poll s + j) mod length (sp_channels s)) [0..<length v] \<and>
    sp_next_poll s' = (sp_next_poll s + length v) mod length (sp_channels s) \<and>
    (length v = length (sp_channels s) \<or> length v < length (sp_channels s) \<and> limit \<noteq> 0 \<and> limit \<le> pr_completions res)"
  using Poll_spec [OF assms(3,2) reach_inv [OF assms(1,2)]] assms(4) by (auto simp: visits_rotate_def)

section \<open>Order of submissions\<close>

text \<open>The requests admitted to a channel: those the device accepted, then those that wait.\<close>

definition admitted :: "nat \<Rightarrow> spdk \<Rightarrow> PendingIo list" where
  "admitted i s = sp_issued s (ch_qpair (sp_channels s ! i)) @ ch_pending (sp_channels s ! i)"

text \<open>
  C34: submission never overtakes. An accepted request is placed behind every request already
  admitted to its channel, whether issued or waiting, and is counted outstanding once; a refused
  one leaves the channel and the count as they were.
\<close>

theorem SubmitOrDefer_never_overtakes:
  assumes "SubmitOrDefer dv alloc i r s = (st, s')" "i < length (sp_channels s)"
  shows "admitted i s' = admitted i s @ (if st = StOk then [r] else []) \<and>
    sp_outstanding s' = sp_outstanding s + (if st = StOk then 1 else 0) \<and>
    (sp_issued s' \<noteq> sp_issued s \<longrightarrow> ch_pending (sp_channels s ! i) = [])"
  using assms by (auto simp: SubmitOrDefer_def sp_TrySubmit_def QueuePending_def Let_def admitted_def split: if_splits)

theorem SubmitOrDefer_never_overtakes_witness:
  "\<exists>s'. SubmitOrDefer good_device True 0 \<lparr>pi_tag = 4, pi_buffer = 64, pi_lba = 0, pi_count = 8, pi_file = 0, pi_operation = kRead\<rparr> writing = (StOk, s') \<and>
     sp_outstanding s' = 2 \<and> length (admitted 0 s') = Suc (length (admitted 0 writing))"
proof -
  define r where "r = \<lparr>pi_tag = 4, pi_buffer = 64, pi_lba = 0, pi_count = 8, pi_file = 0, pi_operation = kRead\<rparr>"
  obtain s' where p: "SubmitOrDefer good_device True 0 r writing = (StOk, s')" by (simp add: writing_simps)
  have "length (sp_channels writing) = 1" "sp_outstanding writing = 1" by (simp_all add: writing_simps)
  with SubmitOrDefer_never_overtakes [OF p] p show ?thesis by (auto simp: r_def)
qed

lemma popped_channel:
  "i < length (sp_channels s) \<Longrightarrow> ch_pending (sp_channels (popped i s) ! i) = tl (ch_pending (sp_channels s ! i))"
  "i < length (sp_channels s) \<Longrightarrow> ch_qpair (sp_channels (popped i s) ! i) = ch_qpair (sp_channels s ! i)"
  "length (sp_channels (popped i s)) = length (sp_channels s)" "sp_generation (popped i s) = sp_generation s" "sp_issued (popped i s) = sp_issued s"
  by (simp_all add: popped_def)

lemma TrySubmit_state:
  "sp_channels (snd (sp_TrySubmit dv q r s)) = sp_channels s" "sp_generation (snd (sp_TrySubmit dv q r s)) = sp_generation s"
  "sp_issued (snd (sp_TrySubmit dv q r s)) q = sp_issued s q @ (if dv_rc dv q r s = 0 then [r] else [])"
  by (simp_all add: sp_TrySubmit_def Let_def)

text \<open>The part of the waiting list a retry pass takes.\<close>

definition taken_in_order :: "nat \<Rightarrow> spdk \<Rightarrow> spdk \<Rightarrow> nat \<Rightarrow> bool" where
  "taken_in_order i s s' errors \<longleftrightarrow> (\<exists>m \<le> length (ch_pending (sp_channels s ! i)). \<exists>accepted.
     ch_pending (sp_channels s' ! i) = drop m (ch_pending (sp_channels s ! i)) \<and>
     subseq accepted (take m (ch_pending (sp_channels s ! i))) \<and>
     sp_issued s' (ch_qpair (sp_channels s ! i)) = sp_issued s (ch_qpair (sp_channels s ! i)) @ accepted \<and>
     errors + length accepted = m)"

lemma taken_in_order_refl: "sp_channels s' = sp_channels s \<Longrightarrow> sp_issued s' = sp_issued s \<Longrightarrow> taken_in_order i s s' 0"
  by (auto simp: taken_in_order_def intro!: exI [of _ 0])

lemma taken_in_order_step:
  assumes "ch_pending (sp_channels s ! i) = r # rs" "ch_pending (sp_channels t ! i) = rs" "ch_qpair (sp_channels t ! i) = ch_qpair (sp_channels s ! i)"
    "sp_issued t (ch_qpair (sp_channels s ! i)) = sp_issued s (ch_qpair (sp_channels s ! i)) @ (if ok then [r] else [])" "taken_in_order i t s' e"
  shows "taken_in_order i s s' (if ok then e else Suc e)"
proof -
  obtain m acc where "m \<le> length rs" "ch_pending (sp_channels s' ! i) = drop m rs" "subseq acc (take m rs)"
    "sp_issued s' (ch_qpair (sp_channels s ! i)) = sp_issued t (ch_qpair (sp_channels s ! i)) @ acc" "e + length acc = m"
    using assms(2,3,5) by (auto simp: taken_in_order_def)
  then show ?thesis unfolding taken_in_order_def using assms(1,4)
    by (intro exI [of _ "Suc m"] conjI exI [of _ "(if ok then [r] else []) @ acc"]) (auto intro: list_emb_Cons)
qed

text \<open>
  Deferred requests leave in order. With callbacks that submit nothing, a retry pass takes a
  prefix of the waiting requests: the device receives those it accepts in their waiting order,
  behind everything it had received, the others of the prefix are completed with an error, one
  completion each, and the rest keeps waiting in order.
\<close>

lemma RetryDeferred_in_order:
  assumes "RetryDeferred (with_callbacks dv (\<lambda>_ _ _. [])) (sp_generation s) i limit fuel n res s = Some (res', s')" "i < length (sp_channels s)"
  shows "pr_completions res \<le> pr_completions res' \<and> taken_in_order i s s' (pr_completions res' - pr_completions res)"
  using assms
proof (induction fuel arbitrary: n res s)
  case 0
  then show ?case by (subst (asm) RetryDeferred.simps) (auto split: if_splits simp: taken_in_order_refl)
next
  case (Suc fuel)
  define D where "D = with_callbacks dv (\<lambda>_ _ _. [])"
  define q where "q = ch_qpair (sp_channels s ! i)"
  show ?case
  proof (cases "ch_pending (sp_channels s ! i) = [] \<or> \<not> (limit = 0 \<or> n < limit)")
    case True
    then show ?thesis using Suc.prems RetryDeferred_stop [OF True] by (auto simp: taken_in_order_refl)
  next
    case False
    then obtain r rs where p: "ch_pending (sp_channels s ! i) = r # rs" by (cases "ch_pending (sp_channels s ! i)") auto
    define rc where "rc = dv_rc dv q r s"
    define s1 where "s1 = snd (sp_TrySubmit D q r s)"
    have s1: "sp_channels s1 = sp_channels s" "sp_generation s1 = sp_generation s" "sp_issued s1 q = sp_issued s q @ (if rc = 0 then [r] else [])"
      by (simp_all add: s1_def TrySubmit_state rc_def D_def)
    define s3 where "s3 = CompleteRequest D (pi_tag r) rc (popped i s1)"
    have s3: "sp_channels s3 = sp_channels (popped i s1)" "sp_generation s3 = sp_generation s" "sp_issued s3 = sp_issued s1"
      by (simp_all add: s3_def CompleteRequest_def D_def popped_channel s1)
    have step: ?thesis if "RetryDeferred D (sp_generation s) i limit fuel (n + 1) b t = Some (res', s')"
      "sp_channels t = sp_channels (popped i s1)" "sp_generation t = sp_generation s" "sp_issued t = sp_issued s1"
      "pr_completions b = pr_completions res + (if rc = 0 then 0 else 1)" for b t
    proof -
      have t: "ch_pending (sp_channels t ! i) = rs" "ch_qpair (sp_channels t ! i) = q" "i < length (sp_channels t)"
        using that(2) p Suc.prems(2) by (simp_all add: popped_channel s1 q_def)
      then have "pr_completions b \<le> pr_completions res' \<and> taken_in_order i t s' (pr_completions res' - pr_completions b)"
        using Suc.IH [OF that(1) [folded that(3), unfolded D_def]] by simp
      then show ?thesis using taken_in_order_step [OF p t(1), of "rc = 0" s' "pr_completions res' - pr_completions b"] t(2) that(4,5) s1(3)
        by (auto simp: q_def Suc_diff_Suc Suc_le_eq split: if_splits)
    qed
    have "(if rc = - sp_ENOMEM \<and> dv_busy D q s1 \<noteq> 0 then Some (res, s1)
      else if rc = 0 then RetryDeferred D (sp_generation s) i limit fuel (n + 1) (res\<lparr>pr_did_work := True\<rparr>) (popped i s1)
      else if sp_generation s3 \<noteq> sp_generation s then Some (res\<lparr>pr_did_work := True, pr_completions := pr_completions res + 1\<rparr>, s3)
      else RetryDeferred D (sp_generation s) i limit fuel (n + 1) (res\<lparr>pr_did_work := True, pr_completions := pr_completions res + 1\<rparr>) s3) = Some (res', s')"
      using Suc.prems(1) False RetryDeferred_round [of s i limit n D "sp_generation s" fuel res]
      unfolding s3_def s1_def rc_def q_def D_def by (simp add: p)
    moreover have "sp_issued s1 = sp_issued s" if "rc \<noteq> 0" using that by (simp add: s1_def sp_TrySubmit_def Let_def rc_def D_def)
    ultimately show ?thesis using step [of _ "popped i s1"] step [OF _ s3] taken_in_order_refl [OF s1(1)]
      by (auto simp: s3(2) popped_channel s1(2) sp_ENOMEM_def split: if_splits)
  qed
qed

text \<open>The backend with a second write waiting because the device was full.\<close>

definition deferring :: spdk where
  "deferring = do_op (good_device\<lparr>dv_rc := (\<lambda>_ _ _. - 12), dv_busy := (\<lambda>_ _. 1)\<rparr>) (OpIo True 0 64 512 512 True 4) writing"

end
