(* ===== verification/Sync.thy ===== *)
theory Sync
  imports Bycorf_Prelude
begin

text \<open>
  The coroutine synchronisation primitives, \<open>include/bycorf/runtime/sync.h\<close>. The worker-local
  mutex and notification are sequential. The cross-worker mutex is a step relation: every
  coroutine has its own program counter, the queue guard is a test-and-set flag and the waiters
  are linked nodes. The barrier's operations run under its own mutex and are atomic.
\<close>

section \<open>Worker-local mutex and notification\<close>

record async_mutex =
  am_locked :: bool
  am_waiters :: "nat list"

definition am_await_ready :: "async_mutex \<Rightarrow> bool \<times> async_mutex" where
  "am_await_ready m = (if \<not> am_locked m then (True, m\<lparr>am_locked := True\<rparr>) else (False, m))"

definition am_await_suspend :: "nat \<Rightarrow> async_mutex \<Rightarrow> async_mutex" where
  "am_await_suspend h m = m\<lparr>am_waiters := am_waiters m @ [h]\<rparr>"

text \<open>The result is the coroutine put on the worker's ready queue, if any.\<close>

definition am_Unlock :: "async_mutex \<Rightarrow> nat option \<times> async_mutex" where
  "am_Unlock m = (case am_waiters m of [] \<Rightarrow> (None, m\<lparr>am_locked := False\<rparr>) | h # hs \<Rightarrow> (Some h, m\<lparr>am_waiters := hs\<rparr>))"

definition an_Wait :: "nat \<Rightarrow> nat list \<Rightarrow> nat list" where
  "an_Wait h waiters = waiters @ [h]"

text \<open>The coroutines enqueued, in order, and the waiters left.\<close>

definition an_NotifyAll :: "nat list \<Rightarrow> nat list \<times> nat list" where
  "an_NotifyAll waiters = (waiters, [])"

section \<open>Cross-worker mutex\<close>

text \<open>Waiter nodes are named by their coroutine; 0 is the null pointer.\<close>

record cwm =
  cm_queue_lock :: bool
  cm_held :: bool
  cm_head :: nat
  cm_tail :: nat
  cm_next :: "nat \<Rightarrow> nat"

text \<open>\<open>AcquireOrQueue\<close> and \<open>Unlock\<close> between taking and releasing the queue guard.\<close>

definition AcquireOrQueue :: "nat \<Rightarrow> cwm \<Rightarrow> bool \<times> cwm" where
  "AcquireOrQueue w m =
     (if \<not> cm_held m then (False, m\<lparr>cm_held := True\<rparr>)
      else let m1 = (if cm_tail m = 0 then m\<lparr>cm_head := w\<rparr> else m\<lparr>cm_next := (cm_next m)(cm_tail m := w)\<rparr>)
           in (True, m1\<lparr>cm_tail := w\<rparr>))"

definition cm_Unlock :: "cwm \<Rightarrow> nat \<times> cwm" where
  "cm_Unlock m =
     (let wake = cm_head m in
      if wake = 0 then (0, m\<lparr>cm_held := False\<rparr>)
      else let m1 = m\<lparr>cm_head := cm_next m wake\<rparr>
           in (wake, if cm_head m1 = 0 then m1\<lparr>cm_tail := 0\<rparr> else m1))"

text \<open>
  Where a coroutine is: outside; spinning for, inside and leaving the guard while acquiring (the
  flag tells whether it was queued); returning from \<open>await_suspend\<close>; suspended; spinning for and
  inside the guard in \<open>SynchronizeAcquisition\<close>; owning the mutex; spinning for, inside and leaving
  the guard while releasing; handing the mutex on to the waiter it took.
\<close>

datatype cpc =
    COut
  | CAcqSpin | CAcq | CAcqLeave bool | CReturn bool | CSuspended
  | CSyncSpin | CSync
  | COwner
  | CRelSpin | CRel | CRelLeave nat | CPost nat

text \<open>
  The ghost fields: the logical owner of the mutex and of the guard, the coroutines that were
  queued and those the mutex was handed to, in order. \<open>cs_posted\<close> are resumptions under way to
  their worker.
\<close>

record csys =
  cs_m :: cwm
  cs_pc :: "nat \<Rightarrow> cpc"
  cs_posted :: "nat set"
  cs_owner :: nat
  cs_guard :: nat
  cs_arrived :: "nat list"
  cs_granted :: "nat list"

abbreviation set_pc :: "nat \<Rightarrow> cpc \<Rightarrow> csys \<Rightarrow> csys" where
  "set_pc w c s \<equiv> s\<lparr>cs_pc := (cs_pc s)(w := c)\<rparr>"

abbreviation free_guard :: "csys \<Rightarrow> csys" where
  "free_guard s \<equiv> s\<lparr>cs_m := (cs_m s)\<lparr>cm_queue_lock := False\<rparr>, cs_guard := 0\<rparr>"

abbreviation take_guard :: "nat \<Rightarrow> csys \<Rightarrow> csys" where
  "take_guard w s \<equiv> s\<lparr>cs_m := (cs_m s)\<lparr>cm_queue_lock := True\<rparr>, cs_guard := w\<rparr>"

inductive cm_step :: "csys \<Rightarrow> csys \<Rightarrow> bool" where
  lock: "w \<noteq> 0 \<Longrightarrow> cs_pc s w = COut \<Longrightarrow>
    cm_step s (set_pc w CAcqSpin (s\<lparr>cs_m := (cs_m s)\<lparr>cm_next := (cm_next (cs_m s))(w := 0)\<rparr>\<rparr>))"
| acq_guard: "cs_pc s w = CAcqSpin \<Longrightarrow> \<not> cm_queue_lock (cs_m s) \<Longrightarrow> cm_step s (set_pc w CAcq (take_guard w s))"
| acquire: "cs_pc s w = CAcq \<Longrightarrow> AcquireOrQueue w (cs_m s) = (False, m) \<Longrightarrow>
    cm_step s (set_pc w (CAcqLeave False) (s\<lparr>cs_m := m, cs_owner := w\<rparr>))"
| queue: "cs_pc s w = CAcq \<Longrightarrow> AcquireOrQueue w (cs_m s) = (True, m) \<Longrightarrow>
    cm_step s (set_pc w (CAcqLeave True) (s\<lparr>cs_m := m, cs_arrived := cs_arrived s @ [w]\<rparr>))"
| acq_leave: "cs_pc s w = CAcqLeave queued \<Longrightarrow> cm_step s (set_pc w (CReturn queued) (free_guard s))"
| acq_return: "cs_pc s w = CReturn queued \<Longrightarrow> cm_step s (set_pc w (if queued then CSuspended else COwner) s)"
| resume: "cs_pc s w = CSuspended \<Longrightarrow> w \<in> cs_posted s \<Longrightarrow> cm_step s (set_pc w CSyncSpin (s\<lparr>cs_posted := cs_posted s - {w}\<rparr>))"
| sync_guard: "cs_pc s w = CSyncSpin \<Longrightarrow> \<not> cm_queue_lock (cs_m s) \<Longrightarrow> cm_step s (set_pc w CSync (take_guard w s))"
| sync_leave: "cs_pc s w = CSync \<Longrightarrow> cm_step s (set_pc w COwner (free_guard s))"
| unlock: "cs_pc s w = COwner \<Longrightarrow> cm_step s (set_pc w CRelSpin s)"
| rel_guard: "cs_pc s w = CRelSpin \<Longrightarrow> \<not> cm_queue_lock (cs_m s) \<Longrightarrow> cm_step s (set_pc w CRel (take_guard w s))"
| release: "cs_pc s w = CRel \<Longrightarrow> cm_Unlock (cs_m s) = (wake, m) \<Longrightarrow>
    cm_step s (set_pc w (CRelLeave wake) (s\<lparr>cs_m := m, cs_owner := wake,
                 cs_granted := (if wake = 0 then cs_granted s else cs_granted s @ [wake])\<rparr>))"
| rel_leave: "cs_pc s w = CRelLeave wake \<Longrightarrow> cm_step s (set_pc w (if wake = 0 then COut else CPost wake) (free_guard s))"
| post: "cs_pc s w = CPost wake \<Longrightarrow> cm_step s (set_pc w COut (s\<lparr>cs_posted := insert wake (cs_posted s)\<rparr>))"

definition cm_new :: csys where
  "cm_new = \<lparr>cs_m = \<lparr>cm_queue_lock = False, cm_held = False, cm_head = 0, cm_tail = 0, cm_next = (\<lambda>_. 0)\<rparr>,
     cs_pc = (\<lambda>_. COut), cs_posted = {}, cs_owner = 0, cs_guard = 0, cs_arrived = [], cs_granted = []\<rparr>"

inductive cm_reach :: "csys \<Rightarrow> bool" where
  new: "cm_reach cm_new"
| step: "cm_reach s \<Longrightarrow> cm_step s s' \<Longrightarrow> cm_reach s'"

section \<open>Barrier\<close>

record barrier =
  br_participants :: u32
  br_arrived :: u32
  br_completed :: bool
  br_status :: status
  br_waiters :: "(nat \<times> nat) list"

definition br_new :: "u32 \<Rightarrow> barrier" where
  "br_new n = \<lparr>br_participants = n, br_arrived = 0, br_completed = False, br_status = StOk, br_waiters = []\<rparr>"

text \<open>\<open>Arrive\<close>: whether the caller stays suspended, the waiters to wake, the new state.\<close>

definition br_Arrive :: "nat \<Rightarrow> nat \<Rightarrow> barrier \<Rightarrow> bool \<times> (nat \<times> nat) list \<times> barrier" where
  "br_Arrive worker h b =
     (if br_completed b then (False, [], b)
      else let b1 = b\<lparr>br_waiters := br_waiters b @ [(worker, h)], br_arrived := br_arrived b + 1\<rparr> in
        if br_arrived b1 \<noteq> br_participants b1 then (True, [], b1)
        else (True, br_waiters b1, b1\<lparr>br_completed := True, br_waiters := []\<rparr>))"

definition br_Abort :: "status \<Rightarrow> barrier \<Rightarrow> (nat \<times> nat) list \<times> barrier" where
  "br_Abort st b =
     (if \<not> status_ok (br_status b) then ([], b)
      else (br_waiters b, b\<lparr>br_status := st, br_completed := True, br_waiters := []\<rparr>))"

text \<open>
  \<open>Wake\<close>, from worker \<open>current\<close>: local waiters are enqueued, the others posted to their worker.
\<close>

definition br_Wake :: "nat \<Rightarrow> (nat \<times> nat) list \<Rightarrow> nat list \<times> (nat \<times> nat) list" where
  "br_Wake current ws = (map snd (filter (\<lambda>w. fst w = current) ws), filter (\<lambda>w. fst w \<noteq> current) ws)"

datatype br_event = BArrive nat nat | BAbort status

fun br_run :: "br_event list \<Rightarrow> barrier \<Rightarrow> (nat \<times> nat) list \<times> (nat \<times> nat) list \<times> barrier" where
  "br_run [] b = ([], [], b)"
| "br_run (BArrive worker h # es) b =
     (let (susp, woken, b1) = br_Arrive worker h b; (suspended, woken', b2) = br_run es b1
      in ((if susp then [(worker, h)] else []) @ suspended, woken @ woken', b2))"
| "br_run (BAbort st # es) b =
     (let (woken, b1) = br_Abort st b; (suspended, woken', b2) = br_run es b1 in (suspended, woken @ woken', b2))"

section \<open>Invariant of the cross-worker mutex\<close>

fun waiting :: "cpc \<Rightarrow> bool" where
  "waiting (CAcqLeave queued) = queued"
| "waiting (CReturn queued) = queued"
| "waiting CSuspended = True"
| "waiting _ = False"

fun owning :: "cpc \<Rightarrow> bool" where
  "owning (CAcqLeave queued) = (\<not> queued)"
| "owning (CReturn queued) = (\<not> queued)"
| "owning CSyncSpin = True"
| "owning CSync = True"
| "owning COwner = True"
| "owning CRelSpin = True"
| "owning CRel = True"
| "owning _ = False"

fun guarding :: "cpc \<Rightarrow> bool" where
  "guarding CAcq = True"
| "guarding (CAcqLeave queued) = True"
| "guarding CSync = True"
| "guarding CRel = True"
| "guarding (CRelLeave w) = True"
| "guarding _ = False"

text \<open>The waiter a releaser took from the queue and has not posted yet.\<close>

fun passing :: "cpc \<Rightarrow> nat" where
  "passing (CRelLeave w) = w"
| "passing (CPost w) = w"
| "passing _ = 0"

fun chain :: "(nat \<Rightarrow> nat) \<Rightarrow> nat \<Rightarrow> nat list \<Rightarrow> bool" where
  "chain nx h [] \<longleftrightarrow> h = 0"
| "chain nx h (w # ws) \<longleftrightarrow> h = w \<and> w \<noteq> 0 \<and> chain nx (nx w) ws"

definition queue_ok :: "cwm \<Rightarrow> nat list \<Rightarrow> bool" where
  "queue_ok m xs \<longleftrightarrow> chain (cm_next m) (cm_head m) xs \<and> cm_tail m = (if xs = [] then 0 else last xs) \<and> distinct xs \<and> (\<not> cm_held m \<longrightarrow> xs = [])"

definition guard_inv :: "csys \<Rightarrow> bool" where
  "guard_inv s \<longleftrightarrow> (\<forall>w. guarding (cs_pc s w) \<longrightarrow> cs_guard s = w) \<and> (cm_queue_lock (cs_m s) \<longleftrightarrow> cs_guard s \<noteq> 0) \<and> cs_pc s 0 = COut \<and>
     (\<forall>w. cs_pc s w \<noteq> CPost 0)"

definition owner_inv :: "csys \<Rightarrow> bool" where
  "owner_inv s \<longleftrightarrow> (cm_held (cs_m s) \<longleftrightarrow> cs_owner s \<noteq> 0) \<and> (\<forall>w. owning (cs_pc s w) \<longrightarrow> cs_owner s = w) \<and>
     (\<forall>r. passing (cs_pc s r) \<noteq> 0 \<longrightarrow> cs_owner s = passing (cs_pc s r) \<and> waiting (cs_pc s (cs_owner s)) \<and> cs_posted s = {}) \<and>
     (\<forall>r r'. passing (cs_pc s r) \<noteq> 0 \<longrightarrow> passing (cs_pc s r') \<noteq> 0 \<longrightarrow> r = r') \<and>
     (\<forall>w \<in> cs_posted s. cs_owner s = w \<and> waiting (cs_pc s w)) \<and>
     (cs_owner s \<noteq> 0 \<longrightarrow> owning (cs_pc s (cs_owner s)) \<or> cs_owner s \<in> cs_posted s \<or> (\<exists>r. passing (cs_pc s r) = cs_owner s))"

definition line_inv :: "csys \<Rightarrow> nat list \<Rightarrow> bool" where
  "line_inv s xs \<longleftrightarrow> cs_arrived s = cs_granted s @ xs \<and> queue_ok (cs_m s) xs \<and> set xs = {w. waiting (cs_pc s w) \<and> w \<noteq> cs_owner s} \<and>
     (\<forall>w. cs_pc s w \<in> {CAcqSpin, CAcq} \<longrightarrow> cm_next (cs_m s) w = 0)"

lemma chain_other: "w \<notin> set xs \<Longrightarrow> chain (nx(w := v)) h xs = chain nx h xs"
  by (induction xs arbitrary: h) auto

lemma chain_nonzero: "chain nx h xs \<Longrightarrow> x \<in> set xs \<Longrightarrow> x \<noteq> 0"
  by (induction xs arbitrary: h) auto

lemma chain_snoc: "chain nx h xs \<Longrightarrow> xs \<noteq> [] \<Longrightarrow> w \<noteq> 0 \<Longrightarrow> w \<notin> set xs \<Longrightarrow> distinct xs \<Longrightarrow> nx w = 0 \<Longrightarrow> chain (nx(last xs := w)) h (xs @ [w])"
proof (induction xs arbitrary: h)
  case (Cons x xs)
  then show ?case by (cases "xs = []") (auto simp: chain_other)
qed simp

lemma queue_ok_append:
  assumes "queue_ok m xs" "AcquireOrQueue w m = (True, m')" "w \<noteq> 0" "w \<notin> set xs" "cm_next m w = 0"
  shows "queue_ok m' (xs @ [w])" "cm_held m'" "cm_queue_lock m' = cm_queue_lock m" "v \<notin> insert w (set xs) \<Longrightarrow> cm_next m' v = cm_next m v" "cm_held m"
proof -
  have "xs \<noteq> [] \<Longrightarrow> last xs \<noteq> 0" using chain_nonzero [of "cm_next m" "cm_head m" xs "last xs"] assms(1) by (simp add: queue_ok_def)
  then show "queue_ok m' (xs @ [w])" "cm_held m'" "cm_queue_lock m' = cm_queue_lock m" "v \<notin> insert w (set xs) \<Longrightarrow> cm_next m' v = cm_next m v" "cm_held m"
    using assms chain_snoc [of "cm_next m" "cm_head m" xs w]
    by (auto simp: AcquireOrQueue_def queue_ok_def Let_def split: if_splits)
qed

lemma cm_Unlock_frame: "cm_Unlock m = (wake, m') \<Longrightarrow> cm_queue_lock m' = cm_queue_lock m \<and> cm_next m' = cm_next m"
  by (auto simp: cm_Unlock_def Let_def split: if_splits)

lemma AcquireOrQueue_frame: "AcquireOrQueue w m = (queued, m') \<Longrightarrow> cm_queue_lock m' = cm_queue_lock m \<and> queued = cm_held m \<and> cm_held m'"
  by (auto simp: AcquireOrQueue_def Let_def split: if_splits)

lemma queue_ok_take_none: "queue_ok m [] \<Longrightarrow> cm_Unlock m = (wake, m') \<Longrightarrow> wake = 0 \<and> queue_ok m' [] \<and> \<not> cm_held m'"
  by (auto simp: cm_Unlock_def queue_ok_def Let_def)

lemma queue_ok_take:
  assumes "queue_ok m (x # xs)" "cm_Unlock m = (wake, m')"
  shows "wake = x \<and> x \<noteq> 0 \<and> queue_ok m' xs \<and> cm_held m'"
proof (cases xs)
  case Nil
  then show ?thesis using assms by (auto simp: cm_Unlock_def queue_ok_def Let_def)
next
  case (Cons y ys)
  then show ?thesis using assms by (auto simp: cm_Unlock_def queue_ok_def Let_def)
qed

lemma pc_nonzero: "guard_inv s \<Longrightarrow> cs_pc s w \<noteq> COut \<Longrightarrow> w \<noteq> 0"
  by (rule notI) (simp add: guard_inv_def)

lemma post_nonzero: "guard_inv s \<Longrightarrow> cs_pc s w = CPost wake \<Longrightarrow> wake \<noteq> 0"
  by (rule notI) (simp add: guard_inv_def)

lemma guard_unique: "guard_inv s \<Longrightarrow> guarding (cs_pc s w) \<Longrightarrow> guarding (cs_pc s v) \<Longrightarrow> v = w"
  unfolding guard_inv_def by blast

lemma guard_step: "cm_step s s' \<Longrightarrow> guard_inv s \<Longrightarrow> guard_inv s'"
proof (induction rule: cm_step.induct)
  case (acquire s w m)
  then show ?case using AcquireOrQueue_frame [OF acquire(2)] by (auto simp: guard_inv_def intro: gr0I)
next
  case (queue s w m)
  then show ?case using AcquireOrQueue_frame [OF queue(2)] by (auto simp: guard_inv_def intro: gr0I)
next
  case (release s w wake m)
  then show ?case using cm_Unlock_frame [OF release(2)] by (auto simp: guard_inv_def intro: gr0I)
next
  case (acq_leave s w queued)
  then have "guarding (cs_pc s v) \<Longrightarrow> v = w" for v using guard_unique by simp
  then show ?case using acq_leave by (auto simp: guard_inv_def intro: gr0I)
next
  case (sync_leave s w)
  then have "guarding (cs_pc s v) \<Longrightarrow> v = w" for v using guard_unique by simp
  then show ?case using sync_leave by (auto simp: guard_inv_def intro: gr0I)
next
  case (rel_leave s w wake)
  then have "guarding (cs_pc s v) \<Longrightarrow> v = w" for v using guard_unique by simp
  then show ?case using rel_leave by (auto simp: guard_inv_def intro: gr0I)
qed (auto simp: guard_inv_def intro: gr0I split: if_splits)

text \<open>
  The owner and the line of waiters are preserved together. Steps that leave the memory, the
  owner and the kind of every program counter alone are immediate.
\<close>

lemma owner_inv_cong:
  assumes "owner_inv s" "cs_owner s' = cs_owner s" "cs_posted s' = cs_posted s" "cm_held (cs_m s') = cm_held (cs_m s)"
    "\<And>v. waiting (cs_pc s' v) = waiting (cs_pc s v)" "\<And>v. owning (cs_pc s' v) = owning (cs_pc s v)" "\<And>v. passing (cs_pc s' v) = passing (cs_pc s v)"
  shows "owner_inv s'"
  using assms(1) unfolding owner_inv_def assms(2-7) .

lemma line_inv_cong:
  assumes "line_inv s xs" "cs_owner s' = cs_owner s" "cs_arrived s' = cs_arrived s" "cs_granted s' = cs_granted s"
    "\<And>v. waiting (cs_pc s' v) = waiting (cs_pc s v)" "queue_ok (cs_m s') xs" "\<And>v. cs_pc s' v \<in> {CAcqSpin, CAcq} \<Longrightarrow> cm_next (cs_m s') v = 0"
  shows "line_inv s' xs"
  using assms(1,6,7) unfolding line_inv_def assms(2-5) by blast

lemma quiet_step:
  assumes "owner_inv s" "line_inv s xs" "cs_owner s' = cs_owner s" "cs_posted s' = cs_posted s" "cs_arrived s' = cs_arrived s" "cs_granted s' = cs_granted s"
    "cs_m s' = (cs_m s)\<lparr>cm_queue_lock := b\<rparr>"
    "\<And>v. waiting (cs_pc s' v) = waiting (cs_pc s v)" "\<And>v. owning (cs_pc s' v) = owning (cs_pc s v)" "\<And>v. passing (cs_pc s' v) = passing (cs_pc s v)"
    "\<And>v. cs_pc s' v \<in> {CAcqSpin, CAcq} \<Longrightarrow> cs_pc s v \<in> {CAcqSpin, CAcq}"
  shows "owner_inv s' \<and> (\<exists>ys. line_inv s' ys)"
proof
  show "owner_inv s'" by (rule owner_inv_cong [OF assms(1,3,4)]) (simp_all add: assms)
  have "queue_ok (cs_m s') xs" using assms(2) by (simp add: assms(7) line_inv_def queue_ok_def)
  moreover have "cs_pc s' v \<in> {CAcqSpin, CAcq} \<Longrightarrow> cm_next (cs_m s') v = 0" for v
    using assms(2) assms(11) [of v] unfolding line_inv_def assms(7) by auto
  ultimately have "line_inv s' xs" by (intro line_inv_cong [OF assms(2,3,5,6,8)])
  then show "\<exists>ys. line_inv s' ys" ..
qed

lemma lock_step:
  assumes "w \<noteq> 0" "cs_pc s w = COut" "owner_inv s" "line_inv s xs"
    "s' = set_pc w CAcqSpin (s\<lparr>cs_m := (cs_m s)\<lparr>cm_next := (cm_next (cs_m s))(w := 0)\<rparr>\<rparr>)"
  shows "owner_inv s' \<and> (\<exists>ys. line_inv s' ys)"
proof
  show "owner_inv s'" by (rule owner_inv_cong [OF assms(3)]) (auto simp: assms(2,5))
  have nw: "w \<notin> set xs" using assms(2,4) by (auto simp: line_inv_def)
  have "queue_ok (cs_m s') xs" using assms(4) by (simp add: assms(5) line_inv_def queue_ok_def chain_other [OF nw])
  then have "line_inv s' xs" using assms(4) by (intro line_inv_cong [OF assms(4)]) (auto simp: assms(2,5) line_inv_def split: if_splits)
  then show "\<exists>ys. line_inv s' ys" ..
qed

text \<open>Who is involved when nobody, or the releasing coroutine, owns the mutex.\<close>

lemma owner_invD:
  assumes "owner_inv s"
  shows "owning (cs_pc s w) \<Longrightarrow> cs_owner s = w" "passing (cs_pc s w) \<noteq> 0 \<Longrightarrow> cs_owner s = passing (cs_pc s w)"
    "passing (cs_pc s w) \<noteq> 0 \<Longrightarrow> waiting (cs_pc s (cs_owner s))" "passing (cs_pc s w) \<noteq> 0 \<Longrightarrow> cs_posted s = {}"
    "w \<in> cs_posted s \<Longrightarrow> cs_owner s = w" "w \<in> cs_posted s \<Longrightarrow> waiting (cs_pc s w)"
    "passing (cs_pc s w) \<noteq> 0 \<Longrightarrow> passing (cs_pc s v) \<noteq> 0 \<Longrightarrow> v = w"
  using assms unfolding owner_inv_def by blast+

lemma owner_inv_held: "owner_inv s \<Longrightarrow> cm_held (cs_m s) \<longleftrightarrow> cs_owner s \<noteq> 0"
  unfolding owner_inv_def by blast

lemma owner_inv_progress:
  "owner_inv s \<Longrightarrow> cs_owner s \<noteq> 0 \<Longrightarrow> owning (cs_pc s (cs_owner s)) \<or> cs_owner s \<in> cs_posted s \<or> (\<exists>r. passing (cs_pc s r) = cs_owner s)"
  unfolding owner_inv_def by blast

lemma not_owner:
  assumes "owner_inv s" "\<not> owning (cs_pc s w)" "\<not> waiting (cs_pc s w)" "w \<noteq> 0"
  shows "cs_owner s \<noteq> w"
proof
  assume o: "cs_owner s = w"
  then consider "w \<in> cs_posted s" | r where "passing (cs_pc s r) = w" using owner_inv_progress [OF assms(1)] assms(2,4) by blast
  then show False using owner_invD(3,6) [OF assms(1)] o assms(3,4) by cases metis+
qed

lemma unowned:
  assumes "guard_inv s" "owner_inv s" "cs_owner s = 0"
  shows "cs_posted s = {}" "passing (cs_pc s v) = 0" "\<not> owning (cs_pc s v)"
proof -
  have z: "cs_pc s 0 = COut" using assms(1) by (simp add: guard_inv_def)
  show "cs_posted s = {}" using owner_invD(5,6) [OF assms(2)] assms(3) z by fastforce
  show "passing (cs_pc s v) = 0" using owner_invD(2) [OF assms(2)] assms(3) by fastforce
  show "\<not> owning (cs_pc s v)" using owner_invD(1) [OF assms(2)] assms(3) z by fastforce
qed

lemma owned:
  assumes "owner_inv s" "owning (cs_pc s w)"
  shows "cs_owner s = w" "cs_posted s = {}" "passing (cs_pc s v) = 0" "owning (cs_pc s v) \<longleftrightarrow> v = w"
proof -
  have nw: "\<not> waiting (cs_pc s w)" using assms(2) by (cases "cs_pc s w") auto
  show o: "cs_owner s = w" using owner_invD(1) [OF assms] .
  show "cs_posted s = {}" using owner_invD(5,6) [OF assms(1)] o nw by blast
  show "passing (cs_pc s v) = 0" using owner_invD(3) [OF assms(1)] o nw by blast
  show "owning (cs_pc s v) \<longleftrightarrow> v = w" using owner_invD(1) [OF assms(1)] assms(2) o by blast
qed

lemma acquire_step:
  assumes "cs_pc s w = CAcq" "AcquireOrQueue w (cs_m s) = (False, m)" "guard_inv s" "owner_inv s" "line_inv s xs"
    "s' = set_pc w (CAcqLeave False) (s\<lparr>cs_m := m, cs_owner := w\<rparr>)"
  shows "owner_inv s' \<and> (\<exists>ys. line_inv s' ys)"
proof
  have w: "w \<noteq> 0" "cs_pc s 0 = COut" using assms(1,3) pc_nonzero [of s w] by (auto simp: guard_inv_def)
  have m: "m = (cs_m s)\<lparr>cm_held := True\<rparr>" "\<not> cm_held (cs_m s)" using assms(2) by (auto simp: AcquireOrQueue_def Let_def split: if_splits)
  then have o: "cs_owner s = 0" using assms(4) by (auto simp: owner_inv_def)
  show "owner_inv s'" using w unowned [OF assms(3,4) o] by (auto simp: owner_inv_def assms(6) m)
  have xs: "xs = []" using assms(5) m(2) by (simp add: line_inv_def queue_ok_def)
  have "\<not> waiting (cs_pc s v)" for v using assms(5) o w(2) unfolding line_inv_def xs by (cases "v = 0") auto
  then have "line_inv s' []" using assms(5) unfolding line_inv_def xs by (auto simp: assms(6) m(1) queue_ok_def)
  then show "\<exists>ys. line_inv s' ys" ..
qed

lemma queue_step:
  assumes "cs_pc s w = CAcq" "AcquireOrQueue w (cs_m s) = (True, m)" "guard_inv s" "owner_inv s" "line_inv s xs"
    "s' = set_pc w (CAcqLeave True) (s\<lparr>cs_m := m, cs_arrived := cs_arrived s @ [w]\<rparr>)"
  shows "owner_inv s' \<and> (\<exists>ys. line_inv s' ys)"
proof
  have w: "w \<noteq> 0" using assms(1,3) pc_nonzero by simp
  have nw: "w \<notin> set xs" "cm_next (cs_m s) w = 0" "queue_ok (cs_m s) xs" using assms(1,5) by (auto simp: line_inv_def)
  note q = queue_ok_append [OF nw(3) assms(2) w nw(1,2)]
  have pw: "passing (cs_pc s w) = 0" "\<not> owning (cs_pc s w)" "\<not> waiting (cs_pc s w)" using assms(1) by simp_all
  have no: "cs_owner s \<noteq> w" using not_owner [OF assms(4) pw(2,3) w] .
  have other: "v \<noteq> w \<Longrightarrow> cs_pc s' v = cs_pc s v" "cs_pc s' w = CAcqLeave True" for v by (simp_all add: assms(6))
  have f: "cs_owner s' = cs_owner s" "cs_posted s' = cs_posted s" "cm_held (cs_m s') = cm_held (cs_m s)" "cs_m s' = m" using q(2,5) by (simp_all add: assms(6))
  have k: "passing (cs_pc s' v) = passing (cs_pc s v)" "owning (cs_pc s' v) = owning (cs_pc s v)" "waiting (cs_pc s' v) = (waiting (cs_pc s v) \<or> v = w)" for v
    using other pw by (cases "v = w"; simp)+
  show "owner_inv s'" using assms(4) unfolding owner_inv_def f(1-3) k by blast
  have "line_inv s' (xs @ [w])" unfolding line_inv_def f(1,4)
  proof (intro conjI allI impI)
    show "cs_arrived s' = cs_granted s' @ xs @ [w]" using assms(5) by (simp add: line_inv_def assms(6))
    show "queue_ok m (xs @ [w])" by (rule q(1))
    show "set (xs @ [w]) = {v. waiting (cs_pc s' v) \<and> v \<noteq> cs_owner s}" using assms(5) no by (auto simp: line_inv_def assms(6))
    show "cm_next m v = 0" if "cs_pc s' v \<in> {CAcqSpin, CAcq}" for v
    proof -
      have "v \<noteq> w" "cs_pc s v \<in> {CAcqSpin, CAcq}" using that by (auto simp: assms(6) split: if_splits)
      moreover then have "v \<notin> set xs" using assms(5) by (auto simp: line_inv_def)
      ultimately show ?thesis using q(4) [of v] assms(5) by (auto simp: line_inv_def)
    qed
  qed
  then show "\<exists>ys. line_inv s' ys" ..
qed

lemma resume_step:
  assumes "cs_pc s w = CSuspended" "w \<in> cs_posted s" "guard_inv s" "owner_inv s" "line_inv s xs"
    "s' = set_pc w CSyncSpin (s\<lparr>cs_posted := cs_posted s - {w}\<rparr>)"
  shows "owner_inv s' \<and> (\<exists>ys. line_inv s' ys)"
proof
  note D = owner_invD [OF assms(4)]
  have w: "w \<noteq> 0" using assms(1,3) pc_nonzero by simp
  have o: "cs_owner s = w" using D(5) assms(2) by blast
  have p: "cs_posted s - {w} = {}" using D(5) o by blast
  have n: "passing (cs_pc s r) = 0" for r using D(4) assms(2) by blast
  have "\<not> owning (cs_pc s v)" for v using D(1) [of v] o assms(1) by auto
  then have k: "owning (cs_pc s' v) \<longleftrightarrow> v = w" "passing (cs_pc s' v) = 0" for v using n by (simp_all add: assms(6))
  have f: "cs_posted s' = {}" "cs_owner s' = w" "cm_held (cs_m s')" using p o w owner_inv_held [OF assms(4)] by (simp_all add: assms(6))
  show "owner_inv s'" using w f(3) unfolding owner_inv_def k f(1,2) by simp
  have "line_inv s' xs" using assms(1,5) o by (auto simp: line_inv_def assms(6) split: if_splits)
  then show "\<exists>ys. line_inv s' ys" ..
qed

lemma release_step:
  assumes "cs_pc s w = CRel" "cm_Unlock (cs_m s) = (wake, m)" "guard_inv s" "owner_inv s" "line_inv s xs"
    "s' = set_pc w (CRelLeave wake) (s\<lparr>cs_m := m, cs_owner := wake, cs_granted := (if wake = 0 then cs_granted s else cs_granted s @ [wake])\<rparr>)"
  shows "owner_inv s' \<and> (\<exists>ys. line_inv s' ys)"
proof -
  have z: "cs_pc s 0 = COut" "w \<noteq> 0" using assms(1,3) pc_nonzero [of s w] by (auto simp: guard_inv_def)
  have own: "owning (cs_pc s w)" using assms(1) by simp
  note o = owned [OF assms(4) own]
  have q: "queue_ok (cs_m s) xs" and l: "set xs = {v. waiting (cs_pc s v) \<and> v \<noteq> w}" "cs_arrived s = cs_granted s @ xs"
    and n: "\<And>v. cs_pc s v \<in> {CAcqSpin, CAcq} \<Longrightarrow> cm_next m v = 0"
    using assms(5) o(1) cm_Unlock_frame [OF assms(2)] by (auto simp: line_inv_def)
  show ?thesis
  proof (cases xs)
    case Nil
    have u: "wake = 0" "queue_ok m []" "\<not> cm_held m" using queue_ok_take_none [OF _ assms(2)] q Nil by simp_all
    have nw: "\<not> waiting (cs_pc s v)" for v using l(1) Nil assms(1) by (cases "v = w") auto
    have k: "owning (cs_pc s' v) \<longleftrightarrow> False" "passing (cs_pc s' v) = 0" for v using o(3,4) u(1) by (simp_all add: assms(6))
    have f: "cs_posted s' = {}" "cs_owner s' = 0" "cm_held (cs_m s') = False" using u o(2) by (simp_all add: assms(6))
    have "owner_inv s'" unfolding owner_inv_def k f by blast
    moreover have "line_inv s' []" using u l Nil nw n by (auto simp: line_inv_def assms(6))
    ultimately show ?thesis by blast
  next
    case (Cons x ys)
    have u: "wake = x" "x \<noteq> 0" "queue_ok m ys" "cm_held m" using queue_ok_take [of "cs_m s" x ys] assms(2) q Cons by auto
    have x: "waiting (cs_pc s x)" "x \<noteq> w" "x \<notin> set ys" using l(1) q Cons by (auto simp: queue_ok_def)
    have nx: "\<not> owning (cs_pc s x)" using o(4) x(2) by simp
    have k: "owning (cs_pc s' v) \<longleftrightarrow> False" "passing (cs_pc s' v) = (if v = w then x else 0)" "waiting (cs_pc s' x) = True" for v
      using o(3,4) u(1) x by (simp_all add: assms(6))
    have f: "cs_posted s' = {}" "cs_owner s' = x" "cm_held (cs_m s') = True" using u o(2) by (simp_all add: assms(6))
    have "owner_inv s'" using u(2) unfolding owner_inv_def k f by auto
    moreover have "set ys = {v. waiting (cs_pc s' v) \<and> v \<noteq> x}" using l(1) x Cons assms(1) by (auto simp: assms(6))
    then have "line_inv s' ys" using u l(2) Cons n by (auto simp: line_inv_def assms(6) split: if_splits)
    ultimately show ?thesis by blast
  qed
qed

lemma post_step:
  assumes "cs_pc s w = CPost wake" "guard_inv s" "owner_inv s" "line_inv s xs"
    "s' = set_pc w COut (s\<lparr>cs_posted := insert wake (cs_posted s)\<rparr>)"
  shows "owner_inv s' \<and> (\<exists>ys. line_inv s' ys)"
proof
  have nz: "wake \<noteq> 0" using assms(1,2) post_nonzero by simp
  have pw: "passing (cs_pc s w) = wake" using assms(1) by simp
  note D = owner_invD [OF assms(3)]
  have o: "cs_owner s = wake" "waiting (cs_pc s wake)" "cs_posted s = {}" using D(2-4) [of w] pw nz by simp_all
  have ne: "w \<noteq> wake" using o(2) assms(1) by auto
  have "passing (cs_pc s v) = 0" if "v \<noteq> w" for v using D(7) [of w v] that pw nz by auto
  moreover have "\<not> owning (cs_pc s v)" for v using D(1) [of v] o by (cases "cs_pc s wake") auto
  ultimately have k: "owning (cs_pc s' v) \<longleftrightarrow> False" "passing (cs_pc s' v) = 0" "waiting (cs_pc s' wake) = True" for v
    using o(2) ne by (simp_all add: assms(5))
  have f: "cs_posted s' = {wake}" "cs_owner s' = wake" "cm_held (cs_m s') = True" using o owner_inv_held [OF assms(3)] nz by (simp_all add: assms(5))
  show "owner_inv s'" using nz unfolding owner_inv_def k f by (simp add: k)
  have "line_inv s' xs" using assms(1,4) by (auto simp: line_inv_def assms(5) split: if_splits)
  then show "\<exists>ys. line_inv s' ys" ..
qed

lemma line_step:
  assumes "cm_step s s'" "guard_inv s" "owner_inv s" "line_inv s xs"
  shows "owner_inv s' \<and> (\<exists>ys. line_inv s' ys)"
  using assms
proof (induction rule: cm_step.induct)
  case (lock w s)
  show ?case using lock by (intro lock_step [OF lock(1,2,4,5)]) simp_all
next
  case (acq_guard s w)
  show ?case by (rule quiet_step [OF acq_guard(4,5)]) (use acq_guard in \<open>auto split: if_splits\<close>)
next
  case (acq_leave s w queued)
  show ?case by (rule quiet_step [OF acq_leave(3,4)]) (use acq_leave in \<open>auto split: if_splits\<close>)
next
  case (acq_return s w queued)
  show ?case by (rule quiet_step [OF acq_return(3,4), where b = "cm_queue_lock (cs_m s)"]) (use acq_return in \<open>auto split: if_splits\<close>)
next
  case (sync_guard s w)
  show ?case by (rule quiet_step [OF sync_guard(4,5)]) (use sync_guard in \<open>auto split: if_splits\<close>)
next
  case (sync_leave s w)
  show ?case by (rule quiet_step [OF sync_leave(3,4)]) (use sync_leave in \<open>auto split: if_splits\<close>)
next
  case (unlock s w)
  show ?case by (rule quiet_step [OF unlock(3,4), where b = "cm_queue_lock (cs_m s)"]) (use unlock in \<open>auto split: if_splits\<close>)
next
  case (rel_guard s w)
  show ?case by (rule quiet_step [OF rel_guard(4,5)]) (use rel_guard in \<open>auto split: if_splits\<close>)
next
  case (rel_leave s w wake)
  show ?case by (rule quiet_step [OF rel_leave(3,4)]) (use rel_leave in \<open>auto split: if_splits\<close>)
next
  case (acquire s w m)
  show ?case by (rule acquire_step [OF acquire refl])
next
  case (queue s w m)
  show ?case by (rule queue_step [OF queue refl])
next
  case (resume s w)
  show ?case by (rule resume_step [OF resume refl])
next
  case (release s w wake m)
  show ?case by (rule release_step [OF release refl])
next
  case (post s w wake)
  show ?case by (rule post_step [OF post refl])
qed

lemma cm_reach_inv: "cm_reach s \<Longrightarrow> guard_inv s \<and> owner_inv s \<and> (\<exists>xs. line_inv s xs)"
proof (induction rule: cm_reach.induct)
  case new
  show ?case by (auto simp: cm_new_def guard_inv_def owner_inv_def line_inv_def queue_ok_def intro!: exI [of _ "[]"])
next
  case (step s s')
  then show ?case using guard_step line_step by blast
qed

text \<open>
  C9: mutual exclusion. In every interleaving of any number of coroutines on any workers, at most
  one of them is between acquiring the mutex, directly or by hand-over, and the moment its
  release takes effect; and the queue guard never has two holders.
\<close>

theorem CrossWorkerMutex_exclusive:
  assumes "cm_reach s"
  shows "(owning (cs_pc s a) \<longrightarrow> owning (cs_pc s b) \<longrightarrow> a = b) \<and> (guarding (cs_pc s a) \<longrightarrow> guarding (cs_pc s b) \<longrightarrow> a = b)"
  using cm_reach_inv [OF assms] owner_invD(1) guard_unique by metis

text \<open>A run of two coroutines: the first acquires the mutex, the second is queued.\<close>

lemma contended_run:
  "\<exists>s. cm_reach s \<and> cs_pc s 1 = COwner \<and> cs_pc s 2 = CSuspended \<and> cs_owner s = 1 \<and> cs_arrived s = [2] \<and> cs_granted s = []"
proof -
  define m where "m = \<lparr>cm_queue_lock = False, cm_held = False, cm_head = 0, cm_tail = 0, cm_next = (\<lambda>_. 0)\<rparr>"
  define st where "st = (\<lambda>m p q ow g a. \<lparr>cs_m = m, cs_pc = (\<lambda>w. if w = 1 then p else if w = 2 then q else COut), cs_posted = {}, cs_owner = ow, cs_guard = g,
    cs_arrived = a, cs_granted = ([] :: nat list)\<rparr>)"
  note step = cm_reach.step [OF _ cm_step.lock] cm_reach.step [OF _ cm_step.acq_guard] cm_reach.step [OF _ cm_step.acquire]
    cm_reach.step [OF _ cm_step.queue] cm_reach.step [OF _ cm_step.acq_leave] cm_reach.step [OF _ cm_step.acq_return]
  have "st m COut COut 0 0 [] = cm_new" by (auto simp: st_def m_def cm_new_def fun_eq_iff)
  then have "cm_reach (st m COut COut 0 0 [])" using cm_reach.new by simp
  then have "cm_reach (st m CAcqSpin COut 0 0 [])" by (rule step(1) [of _ 1, THEN back_subst [of cm_reach]]) (auto simp: st_def m_def fun_eq_iff)
  then have "cm_reach (st (m\<lparr>cm_queue_lock := True\<rparr>) CAcq COut 0 1 [])" by (rule step(2) [of _ 1, THEN back_subst [of cm_reach]]) (auto simp: st_def m_def fun_eq_iff)
  then have "cm_reach (st (m\<lparr>cm_queue_lock := True, cm_held := True\<rparr>) (CAcqLeave False) COut 1 1 [])"
    by (rule step(3) [of _ 1 "m\<lparr>cm_queue_lock := True, cm_held := True\<rparr>", THEN back_subst [of cm_reach]]) (auto simp: st_def m_def fun_eq_iff AcquireOrQueue_def)
  then have "cm_reach (st (m\<lparr>cm_held := True\<rparr>) (CReturn False) COut 1 0 [])" by (rule step(5) [of _ 1 False, THEN back_subst [of cm_reach]]) (auto simp: st_def m_def fun_eq_iff)
  then have "cm_reach (st (m\<lparr>cm_held := True\<rparr>) COwner COut 1 0 [])" by (rule step(6) [of _ 1 False, THEN back_subst [of cm_reach]]) (auto simp: st_def m_def fun_eq_iff)
  then have "cm_reach (st (m\<lparr>cm_held := True\<rparr>) COwner CAcqSpin 1 0 [])" by (rule step(1) [of _ 2, THEN back_subst [of cm_reach]]) (auto simp: st_def m_def fun_eq_iff)
  then have "cm_reach (st (m\<lparr>cm_queue_lock := True, cm_held := True\<rparr>) COwner CAcq 1 2 [])" by (rule step(2) [of _ 2, THEN back_subst [of cm_reach]]) (auto simp: st_def m_def fun_eq_iff)
  then have "cm_reach (st (m\<lparr>cm_queue_lock := True, cm_held := True, cm_head := 2, cm_tail := 2\<rparr>) COwner (CAcqLeave True) 1 2 [2])"
    by (rule step(4) [of _ 2 "m\<lparr>cm_queue_lock := True, cm_held := True, cm_head := 2, cm_tail := 2\<rparr>", THEN back_subst [of cm_reach]])
      (auto simp: st_def m_def fun_eq_iff AcquireOrQueue_def)
  then have "cm_reach (st (m\<lparr>cm_held := True, cm_head := 2, cm_tail := 2\<rparr>) COwner (CReturn True) 1 0 [2])"
    by (rule step(5) [of _ 2 True, THEN back_subst [of cm_reach]]) (auto simp: st_def m_def fun_eq_iff)
  then have "cm_reach (st (m\<lparr>cm_held := True, cm_head := 2, cm_tail := 2\<rparr>) COwner CSuspended 1 0 [2])"
    by (rule step(6) [of _ 2 True, THEN back_subst [of cm_reach]]) (auto simp: st_def m_def fun_eq_iff)
  then show ?thesis by (intro exI conjI) (assumption | simp add: st_def)+
qed

theorem CrossWorkerMutex_exclusive_witness: "\<exists>s. cm_reach s \<and> cs_pc s 1 = COwner \<and> \<not> owning (cs_pc s 2)"
  using contended_run CrossWorkerMutex_exclusive [of _ 1 2] by force

text \<open>
  C12: hand-over in arrival order, and no lost waiter. The coroutines the mutex was handed to,
  followed by those in the linked queue, are exactly the coroutines that were queued, in the order
  they were queued; every waiting coroutine is in the queue or has been chosen as the next owner;
  and while anybody waits there is an owner that is running towards its release, or whose
  resumption is under way.
\<close>

theorem CrossWorkerMutex_fifo_handover:
  assumes "cm_reach s"
  shows "\<exists>xs. cs_arrived s = cs_granted s @ xs \<and> chain (cm_next (cs_m s)) (cm_head (cs_m s)) xs \<and>
    {w. waiting (cs_pc s w)} - {cs_owner s} = set xs \<and>
    ((\<exists>w. waiting (cs_pc s w)) \<longrightarrow> cs_owner s \<noteq> 0 \<and>
      (owning (cs_pc s (cs_owner s)) \<or> cs_owner s \<in> cs_posted s \<or> (\<exists>r. passing (cs_pc s r) = cs_owner s)))"
proof -
  obtain xs where i: "guard_inv s" "owner_inv s" "line_inv s xs" using cm_reach_inv [OF assms] by blast
  have "cs_owner s \<noteq> 0" if "waiting (cs_pc s w)" for w
  proof
    assume o: "cs_owner s = 0"
    have "w \<noteq> 0" using pc_nonzero [OF i(1), of w] that by (cases "cs_pc s w") auto
    then have "w \<in> set xs" using i(3) that o by (auto simp: line_inv_def)
    moreover have "xs = []" using i(3) owner_inv_held [OF i(2)] o by (simp add: line_inv_def queue_ok_def)
    ultimately show False by simp
  qed
  then have "(\<exists>w. waiting (cs_pc s w)) \<longrightarrow> cs_owner s \<noteq> 0 \<and>
      (owning (cs_pc s (cs_owner s)) \<or> cs_owner s \<in> cs_posted s \<or> (\<exists>r. passing (cs_pc s r) = cs_owner s))"
    using owner_inv_progress [OF i(2)] by blast
  moreover have "cs_arrived s = cs_granted s @ xs" "chain (cm_next (cs_m s)) (cm_head (cs_m s)) xs" "{w. waiting (cs_pc s w)} - {cs_owner s} = set xs"
    using i(3) by (auto simp: line_inv_def queue_ok_def)
  ultimately show ?thesis by blast
qed

theorem CrossWorkerMutex_fifo_handover_witness:
  "\<exists>s. cm_reach s \<and> waiting (cs_pc s 2) \<and> cs_arrived s = [2] \<and> chain (cm_next (cs_m s)) (cm_head (cs_m s)) [2] \<and> cs_owner s \<noteq> 0"
proof -
  obtain s where s: "cm_reach s" "cs_pc s 2 = CSuspended" "cs_arrived s = [2]" "cs_granted s = []" "cs_owner s = 1" using contended_run by blast
  from CrossWorkerMutex_fifo_handover [OF s(1)] s show ?thesis by (intro exI [of _ s]) auto
qed

section \<open>Barrier\<close>

definition br_ok :: "barrier \<Rightarrow> bool" where
  "br_ok b \<longleftrightarrow> (br_completed b \<longrightarrow> br_waiters b = []) \<and>
     (\<not> br_completed b \<longrightarrow> unat (br_arrived b) = length (br_waiters b) \<and> br_arrived b < br_participants b)"

lemma Arrive_ok:
  assumes "br_ok b" "br_Arrive worker h b = (susp, woken, b')"
  shows "br_ok b' \<and> br_waiters b @ (if susp then [(worker, h)] else []) = woken @ br_waiters b' \<and> br_participants b' = br_participants b \<and>
    (br_completed b \<longrightarrow> \<not> susp \<and> woken = [] \<and> br_completed b') \<and> (\<not> br_completed b' \<longrightarrow> woken = []) \<and>
    (woken = [] \<or> length woken = unat (br_participants b) \<and> br_completed b')"
proof (cases "br_completed b")
  case True
  then show ?thesis using assms by (simp add: br_Arrive_def)
next
  case False
  have lt: "br_arrived b < br_participants b" and l: "unat (br_arrived b) = length (br_waiters b)" using assms(1) False by (simp_all add: br_ok_def)
  have u: "unat (br_arrived b + 1) = Suc (length (br_waiters b))" using unat_plus_one_less [OF lt] l by simp
  have le: "br_arrived b + 1 \<le> br_participants b" using inc_le [OF lt] by (simp add: add.commute)
  show ?thesis
  proof (cases "br_arrived b + 1 = br_participants b")
    case True
    then show ?thesis using assms(2) False u by (auto simp: br_Arrive_def br_ok_def Let_def)
  next
    case ne: False
    then have "br_arrived b + 1 < br_participants b" using le by simp
    then show ?thesis using assms(2) False ne u by (auto simp: br_Arrive_def br_ok_def Let_def)
  qed
qed

lemma Abort_ok:
  assumes "br_ok b" "br_Abort st b = (woken, b')"
  shows "br_ok b' \<and> br_waiters b = woken @ br_waiters b' \<and> br_participants b' = br_participants b \<and>
    (br_completed b \<longrightarrow> woken = [] \<and> br_completed b') \<and> (\<not> br_completed b' \<longrightarrow> woken = [])"
  using assms by (auto simp: br_Abort_def br_ok_def split: if_splits)

lemma br_run_ok:
  assumes "br_ok b" "br_run es b = (susp, woken, b')"
  shows "br_ok b' \<and> br_waiters b @ susp = woken @ br_waiters b' \<and> br_participants b' = br_participants b \<and>
    (br_completed b \<longrightarrow> susp = [] \<and> woken = [] \<and> br_completed b') \<and> (\<not> br_completed b' \<longrightarrow> woken = []) \<and>
    ((\<forall>st. BAbort st \<notin> set es) \<longrightarrow> woken = [] \<or> length woken = unat (br_participants b))"
  using assms
proof (induction es arbitrary: b susp woken)
  case (Cons e es)
  show ?case
  proof (cases e)
    case (BArrive worker h)
    obtain s1 w1 b1 where a: "br_Arrive worker h b = (s1, w1, b1)" by (cases "br_Arrive worker h b") auto
    obtain s2 w2 where r: "br_run es b1 = (s2, w2, b')" "susp = (if s1 then [(worker, h)] else []) @ s2" "woken = w1 @ w2"
      using Cons.prems(2) a BArrive by (auto split: prod.splits)
    note A = Arrive_ok [OF Cons.prems(1) a]
    then have B: "br_waiters b1 @ s2 = w2 @ br_waiters b'" using Cons.IH [OF _ r(1)] by blast
    have "br_waiters b @ susp = (br_waiters b @ (if s1 then [(worker, h)] else [])) @ s2" by (simp add: r(2))
    also have "\<dots> = woken @ br_waiters b'" using A B r(3) by simp
    finally show ?thesis using A Cons.IH [OF _ r(1)] r(2,3) BArrive by (auto split: if_splits)
  next
    case (BAbort st)
    obtain w1 b1 where a: "br_Abort st b = (w1, b1)" by (cases "br_Abort st b") auto
    obtain w2 where r: "br_run es b1 = (susp, w2, b')" "woken = w1 @ w2" using Cons.prems(2) a BAbort by (auto split: prod.splits)
    show ?thesis using Abort_ok [OF Cons.prems(1) a] Cons.IH [OF _ r(1)] r(2) BAbort by auto
  qed
qed simp

text \<open>
  The barrier releases its waiters together, each once. Over any sequence of arrivals and
  aborts at a barrier for at least one participant: the coroutines that were suspended are those
  that were woken followed by those still waiting, in arrival order; nobody waits once the barrier
  has completed, and nobody is woken before; and without an abort the wake-up comes exactly with
  the last participant, for all of them.
\<close>

lemma barrier_releases_each_once:
  assumes "n \<noteq> 0" "br_run es (br_new n) = (susp, woken, b)"
  shows "susp = woken @ br_waiters b \<and> (br_completed b \<longrightarrow> br_waiters b = []) \<and>
    (\<not> br_completed b \<longrightarrow> woken = [] \<and> length susp < unat n) \<and>
    ((\<forall>st. BAbort st \<notin> set es) \<longrightarrow> woken = [] \<or> length woken = unat n)"
proof -
  have "br_ok (br_new n)" using assms(1) by (simp add: br_ok_def br_new_def word_neq_0_conv)
  from br_run_ok [OF this assms(2)] show ?thesis by (auto simp: br_new_def br_ok_def word_less_nat_alt)
qed

end
