(* ===== verification/Dpdk_Sockets.thy ===== *)
theory Dpdk_Sockets
  imports Bycorf_Prelude
begin

text \<open>
  The worker-local table of socket handles, \<open>src/io/dpdk_socket_table.h\<close>: slots with a socket, a
  pin count and a link of the free list. A pin held by a queued operation keeps the number of a
  closed socket from being reused.
\<close>

definition kNoSlot :: u32 where "kNoSlot = - 1"

record slot =
  sk_socket :: nat
  sk_pins :: nat
  sk_next_free :: u32

definition empty_slot :: slot where "empty_slot = \<lparr>sk_socket = 0, sk_pins = 0, sk_next_free = kNoSlot\<rparr>"

record stable =
  tb_first :: int
  tb_capacity :: u32
  tb_free :: u32
  tb_slots :: "slot list"

definition slot_drained :: "slot \<Rightarrow> bool" where
  "slot_drained sl \<longleftrightarrow> sk_socket sl = 0 \<and> sk_pins sl = 0"

definition AssertDrained :: "stable \<Rightarrow> bool" where
  "AssertDrained t = list_all slot_drained (tb_slots t)"

text \<open>\<open>None\<close> is a failed assertion.\<close>

definition tb_Configure :: "int \<Rightarrow> u32 \<Rightarrow> stable \<Rightarrow> stable option" where
  "tb_Configure first capacity t =
     (if \<not> AssertDrained t \<or> first < 0 \<or> 2147483647 - first < uint capacity then None
      else Some (t\<lparr>tb_first := first, tb_capacity := capacity, tb_slots := [], tb_free := kNoSlot\<rparr>))"

definition tb_Index :: "stable \<Rightarrow> int \<Rightarrow> u32" where
  "tb_Index t handle = (if handle < tb_first t then kNoSlot else of_int (handle - tb_first t))"

definition upd_slot :: "u32 \<Rightarrow> (slot \<Rightarrow> slot) \<Rightarrow> stable \<Rightarrow> stable" where
  "upd_slot i f t = t\<lparr>tb_slots := (tb_slots t)[unat i := f (tb_slots t ! unat i)]\<rparr>"

definition tb_Recycle :: "u32 \<Rightarrow> stable \<Rightarrow> stable" where
  "tb_Recycle index t = (upd_slot index (\<lambda>sl. sl\<lparr>sk_next_free := tb_free t\<rparr>) t)\<lparr>tb_free := index\<rparr>"

definition tb_Insert :: "nat \<Rightarrow> stable \<Rightarrow> int \<times> stable" where
  "tb_Insert so t =
     (if tb_free t = kNoSlot \<and> length (tb_slots t) = unat (tb_capacity t) then (- 1, t)
      else let (index, t1) =
             (if tb_free t = kNoSlot
              then (of_nat (length (tb_slots t)), t\<lparr>tb_slots := tb_slots t @ [empty_slot]\<rparr>)
              else (tb_free t, t\<lparr>tb_free := sk_next_free (tb_slots t ! unat (tb_free t))\<rparr>))
           in (tb_first t + uint index, upd_slot index (\<lambda>sl. sl\<lparr>sk_socket := so\<rparr>) t1))"

definition tb_Find :: "int \<Rightarrow> stable \<Rightarrow> nat" where
  "tb_Find handle t =
     (let index = tb_Index t handle in
      if unat index < length (tb_slots t) then sk_socket (tb_slots t ! unat index) else 0)"

text \<open>A pin is the slot it holds.\<close>

definition pin_slot :: "u32 \<Rightarrow> stable \<Rightarrow> stable" where
  "pin_slot i t = upd_slot i (\<lambda>sl. sl\<lparr>sk_pins := sk_pins sl + 1\<rparr>) t"

definition tb_Acquire :: "int \<Rightarrow> stable \<Rightarrow> u32 option \<times> stable" where
  "tb_Acquire handle t =
     (if tb_Find handle t \<noteq> 0 then (Some (tb_Index t handle), pin_slot (tb_Index t handle) t) else (None, t))"

definition pin_get :: "u32 \<Rightarrow> stable \<Rightarrow> nat" where
  "pin_get i t = sk_socket (tb_slots t ! unat i)"

definition pin_Reset :: "u32 \<Rightarrow> stable \<Rightarrow> stable" where
  "pin_Reset i t =
     (let t1 = upd_slot i (\<lambda>sl. sl\<lparr>sk_pins := sk_pins sl - 1\<rparr>) t; sl = tb_slots t1 ! unat i in
      if sk_pins sl = 0 \<and> sk_socket sl = 0 then tb_Recycle i t1 else t1)"

definition tb_Close :: "int \<Rightarrow> stable \<Rightarrow> nat \<times> stable" where
  "tb_Close handle t =
     (let index = tb_Index t handle in
      if length (tb_slots t) \<le> unat index then (0, t)
      else let so = sk_socket (tb_slots t ! unat index); t1 = upd_slot index (\<lambda>sl. sl\<lparr>sk_socket := 0\<rparr>) t in
        (so, if so \<noteq> 0 \<and> sk_pins (tb_slots t1 ! unat index) = 0 then tb_Recycle index t1 else t1))"

text \<open>\<open>CloseAll\<close>: the sockets handed to the callback, and the table.\<close>

fun close_from :: "nat \<Rightarrow> nat \<Rightarrow> stable \<Rightarrow> nat list \<times> stable" where
  "close_from i 0 t = ([], t)"
| "close_from i (Suc n) t =
     (let (so, t1) = tb_Close (tb_first t + int i) t; (sos, t2) = close_from (Suc i) n t1
      in ((if so \<noteq> 0 then [so] else []) @ sos, t2))"

definition tb_CloseAll :: "stable \<Rightarrow> nat list \<times> stable" where
  "tb_CloseAll t = close_from 0 (length (tb_slots t)) t"

section \<open>Clients\<close>

text \<open>
  What the backend does with the table: insert sockets, look them up and pin them, copy and drop
  pins (a copied or moved pin is the same slot), and close handles. The second component lists
  the pins alive, each with the socket it was taken for.
\<close>

datatype tb_op = TInsert nat | TAcquire int | TCopy nat | TReset nat | TClose int

definition tb_step :: "tb_op \<Rightarrow> stable \<times> (u32 \<times> nat) list \<Rightarrow> stable \<times> (u32 \<times> nat) list" where
  "tb_step x p =
     (let (t, pins) = p in
      case x of
        TInsert so \<Rightarrow> if so = 0 then p else (snd (tb_Insert so t), pins)
      | TAcquire h \<Rightarrow>
          (case tb_Acquire h t of (None, t1) \<Rightarrow> (t1, pins) | (Some i, t1) \<Rightarrow> (t1, (i, tb_Find h t) # pins))
      | TCopy k \<Rightarrow> if k < length pins then (pin_slot (fst (pins ! k)) t, pins ! k # pins) else p
      | TReset k \<Rightarrow> if k < length pins then (pin_Reset (fst (pins ! k)) t, take k pins @ drop (Suc k) pins) else p
      | TClose h \<Rightarrow> (snd (tb_Close h t), pins))"

section \<open>The free list\<close>

fun free_chain :: "slot list \<Rightarrow> u32 \<Rightarrow> u32 list \<Rightarrow> bool" where
  "free_chain sls h [] \<longleftrightarrow> h = kNoSlot"
| "free_chain sls h (i # is) \<longleftrightarrow> h = i \<and> unat i < length sls \<and> free_chain sls (sk_next_free (sls ! unat i)) is"

definition pin_count :: "u32 \<Rightarrow> (u32 \<times> nat) list \<Rightarrow> nat" where
  "pin_count i pins = length (filter (\<lambda>p. fst p = i) pins)"

definition table_ok :: "stable \<Rightarrow> (u32 \<times> nat) list \<Rightarrow> u32 list \<Rightarrow> bool" where
  "table_ok t pins fl \<longleftrightarrow> free_chain (tb_slots t) (tb_free t) fl \<and> distinct fl \<and>
     (\<forall>i. i \<in> set fl \<longleftrightarrow> unat i < length (tb_slots t) \<and> slot_drained (tb_slots t ! unat i)) \<and>
     length (tb_slots t) \<le> unat (tb_capacity t) \<and> 0 \<le> tb_first t \<and> tb_first t + uint (tb_capacity t) \<le> 2147483647 \<and>
     (\<forall>i. unat i < length (tb_slots t) \<longrightarrow> sk_pins (tb_slots t ! unat i) = pin_count i pins) \<and>
     (\<forall>i so. (i, so) \<in> set pins \<longrightarrow> unat i < length (tb_slots t) \<and> so \<noteq> 0 \<and> sk_socket (tb_slots t ! unat i) \<in> {so, 0})"

lemma upd_slot_simps [simp]:
  "tb_first (upd_slot i f t) = tb_first t" "tb_capacity (upd_slot i f t) = tb_capacity t" "tb_free (upd_slot i f t) = tb_free t"
  "length (tb_slots (upd_slot i f t)) = length (tb_slots t)"
  by (simp_all add: upd_slot_def)

lemma upd_slot_nth: "unat j < length (tb_slots t) \<Longrightarrow> tb_slots (upd_slot i f t) ! unat j = (if i = j then f (tb_slots t ! unat j) else tb_slots t ! unat j)"
  by (auto simp: upd_slot_def nth_list_update word_unat_eq_iff)

lemma table_bounds:
  assumes "table_ok t pins fl"
  shows "length (tb_slots t) < 2147483648" "unat (tb_capacity t) < 2147483648"
proof -
  have "uint (tb_capacity t) \<le> 2147483647" "length (tb_slots t) \<le> unat (tb_capacity t)" using assms unfolding table_ok_def by linarith+
  moreover have "int (unat (tb_capacity t)) = uint (tb_capacity t)" by simp
  ultimately show "length (tb_slots t) < 2147483648" "unat (tb_capacity t) < 2147483648" by linarith+
qed

lemma free_chain_upd:
  "(\<And>i. i \<in> set fl \<Longrightarrow> sk_next_free (sls' ! unat i) = sk_next_free (sls ! unat i)) \<Longrightarrow> length sls \<le> length sls' \<Longrightarrow>
   free_chain sls h fl \<Longrightarrow> free_chain sls' h fl"
  by (induction fl arbitrary: h) auto

lemma index_handle: "i < 2147483648 \<Longrightarrow> unat (tb_Index t (tb_first t + int i)) = i"
  by (simp add: tb_Index_def unsigned_of_nat take_bit_nat_eq_self)

lemma kNoSlot_unat: "unat kNoSlot = 4294967295"
  by (simp add: kNoSlot_def unsigned_minus_1_eq_mask mask_eq_exp_minus_1)

text \<open>The invariant up to one slot \<open>e\<close> that the free list leaves out.\<close>

definition table_pre :: "stable \<Rightarrow> (u32 \<times> nat) list \<Rightarrow> u32 list \<Rightarrow> u32 \<Rightarrow> bool" where
  "table_pre t pins fl e \<longleftrightarrow> free_chain (tb_slots t) (tb_free t) fl \<and> distinct fl \<and>
     (\<forall>i. i \<in> set fl \<longleftrightarrow> unat i < length (tb_slots t) \<and> slot_drained (tb_slots t ! unat i) \<and> i \<noteq> e) \<and>
     length (tb_slots t) \<le> unat (tb_capacity t) \<and> 0 \<le> tb_first t \<and> tb_first t + uint (tb_capacity t) \<le> 2147483647 \<and>
     (\<forall>i. unat i < length (tb_slots t) \<longrightarrow> sk_pins (tb_slots t ! unat i) = pin_count i pins) \<and>
     (\<forall>i so. (i, so) \<in> set pins \<longrightarrow> unat i < length (tb_slots t) \<and> so \<noteq> 0 \<and> sk_socket (tb_slots t ! unat i) \<in> {so, 0})"

lemma ok_pre: "table_ok t pins fl \<Longrightarrow> i \<notin> set fl \<Longrightarrow> table_pre t pins fl i"
  unfolding table_ok_def table_pre_def by blast

lemma pre_ok: "table_pre t pins fl i \<Longrightarrow> \<not> slot_drained (tb_slots t ! unat i) \<Longrightarrow> table_ok t pins fl"
  unfolding table_ok_def table_pre_def by blast

lemma table_okD:
  assumes "table_ok t pins fl"
  shows "free_chain (tb_slots t) (tb_free t) fl" "distinct fl" "i \<in> set fl \<longleftrightarrow> unat i < length (tb_slots t) \<and> slot_drained (tb_slots t ! unat i)"
    "length (tb_slots t) \<le> unat (tb_capacity t)" "unat i < length (tb_slots t) \<Longrightarrow> sk_pins (tb_slots t ! unat i) = pin_count i pins"
    "(i, so) \<in> set pins \<Longrightarrow> unat i < length (tb_slots t)" "(i, so) \<in> set pins \<Longrightarrow> so \<noteq> 0"
    "(i, so) \<in> set pins \<Longrightarrow> sk_socket (tb_slots t ! unat i) \<in> {so, 0}"
  using assms unfolding table_ok_def by blast+

lemma upd_pre:
  assumes "table_pre t pins fl i" "unat i < length (tb_slots t)" "sk_pins (f (tb_slots t ! unat i)) = pin_count i pins'"
    "\<And>j. j \<noteq> i \<Longrightarrow> pin_count j pins' = pin_count j pins"
    "\<And>j so. (j, so) \<in> set pins' \<Longrightarrow> (if j = i then so \<noteq> 0 \<and> sk_socket (f (tb_slots t ! unat i)) \<in> {so, 0} else (j, so) \<in> set pins)"
  shows "table_pre (upd_slot i f t) pins' fl i"
proof -
  have pre: "free_chain (tb_slots t) (tb_free t) fl" "distinct fl" "\<And>j. j \<in> set fl \<longleftrightarrow> unat j < length (tb_slots t) \<and> slot_drained (tb_slots t ! unat j) \<and> j \<noteq> i"
    "length (tb_slots t) \<le> unat (tb_capacity t)" "0 \<le> tb_first t" "tb_first t + uint (tb_capacity t) \<le> 2147483647"
    "\<And>j. unat j < length (tb_slots t) \<Longrightarrow> sk_pins (tb_slots t ! unat j) = pin_count j pins"
    "\<And>j so. (j, so) \<in> set pins \<Longrightarrow> unat j < length (tb_slots t) \<and> so \<noteq> 0 \<and> sk_socket (tb_slots t ! unat j) \<in> {so, 0}"
    using assms(1) unfolding table_pre_def by blast+
  have chain: "free_chain (tb_slots (upd_slot i f t)) (tb_free t) fl"
    by (rule free_chain_upd [OF _ _ pre(1)]) (use pre(3) in \<open>auto simp: upd_slot_nth\<close>)
  have mem: "j \<in> set fl \<longleftrightarrow> unat j < length (tb_slots t) \<and> slot_drained (tb_slots (upd_slot i f t) ! unat j) \<and> j \<noteq> i" for j
    using pre(3) [of j] by (auto simp: upd_slot_nth)
  have cnt: "unat j < length (tb_slots t) \<Longrightarrow> sk_pins (tb_slots (upd_slot i f t) ! unat j) = pin_count j pins'" for j
    using pre(7) [of j] assms(3,4) by (cases "i = j") (simp_all add: upd_slot_nth)
  have pin: "unat j < length (tb_slots t) \<and> so \<noteq> 0 \<and> sk_socket (tb_slots (upd_slot i f t) ! unat j) \<in> {so, 0}" if p: "(j, so) \<in> set pins'" for j so
  proof (cases "j = i")
    case True
    then show ?thesis using assms(5) [OF p] assms(2) by (simp add: upd_slot_nth)
  next
    case False
    then have "(j, so) \<in> set pins" using assms(5) [OF p] by simp
    from pre(8) [OF this] False show ?thesis by (auto simp: upd_slot_nth)
  qed
  show ?thesis unfolding table_pre_def upd_slot_simps using chain pre(2,4-6) mem cnt pin by blast
qed

lemma Recycle_ok:
  assumes "table_pre t pins fl i" "unat i < length (tb_slots t)" "slot_drained (tb_slots t ! unat i)"
  shows "table_ok (tb_Recycle i t) pins (i # fl)"
proof -
  define t1 where "t1 = upd_slot i (\<lambda>sl. sl\<lparr>sk_next_free := tb_free t\<rparr>) t"
  have cnt: "pin_count i pins = sk_pins (tb_slots t ! unat i)" and sock: "\<And>so. (i, so) \<in> set pins \<Longrightarrow> so \<noteq> 0 \<and> sk_socket (tb_slots t ! unat i) \<in> {so, 0}"
    and ni: "i \<notin> set fl"
    using assms(1,2) unfolding table_pre_def by auto
  have p: "table_pre t1 pins fl i" unfolding t1_def by (rule upd_pre [OF assms(1,2)]) (use cnt sock in auto)
  have sl: "tb_slots t1 ! unat i = (tb_slots t ! unat i)\<lparr>sk_next_free := tb_free t\<rparr>" using assms(2) by (simp add: t1_def upd_slot_nth)
  have "tb_free t1 = tb_free t" "length (tb_slots t1) = length (tb_slots t)" by (simp_all add: t1_def)
  then have "free_chain (tb_slots t1) i (i # fl)" using p assms(2) sl by (simp add: table_pre_def)
  moreover have "slot_drained (tb_slots t1 ! unat i)" using assms(3) sl by (simp add: slot_drained_def)
  ultimately show ?thesis using p ni assms(2) unfolding table_ok_def table_pre_def tb_Recycle_def t1_def [symmetric] by (auto simp: t1_def)
qed

section \<open>Operations keep the table\<close>

lemma pin_count_Cons: "pin_count j (p # pins) = pin_count j pins + (if fst p = j then 1 else 0)"
  by (simp add: pin_count_def)

lemma pin_count_remove:
  "k < length pins \<Longrightarrow> pin_count j (take k pins @ drop (Suc k) pins) + (if fst (pins ! k) = j then 1 else 0) = pin_count j pins"
  unfolding pin_count_def by (subst (3) id_take_nth_drop [of k pins]) (simp_all add: filter_append)

lemma pin_count_pos: "(i, so) \<in> set pins \<Longrightarrow> 0 < pin_count i pins"
  by (force simp: pin_count_def filter_empty_conv)

text \<open>Pinning a slot that holds a socket or is pinned already.\<close>

lemma pin_slot_ok:
  assumes "table_ok t pins fl" "unat i < length (tb_slots t)" "\<not> slot_drained (tb_slots t ! unat i)" "so \<noteq> 0" "sk_socket (tb_slots t ! unat i) \<in> {so, 0}"
  shows "table_ok (pin_slot i t) ((i, so) # pins) fl"
proof -
  have ni: "i \<notin> set fl" using table_okD(3) [OF assms(1)] assms(3) by blast
  note D = table_okD [OF assms(1)]
  have sock: "(j, so') \<in> set ((i, so) # pins) \<Longrightarrow> (if j = i then so' \<noteq> 0 \<and> sk_socket (tb_slots t ! unat i) \<in> {so', 0} else (j, so') \<in> set pins)" for j so'
    using D(7,8) [of j so'] assms(4,5) by (cases "j = i") auto
  have "table_pre (pin_slot i t) ((i, so) # pins) fl i" unfolding pin_slot_def
  proof (rule upd_pre [OF ok_pre [OF assms(1) ni] assms(2)])
    fix j so' assume "(j, so') \<in> set ((i, so) # pins)"
    from sock [OF this] show "if j = i then so' \<noteq> 0 \<and> sk_socket ((tb_slots t ! unat i)\<lparr>sk_pins := sk_pins (tb_slots t ! unat i) + 1\<rparr>) \<in> {so', 0} else (j, so') \<in> set pins"
      by (cases "j = i") simp_all
  qed (simp_all add: pin_count_Cons D(5) [OF assms(2)])
  then show ?thesis by (rule pre_ok) (use assms(2) in \<open>simp add: pin_slot_def upd_slot_nth slot_drained_def\<close>)
qed

lemma Acquire_ok:
  assumes "table_ok t pins fl" "tb_Acquire h t = (Some i, t')"
  shows "table_ok t' ((i, tb_Find h t) # pins) fl"
proof -
  have f: "tb_Find h t \<noteq> 0" "i = tb_Index t h" "t' = pin_slot i t" using assms(2) by (auto simp: tb_Acquire_def split: if_splits)
  have u: "unat i < length (tb_slots t)" "tb_Find h t = sk_socket (tb_slots t ! unat i)" using f(1,2) by (auto simp: tb_Find_def Let_def split: if_splits)
  show ?thesis unfolding f(3) by (rule pin_slot_ok [OF assms(1) u(1)]) (use f(1) u(2) in \<open>auto simp: slot_drained_def\<close>)
qed

lemma Copy_ok:
  assumes "table_ok t pins fl" "k < length pins"
  shows "table_ok (pin_slot (fst (pins ! k)) t) (pins ! k # pins) fl"
proof -
  obtain i so where p1: "pins ! k = (i, so)" by fastforce
  then have "(i, so) \<in> set pins" using nth_mem [OF assms(2)] by simp
  note p = p1 this
  note D = table_okD [OF assms(1)]
  have u: "unat i < length (tb_slots t)" using D(6) [OF p(2)] .
  have "sk_pins (tb_slots t ! unat i) \<noteq> 0" using D(5) [OF u] pin_count_pos [OF p(2)] by simp
  then have "\<not> slot_drained (tb_slots t ! unat i)" by (simp add: slot_drained_def)
  then show ?thesis unfolding p(1) fst_conv by (rule pin_slot_ok [OF assms(1) u _ D(7) [OF p(2)] D(8) [OF p(2)]])
qed

lemma Reset_ok:
  assumes "table_ok t pins fl" "k < length pins" "pins' = take k pins @ drop (Suc k) pins"
  shows "\<exists>fl'. table_ok (pin_Reset (fst (pins ! k)) t) pins' fl'"
proof -
  obtain i so where p1: "pins ! k = (i, so)" by fastforce
  then have "(i, so) \<in> set pins" using nth_mem [OF assms(2)] by simp
  note p = p1 this
  note D = table_okD [OF assms(1)]
  have u: "unat i < length (tb_slots t)" using D(6) [OF p(2)] .
  have pos: "sk_pins (tb_slots t ! unat i) \<noteq> 0" using D(5) [OF u] pin_count_pos [OF p(2)] by simp
  have ni: "i \<notin> set fl" using D(3) pos by (auto simp: slot_drained_def)
  define t1 where "t1 = upd_slot i (\<lambda>sl. sl\<lparr>sk_pins := sk_pins sl - 1\<rparr>) t"
  have sub: "set pins' \<subseteq> set pins" unfolding assms(3) by (auto dest: in_set_takeD in_set_dropD)
  have cnt: "pin_count j pins' + (if i = j then 1 else 0) = pin_count j pins" for j
    using pin_count_remove [OF assms(2), of j] by (simp add: assms(3) p(1))
  have sock: "(j, so') \<in> set pins' \<Longrightarrow> (if j = i then so' \<noteq> 0 \<and> sk_socket (tb_slots t ! unat i) \<in> {so', 0} else (j, so') \<in> set pins)" for j so'
    using D(7,8) [of j so'] sub by (cases "j = i") auto
  have "pin_count i pins' = sk_pins (tb_slots t ! unat i) - 1" "j \<noteq> i \<Longrightarrow> pin_count j pins' = pin_count j pins" for j
    using D(5) [OF u] cnt [of i] cnt [of j] by auto
  then have pre: "table_pre t1 pins' fl i" unfolding t1_def
    by (intro upd_pre [OF ok_pre [OF assms(1) ni] u]) (auto dest!: sock split: if_splits)
  have u1: "unat i < length (tb_slots t1)" using u by (simp add: t1_def)
  show ?thesis
  proof (cases "slot_drained (tb_slots t1 ! unat i)")
    case True
    then show ?thesis using Recycle_ok [OF pre u1 True] unfolding pin_Reset_def Let_def p(1) fst_conv t1_def [symmetric]
      by (auto simp: slot_drained_def)
  next
    case False
    then show ?thesis using pre_ok [OF pre False] unfolding pin_Reset_def Let_def p(1) fst_conv t1_def [symmetric]
      by (auto simp: slot_drained_def)
  qed
qed

lemma Close_ok:
  assumes "table_ok t pins fl" "tb_Close h t = (so, t')"
  shows "\<exists>fl'. table_ok t' pins fl'"
proof (cases "unat (tb_Index t h) < length (tb_slots t) \<and> sk_socket (tb_slots t ! unat (tb_Index t h)) \<noteq> 0")
  case False
  define i where "i = tb_Index t h"
  have "upd_slot i (\<lambda>sl. sl\<lparr>sk_socket := 0\<rparr>) t = t" if "sk_socket (tb_slots t ! unat i) = 0"
  proof -
    have "(tb_slots t ! unat i)\<lparr>sk_socket := 0\<rparr> = tb_slots t ! unat i" using that by simp
    then show ?thesis by (simp add: upd_slot_def)
  qed
  then have "t' = t" using False assms(2) unfolding tb_Close_def Let_def i_def [symmetric] by (auto split: if_splits)
  then show ?thesis using assms(1) by blast
next
  case True
  define i where "i = tb_Index t h"
  have u: "unat i < length (tb_slots t)" "sk_socket (tb_slots t ! unat i) \<noteq> 0" using True by (simp_all add: i_def)
  note D = table_okD [OF assms(1)]
  have ni: "i \<notin> set fl" using D(3) u(2) by (auto simp: slot_drained_def)
  define t1 where "t1 = upd_slot i (\<lambda>sl. sl\<lparr>sk_socket := 0\<rparr>) t"
  have pre: "table_pre t1 pins fl i" unfolding t1_def
    by (rule upd_pre [OF ok_pre [OF assms(1) ni] u(1)]) (use D(5) [OF u(1)] D(7) in auto)
  have u1: "unat i < length (tb_slots t1)" and z: "sk_socket (tb_slots t1 ! unat i) = 0" using u(1) by (simp_all add: t1_def upd_slot_nth)
  have t': "t' = (if sk_pins (tb_slots t1 ! unat i) = 0 then tb_Recycle i t1 else t1)"
    using assms(2) u unfolding tb_Close_def Let_def i_def [symmetric] t1_def [symmetric] by (auto split: if_splits)
  show ?thesis
  proof (cases "sk_pins (tb_slots t1 ! unat i) = 0")
    case True
    then show ?thesis using Recycle_ok [OF pre u1] z t' by (auto simp: slot_drained_def)
  next
    case False
    then show ?thesis using pre_ok [OF pre] t' by (auto simp: slot_drained_def)
  qed
qed

text \<open>Insertion: the handle names a slot that was neither in use nor pinned.\<close>

lemma fill_ok:
  assumes "table_pre t pins fl i" "unat i < length (tb_slots t)" "slot_drained (tb_slots t ! unat i)" "so \<noteq> 0"
  shows "table_ok (upd_slot i (\<lambda>sl. sl\<lparr>sk_socket := so\<rparr>) t) pins fl"
proof -
  have cnt: "pin_count i pins = 0" using assms(1-3) unfolding table_pre_def slot_drained_def by auto
  have none: "(i, so') \<notin> set pins" for so' using cnt pin_count_pos by fastforce
  have "table_pre (upd_slot i (\<lambda>sl. sl\<lparr>sk_socket := so\<rparr>) t) pins fl i"
    by (rule upd_pre [OF assms(1,2)]) (use assms(3) cnt none in \<open>auto simp: slot_drained_def\<close>)
  then show ?thesis by (rule pre_ok) (use assms(2,4) in \<open>simp add: upd_slot_nth slot_drained_def\<close>)
qed

lemma Insert_reuse:
  assumes "table_ok t pins fl" "tb_free t \<noteq> kNoSlot" "so \<noteq> 0"
  shows "\<exists>fl'. table_ok (upd_slot (tb_free t) (\<lambda>sl. sl\<lparr>sk_socket := so\<rparr>) (t\<lparr>tb_free := sk_next_free (tb_slots t ! unat (tb_free t))\<rparr>)) pins fl'"
    "unat (tb_free t) < length (tb_slots t)" "slot_drained (tb_slots t ! unat (tb_free t))" "tb_first t + uint (tb_free t) = tb_first t + int (unat (tb_free t))"
proof -
  note D = table_okD [OF assms(1)]
  obtain fl1 where fl: "fl = tb_free t # fl1" using D(1) assms(2) by (cases fl) auto
  have i: "unat (tb_free t) < length (tb_slots t)" "slot_drained (tb_slots t ! unat (tb_free t))" using D(3) [of "tb_free t"] fl by auto
  define t1 where "t1 = t\<lparr>tb_free := sk_next_free (tb_slots t ! unat (tb_free t))\<rparr>"
  have "table_pre t1 pins fl1 (tb_free t)"
    using assms(1) unfolding table_pre_def table_ok_def t1_def fl by auto
  from fill_ok [OF this _ _ assms(3)] i show "\<exists>fl'. table_ok (upd_slot (tb_free t) (\<lambda>sl. sl\<lparr>sk_socket := so\<rparr>) (t\<lparr>tb_free := sk_next_free (tb_slots t ! unat (tb_free t))\<rparr>)) pins fl'"
    by (auto simp: t1_def)
  show "unat (tb_free t) < length (tb_slots t)" "slot_drained (tb_slots t ! unat (tb_free t))" by (fact i)+
  show "tb_first t + uint (tb_free t) = tb_first t + int (unat (tb_free t))" by simp
qed

lemma Insert_new:
  assumes "table_ok t pins fl" "tb_free t = kNoSlot" "length (tb_slots t) \<noteq> unat (tb_capacity t)" "so \<noteq> 0"
  defines "i \<equiv> of_nat (length (tb_slots t)) :: u32"
  shows "table_ok (upd_slot i (\<lambda>sl. sl\<lparr>sk_socket := so\<rparr>) (t\<lparr>tb_slots := tb_slots t @ [empty_slot]\<rparr>)) pins []" "unat i = length (tb_slots t)"
proof -
  note D = table_okD [OF assms(1)]
  have len: "length (tb_slots t) < 2147483648" using table_bounds [OF assms(1)] by simp
  then show ui: "unat i = length (tb_slots t)" by (simp add: i_def unsigned_of_nat take_bit_nat_eq_self)
  have fl: "fl = []"
  proof (rule ccontr)
    assume "fl \<noteq> []"
    then have "unat kNoSlot < length (tb_slots t)" using D(1) assms(2) by (cases fl) auto
    then show False using len by (simp add: kNoSlot_unat)
  qed
  define t1 where "t1 = t\<lparr>tb_slots := tb_slots t @ [empty_slot]\<rparr>"
  have nth1: "unat j < length (tb_slots t1) \<Longrightarrow> tb_slots t1 ! unat j = (if j = i then empty_slot else tb_slots t ! unat j) \<and> (j \<noteq> i \<longrightarrow> unat j < length (tb_slots t))" for j
    using ui by (auto simp: t1_def nth_append less_Suc_eq word_unat_eq_iff)
  have nopin: "pin_count i pins = 0" using D(6) [of i] ui by (auto simp: pin_count_def filter_empty_conv)
  have "table_pre t1 pins [] i"
    unfolding table_pre_def
  proof (intro conjI allI impI)
    show "free_chain (tb_slots t1) (tb_free t1) []" by (simp add: t1_def assms(2))
    show "(j \<in> set []) = (unat j < length (tb_slots t1) \<and> slot_drained (tb_slots t1 ! unat j) \<and> j \<noteq> i)" for j
      using nth1 [of j] D(3) [of j] fl by (cases "j = i") auto
    show "length (tb_slots t1) \<le> unat (tb_capacity t1)" using D(4) assms(3) by (simp add: t1_def)
    show "0 \<le> tb_first t1" "tb_first t1 + uint (tb_capacity t1) \<le> 2147483647" using assms(1) by (simp_all add: t1_def table_ok_def)
    show "sk_pins (tb_slots t1 ! unat j) = pin_count j pins" if "unat j < length (tb_slots t1)" for j
      using nth1 [OF that] D(5) [of j] nopin by (cases "j = i") (simp_all add: empty_slot_def)
    fix j so' assume p: "(j, so') \<in> set pins"
    have "j \<noteq> i" using D(6) [OF p] ui by auto
    then have n: "tb_slots t1 ! unat j = tb_slots t ! unat j" using nth1 [of j] D(6) [OF p] by (simp add: t1_def)
    show "unat j < length (tb_slots t1)" using D(6) [OF p] by (simp add: t1_def)
    show "so' \<noteq> 0" "sk_socket (tb_slots t1 ! unat j) \<in> {so', 0}" unfolding n using D(7,8) [OF p] .
  qed simp
  moreover have "tb_slots t1 ! unat i = empty_slot" "unat i < length (tb_slots t1)" using ui by (simp_all add: t1_def)
  ultimately show "table_ok (upd_slot i (\<lambda>sl. sl\<lparr>sk_socket := so\<rparr>) (t\<lparr>tb_slots := tb_slots t @ [empty_slot]\<rparr>)) pins []"
    using fill_ok [of t1 pins "[]" i so] assms(4) by (simp add: t1_def slot_drained_def empty_slot_def)
qed

lemma int_unat_u32: "int (unat w) = uint w" for w :: u32
  by simp

lemma Insert_spec:
  assumes "table_ok t pins fl" "so \<noteq> 0" "tb_Insert so t = (h, t')"
  shows "(\<exists>fl'. table_ok t' pins fl') \<and>
    (h = - 1 \<and> t' = t \<or>
     (\<exists>i. h = tb_first t + int i \<and> i < unat (tb_capacity t) \<and> (i < length (tb_slots t) \<longrightarrow> slot_drained (tb_slots t ! i)) \<and>
        i < length (tb_slots t') \<and> sk_socket (tb_slots t' ! i) = so))"
proof -
  consider "tb_free t = kNoSlot" "length (tb_slots t) = unat (tb_capacity t)" | "tb_free t = kNoSlot" "length (tb_slots t) \<noteq> unat (tb_capacity t)"
    | "tb_free t \<noteq> kNoSlot" by blast
  then show ?thesis
  proof cases
    case 1
    then show ?thesis using assms by (auto simp: tb_Insert_def)
  next
    case 2
    note n = Insert_new [OF assms(1) 2 assms(2)]
    have ui: "uint (of_nat (length (tb_slots t)) :: u32) = int (length (tb_slots t))"
      using arg_cong [OF n(2), of int] unfolding int_unat_u32 .
    have "h = tb_first t + int (length (tb_slots t))" "t' = upd_slot (of_nat (length (tb_slots t))) (\<lambda>sl. sl\<lparr>sk_socket := so\<rparr>) (t\<lparr>tb_slots := tb_slots t @ [empty_slot]\<rparr>)"
      using assms(3) 2 ui by (simp_all add: tb_Insert_def)
    moreover have "length (tb_slots t) < unat (tb_capacity t)" using table_okD(4) [OF assms(1)] 2(2) by simp
    moreover have "length (tb_slots t') = Suc (length (tb_slots t))" "sk_socket (tb_slots t' ! length (tb_slots t)) = so"
      unfolding calculation(2) using n(2) by (simp_all add: upd_slot_def)
    moreover have "\<exists>fl'. table_ok t' pins fl'" unfolding calculation(2) using n(1) by blast
    ultimately show ?thesis by (metis lessI less_irrefl)
  next
    case 3
    note r = Insert_reuse [OF assms(1) 3 assms(2)]
    have "h = tb_first t + int (unat (tb_free t))" "t' = upd_slot (tb_free t) (\<lambda>sl. sl\<lparr>sk_socket := so\<rparr>) (t\<lparr>tb_free := sk_next_free (tb_slots t ! unat (tb_free t))\<rparr>)"
      using assms(3) 3 by (simp_all add: tb_Insert_def)
    moreover have "unat (tb_free t) < length (tb_slots t')" "sk_socket (tb_slots t' ! unat (tb_free t)) = so"
      unfolding calculation(2) using r(2) by (simp_all add: upd_slot_def)
    moreover have "unat (tb_free t) < unat (tb_capacity t)" using r(2) table_okD(4) [OF assms(1)] by simp
    moreover have "\<exists>fl'. table_ok t' pins fl'" unfolding calculation(2) using r(1) .
    ultimately show ?thesis using r(3) by blast
  qed
qed

lemma tb_step_ok:
  assumes "\<exists>fl. table_ok (fst p) (snd p) fl"
  shows "\<exists>fl. table_ok (fst (tb_step x p)) (snd (tb_step x p)) fl"
proof -
  obtain t pins fl where p: "p = (t, pins)" "table_ok t pins fl" using assms by (cases p) auto
  show ?thesis
  proof (cases x)
    case (TInsert so)
    then show ?thesis using p Insert_spec [OF p(2), of so "fst (tb_Insert so t)" "snd (tb_Insert so t)"] by (auto simp: tb_step_def)
  next
    case (TAcquire h)
    have "table_ok (snd (tb_Acquire h t)) pins fl" if "fst (tb_Acquire h t) = None" using that p(2) by (auto simp: tb_Acquire_def split: if_splits)
    then show ?thesis using TAcquire p Acquire_ok [OF p(2), of h] by (cases "tb_Acquire h t") (auto simp: tb_step_def split: option.splits)
  next
    case (TCopy k)
    then show ?thesis using p Copy_ok [OF p(2), of k] by (auto simp: tb_step_def)
  next
    case (TReset k)
    then show ?thesis using p Reset_ok [OF p(2), of k] by (auto simp: tb_step_def)
  next
    case (TClose h)
    then show ?thesis using p Close_ok [OF p(2), of h "fst (tb_Close h t)" "snd (tb_Close h t)"] by (auto simp: tb_step_def)
  qed
qed

lemma tb_steps_ok: "\<exists>fl. table_ok (fst p) (snd p) fl \<Longrightarrow> \<exists>fl. table_ok (fst (fold tb_step xs p)) (snd (fold tb_step xs p)) fl"
proof (induction xs arbitrary: p)
  case (Cons x xs)
  show ?case using Cons.IH [OF tb_step_ok [OF Cons.prems]] by simp
qed simp

lemma Configure_ok: "tb_Configure first capacity t = Some t0 \<Longrightarrow> table_ok t0 [] []"
  by (auto simp: tb_Configure_def table_ok_def pin_count_def split: if_splits)

text \<open>
  C15: a socket number is not reused while an operation holds it. After any sequence of inserts,
  lookups, pin copies and drops and closes on a configured table, a pin leads to the socket it was
  taken for or, once that was closed, to none, never to another socket; and an insert that
  succeeds returns a number inside the worker's range that names no open socket and is held by
  no pin, and that names the new socket afterwards.
\<close>

theorem socket_numbers_not_reused_while_pinned:
  assumes "tb_Configure first capacity t = Some t0" "fold tb_step xs (t0, []) = (t1, pins)"
  shows "((i, so) \<in> set pins \<longrightarrow> pin_get i t1 = so \<or> pin_get i t1 = 0) \<and>
    (new \<noteq> 0 \<longrightarrow> tb_Insert new t1 = (h, t2) \<longrightarrow> h \<noteq> - 1 \<longrightarrow>
       tb_first t1 \<le> h \<and> h < tb_first t1 + uint (tb_capacity t1) \<and> tb_Find h t1 = 0 \<and> (tb_Index t1 h, so) \<notin> set pins \<and> tb_Find h t2 = new)"
proof -
  obtain fl where ok: "table_ok t1 pins fl" using tb_steps_ok [of "(t0, [])" xs] Configure_ok [OF assms(1)] assms(2) by auto
  note D = table_okD [OF ok]
  have "pin_get i t1 = so \<or> pin_get i t1 = 0" if "(i, so) \<in> set pins" using D(8) [OF that] by (auto simp: pin_get_def)
  moreover have "tb_first t1 \<le> h \<and> h < tb_first t1 + uint (tb_capacity t1) \<and> tb_Find h t1 = 0 \<and> (tb_Index t1 h, so) \<notin> set pins \<and> tb_Find h t2 = new"
    if n: "new \<noteq> 0" "tb_Insert new t1 = (h, t2)" "h \<noteq> - 1"
  proof -
    obtain k where k: "h = tb_first t1 + int k" "k < unat (tb_capacity t1)" "k < length (tb_slots t1) \<longrightarrow> slot_drained (tb_slots t1 ! k)"
      "k < length (tb_slots t2)" "sk_socket (tb_slots t2 ! k) = new"
      using Insert_spec [OF ok n(1,2)] n(3) by blast
    have lt: "k < 2147483648" using k(2) table_bounds(2) [OF ok] by simp
    have u1: "unat (tb_Index t1 h) = k" using index_handle [OF lt] by (simp add: k(1))
    have first: "tb_first t2 = tb_first t1" using n(2) by (auto simp: tb_Insert_def Let_def split: if_splits)
    then have u2: "unat (tb_Index t2 h) = k" using index_handle [OF lt, of t2] by (simp add: k(1))
    have "int k < uint (tb_capacity t1)" using k(2) by (metis int_unat_u32 of_nat_less_iff)
    moreover have "tb_Find h t1 = 0" using k(3) u1 by (auto simp: tb_Find_def Let_def slot_drained_def)
    moreover have "(tb_Index t1 h, so) \<notin> set pins"
      using D(5,6) [of "tb_Index t1 h"] pin_count_pos [of "tb_Index t1 h" so pins] k(3) u1 by (auto simp: slot_drained_def)
    moreover have "tb_Find h t2 = new" using k(4,5) u2 by (simp add: tb_Find_def Let_def)
    ultimately show ?thesis by (simp add: k(1))
  qed
  ultimately show ?thesis by blast
qed

text \<open>A closed socket with a pin: its number, 1024, is skipped by the next insert.\<close>

definition busy_table :: "stable \<times> (u32 \<times> nat) list" where
  "busy_table = fold tb_step [TInsert 7, TAcquire 1024, TClose 1024] (\<lparr>tb_first = 1024, tb_capacity = 8, tb_free = kNoSlot, tb_slots = []\<rparr>, [])"

theorem socket_numbers_not_reused_while_pinned_witness:
  "\<exists>t1 t2. busy_table = (t1, [(0, 7)]) \<and> pin_get 0 t1 = 0 \<and> tb_Insert 9 t1 = (1025, t2) \<and> tb_Find 1025 t1 = 0 \<and> tb_Find 1025 t2 = 9"
proof -
  have c: "tb_Configure 1024 8 \<lparr>tb_first = 0, tb_capacity = 0, tb_free = 0, tb_slots = []\<rparr> =
    Some \<lparr>tb_first = 1024, tb_capacity = 8, tb_free = kNoSlot, tb_slots = []\<rparr>"
    by (simp add: tb_Configure_def AssertDrained_def)
  note d = busy_table_def tb_step_def tb_Insert_def tb_Acquire_def tb_Find_def tb_Index_def tb_Close_def pin_slot_def upd_slot_def tb_Recycle_def empty_slot_def pin_get_def Let_def
  define t1 where "t1 = \<lparr>tb_first = 1024, tb_capacity = 8, tb_free = kNoSlot, tb_slots = [\<lparr>sk_socket = 0, sk_pins = 1, sk_next_free = kNoSlot\<rparr>]\<rparr>"
  have t1: "busy_table = (t1, [(0, 7)])" "pin_get 0 t1 = 0" by (simp_all add: d t1_def)
  obtain t2 where t2: "tb_Insert 9 t1 = (1025, t2)" by (simp add: d t1_def)
  from socket_numbers_not_reused_while_pinned [OF c, of "[TInsert 7, TAcquire 1024, TClose 1024]" t1 "[(0, 7)]" 0 7 9 1025 t2] t1 t2
  show ?thesis by (auto simp: busy_table_def)
qed

end
