(* ===== verification/Freebsd_Errno.thy ===== *)
theory Freebsd_Errno
  imports Bycorf_Prelude
begin

text \<open>
  \<open>src/io/freebsd_errno.h\<close>: the translation of FreeBSD error numbers to those of Linux. A name
  that Linux lacks has no case, as its preprocessor guard is false there, and falls to the default.
\<close>

definition bsd_cases_1 :: "(int \<times> int) list" where
  "bsd_cases_1 =
    [(0, 0), (1, 1), (2, 2), (3, 3), (4, 4), (5, 5), (6, 6), (7, 7), (8, 8), (9, 9), (10, 10), (11, 35),
     (12, 12), (13, 13), (14, 14), (15, 15), (16, 16), (17, 17), (18, 18), (19, 19), (20, 20), (21, 21), (22, 22), (23, 23),
     (24, 24), (25, 25), (26, 26), (27, 27), (28, 28), (29, 29), (30, 30), (31, 31), (32, 32), (33, 33)]"

definition bsd_cases_2 :: "(int \<times> int) list" where
  "bsd_cases_2 =
    [(34, 34), (35, 11), (36, 115), (37, 114), (38, 88), (39, 89), (40, 90), (41, 91), (42, 92), (43, 93), (44, 94), (45, 95),
     (46, 96), (47, 97), (48, 98), (49, 99), (50, 100), (51, 101), (52, 102), (53, 103), (54, 104), (55, 105), (56, 106), (57, 107),
     (58, 108), (59, 109), (60, 110), (61, 111), (62, 40), (63, 36), (64, 112), (65, 113), (66, 39)]"

definition bsd_cases_3 :: "(int \<times> int) list" where
  "bsd_cases_3 =
    [(68, 87), (69, 122), (70, 116), (71, 66), (77, 37), (78, 38), (82, 43), (83, 42), (84, 75), (85, 125), (86, 84), (89, 74),
     (90, 72), (91, 67), (92, 71), (95, 131), (96, 130)]"

definition BsdError :: "int \<Rightarrow> int" where
  "BsdError error = (case map_of (bsd_cases_1 @ bsd_cases_2 @ bsd_cases_3) error of None \<Rightarrow> EIO | Some e \<Rightarrow> e)"

lemmas errno_defs = EIO_def EBADF_def EAGAIN_def EINVAL_def EMFILE_def EAFNOSUPPORT_def EADDRINUSE_def EINPROGRESS_def ECANCELED_def

lemmas bsd_cases_defs = bsd_cases_1_def bsd_cases_2_def bsd_cases_3_def

text \<open>A number that only one case yields, and that is not the default, has one source.\<close>

lemma BsdError_source:
  assumes "filter (\<lambda>p. snd p = e) (bsd_cases_1 @ bsd_cases_2 @ bsd_cases_3) = [(n, e)]" "e \<noteq> EIO" "map_of (bsd_cases_1 @ bsd_cases_2 @ bsd_cases_3) n = Some e"
  shows "BsdError x = e \<longleftrightarrow> x = n"
proof
  assume "BsdError x = e"
  then have "map_of (bsd_cases_1 @ bsd_cases_2 @ bsd_cases_3) x = Some e" using assms(2) by (simp add: BsdError_def split: option.splits)
  then have "(x, e) \<in> set (filter (\<lambda>p. snd p = e) (bsd_cases_1 @ bsd_cases_2 @ bsd_cases_3))" using map_of_SomeD by fastforce
  then show "x = n" unfolding assms(1) by simp
qed (use assms(3) in \<open>simp add: BsdError_def del: map_of_append\<close>)

lemma BsdError_0 [simp]: "BsdError 0 = 0"
  by (simp add: BsdError_def bsd_cases_defs)

text \<open>
  The codes that steer the backend are translated exactly. Success is reported for success
  only, and "try again", "in progress", "address in use" and "cancelled" each stem from the one
  FreeBSD error of that name.
\<close>

lemma BsdError_control_codes:
  "(BsdError e = 0 \<longleftrightarrow> e = 0) \<and> (BsdError e = EAGAIN \<longleftrightarrow> e = 35) \<and> (BsdError e = EINPROGRESS \<longleftrightarrow> e = 36) \<and>
   (BsdError e = EADDRINUSE \<longleftrightarrow> e = 48) \<and> (BsdError e = ECANCELED \<longleftrightarrow> e = 85)"
proof (intro conjI)
  show "BsdError e = 0 \<longleftrightarrow> e = 0" by (rule BsdError_source) (simp_all add: bsd_cases_defs errno_defs)
  show "BsdError e = EAGAIN \<longleftrightarrow> e = 35" by (rule BsdError_source) (simp_all add: bsd_cases_defs errno_defs)
  show "BsdError e = EINPROGRESS \<longleftrightarrow> e = 36" by (rule BsdError_source) (simp_all add: bsd_cases_defs errno_defs)
  show "BsdError e = EADDRINUSE \<longleftrightarrow> e = 48" by (rule BsdError_source) (simp_all add: bsd_cases_defs errno_defs)
  show "BsdError e = ECANCELED \<longleftrightarrow> e = 85" by (rule BsdError_source) (simp_all add: bsd_cases_defs errno_defs)
qed

end
