(* ===== verification/Dpdk_Steering.thy ===== *)
theory Dpdk_Steering
  imports Dpdk_Sockets Freebsd_Errno
begin

text \<open>
  Packet placement of the DPDK backend, \<open>src/io/dpdk_backend.cpp\<close>: the worker a received frame
  belongs to, the ports of outgoing connections and the listeners' claims on ports, the partition
  of the handle space among the workers, and start-up configuration of listener workers.
\<close>

unbundle bit_operations_syntax

section \<open>The shared fabric\<close>

definition kFirstHandle :: u32 where "kFirstHandle = 0x40000000"
definition kClientPortFirst :: nat where "kClientPortFirst = 32768"
definition kClientPortLast :: nat where "kClientPortLast = 60999"
definition kListenerPortOwner :: nat where "kListenerPortOwner = 4294967295"

text \<open>The handle bits left to a worker, for a build capacity of workers.\<close>

definition kHandleBits :: "nat \<Rightarrow> nat" where "kHandleBits max_workers = 30 - bit_width (max_workers - 1)"
definition kHandleMask :: "nat \<Rightarrow> u32" where "kHandleMask max_workers = push_bit (kHandleBits max_workers) 1 - 1"

definition first_handle :: "nat \<Rightarrow> nat \<Rightarrow> u32" where
  "first_handle max_workers worker = kFirstHandle OR push_bit (kHandleBits max_workers) (of_nat worker)"

text \<open>The test of \<open>src/net/socket_ops.cpp\<close> that tells such handles from kernel descriptors.\<close>

definition IsDpdkSocket :: "int \<Rightarrow> bool" where "IsDpdkSocket handle \<longleftrightarrow> 0x40000000 \<le> handle"

text \<open>
  A packet buffer: its identity, its bytes, and whether its port is the invalid one that marks a
  frame made by this host. A null ring is \<open>None\<close>.
\<close>

record packet =
  pk_buf :: nat
  pk_bytes :: "u8 list"
  pk_local :: bool

record dlane =
  ln_rx :: "packet list option"
  ln_tx :: "packet list option"
  ln_parked :: bool
  ln_ring_fd :: int
  ln_rx_notification_fd :: int

definition new_lane :: dlane where
  "new_lane = \<lparr>ln_rx = None, ln_tx = None, ln_parked = False, ln_ring_fd = - 1, ln_rx_notification_fd = - 1\<rparr>"

record fabric =
  fb_prepared :: bool
  fb_stopped :: bool
  fb_bsd_ready :: bool
  fb_failure :: status
  fb_workers :: nat
  fb_queues :: nat
  fb_ready :: nat
  fb_lanes :: "dlane list"
  fb_port :: "nat option"
  fb_pool :: "nat option"
  fb_address :: "u8 list"
  fb_adaptive :: bool
  fb_tap :: bool
  fb_mlx5 :: bool
  fb_rss_owner :: bool
  fb_netvsc :: bool
  fb_listener_workers :: "(nat \<times> nat list) list"
  fb_port_owners :: "nat \<Rightarrow> nat"

definition fabric0 :: "nat \<Rightarrow> fabric" where
  "fabric0 max_workers =
     \<lparr>fb_prepared = False, fb_stopped = False, fb_bsd_ready = False, fb_failure = StOk, fb_workers = 0, fb_queues = 0,
      fb_ready = 0, fb_lanes = replicate max_workers new_lane, fb_port = None, fb_pool = None, fb_address = [0, 0, 0, 0],
      fb_adaptive = False, fb_tap = False, fb_mlx5 = False, fb_rss_owner = False, fb_netvsc = False,
      fb_listener_workers = [], fb_port_owners = (\<lambda>_. 0)\<rparr>"

definition placement_of :: "fabric \<Rightarrow> nat \<Rightarrow> nat list option" where
  "placement_of fb port = map_of (fb_listener_workers fb) port"

definition ConfigureListenerWorkers :: "nat \<Rightarrow> nat list \<Rightarrow> fabric \<Rightarrow> status \<times> fabric" where
  "ConfigureListenerWorkers port workers fb =
     (if fb_prepared fb \<or> workers = [] then (StFailedPrecondition, fb)
      else case placement_of fb port of
        None \<Rightarrow> (StOk, fb\<lparr>fb_listener_workers := (port, workers) # fb_listener_workers fb\<rparr>)
      | Some placement \<Rightarrow> if placement \<noteq> workers then (StInvalidArgument, fb) else (StOk, fb))"

section \<open>Placement of frames\<close>

definition Read16 :: "u8 list \<Rightarrow> nat \<Rightarrow> u16" where
  "Read16 p i = push_bit 8 (ucast (p ! i)) OR ucast (p ! (i + 1))"

definition fnv :: "u8 list \<Rightarrow> u32 \<Rightarrow> u32" where
  "fnv bytes h = fold (\<lambda>b h. (h XOR ucast b) * 16777619) bytes h"

definition ip_header_length :: "u8 list \<Rightarrow> nat" where
  "ip_header_length frame = unat (frame ! 14 AND 15) * 4"

definition flow_hash :: "u8 list \<Rightarrow> u8 list \<Rightarrow> u32" where
  "flow_hash addresses ports = (let h = fnv ports (fnv addresses 2166136261) in h XOR drop_bit 16 h)"

text \<open>The owner of a TCP segment, from its header fields.\<close>

definition segment_owner :: "fabric \<Rightarrow> nat \<Rightarrow> u8 list \<Rightarrow> u8 list \<Rightarrow> nat \<Rightarrow> int" where
  "segment_owner fb destination_port addresses ports rx_owner =
     (let placement = placement_of fb destination_port; owner = fb_port_owners fb destination_port in
      if placement = None \<and> owner \<noteq> 0 \<and> owner \<noteq> kListenerPortOwner then int (owner - 1)
      else if fb_rss_owner fb \<and> (case placement of None \<Rightarrow> True | Some ws \<Rightarrow> length ws = fb_workers fb) then int rx_owner
      else let hash = unat (flow_hash addresses ports) in
        case placement of
          Some ws \<Rightarrow> int (ws ! (hash mod length ws))
        | None \<Rightarrow> int (hash mod fb_workers fb))"

definition Destination :: "fabric \<Rightarrow> u8 list \<Rightarrow> nat \<Rightarrow> int" where
  "Destination fb frame rx_owner =
     (let len = length frame in
      if len < 14 then - 1
      else let type = Read16 frame 12 in
      if type = 0x0806 then - 2
      else if type \<noteq> 0x0800 \<or> len < 34 \<or> unat (drop_bit 4 (frame ! 14)) \<noteq> 4 then - 1
      else let ihl = ip_header_length frame in
      if ihl < 20 \<or> len < 14 + ihl \<or> Read16 frame 20 AND 0x3fff \<noteq> 0 then - 1
      else if frame ! 23 = 1 then - 2
      else if frame ! 23 \<noteq> 6 \<or> len < 14 + ihl + 20 then - 1
      else segment_owner fb (unat (Read16 frame (16 + ihl))) (take 8 (drop 26 frame)) (take 4 (drop (14 + ihl) frame)) rx_owner)"

section \<open>Ports\<close>

text \<open>
  A worker's sockets and its cursor into its stripe of ports. A call returns the handle, or the
  error it left in \<open>errno\<close>.
\<close>

record dworker =
  dw_id :: nat
  dw_next_client_port :: u32
  dw_sockets :: stable

text \<open>\<open>Own\<close>: the flag tells whether the socket was closed again for want of a handle.\<close>

definition Own :: "nat \<Rightarrow> dworker \<Rightarrow> (int + int) \<times> bool \<times> dworker" where
  "Own so w =
     (let (handle, t) = tb_Insert so (dw_sockets w); w1 = w\<lparr>dw_sockets := t\<rparr> in
      if handle < 0 then (Inl EMFILE, True, w1) else (Inr handle, False, w1))"

definition claim_port :: "nat \<Rightarrow> nat \<Rightarrow> fabric \<Rightarrow> bool \<times> fabric" where
  "claim_port port owner fb =
     (let previous = fb_port_owners fb port in
      if previous = 0 then (True, fb\<lparr>fb_port_owners := (fb_port_owners fb)(port := owner)\<rparr>) else (previous = owner, fb))"

text \<open>
  \<open>listen\<close> is the stack's answer: an error, or 0 and the new socket. The flag tells whether the
  call comes from a worker with an IPv4 address.
\<close>

definition Listen :: "int \<times> nat \<Rightarrow> bool \<Rightarrow> nat \<Rightarrow> fabric \<Rightarrow> dworker \<Rightarrow> (int + int) \<times> fabric \<times> dworker" where
  "Listen listen ipv4 port fb w =
     (if \<not> ipv4 then (Inl EAFNOSUPPORT, fb, w)
      else let (claimed, fb1) = claim_port port kListenerPortOwner fb in
        if \<not> claimed then (Inl EADDRINUSE, fb1, w)
        else if BsdError (fst listen) \<noteq> 0 then (Inl (BsdError (fst listen)), fb1, w)
        else let (r, closed, w1) = Own (snd listen) w in (r, fb1, w1))"

definition client_ports :: "fabric \<Rightarrow> nat \<Rightarrow> nat" where
  "client_ports fb worker = (kClientPortLast - kClientPortFirst - worker) div fb_workers fb + 1"

definition client_port :: "fabric \<Rightarrow> nat \<Rightarrow> nat \<Rightarrow> nat" where
  "client_port fb worker k = kClientPortFirst + worker + (k mod client_ports fb worker) * fb_workers fb"

text \<open>The rounds of \<open>OpenClient\<close>; \<open>open_client port\<close> is the stack's answer for a local port.\<close>

fun open_rounds :: "(nat \<Rightarrow> int \<times> nat) \<Rightarrow> nat \<Rightarrow> fabric \<Rightarrow> dworker \<Rightarrow> (int + int \<times> nat) \<times> fabric \<times> dworker" where
  "open_rounds open_client 0 fb w = (Inl EADDRINUSE, fb, w)"
| "open_rounds open_client (Suc n) fb w =
     (let port = client_port fb (dw_id w) (unat (dw_next_client_port w));
          w1 = w\<lparr>dw_next_client_port := dw_next_client_port w + 1\<rparr>
      in if placement_of fb port \<noteq> None then open_rounds open_client n fb w1
         else let (claimed, fb1) = claim_port port (dw_id w + 1) fb in
           if \<not> claimed then open_rounds open_client n fb1 w1
           else let (code, so) = open_client port; error = BsdError code in
             if error = 0 then (let (r, closed, w2) = Own so w1 in (case r of Inl e \<Rightarrow> Inl e | Inr h \<Rightarrow> Inr (h, port), fb1, w2))
             else if error \<noteq> EADDRINUSE then (Inl error, fb1, w1)
             else open_rounds open_client n fb1 w1)"

definition OpenClient :: "(nat \<Rightarrow> int \<times> nat) \<Rightarrow> bool \<Rightarrow> fabric \<Rightarrow> dworker \<Rightarrow> (int + int \<times> nat) \<times> fabric \<times> dworker" where
  "OpenClient open_client ipv4 fb w =
     (if \<not> ipv4 then (Inl EAFNOSUPPORT, fb, w) else open_rounds open_client (client_ports fb (dw_id w)) fb w)"

section \<open>Calls of all workers\<close>

text \<open>Any interleaving of the workers' calls that concern ports and handles.\<close>

datatype port_op = PoListen nat "int \<times> nat" bool nat | PoOpen nat "nat \<Rightarrow> int \<times> nat" bool | PoClose nat int

fun port_step :: "port_op \<Rightarrow> fabric \<times> dworker list \<Rightarrow> fabric \<times> dworker list" where
  "port_step (PoListen i listen ipv4 port) (fb, ws) =
     (if i < length ws then (let (r, fb1, w) = Listen listen ipv4 port fb (ws ! i) in (fb1, ws[i := w])) else (fb, ws))"
| "port_step (PoOpen i open_client ipv4) (fb, ws) =
     (if i < length ws then (let (r, fb1, w) = OpenClient open_client ipv4 fb (ws ! i) in (fb1, ws[i := w])) else (fb, ws))"
| "port_step (PoClose i handle) (fb, ws) =
     (if i < length ws then (fb, ws[i := (ws ! i)\<lparr>dw_sockets := snd (tb_Close handle (dw_sockets (ws ! i)))\<rparr>]) else (fb, ws))"

text \<open>The fabric after preparation, with one entry per worker.\<close>

definition prepared :: "fabric \<Rightarrow> dworker list \<Rightarrow> bool" where
  "prepared fb ws \<longleftrightarrow> (\<forall>p. fb_port_owners fb p = 0) \<and> 0 < fb_workers fb \<and> fb_workers fb < kListenerPortOwner \<and>
     list_all (\<lambda>(p, ids). ids \<noteq> [] \<and> list_all (\<lambda>i. i < fb_workers fb) ids) (fb_listener_workers fb) \<and>
     map dw_id ws = [0..<fb_workers fb]"

definition tcp_segment :: "u8 list \<Rightarrow> bool" where
  "tcp_segment frame \<longleftrightarrow> 54 \<le> length frame \<and> Read16 frame 12 = 0x0800 \<and> unat (drop_bit 4 (frame ! 14)) = 4 \<and>
     20 \<le> ip_header_length frame \<and> 14 + ip_header_length frame + 20 \<le> length frame \<and> Read16 frame 20 AND 0x3fff = 0 \<and> frame ! 23 = 6"

definition segment_port :: "u8 list \<Rightarrow> nat" where
  "segment_port frame = unat (Read16 frame (16 + ip_header_length frame))"

definition segment_addresses :: "u8 list \<Rightarrow> u8 list" where "segment_addresses frame = take 8 (drop 26 frame)"
definition segment_ports :: "u8 list \<Rightarrow> u8 list" where "segment_ports frame = take 4 (drop (14 + ip_header_length frame) frame)"

lemma Destination_segment:
  "tcp_segment frame \<Longrightarrow> Destination fb frame rx = segment_owner fb (segment_port frame) (segment_addresses frame) (segment_ports frame) rx"
  by (simp add: Destination_def tcp_segment_def Let_def segment_port_def segment_addresses_def segment_ports_def)

lemma nonneg_Destination_is_segment:
  assumes "0 \<le> Destination fb frame rx"
  shows "tcp_segment frame"
  using assms by (auto simp: Destination_def tcp_segment_def Let_def split: if_splits)

text \<open>The destination port is part of the hashed bytes.\<close>

lemma segment_port_of_ports: "tcp_segment f \<Longrightarrow> segment_port f = unat (Read16 (segment_ports f) 2)"
  by (simp add: tcp_segment_def segment_port_def segment_ports_def Read16_def add.commute)

section \<open>What the calls keep\<close>

definition fabric_le :: "fabric \<Rightarrow> fabric \<Rightarrow> bool" where
  "fabric_le fb fb' \<longleftrightarrow> fb_workers fb' = fb_workers fb \<and> fb_rss_owner fb' = fb_rss_owner fb \<and>
     fb_listener_workers fb' = fb_listener_workers fb \<and>
     (\<forall>p. fb_port_owners fb p \<noteq> 0 \<longrightarrow> fb_port_owners fb' p = fb_port_owners fb p)"

definition owners_ok :: "fabric \<Rightarrow> bool" where
  "owners_ok fb \<longleftrightarrow> (\<forall>p. fb_port_owners fb p \<le> fb_workers fb \<or> fb_port_owners fb p = kListenerPortOwner)"

lemma fabric_le_refl [simp]: "fabric_le fb fb"
  by (simp add: fabric_le_def)

lemma fabric_le_trans: "fabric_le a b \<Longrightarrow> fabric_le b c \<Longrightarrow> fabric_le a c"
  by (auto simp: fabric_le_def)

lemma claim_port_le: "claim_port port owner fb = (b, fb1) \<Longrightarrow> fabric_le fb fb1"
  by (auto simp: claim_port_def fabric_le_def Let_def split: if_splits)

lemma claim_port_owner: "claim_port port owner fb = (True, fb1) \<Longrightarrow> fb_port_owners fb1 port = owner"
  by (auto simp: claim_port_def Let_def split: if_splits)

lemma claim_port_ok: "claim_port port owner fb = (b, fb1) \<Longrightarrow> owners_ok fb \<Longrightarrow> owner \<le> fb_workers fb \<or> owner = kListenerPortOwner \<Longrightarrow> owners_ok fb1"
  by (auto simp: claim_port_def owners_ok_def Let_def split: if_splits)

lemma Own_id: "Own so w = (r, c, w1) \<Longrightarrow> dw_id w1 = dw_id w"
  by (auto simp: Own_def Let_def split: prod.splits if_splits)

lemma Listen_keeps:
  assumes "Listen l b port fb w = (r, fb1, w1)"
  shows "fabric_le fb fb1 \<and> dw_id w1 = dw_id w \<and> (owners_ok fb \<longrightarrow> owners_ok fb1)"
proof -
  obtain c fb2 where c: "claim_port port kListenerPortOwner fb = (c, fb2)" by fastforce
  from claim_port_le [OF c] claim_port_ok [OF c] show ?thesis
    using assms by (auto simp: Listen_def c Let_def split: if_splits prod.splits dest!: Own_id)
qed

lemma open_rounds_keeps:
  "open_rounds open_client n fb w = (r, fb1, w1) \<Longrightarrow> dw_id w < fb_workers fb \<Longrightarrow>
   fabric_le fb fb1 \<and> dw_id w1 = dw_id w \<and> (owners_ok fb \<longrightarrow> owners_ok fb1) \<and>
   (\<forall>h port. r = Inr (h, port) \<longrightarrow> placement_of fb port = None \<and> fb_port_owners fb1 port = dw_id w + 1 \<and>
      (\<exists>k. port = client_port fb (dw_id w) k))"
proof (induction open_client n fb w arbitrary: r fb1 w1 rule: open_rounds.induct)
  case (1 open_client fb w)
  then show ?case by auto
next
  case (2 open_client n fb w)
  define port where "port = client_port fb (dw_id w) (unat (dw_next_client_port w))"
  define w2 where "w2 = w\<lparr>dw_next_client_port := dw_next_client_port w + 1\<rparr>"
  obtain c fb2 where c: "claim_port port (dw_id w + 1) fb = (c, fb2)" by fastforce
  obtain code so where o: "open_client port = (code, so)" by fastforce
  define error where "error = BsdError code"
  obtain x cl w3 where ow: "Own so w2 = (x, cl, w3)" by (metis prod_cases3)
  have id: "dw_id w2 = dw_id w" "dw_id w3 = dw_id w" using Own_id [OF ow] by (simp_all add: w2_def)
  have cle: "fabric_le fb fb2" "owners_ok fb \<longrightarrow> owners_ok fb2" using claim_port_le [OF c] claim_port_ok [OF c] 2(5) by auto
  have w: "fb_workers fb2 = fb_workers fb" "placement_of fb2 = placement_of fb" "client_port fb2 = client_port fb"
    using cle(1) by (simp_all add: fabric_le_def placement_of_def client_port_def client_ports_def fun_eq_iff)
  note IH = 2(1) [OF port_def w2_def] 2(2) [OF port_def w2_def _ c [symmetric] refl] 2(3) [OF port_def w2_def _ c [symmetric] refl _ o [symmetric] refl error_def]
  note step = 2(4) [unfolded open_rounds.simps Let_def, folded port_def w2_def, unfolded c o ow prod.case, folded error_def]
  consider "placement_of fb port \<noteq> None" | "placement_of fb port = None" "\<not> c" | "placement_of fb port = None" c "error = 0"
    | "placement_of fb port = None" c "error \<noteq> 0" "error \<noteq> EADDRINUSE" | "placement_of fb port = None" c "error = EADDRINUSE" "error \<noteq> 0" by blast
  then show ?case
  proof cases
    case 1
    then show ?thesis using IH(1) [of r fb1 w1] step 2(5) id by simp
  next
    case 2
    have "fabric_le fb2 fb1 \<and> dw_id w1 = dw_id w \<and> (owners_ok fb2 \<longrightarrow> owners_ok fb1) \<and>
      (\<forall>h port. r = Inr (h, port) \<longrightarrow> placement_of fb port = None \<and> fb_port_owners fb1 port = dw_id w + 1 \<and> (\<exists>k. port = client_port fb (dw_id w) k))"
      using IH(2) [of r fb1 w1] 2 step \<open>dw_id w < fb_workers fb\<close> id w by simp
    then show ?thesis using cle fabric_le_trans by blast
  next
    case 3
    then show ?thesis using step cle id claim_port_owner c by (auto simp: port_def split: sum.splits)
  next
    case 4
    then show ?thesis using step cle id by (auto simp: w2_def)
  next
    case 5
    have "fabric_le fb2 fb1 \<and> dw_id w1 = dw_id w \<and> (owners_ok fb2 \<longrightarrow> owners_ok fb1) \<and>
      (\<forall>h port. r = Inr (h, port) \<longrightarrow> placement_of fb port = None \<and> fb_port_owners fb1 port = dw_id w + 1 \<and> (\<exists>k. port = client_port fb (dw_id w) k))"
      using IH(3) [of r fb1 w1] 5 step \<open>dw_id w < fb_workers fb\<close> id w by simp
    then show ?thesis using cle fabric_le_trans by blast
  qed
qed

lemma OpenClient_keeps:
  assumes "OpenClient open_client b fb w = (r, fb1, w1)" "dw_id w < fb_workers fb"
  shows "fabric_le fb fb1 \<and> dw_id w1 = dw_id w \<and> (owners_ok fb \<longrightarrow> owners_ok fb1)"
  using assms open_rounds_keeps [of open_client "client_ports fb (dw_id w)" fb w r fb1 w1]
  by (auto simp: OpenClient_def split: if_splits)

definition run_ok :: "fabric \<times> dworker list \<Rightarrow> bool" where
  "run_ok s \<longleftrightarrow> owners_ok (fst s) \<and> map dw_id (snd s) = [0..<fb_workers (fst s)]"

lemma worker_id: "map dw_id ws = [0..<n] \<Longrightarrow> i < length ws \<Longrightarrow> dw_id (ws ! i) = i \<and> i < n"
proof -
  assume m: "map dw_id ws = [0..<n]" and i: "i < length ws"
  have "length ws = n" using arg_cong [OF m, of length] by simp
  moreover have "map dw_id ws ! i = [0..<n] ! i" by (simp add: m)
  ultimately show ?thesis using i by simp
qed

lemma set_worker: "map dw_id ws = [0..<n] \<Longrightarrow> i < length ws \<Longrightarrow> dw_id w = dw_id (ws ! i) \<Longrightarrow> map dw_id (ws[i := w]) = [0..<n]"
  using worker_id [of ws n i] by (simp add: map_update) (metis list_update_id length_upt map_update nth_map)

lemma port_step_keeps:
  assumes "run_ok s"
  shows "fabric_le (fst s) (fst (port_step x s)) \<and> run_ok (port_step x s)"
proof -
  obtain fb ws where s: "s = (fb, ws)" by fastforce
  have ok: "owners_ok fb" and m: "map dw_id ws = [0..<fb_workers fb]" using assms by (simp_all add: s run_ok_def)
  have fin: "fabric_le fb fb1 \<and> dw_id w = dw_id (ws ! i) \<and> (owners_ok fb \<longrightarrow> owners_ok fb1) \<Longrightarrow> i < length ws \<Longrightarrow>
     fabric_le fb fb1 \<and> run_ok (fb1, ws[i := w])" for fb1 w i
    using ok set_worker [OF m, of i w] by (simp add: run_ok_def fabric_le_def)
  show ?thesis
  proof (cases x)
    case (PoListen i l b port)
    obtain r fb1 w where e: "Listen l b port fb (ws ! i) = (r, fb1, w)" by (metis prod_cases3)
    show ?thesis using fin [OF Listen_keeps [OF e]] assms by (simp add: s PoListen e)
  next
    case (PoOpen i oc b)
    obtain r fb1 w where e: "OpenClient oc b fb (ws ! i) = (r, fb1, w)" by (metis prod_cases3)
    show ?thesis
    proof (cases "i < length ws")
      case True
      then have "dw_id (ws ! i) < fb_workers fb" using worker_id [OF m True] by simp
      from fin [OF OpenClient_keeps [OF e this] True] True show ?thesis by (simp add: s PoOpen e)
    qed (use assms in \<open>simp add: s PoOpen\<close>)
  next
    case (PoClose i h)
    show ?thesis using fin [of fb "(ws ! i)\<lparr>dw_sockets := snd (tb_Close h (dw_sockets (ws ! i)))\<rparr>" i] assms by (simp add: s PoClose)
  qed
qed

lemma port_run_keeps:
  "run_ok s \<Longrightarrow> fabric_le (fst s) (fst (fold port_step ops s)) \<and> run_ok (fold port_step ops s)"
proof (induction ops arbitrary: s)
  case (Cons x ops)
  from port_step_keeps [OF Cons(2)] Cons(1) [of "port_step x s"] show ?case using fabric_le_trans by auto
qed simp

lemma prepared_run_ok: "prepared fb ws \<Longrightarrow> run_ok (fb, ws)"
  by (simp add: prepared_def run_ok_def owners_ok_def)

lemma client_ports_gt0: "0 < client_ports fb i"
  by (simp add: client_ports_def)

lemma client_port_stripe:
  assumes "i < fb_workers fb" "fb_workers fb \<le> kClientPortLast - kClientPortFirst" "port = client_port fb i k"
  shows "kClientPortFirst \<le> port \<and> port \<le> kClientPortLast \<and> (port - kClientPortFirst) mod fb_workers fb = i"
proof -
  have "k mod client_ports fb i < client_ports fb i" by (rule mod_less_divisor [OF client_ports_gt0])
  then have "k mod client_ports fb i \<le> (kClientPortLast - kClientPortFirst - i) div fb_workers fb" by (simp add: client_ports_def)
  then have "(k mod client_ports fb i) * fb_workers fb \<le> kClientPortLast - kClientPortFirst - i"
    using assms(1) by (metis div_times_less_eq_dividend le_trans mult_le_mono1)
  then show ?thesis using assms by (simp add: client_port_def kClientPortFirst_def kClientPortLast_def)
qed

lemma segment_owner_range:
  assumes "prepared fb0 ws0" "fabric_le fb0 fb" "owners_ok fb" "rx < fb_workers fb"
  shows "0 \<le> segment_owner fb p as ps rx \<and> segment_owner fb p as ps rx < int (fb_workers fb)"
proof -
  have w: "0 < fb_workers fb" "fb_listener_workers fb = fb_listener_workers fb0" "fb_workers fb = fb_workers fb0"
    using assms(1,2) by (simp_all add: prepared_def fabric_le_def)
  have pl: "placement_of fb p = Some ids \<Longrightarrow> ids ! (h mod length ids) < fb_workers fb" for ids h
  proof -
    assume "placement_of fb p = Some ids"
    then have "(p, ids) \<in> set (fb_listener_workers fb0)" using map_of_SomeD unfolding placement_of_def w(2) by metis
    then have "ids \<noteq> []" "list_all (\<lambda>i. i < fb_workers fb) ids" using assms(1) w(3) by (auto simp: prepared_def list_all_iff)
    then show ?thesis by (simp add: list_all_length)
  qed
  have "fb_port_owners fb p \<noteq> 0 \<Longrightarrow> fb_port_owners fb p \<noteq> kListenerPortOwner \<Longrightarrow> fb_port_owners fb p - 1 < fb_workers fb"
    using assms(3) w(1) by (metis One_nat_def Suc_le_eq diff_less le_less_trans less_imp_diff_less not_gr0 owners_ok_def zero_less_one le_eq_less_or_eq)
  then show ?thesis using pl assms(4) w(1) by (auto simp: segment_owner_def Let_def split: option.splits)
qed

section \<open>Handles\<close>

lemma first_handle_value:
  assumes "i < m" "m \<le> 2 ^ 20"
  shows "unat (first_handle m i) = 2 ^ 30 + i * 2 ^ kHandleBits m \<and> 2 ^ 30 + (i + 1) * 2 ^ kHandleBits m \<le> (2 ^ 31 :: nat)"
    "unat (kHandleMask m) = 2 ^ kHandleBits m - 1" "10 \<le> kHandleBits m"
proof -
  define b where "b = kHandleBits m"
  have bw: "bit_width (m - 1) \<le> 20" using assms by (simp add: bit_width_le_iff)
  then have b: "b + bit_width (m - 1) = 30" "10 \<le> b" "b \<le> 30" by (simp_all add: b_def kHandleBits_def)
  then show "10 \<le> kHandleBits m" by (simp add: b_def)
  have "m - 1 < 2 ^ bit_width (m - 1)" using bit_width_le_iff by blast
  then have "i + 1 \<le> 2 ^ bit_width (m - 1)" using assms by simp
  then have "(i + 1) * 2 ^ b \<le> 2 ^ bit_width (m - 1) * 2 ^ b" by (rule mult_le_mono1)
  also have "\<dots> = 2 ^ 30" using b(1) by (simp add: power_add [symmetric] add.commute)
  finally have le: "(i + 1) * 2 ^ b \<le> (2 ^ 30 :: nat)" .
  have "(1 :: nat) \<le> 2 ^ b" by simp
  then have lt: "i * 2 ^ b < (2 ^ 30 :: nat)" using le unfolding add_mult_distrib by linarith
  have w: "push_bit b (of_nat i) = (of_nat (i * 2 ^ b) :: u32)" by (simp add: push_bit_eq_mult)
  have u: "unat (of_nat (i * 2 ^ b) :: u32) = i * 2 ^ b" using lt by (simp only: unsigned_of_nat take_bit_nat_eq_self) (simp add: take_bit_nat_eq_self)
  have dis: "\<not> bit (of_nat (i * 2 ^ b) :: u32) 30"
  proof -
    have "bit (of_nat (i * 2 ^ b) :: u32) 30 = bit (i * 2 ^ b) 30" by (simp add: bit_of_nat_iff del: of_nat_mult of_nat_power)
    also have "\<not> \<dots>" using lt by (simp add: bit_iff_odd)
    finally show ?thesis .
  qed
  have k: "kFirstHandle = push_bit 30 1" by (simp add: kFirstHandle_def)
  have "bit kFirstHandle n \<longrightarrow> n = 30" for n unfolding k bit_push_bit_iff bit_1_iff by auto
  then have "\<not> bit kFirstHandle n \<or> \<not> bit (of_nat (i * 2 ^ b) :: u32) n" for n using dis by metis
  then have "first_handle m i = kFirstHandle + of_nat (i * 2 ^ b)"
    unfolding first_handle_def b_def [symmetric] w by (rule disjunctive_add [symmetric])
  also have "\<dots> = of_nat (2 ^ 30 + i * 2 ^ b)" by (simp add: kFirstHandle_def)
  finally have "unat (first_handle m i) = 2 ^ 30 + i * 2 ^ b"
    using lt by (simp add: unsigned_of_nat take_bit_nat_eq_self del: of_nat_add of_nat_mult of_nat_power)
  then show "unat (first_handle m i) = 2 ^ 30 + i * 2 ^ kHandleBits m \<and> 2 ^ 30 + (i + 1) * 2 ^ kHandleBits m \<le> (2 ^ 31 :: nat)"
    using le by (simp add: b_def)
  have "(2 :: nat) ^ b \<le> 2 ^ 30" using b(3) by (intro power_increasing) simp_all
  then have "unat (of_nat (2 ^ b - 1) :: u32) = 2 ^ b - 1" by (simp add: unsigned_of_nat take_bit_nat_eq_self del: of_nat_diff)
  moreover have "kHandleMask m = of_nat (2 ^ b - 1)" by (simp add: kHandleMask_def b_def push_bit_eq_mult of_nat_diff)
  ultimately show "unat (kHandleMask m) = 2 ^ kHandleBits m - 1" by (simp add: b_def)
qed

text \<open>
  The workers' handles never collide. Every worker's range of handles is a valid configuration
  of its drained socket table, lies above the kernel's descriptors and within \<open>int\<close>, and shares no
  handle with the range of another worker.
\<close>

lemma handle_ranges_disjoint:
  assumes "i < max_workers" "max_workers \<le> 2 ^ 20" "AssertDrained t"
  shows "tb_Configure (uint (first_handle max_workers i)) (kHandleMask max_workers) t \<noteq> None \<and>
    (uint (first_handle max_workers i) \<le> h \<and> h < uint (first_handle max_workers i) + uint (kHandleMask max_workers) \<longrightarrow>
       IsDpdkSocket h \<and> h < 2 ^ 31 \<and>
       (j < max_workers \<and> uint (first_handle max_workers j) \<le> h \<and> h < uint (first_handle max_workers j) + uint (kHandleMask max_workers) \<longrightarrow>
          j = i))"
proof -
  define b where "b = kHandleBits max_workers"
  have v: "uint (first_handle max_workers k) = 2 ^ 30 + int k * 2 ^ b \<and> 2 ^ 30 + int (k + 1) * 2 ^ b \<le> (2 ^ 31 :: int)" if "k < max_workers" for k
  proof -
    note f = first_handle_value(1) [OF that assms(2), folded b_def]
    have "uint (first_handle max_workers k) = int (2 ^ 30 + k * 2 ^ b)" using conjunct1 [OF f] int_unat_u32 by metis
    moreover have "int (2 ^ 30 + (k + 1) * 2 ^ b) \<le> int (2 ^ 31)" using conjunct2 [OF f] by (rule of_nat_mono)
    ultimately show ?thesis by (simp add: algebra_simps)
  qed
  have "uint (kHandleMask max_workers) = int (2 ^ b - 1)"
    using first_handle_value(2) [OF assms(1,2), folded b_def] int_unat_u32 by metis
  then have mk: "uint (kHandleMask max_workers) = 2 ^ b - 1" by (simp add: of_nat_diff)
  have conf: "tb_Configure (uint (first_handle max_workers i)) (kHandleMask max_workers) t \<noteq> None"
  proof -
    have "\<not> 2147483647 - uint (first_handle max_workers i) < uint (kHandleMask max_workers)"
      using v [OF assms(1)] by (simp add: mk algebra_simps)
    then show ?thesis using assms(3) by (simp add: tb_Configure_def)
  qed
  have same: "k = i" if "k < max_workers" "2 ^ 30 + int k * 2 ^ b \<le> h" "h < 2 ^ 30 + int k * 2 ^ b + (2 ^ b - 1)"
    "2 ^ 30 + int i * 2 ^ b \<le> h" "h < 2 ^ 30 + int i * 2 ^ b + (2 ^ b - 1)" for k
  proof -
    have e: "(h - 2 ^ 30) div 2 ^ b = int n" if "2 ^ 30 + int n * 2 ^ b \<le> h" "h < 2 ^ 30 + int n * 2 ^ b + (2 ^ b - 1)" for n
      by (rule int_div_pos_eq [of _ _ _ "h - 2 ^ 30 - int n * 2 ^ b"]) (use that in \<open>auto simp: mult.commute\<close>)
    show ?thesis using e [OF that(2,3)] e [OF that(4,5)] by simp
  qed
  have rng: "IsDpdkSocket h \<and> h < 2 ^ 31" if "2 ^ 30 + int i * 2 ^ b \<le> h" "h < 2 ^ 30 + int i * 2 ^ b + (2 ^ b - 1)"
  proof
    have "(2 :: int) ^ 30 \<le> 2 ^ 30 + int i * 2 ^ b" by simp
    then have "2 ^ 30 \<le> h" using that(1) by linarith
    then show "IsDpdkSocket h" by (simp add: IsDpdkSocket_def)
    show "h < 2 ^ 31" using that(2) v [OF assms(1)] by (simp add: algebra_simps)
  qed
  have i: "uint (first_handle max_workers i) = 2 ^ 30 + int i * 2 ^ b" using v [OF assms(1)] by blast
  show ?thesis using conf same rng v unfolding mk i by metis
qed

section \<open>Steering\<close>

lemma segment_owner_rx: "\<not> fb_rss_owner fb \<Longrightarrow> segment_owner fb p as ps rx = segment_owner fb p as ps 0"
  by (simp add: segment_owner_def Let_def)

lemma segment_owner_le:
  "fabric_le fb fb' \<Longrightarrow> placement_of fb p \<noteq> None \<or> fb_port_owners fb p \<noteq> 0 \<Longrightarrow> segment_owner fb' p as ps rx = segment_owner fb p as ps rx"
  by (cases "placement_of fb p") (simp_all add: segment_owner_def fabric_le_def placement_of_def Let_def)

text \<open>
  C18: with hash steering a TCP flow stays with one worker. Once the destination port of a flow is
  placed or claimed, all its segments, whichever queue receives them and whatever calls of any
  worker happen in between, are sent to the same existing worker.
\<close>

theorem flow_stays_with_worker:
  assumes "prepared fb0 ws0" "\<not> fb_rss_owner fb0" "fold port_step before (fb0, ws0) = (fb, ws)"
    "tcp_segment f" "tcp_segment g" "segment_addresses g = segment_addresses f" "segment_ports g = segment_ports f"
    "placement_of fb (segment_port f) \<noteq> None \<or> fb_port_owners fb (segment_port f) \<noteq> 0"
  shows "Destination (fst (fold port_step later (fb, ws))) g rx' = Destination fb f rx \<and>
    0 \<le> Destination fb f rx \<and> Destination fb f rx < int (fb_workers fb0)"
proof -
  define fb' where "fb' = fst (fold port_step later (fb, ws))"
  have run: "fabric_le fb0 fb" "run_ok (fb, ws)" using port_run_keeps [OF prepared_run_ok [OF assms(1)], of before] by (simp_all add: assms(3))
  have le: "fabric_le fb fb'" using port_run_keeps [OF run(2), of later] by (simp add: fb'_def)
  have port: "segment_port g = segment_port f" using segment_port_of_ports assms(4,5,7) by simp
  have rss: "\<not> fb_rss_owner fb" "\<not> fb_rss_owner fb'" and w: "fb_workers fb = fb_workers fb0" using run(1) le assms(2) by (simp_all add: fabric_le_def)
  define dst where "dst fb = segment_owner fb (segment_port f) (segment_addresses f) (segment_ports f) 0" for fb
  have "Destination fb f rx = dst fb" unfolding Destination_segment [OF assms(4)] dst_def by (rule segment_owner_rx [OF rss(1)])
  moreover have "Destination fb' g rx' = dst fb'" unfolding Destination_segment [OF assms(5)] port assms(6,7) dst_def by (rule segment_owner_rx [OF rss(2)])
  moreover have "dst fb' = dst fb" unfolding dst_def by (rule segment_owner_le [OF le assms(8)])
  moreover have "0 \<le> dst fb \<and> dst fb < int (fb_workers fb)" unfolding dst_def
    by (rule segment_owner_range [OF assms(1) run(1)]) (use run w assms(1) in \<open>auto simp: run_ok_def prepared_def\<close>)
  ultimately show ?thesis by (simp add: fb'_def w)
qed

text \<open>
  C22: replies come back. The local port of a client socket that a worker opens lies in the
  worker's stripe, and every TCP segment sent to that port at any later time, on any queue and
  with either kind of steering, is sent to that worker.
\<close>

theorem client_replies_reach_opener:
  assumes "prepared fb0 ws0" "fb_workers fb0 \<le> kClientPortLast - kClientPortFirst" "fold port_step before (fb0, ws0) = (fb, ws)"
    "i < length ws" "OpenClient open_client ipv4 fb (ws ! i) = (Inr (h, port), fb1, w1)" "tcp_segment f" "segment_port f = port"
  shows "kClientPortFirst \<le> port \<and> port \<le> kClientPortLast \<and> (port - kClientPortFirst) mod fb_workers fb0 = i \<and>
    Destination (fst (fold port_step later (fb1, ws[i := w1]))) f rx = int i"
proof -
  have run: "fabric_le fb0 fb" "run_ok (fb, ws)" using port_run_keeps [OF prepared_run_ok [OF assms(1)], of before] by (simp_all add: assms(3))
  have m: "map dw_id ws = [0..<fb_workers fb]" using run(2) by (simp add: run_ok_def)
  note id = worker_id [OF m assms(4)]
  have wk: "fb_workers fb = fb_workers fb0" using run(1) by (simp add: fabric_le_def)
  have rounds: "open_rounds open_client (client_ports fb i) fb (ws ! i) = (Inr (h, port), fb1, w1)"
    using assms(5) id by (simp add: OpenClient_def split: if_splits)
  note keep = open_rounds_keeps [OF rounds] 
  have k: "placement_of fb port = None" "fb_port_owners fb1 port = i + 1" "\<exists>k. port = client_port fb i k" "fabric_le fb fb1" "dw_id w1 = i"
    using keep id by auto
  obtain n where n: "port = client_port fb i n" using k(3) by blast
  have stripe: "kClientPortFirst \<le> port \<and> port \<le> kClientPortLast \<and> (port - kClientPortFirst) mod fb_workers fb0 = i"
    using client_port_stripe [OF conjunct2 [OF id] _ n] assms(2) unfolding wk by blast
  have "run_ok (fb1, ws[i := w1])"
    using port_step_keeps [OF run(2), of "PoOpen i open_client ipv4"] assms(4,5) by simp
  from port_run_keeps [OF this, of later] have le: "fabric_le fb1 (fst (fold port_step later (fb1, ws[i := w1])))" by simp
  have "placement_of (fst (fold port_step later (fb1, ws[i := w1]))) port = None" "fb_port_owners (fst (fold port_step later (fb1, ws[i := w1]))) port = i + 1"
    using le k(1,2,4) by (simp_all add: fabric_le_def placement_of_def)
  moreover have "i + 1 \<noteq> kListenerPortOwner" using id wk assms(1) by (simp add: prepared_def)
  ultimately show ?thesis using stripe by (simp add: Destination_segment [OF assms(6)] assms(7) segment_owner_def)
qed

text \<open>Two workers; a SYN to port 80, which is claimed by a listener.\<close>

definition example_fabric :: fabric where
  "example_fabric = (fabric0 4)\<lparr>fb_workers := 2, fb_prepared := True\<rparr>"

definition example_workers :: "dworker list" where
  "example_workers = map (\<lambda>i. \<lparr>dw_id = i, dw_next_client_port = 0,
     dw_sockets = \<lparr>tb_first = int (1024 * (i + 1)), tb_capacity = 8, tb_free = kNoSlot, tb_slots = []\<rparr>\<rparr>) [0, 1]"

definition example_segment :: "u8 \<Rightarrow> u8 \<Rightarrow> u8 list" where
  "example_segment p1 p0 = [0, 0, 0, 0, 0, 0, 0, 0, 0, 0, 0, 0, 8, 0, 0x45, 0, 0, 40, 0, 0, 0x40, 0, 64, 6, 0, 0, 10, 0, 0, 1, 10, 0, 0, 2, 0x9c, 0x40, p1, p0,
     0, 0, 0, 0, 0, 0, 0, 0, 0, 0, 0, 0, 0, 0, 0, 0]"

lemma example_prepared: "prepared example_fabric example_workers"
  by (simp add: prepared_def example_fabric_def example_workers_def fabric0_def kListenerPortOwner_def upt_rec)

lemma example_segment_tcp: "tcp_segment (example_segment p1 p0)"
  by (simp add: tcp_segment_def example_segment_def Read16_def ip_header_length_def)

lemma example_segment_port: "segment_port (example_segment p1 p0) = unat (push_bit 8 (ucast p1) OR ucast p0 :: u16)"
  by (simp add: segment_port_def example_segment_def Read16_def ip_header_length_def)

definition example_listening :: "fabric \<times> dworker list" where
  "example_listening = fold port_step [PoListen 0 (0, 5) True 80] (example_fabric, example_workers)"

lemma example_port_80: "fb_port_owners (fst example_listening) 80 = kListenerPortOwner"
  by (simp add: example_listening_def example_fabric_def example_workers_def fabric0_def Listen_def claim_port_def Own_def tb_Insert_def kNoSlot_def Let_def)

theorem flow_stays_with_worker_witness:
  "Destination (fst (fold port_step [PoOpen 1 (\<lambda>p. (0, 7)) True] example_listening)) (example_segment 0 80) 1 =
     Destination (fst example_listening) (example_segment 0 80) 0 \<and>
   0 \<le> Destination (fst example_listening) (example_segment 0 80) 0 \<and> Destination (fst example_listening) (example_segment 0 80) 0 < 2"
proof -
  have port: "segment_port (example_segment 0 80) = 80" by (simp add: example_segment_port)
  have "\<not> fb_rss_owner example_fabric" "fb_workers example_fabric = 2" by (simp_all add: example_fabric_def fabric0_def)
  then show ?thesis
    using flow_stays_with_worker [OF example_prepared, of "[PoListen 0 (0, 5) True 80]" "fst example_listening" "snd example_listening"
      "example_segment 0 80" "example_segment 0 80" "[PoOpen 1 (\<lambda>p. (0, 7)) True]" 1 0] example_port_80
    by (simp add: example_segment_tcp port example_listening_def kListenerPortOwner_def)
qed

theorem client_replies_reach_opener_witness:
  "\<exists>fb1 w1. OpenClient (\<lambda>p. (0, 7)) True (fst example_listening) (snd example_listening ! 1) = (Inr (2048, 32769), fb1, w1) \<and>
     Destination (fst (fold port_step [PoListen 0 (0, 9) True 81] (fb1, (snd example_listening)[1 := w1]))) (example_segment 0x80 1) 0 = 1"
proof -
  have port: "segment_port (example_segment 0x80 1) = 32769" by (simp add: example_segment_port)
  have "client_ports (fst example_listening) 1 = Suc 14115"
    by (simp add: client_ports_def example_listening_def example_fabric_def example_workers_def fabric0_def Listen_def claim_port_def Own_def tb_Insert_def kNoSlot_def Let_def
      kClientPortFirst_def kClientPortLast_def)
  then obtain fb1 w1 where o: "OpenClient (\<lambda>p. (0, 7)) True (fst example_listening) (snd example_listening ! 1) = (Inr (2048, 32769), fb1, w1)"
    by (simp add: OpenClient_def client_port_def example_listening_def example_fabric_def example_workers_def fabric0_def Listen_def claim_port_def Own_def
      tb_Insert_def kNoSlot_def Let_def kClientPortFirst_def placement_of_def open_rounds.simps(2) [of _ 14115, simplified])
  have n: "fb_workers example_fabric \<le> kClientPortLast - kClientPortFirst" "1 < length (snd example_listening)"
    by (simp_all add: example_fabric_def example_workers_def fabric0_def kClientPortFirst_def kClientPortLast_def example_listening_def split: prod.splits)
  show ?thesis
    using client_replies_reach_opener [OF example_prepared n(1), of "[PoListen 0 (0, 5) True 80]" "fst example_listening" "snd example_listening",
      OF _ n(2) o example_segment_tcp port, of "[PoListen 0 (0, 9) True 81]" 0] o
    by (auto simp: example_listening_def)
qed

end
