(* ===== verification/Dpdk_Requests.thy ===== *)
theory Dpdk_Requests
  imports Dpdk_Steering Uring_Recv
begin

text \<open>
  Socket operations of the DPDK backend, \<open>src/io/dpdk_backend.cpp\<close>: the pending accepts, sends,
  connects, reads and disconnect polls of a worker, each with a pin on its socket, their progress
  against the FreeBSD stack, cancellation, and the delivery of completions. Requests on kernel
  descriptors go to the kernel backend, the subject of other theories.
\<close>

section \<open>State\<close>

text \<open>A pin with the socket it was taken for.\<close>

type_synonym spin = "u32 \<times> nat"

record dreq =
  rq_pin :: spin
  rq_tag :: nat
  rq_bytes :: "u8 list"
  rq_message :: "u8 list list option"

record dcomp =
  dc_tag :: nat
  dc_result :: int
  dc_more :: bool
  dc_pin :: "spin option"

text \<open>
  The last five fields record the tags of accepted requests, the completions delivered, the
  connections whose disconnect callback ran, the sockets closed and the number of calls of the stack.
\<close>

record dimpl =
  di_table :: stable
  di_accepts :: "dreq list"
  di_sends :: "dreq list"
  di_connects :: "dreq list"
  di_reads :: "(u64 \<times> spin) list"
  di_disconnects :: "(u64 \<times> spin) list"
  di_completions :: "dcomp list"
  di_conns :: "u64 \<Rightarrow> uconn"
  di_ready :: "nat list"
  di_buffer_size :: u64
  di_work :: bool
  di_submitted :: "nat list"
  di_delivered :: "(nat \<times> int \<times> bool) list"
  di_peer :: "u64 list"
  di_closed :: "nat list"
  di_tick :: nat

text \<open>A call that belongs to the kernel backend, or its status.\<close>

datatype routed = ToKernel | Done status

text \<open>Calls a completion callback may make; a tag or message of 0 or \<open>None\<close> is null.\<close>

datatype dop =
    OpSend int "u8 list" nat
  | OpSendMsg int "u8 list list option" bool nat
  | OpConnect int bool nat
  | OpAccept int nat
  | OpCancel nat
  | OpRecv u64
  | OpCancelRecv u64 nat
  | OpPeer u64
  | OpCancelPeer u64
  | OpCloseFd int
  | OpOwn nat

text \<open>
  The FreeBSD stack, by the number of the call: error codes, accepted sockets and byte counts; the
  clock; whether a connection has a disconnect callback; and the calls made by the completion
  delivered last.
\<close>

record bsd_env =
  be_connect :: "nat \<Rightarrow> int"
  be_connect_status :: "nat \<Rightarrow> int"
  be_accept :: "nat \<Rightarrow> int \<times> nat"
  be_send :: "nat \<Rightarrow> nat \<Rightarrow> int \<times> nat"
  be_receive :: "nat \<Rightarrow> u64 \<Rightarrow> int \<times> u32"
  be_disconnected :: "nat \<Rightarrow> bool"
  be_close :: "nat \<Rightarrow> int"
  be_now_ms :: int
  be_has_peer :: "u64 \<Rightarrow> bool"
  be_callback :: "(nat \<times> int \<times> bool) list \<Rightarrow> dop list"

definition INT_MAX :: nat where "INT_MAX = 2147483647"

definition call :: "dimpl \<Rightarrow> dimpl" where "call d = d\<lparr>di_tick := di_tick d + 1\<rparr>"

definition copy_pin :: "spin \<Rightarrow> dimpl \<Rightarrow> dimpl" where "copy_pin p d = d\<lparr>di_table := pin_slot (fst p) (di_table d)\<rparr>"
definition drop_pin :: "spin \<Rightarrow> dimpl \<Rightarrow> dimpl" where "drop_pin p d = d\<lparr>di_table := pin_Reset (fst p) (di_table d)\<rparr>"
definition socket_of :: "spin \<Rightarrow> dimpl \<Rightarrow> nat" where "socket_of p d = pin_get (fst p) (di_table d)"

definition di_Acquire :: "int \<Rightarrow> dimpl \<Rightarrow> spin option \<times> dimpl" where
  "di_Acquire fd d =
     (case tb_Acquire fd (di_table d) of
        (None, t) \<Rightarrow> (None, d\<lparr>di_table := t\<rparr>)
      | (Some i, t) \<Rightarrow> (Some (i, tb_Find fd (di_table d)), d\<lparr>di_table := t\<rparr>))"

definition QueueCompletion :: "nat \<Rightarrow> int \<Rightarrow> bool \<Rightarrow> spin option \<Rightarrow> dimpl \<Rightarrow> dimpl" where
  "QueueCompletion tag result m pin d =
     d\<lparr>di_completions := di_completions d @ [\<lparr>dc_tag = tag, dc_result = result, dc_more = m, dc_pin = pin\<rparr>]\<rparr>"

definition upd_c :: "u64 \<Rightarrow> (uconn \<Rightarrow> uconn) \<Rightarrow> dimpl \<Rightarrow> dimpl" where
  "upd_c c f d = d\<lparr>di_conns := (di_conns d)(c := f (di_conns d c))\<rparr>"

definition di_Own :: "nat \<Rightarrow> dimpl \<Rightarrow> int \<times> dimpl" where
  "di_Own so d =
     (let (handle, t) = tb_Insert so (di_table d); d1 = d\<lparr>di_table := t\<rparr> in
      if handle < 0 then (- EMFILE, d1\<lparr>di_closed := so # di_closed d1\<rparr>) else (handle, d1))"

section \<open>Submission\<close>

definition di_SubmitSend :: "int \<Rightarrow> u8 list \<Rightarrow> nat \<Rightarrow> dimpl \<Rightarrow> routed \<times> dimpl" where
  "di_SubmitSend fd bytes tag d =
     (if \<not> IsDpdkSocket fd then (ToKernel, d)
      else if tag = 0 then (Done StInvalidArgument, d)
      else case di_Acquire fd d of
        (None, d1) \<Rightarrow> (Done StFailedPrecondition, d1)
      | (Some pin, d1) \<Rightarrow>
          (Done StOk, d1\<lparr>di_sends := di_sends d1 @ [\<lparr>rq_pin = pin, rq_tag = tag, rq_bytes = bytes, rq_message = None\<rparr>],
                         di_submitted := tag # di_submitted d1\<rparr>))"

text \<open>\<open>address_ok\<close>: an IPv4 address of sufficient length was given.\<close>

definition di_SubmitConnect :: "bsd_env \<Rightarrow> int \<Rightarrow> bool \<Rightarrow> nat \<Rightarrow> dimpl \<Rightarrow> routed \<times> dimpl" where
  "di_SubmitConnect env fd address_ok tag d =
     (if \<not> IsDpdkSocket fd then (ToKernel, d)
      else case di_Acquire fd d of
        (None, d1) \<Rightarrow> (Done StInvalidArgument, d1)
      | (Some pin, d1) \<Rightarrow>
          if tag = 0 \<or> \<not> address_ok then (Done StInvalidArgument, drop_pin pin d1)
          else let error = BsdError (be_connect env (di_tick d1)); d2 = (call d1)\<lparr>di_submitted := tag # di_submitted d1\<rparr> in
            if error \<noteq> 0 \<and> error \<noteq> EINPROGRESS then (Done StOk, QueueCompletion tag (- error) False (Some pin) d2)
            else (Done StOk, d2\<lparr>di_connects := di_connects d2 @ [\<lparr>rq_pin = pin, rq_tag = tag, rq_bytes = [], rq_message = None\<rparr>]\<rparr>))"

text \<open>\<open>extras\<close>: the message carries control data or a name.\<close>

definition di_SubmitSendMsg :: "int \<Rightarrow> u8 list list option \<Rightarrow> bool \<Rightarrow> nat \<Rightarrow> dimpl \<Rightarrow> routed \<times> dimpl" where
  "di_SubmitSendMsg fd msg extras tag d =
     (if \<not> IsDpdkSocket fd then (ToKernel, d)
      else if tag = 0 \<or> msg = None \<or> extras then (Done StInvalidArgument, d)
      else case di_Acquire fd d of
        (None, d1) \<Rightarrow> (Done StFailedPrecondition, d1)
      | (Some pin, d1) \<Rightarrow>
          (Done StOk, d1\<lparr>di_sends := di_sends d1 @ [\<lparr>rq_pin = pin, rq_tag = tag, rq_bytes = [], rq_message = msg\<rparr>],
                         di_submitted := tag # di_submitted d1\<rparr>))"

definition di_SubmitAcceptMultishot :: "int \<Rightarrow> nat \<Rightarrow> dimpl \<Rightarrow> routed \<times> dimpl" where
  "di_SubmitAcceptMultishot fd tag d =
     (if \<not> IsDpdkSocket fd then (ToKernel, d)
      else case di_Acquire fd d of
        (None, d1) \<Rightarrow> (Done StInvalidArgument, d1)
      | (Some pin, d1) \<Rightarrow>
          if tag = 0 then (Done StInvalidArgument, drop_pin pin d1)
          else (Done StOk, d1\<lparr>di_accepts := di_accepts d1 @ [\<lparr>rq_pin = pin, rq_tag = tag, rq_bytes = [], rq_message = None\<rparr>],
                              di_submitted := tag # di_submitted d1\<rparr>))"

text \<open>Erase the first element that satisfies a test.\<close>

fun take_first :: "('a \<Rightarrow> bool) \<Rightarrow> 'a list \<Rightarrow> ('a \<times> 'a list) option" where
  "take_first P [] = None"
| "take_first P (x # xs) = (if P x then Some (x, xs) else map_option (\<lambda>(y, ys). (y, x # ys)) (take_first P xs))"

definition di_SubmitCancel :: "nat \<Rightarrow> dimpl \<Rightarrow> routed \<times> dimpl" where
  "di_SubmitCancel target d =
     (let hit = (\<lambda>r. rq_tag r = target); cancelled = (\<lambda>r. QueueCompletion target (- ECANCELED) False (Some (rq_pin r))) in
      case take_first hit (di_accepts d) of
        Some (r, rs) \<Rightarrow> (Done StOk, cancelled r (d\<lparr>di_accepts := rs\<rparr>))
      | None \<Rightarrow> (case take_first hit (di_sends d) of
          Some (r, rs) \<Rightarrow> (Done StOk, cancelled r (d\<lparr>di_sends := rs\<rparr>))
        | None \<Rightarrow> (case take_first hit (di_connects d) of
            Some (r, rs) \<Rightarrow> (Done StOk, cancelled r (d\<lparr>di_connects := rs\<rparr>))
          | None \<Rightarrow> (ToKernel, d))))"

definition di_StartRecv :: "u64 \<Rightarrow> dimpl \<Rightarrow> routed \<times> dimpl" where
  "di_StartRecv c d =
     (let cn = di_conns d c in
      if c = 0 \<or> \<not> IsDpdkSocket (rf_fd (uc_file cn)) then (ToKernel, d)
      else if uc_recv_armed cn \<or> uc_closed cn \<or> uc_closing cn \<or> uc_recv_paused cn \<or> uc_received cn \<noteq> [] then (Done StOk, d)
      else case di_Acquire (rf_fd (uc_file cn)) d of
        (None, d1) \<Rightarrow> (Done StFailedPrecondition, d1)
      | (Some pin, d1) \<Rightarrow>
          (Done StOk, (upd_c c (\<lambda>x. x\<lparr>uc_mode_multishot := False,
                                      uc_read_buffer_size := (if uc_read_buffer_size x = 0 then di_buffer_size d1 else uc_read_buffer_size x),
                                      uc_recv_armed := True, uc_inflight_ops := uc_inflight_ops x + 1\<rparr>) d1)
                        \<lparr>di_reads := di_reads d1 @ [(c, pin)]\<rparr>))"

definition FinishRead :: "u64 \<Rightarrow> dimpl \<Rightarrow> dimpl" where
  "FinishRead c d =
     (let d1 = upd_c c (\<lambda>x. x\<lparr>uc_recv_armed := False, uc_inflight_ops := uc_inflight_ops x - 1\<rparr>) d; cn = di_conns d1 c in
      if uc_read_waiter cn \<noteq> 0
      then (upd_c c (\<lambda>x. x\<lparr>uc_read_waiter := 0, uc_read_inflight := False\<rparr>) d1)\<lparr>di_ready := di_ready d1 @ [uc_read_waiter cn]\<rparr>
      else d1)"

definition di_SubmitCancelRecv :: "u64 \<Rightarrow> nat \<Rightarrow> dimpl \<Rightarrow> routed \<times> dimpl" where
  "di_SubmitCancelRecv c tag d =
     (case take_first (\<lambda>r. fst r = c) (di_reads d) of
        None \<Rightarrow> (ToKernel, d)
      | Some ((_, pin), rs) \<Rightarrow>
          let d1 = FinishRead c (d\<lparr>di_reads := rs\<rparr>) in
          (Done StOk, if tag \<noteq> 0 then QueueCompletion tag 0 False (Some pin) (d1\<lparr>di_submitted := tag # di_submitted d1\<rparr>) else drop_pin pin d1))"

definition di_StartPeerDisconnectPoll :: "u64 \<Rightarrow> dimpl \<Rightarrow> routed \<times> dimpl" where
  "di_StartPeerDisconnectPoll c d =
     (let cn = di_conns d c in
      if c = 0 \<or> \<not> IsDpdkSocket (rf_fd (uc_file cn)) then (ToKernel, d)
      else if uc_poll_armed cn \<or> uc_closed cn \<or> uc_closing cn then (Done StOk, d)
      else case di_Acquire (rf_fd (uc_file cn)) d of
        (None, d1) \<Rightarrow> (Done StFailedPrecondition, d1)
      | (Some pin, d1) \<Rightarrow>
          (Done StOk, (upd_c c (\<lambda>x. x\<lparr>uc_poll_armed := True, uc_inflight_ops := uc_inflight_ops x + 1\<rparr>) d1)
                        \<lparr>di_disconnects := di_disconnects d1 @ [(c, pin)]\<rparr>))"

definition di_CancelPeerDisconnectPoll :: "u64 \<Rightarrow> dimpl \<Rightarrow> routed \<times> dimpl" where
  "di_CancelPeerDisconnectPoll c d =
     (if \<not> list_ex (\<lambda>r. fst r = c) (di_disconnects d) then (ToKernel, d)
      else (Done StOk, upd_c c (\<lambda>x. x\<lparr>uc_poll_cancel_requested := True\<rparr>) d))"

definition di_Close :: "bsd_env \<Rightarrow> int \<Rightarrow> dimpl \<Rightarrow> (int + unit) \<times> dimpl" where
  "di_Close env handle d =
     (let (so, t) = tb_Close handle (di_table d); d1 = d\<lparr>di_table := t\<rparr> in
      if so = 0 then (Inl EBADF, d1)
      else let error = BsdError (be_close env (di_tick d1)); d2 = (call d1)\<lparr>di_closed := so # di_closed d1\<rparr> in
        (if error \<noteq> 0 then Inl error else Inr (), d2))"

fun do_dop :: "bsd_env \<Rightarrow> dop \<Rightarrow> dimpl \<Rightarrow> dimpl" where
  "do_dop env (OpSend fd bytes tag) d = snd (di_SubmitSend fd bytes tag d)"
| "do_dop env (OpSendMsg fd msg extras tag) d = snd (di_SubmitSendMsg fd msg extras tag d)"
| "do_dop env (OpConnect fd ok tag) d = snd (di_SubmitConnect env fd ok tag d)"
| "do_dop env (OpAccept fd tag) d = snd (di_SubmitAcceptMultishot fd tag d)"
| "do_dop env (OpCancel tag) d = snd (di_SubmitCancel tag d)"
| "do_dop env (OpRecv c) d = snd (di_StartRecv c d)"
| "do_dop env (OpCancelRecv c tag) d = snd (di_SubmitCancelRecv c tag d)"
| "do_dop env (OpPeer c) d = snd (di_StartPeerDisconnectPoll c d)"
| "do_dop env (OpCancelPeer c) d = snd (di_CancelPeerDisconnectPoll c d)"
| "do_dop env (OpCloseFd fd) d = snd (di_Close env fd d)"
| "do_dop env (OpOwn so) d = (if so = 0 then d else snd (di_Own so d))"

section \<open>Progress\<close>

text \<open>
  The five scans of \<open>SocketCompletions\<close>. Each visits the pending requests in order, working on a
  copy of the request with its pin, and keeps those that would block.
\<close>

definition connect_one :: "bsd_env \<Rightarrow> dreq \<Rightarrow> dimpl \<Rightarrow> dimpl" where
  "connect_one env r d =
     (let d1 = copy_pin (rq_pin r) d; so = socket_of (rq_pin r) d1;
          error = (if so \<noteq> 0 then BsdError (be_connect_status env (di_tick d1)) else ECANCELED); d2 = call d1
      in if error = EAGAIN then drop_pin (rq_pin r) (d2\<lparr>di_connects := di_connects d2 @ [r]\<rparr>)
         else (QueueCompletion (rq_tag r) (- error) False (Some (rq_pin r)) (drop_pin (rq_pin r) d2))\<lparr>di_work := True\<rparr>)"

definition accept_one :: "bsd_env \<Rightarrow> dreq \<Rightarrow> dimpl \<Rightarrow> dimpl" where
  "accept_one env r d =
     (let d1 = copy_pin (rq_pin r) d; listener = socket_of (rq_pin r) d1; answer = be_accept env (di_tick d1);
          error = (if listener \<noteq> 0 then BsdError (fst answer) else EBADF); d2 = call d1
      in if error = EAGAIN then drop_pin (rq_pin r) (d2\<lparr>di_accepts := di_accepts d2 @ [r]\<rparr>)
         else if error = 0
         then let (handle, d3) = di_Own (snd answer) d2 in
           (QueueCompletion (rq_tag r) handle True (Some (rq_pin r)) (d3\<lparr>di_accepts := di_accepts d3 @ [r]\<rparr>))\<lparr>di_work := True\<rparr>
         else (QueueCompletion (rq_tag r) (- error) False (Some (rq_pin r)) (drop_pin (rq_pin r) d2))\<lparr>di_work := True\<rparr>)"

text \<open>The vectors of a message: the last error, the bytes sent and the calls made.\<close>

fun send_iovs :: "bsd_env \<Rightarrow> u8 list list \<Rightarrow> int \<Rightarrow> nat \<Rightarrow> nat \<Rightarrow> int \<times> nat \<times> nat" where
  "send_iovs env [] error sent n = (error, sent, n)"
| "send_iovs env (iov # iovs) error sent n =
     (let size = min (length iov) (INT_MAX - sent); (code, part) = be_send env n size; e = BsdError code; sent1 = sent + part
      in if e \<noteq> 0 \<or> part < length iov \<or> INT_MAX \<le> sent1 then (e, sent1, n + 1) else send_iovs env iovs e sent1 (n + 1))"

definition send_one :: "bsd_env \<Rightarrow> dreq \<Rightarrow> dimpl \<Rightarrow> dimpl" where
  "send_one env r d =
     (let d1 = copy_pin (rq_pin r) d; so = socket_of (rq_pin r) d1;
          (error, sent, n) =
            (if so = 0 then (EBADF, 0, di_tick d1)
             else case rq_message r of
               Some iovs \<Rightarrow> send_iovs env iovs 0 0 (di_tick d1)
             | None \<Rightarrow> let (code, k) = be_send env (di_tick d1) (min (length (rq_bytes r)) INT_MAX) in (BsdError code, k, di_tick d1 + 1));
          d2 = d1\<lparr>di_tick := n\<rparr>
      in if error = EAGAIN \<and> sent = 0 then drop_pin (rq_pin r) (d2\<lparr>di_sends := di_sends d2 @ [r]\<rparr>)
         else (QueueCompletion (rq_tag r) (if sent \<noteq> 0 then int sent else - error) False (Some (rq_pin r)) (drop_pin (rq_pin r) d2))\<lparr>di_work := True\<rparr>)"

definition read_result :: "bsd_env \<Rightarrow> u64 \<Rightarrow> int \<Rightarrow> u32 \<Rightarrow> dimpl \<Rightarrow> dimpl" where
  "read_result env c error got =
     upd_c c (\<lambda>x. if got \<noteq> 0 then x\<lparr>uc_received := uc_received x @ [\<lparr>rb_buffer_id = 0, rb_size = got, rb_offset = 0\<rparr>], uc_last_active_ms := be_now_ms env\<rparr>
                  else if error = 0 then x\<lparr>uc_recv_eof := True\<rparr>
                  else if error \<noteq> ECANCELED then x\<lparr>uc_last_error := StUnavailable\<rparr> else x)"

definition read_one :: "bsd_env \<Rightarrow> u64 \<times> spin \<Rightarrow> dimpl \<Rightarrow> dimpl" where
  "read_one env r d =
     (let c = fst r; pin = snd r; d1 = copy_pin pin d; cn = di_conns d1 c; live = (socket_of pin d1 \<noteq> 0 \<and> \<not> uc_closing cn);
          (error, got) = (if live then let (code, k) = be_receive env (di_tick d1) (uc_read_buffer_size cn) in (BsdError code, k) else (ECANCELED, 0));
          d2 = call d1
      in if error = EAGAIN then drop_pin pin (d2\<lparr>di_reads := di_reads d2 @ [r]\<rparr>)
         else drop_pin pin ((FinishRead c (read_result env c error got (drop_pin pin d2)))\<lparr>di_work := True\<rparr>))"

definition disconnect_one :: "bsd_env \<Rightarrow> u64 \<times> spin \<Rightarrow> dimpl \<Rightarrow> dimpl" where
  "disconnect_one env r d =
     (let c = fst r; pin = snd r; d1 = copy_pin pin d; cn = di_conns d1 c;
          cancel = (uc_poll_cancel_requested cn \<or> uc_closing cn \<or> socket_of pin d1 = 0);
          d2 = call d1
      in if \<not> cancel \<and> \<not> be_disconnected env (di_tick d1) then drop_pin pin (d2\<lparr>di_disconnects := di_disconnects d2 @ [r]\<rparr>)
         else let d3 = upd_c c (\<lambda>x. x\<lparr>uc_poll_armed := False, uc_poll_cancel_requested := False, uc_inflight_ops := uc_inflight_ops x - 1\<rparr>) (drop_pin pin d2);
                  d4 = (if \<not> cancel \<and> be_has_peer env c then d3\<lparr>di_peer := di_peer d3 @ [c]\<rparr> else d3)
              in drop_pin pin (d4\<lparr>di_work := True\<rparr>))"

definition scan_all :: "bsd_env \<Rightarrow> dimpl \<Rightarrow> dimpl" where
  "scan_all env d0 =
     (let d = d0\<lparr>di_work := False\<rparr>;
          d1 = fold (connect_one env) (di_connects d) (d\<lparr>di_connects := []\<rparr>);
          d2 = fold (accept_one env) (di_accepts d1) (d1\<lparr>di_accepts := []\<rparr>);
          d3 = fold (send_one env) (di_sends d2) (d2\<lparr>di_sends := []\<rparr>);
          d4 = fold (read_one env) (di_reads d3) (d3\<lparr>di_reads := []\<rparr>)
      in fold (disconnect_one env) (di_disconnects d4) (d4\<lparr>di_disconnects := []\<rparr>))"

definition deliver_one :: "bsd_env \<Rightarrow> dcomp \<Rightarrow> dimpl \<Rightarrow> dimpl" where
  "deliver_one env x d =
     (let d1 = d\<lparr>di_delivered := di_delivered d @ [(dc_tag x, dc_result x, dc_more x)]\<rparr>
      in fold (do_dop env) (be_callback env (di_delivered d1)) d1)"

definition SocketCompletions :: "bsd_env \<Rightarrow> dimpl \<Rightarrow> bool \<times> dimpl" where
  "SocketCompletions env d0 =
     (let d = scan_all env d0; batch = di_completions d;
          d1 = fold (deliver_one env) batch (d\<lparr>di_completions := []\<rparr>);
          d2 = fold drop_pin (List.map_filter dc_pin batch) d1
      in (di_work d \<or> batch \<noteq> [], d2))"

text \<open>The socket part of \<open>Shutdown\<close>.\<close>

definition di_Shutdown :: "bsd_env \<Rightarrow> dimpl \<Rightarrow> dimpl" where
  "di_Shutdown env d =
     (let (sos, t) = tb_CloseAll (di_table d) in snd (SocketCompletions env (d\<lparr>di_table := t, di_closed := rev sos @ di_closed d\<rparr>)))"

section \<open>Histories\<close>

datatype dstep = Call dop | Round

fun dp_step :: "bsd_env \<Rightarrow> dstep \<Rightarrow> dimpl \<Rightarrow> dimpl" where
  "dp_step env (Call x) d = do_dop env x d"
| "dp_step env Round d = snd (SocketCompletions env d)"

end
