(* ===== verification/Dpdk_Completions.thy ===== *)
theory Dpdk_Completions
  imports Dpdk_Requests
begin

text \<open>
  Correctness of the DPDK backend's socket operations: each accepted request is answered once,
  pins are exactly the references held, connection counters are exact, and shutting down answers
  everything and leaves the socket table drained.
\<close>

section \<open>The contract of the socket table\<close>

text \<open>
  What the backend relies on: a table state admits a multiset of pins, each a slot with the socket
  it was taken for. Copying and dropping pins keeps the books, and a pin leads to its own socket
  or, once that is closed, to none.
\<close>

locale pin_table =
  fixes ok :: "'t \<Rightarrow> (u32 \<times> nat) multiset \<Rightarrow> bool"
    and copy :: "u32 \<Rightarrow> 't \<Rightarrow> 't"
    and reset :: "u32 \<Rightarrow> 't \<Rightarrow> 't"
    and get :: "u32 \<Rightarrow> 't \<Rightarrow> nat"
  assumes copy_ok: "ok t M \<Longrightarrow> p \<in># M \<Longrightarrow> ok (copy (fst p) t) (M + {#p#})"
    and reset_ok: "ok t (M + {#p#}) \<Longrightarrow> ok (reset (fst p) t) M"
    and get_ok: "ok t M \<Longrightarrow> p \<in># M \<Longrightarrow> get (fst p) t = snd p \<or> get (fst p) t = 0"
begin

lemma copy_reset_ok: "ok t M \<Longrightarrow> p \<in># M \<Longrightarrow> ok (reset (fst p) (copy (fst p) t)) M"
  by (rule reset_ok) (rule copy_ok)

lemma copy_reset2_ok: "ok t M \<Longrightarrow> p \<in># M \<Longrightarrow> ok (reset (fst p) (reset (fst p) (copy (fst p) t))) (M - {#p#})"
  by (rule reset_ok) (simp add: copy_reset_ok)

lemma reset_all_ok: "ok t (M + mset ps) \<Longrightarrow> ok (fold (\<lambda>p. reset (fst p)) ps t) M"
proof (induction ps arbitrary: t)
  case (Cons p ps)
  have "ok t ((M + mset ps) + {#p#})" using Cons(2) by simp
  from Cons(1) [OF reset_ok [OF this]] show ?case by simp
qed simp

end

definition sockets_ok :: "stable \<Rightarrow> (u32 \<times> nat) multiset \<Rightarrow> bool" where
  "sockets_ok t M \<longleftrightarrow> (\<exists>pins fl. mset pins = M \<and> table_ok t pins fl)"

lemma mset_remove_nth: "k < length xs \<Longrightarrow> mset (take k xs @ drop (Suc k) xs) + {#xs ! k#} = mset xs"
  by (subst (4) id_take_nth_drop [of k xs]) simp_all

lemma pin_count_mset: "pin_count i pins = size (filter_mset (\<lambda>p. fst p = i) (mset pins))"
  by (simp add: pin_count_def flip: mset_filter)

lemma table_ok_perm: "table_ok t pins fl \<Longrightarrow> mset pins = mset pins' \<Longrightarrow> table_ok t pins' fl"
  unfolding table_ok_def by (simp add: pin_count_mset flip: set_mset_mset)

interpretation sockets: pin_table sockets_ok pin_slot pin_Reset pin_get
proof
  fix t M and p :: "u32 \<times> nat"
  assume "sockets_ok t M" "p \<in># M"
  then obtain pins fl k where t: "mset pins = M" "table_ok t pins fl" "k < length pins" "pins ! k = p"
    unfolding sockets_ok_def by (metis in_set_conv_nth set_mset_mset)
  from Copy_ok [OF t(2,3)] have "table_ok (pin_slot (fst p) t) (p # pins) fl" by (simp add: t(4))
  then show "sockets_ok (pin_slot (fst p) t) (M + {#p#})" unfolding sockets_ok_def using t(1) by (intro exI [of _ "p # pins"]) auto
  have "(fst p, snd p) \<in> set pins" using t(3,4) by (metis nth_mem prod.collapse)
  from table_okD(8) [OF t(2) this] show "pin_get (fst p) t = snd p \<or> pin_get (fst p) t = 0" by (auto simp: pin_get_def)
next
  fix t M and p :: "u32 \<times> nat"
  assume "sockets_ok t (M + {#p#})"
  then obtain pins fl where t: "mset pins = M + {#p#}" "table_ok t pins fl" unfolding sockets_ok_def by blast
  have "p \<in> set pins" using arg_cong [OF t(1), of set_mset] by auto
  then obtain k where k: "k < length pins" "pins ! k = p" by (metis in_set_conv_nth)
  have "mset (take k pins @ drop (Suc k) pins) = M" using mset_remove_nth [OF k(1)] t(1) k(2) by simp
  then show "sockets_ok (pin_Reset (fst p) t) M" using Reset_ok [OF t(2) k(1) refl] k(2) unfolding sockets_ok_def by metis
qed

lemma sockets_Insert: "sockets_ok t M \<Longrightarrow> so \<noteq> 0 \<Longrightarrow> sockets_ok (snd (tb_Insert so t)) M"
  unfolding sockets_ok_def using Insert_spec by (metis prod.collapse)

lemma sockets_Close: "sockets_ok t M \<Longrightarrow> sockets_ok (snd (tb_Close h t)) M"
  unfolding sockets_ok_def using Close_ok by (metis prod.collapse)

lemma sockets_Acquire:
  "sockets_ok t M \<Longrightarrow> tb_Acquire h t = (Some i, t') \<Longrightarrow> sockets_ok t' (M + {#(i, tb_Find h t)#})"
  unfolding sockets_ok_def by (metis Acquire_ok add_mset_add_single mset.simps(2))

section \<open>Books\<close>

lemma map_filter_simps2 [simp]: "List.map_filter f [] = []"
  "List.map_filter f (x # xs) = (case f x of None \<Rightarrow> List.map_filter f xs | Some y \<Rightarrow> y # List.map_filter f xs)"
  "List.map_filter f (xs @ ys) = List.map_filter f xs @ List.map_filter f ys"
  by (simp_all add: List.map_filter_def split: option.splits)

text \<open>The pins held by queued requests and completions.\<close>

definition pinset :: "dimpl \<Rightarrow> spin multiset" where
  "pinset d = image_mset rq_pin (mset (di_accepts d)) + image_mset rq_pin (mset (di_sends d)) + image_mset rq_pin (mset (di_connects d)) +
     image_mset snd (mset (di_reads d)) + image_mset snd (mset (di_disconnects d)) + mset (List.map_filter dc_pin (di_completions d))"

text \<open>The pins in the table are those, and the ones a running operation holds besides.\<close>

definition held :: "dimpl \<Rightarrow> spin multiset \<Rightarrow> bool" where
  "held d M \<longleftrightarrow> sockets_ok (di_table d) (pinset d + M)"

text \<open>The tags that still wait for their final completion, and those that got it.\<close>

definition waiting :: "dimpl \<Rightarrow> nat multiset" where
  "waiting d = image_mset rq_tag (mset (di_accepts d)) + image_mset rq_tag (mset (di_sends d)) + image_mset rq_tag (mset (di_connects d)) +
     image_mset dc_tag (filter_mset (\<lambda>x. \<not> dc_more x) (mset (di_completions d)))"

definition answered :: "dimpl \<Rightarrow> nat multiset" where
  "answered d = image_mset fst (filter_mset (\<lambda>x. \<not> snd (snd x)) (mset (di_delivered d)))"

definition due :: "dimpl \<Rightarrow> nat multiset \<Rightarrow> bool" where
  "due d N \<longleftrightarrow> mset (di_submitted d) = answered d + waiting d + N"

text \<open>Connection flags and counters, for the reads and disconnect polls queued or in hand.\<close>

definition conns_ok :: "(u64 \<Rightarrow> u32) \<Rightarrow> dimpl \<Rightarrow> u64 list \<Rightarrow> u64 list \<Rightarrow> bool" where
  "conns_ok base d rs ps \<longleftrightarrow> distinct rs \<and> distinct ps \<and>
     (\<forall>c. (uc_recv_armed (di_conns d c) \<longleftrightarrow> c \<in> set rs) \<and> (uc_poll_armed (di_conns d c) \<longleftrightarrow> c \<in> set ps) \<and>
        uc_inflight_ops (di_conns d c) = base c + of_bool (c \<in> set rs) + of_bool (c \<in> set ps))"

definition reads_of :: "dimpl \<Rightarrow> u64 list" where "reads_of d = map fst (di_reads d)"
definition polls_of :: "dimpl \<Rightarrow> u64 list" where "polls_of d = map fst (di_disconnects d)"

lemmas book_defs = pinset_def waiting_def answered_def reads_of_def polls_of_def

lemma book_simps [simp]:
  "pinset (call d) = pinset d" "waiting (call d) = waiting d" "answered (call d) = answered d" "di_table (call d) = di_table d"
  "di_submitted (call d) = di_submitted d" "di_conns (call d) = di_conns d" "reads_of (call d) = reads_of d" "polls_of (call d) = polls_of d"
  "pinset (copy_pin p d) = pinset d" "waiting (copy_pin p d) = waiting d" "answered (copy_pin p d) = answered d"
  "di_submitted (copy_pin p d) = di_submitted d" "di_conns (copy_pin p d) = di_conns d" "reads_of (copy_pin p d) = reads_of d" "polls_of (copy_pin p d) = polls_of d"
  "pinset (drop_pin p d) = pinset d" "waiting (drop_pin p d) = waiting d" "answered (drop_pin p d) = answered d"
  "di_submitted (drop_pin p d) = di_submitted d" "di_conns (drop_pin p d) = di_conns d" "reads_of (drop_pin p d) = reads_of d" "polls_of (drop_pin p d) = polls_of d"
  by (simp_all add: call_def copy_pin_def drop_pin_def book_defs)

lemma pin_fields [simp]:
  "di_accepts (drop_pin p d) = di_accepts d" "di_sends (drop_pin p d) = di_sends d" "di_connects (drop_pin p d) = di_connects d" "di_reads (drop_pin p d) = di_reads d"
  "di_disconnects (drop_pin p d) = di_disconnects d" "di_completions (drop_pin p d) = di_completions d" "di_delivered (drop_pin p d) = di_delivered d"
  by (simp_all add: drop_pin_def)

lemma book_tables [simp]:
  "pinset (d\<lparr>di_table := t\<rparr>) = pinset d" "waiting (d\<lparr>di_table := t\<rparr>) = waiting d" "answered (d\<lparr>di_table := t\<rparr>) = answered d"
  "reads_of (d\<lparr>di_table := t\<rparr>) = reads_of d" "polls_of (d\<lparr>di_table := t\<rparr>) = polls_of d"
  "pinset (d\<lparr>di_closed := x\<rparr>) = pinset d" "waiting (d\<lparr>di_closed := x\<rparr>) = waiting d" "answered (d\<lparr>di_closed := x\<rparr>) = answered d"
  "reads_of (d\<lparr>di_closed := x\<rparr>) = reads_of d" "polls_of (d\<lparr>di_closed := x\<rparr>) = polls_of d"
  "pinset (d\<lparr>di_work := w\<rparr>) = pinset d" "waiting (d\<lparr>di_work := w\<rparr>) = waiting d" "answered (d\<lparr>di_work := w\<rparr>) = answered d"
  "reads_of (d\<lparr>di_work := w\<rparr>) = reads_of d" "polls_of (d\<lparr>di_work := w\<rparr>) = polls_of d"
  "pinset (d\<lparr>di_submitted := l\<rparr>) = pinset d" "waiting (d\<lparr>di_submitted := l\<rparr>) = waiting d" "answered (d\<lparr>di_submitted := l\<rparr>) = answered d"
  "reads_of (d\<lparr>di_submitted := l\<rparr>) = reads_of d" "polls_of (d\<lparr>di_submitted := l\<rparr>) = polls_of d"
  "pinset (d\<lparr>di_tick := n\<rparr>) = pinset d" "waiting (d\<lparr>di_tick := n\<rparr>) = waiting d" "answered (d\<lparr>di_tick := n\<rparr>) = answered d"
  "reads_of (d\<lparr>di_tick := n\<rparr>) = reads_of d" "polls_of (d\<lparr>di_tick := n\<rparr>) = polls_of d"
  "pinset (d\<lparr>di_ready := y\<rparr>) = pinset d" "waiting (d\<lparr>di_ready := y\<rparr>) = waiting d" "answered (d\<lparr>di_ready := y\<rparr>) = answered d"
  "reads_of (d\<lparr>di_ready := y\<rparr>) = reads_of d" "polls_of (d\<lparr>di_ready := y\<rparr>) = polls_of d"
  "pinset (d\<lparr>di_peer := z\<rparr>) = pinset d" "waiting (d\<lparr>di_peer := z\<rparr>) = waiting d" "answered (d\<lparr>di_peer := z\<rparr>) = answered d"
  "reads_of (d\<lparr>di_peer := z\<rparr>) = reads_of d" "polls_of (d\<lparr>di_peer := z\<rparr>) = polls_of d"
  "pinset (upd_c c f d) = pinset d" "waiting (upd_c c f d) = waiting d" "answered (upd_c c f d) = answered d" "di_submitted (upd_c c f d) = di_submitted d"
  "reads_of (upd_c c f d) = reads_of d" "polls_of (upd_c c f d) = polls_of d" "di_table (upd_c c f d) = di_table d"
  by (simp_all add: book_defs upd_c_def)

lemma held_copy: "held d M \<Longrightarrow> p \<in># pinset d + M \<Longrightarrow> held (copy_pin p d) (M + {#p#})"
  using sockets.copy_ok [of "di_table d" "pinset d + M" p] by (simp add: held_def copy_pin_def [of p d])

lemma held_drop: "held d (M + {#p#}) \<Longrightarrow> held (drop_pin p d) M"
  using sockets.reset_ok [of "di_table d" "pinset d + M" p] by (simp add: held_def drop_pin_def [of p d])

lemma held_drops: "held d (M + mset ps) \<Longrightarrow> held (fold drop_pin ps d) M"
  by (induction ps arbitrary: d) (simp_all add: held_drop)

lemma held_Own: "held d M \<Longrightarrow> so \<noteq> 0 \<Longrightarrow> held (snd (di_Own so d)) M"
  using sockets_Insert [of "di_table d" "pinset d + M" so] by (auto simp: held_def di_Own_def Let_def split: prod.splits)

lemma Own_books:
  "di_Own so d = (h, d') \<Longrightarrow> pinset d' = pinset d \<and> waiting d' = waiting d \<and> answered d' = answered d \<and> di_submitted d' = di_submitted d \<and>
     di_conns d' = di_conns d \<and> reads_of d' = reads_of d \<and> polls_of d' = polls_of d \<and> di_accepts d' = di_accepts d"
  by (auto simp: di_Own_def Let_def split: prod.splits if_splits)

lemma held_Acquire:
  assumes "held d M" "di_Acquire fd d = (r, d1)"
  shows "d1 = d\<lparr>di_table := di_table d1\<rparr>" "r = None \<Longrightarrow> d1 = d" "r = Some p \<Longrightarrow> held d1 (M + {#p#})"
proof -
  show "d1 = d\<lparr>di_table := di_table d1\<rparr>" using assms(2) by (auto simp: di_Acquire_def split: prod.splits option.splits)
  show "r = None \<Longrightarrow> d1 = d" using assms(2) by (auto simp: di_Acquire_def tb_Acquire_def split: if_splits)
  show "held d1 (M + {#p#})" if "r = Some p"
    using assms that sockets_Acquire [of "di_table d" "pinset d + M" fd] by (auto simp: di_Acquire_def held_def split: prod.splits option.splits)
qed

section \<open>Calls\<close>

definition books :: "(u64 \<Rightarrow> u32) \<Rightarrow> dimpl \<Rightarrow> spin multiset \<Rightarrow> nat multiset \<Rightarrow> bool" where
  "books base d M N \<longleftrightarrow> held d M \<and> due d N \<and> conns_ok base d (reads_of d) (polls_of d)"

lemma Acquire_cases:
  assumes "held d M"
  obtains "di_Acquire fd d = (None, d)"
    | p t where "di_Acquire fd d = (Some p, d\<lparr>di_table := t\<rparr>)" "sockets_ok t (pinset d + M + {#p#})" "sockets_ok (pin_Reset (fst p) t) (pinset d + M)"
proof -
  obtain r d1 where a: "di_Acquire fd d = (r, d1)" by fastforce
  note h = held_Acquire [OF assms a]
  show thesis
  proof (cases r)
    case None
    then show thesis using that(1) a h(2) by simp
  next
    case (Some p)
    then have s: "sockets_ok (di_table d1) (pinset d + M + {#p#})" using h(1,3) by (metis book_tables(1) held_def add.assoc)
    show thesis using that(2) [of p "di_table d1"] a h(1) Some s sockets.reset_ok [OF s] by simp
  qed
qed

lemma conns_ok_same: "conns_ok base d rs ps \<Longrightarrow> di_conns d' = di_conns d \<Longrightarrow> conns_ok base d' rs ps"
  by (simp add: conns_ok_def)

lemma books_Send: "books base d M N \<Longrightarrow> books base (snd (di_SubmitSend fd bytes tag d)) M N"
proof -
  assume b: "books base d M N"
  then have h: "held d M" by (simp add: books_def)
  show ?thesis
    by (rule Acquire_cases [OF h, of fd])
      (use b in \<open>auto simp: di_SubmitSend_def books_def held_def due_def book_defs ac_simps conns_ok_def\<close>)
qed

lemma books_SendMsg: "books base d M N \<Longrightarrow> books base (snd (di_SubmitSendMsg fd msg x tag d)) M N"
proof -
  assume b: "books base d M N"
  then have h: "held d M" by (simp add: books_def)
  show ?thesis
    by (rule Acquire_cases [OF h, of fd])
      (use b in \<open>auto simp: di_SubmitSendMsg_def books_def held_def due_def book_defs ac_simps conns_ok_def\<close>)
qed

lemma books_Accept: "books base d M N \<Longrightarrow> books base (snd (di_SubmitAcceptMultishot fd tag d)) M N"
proof -
  assume b: "books base d M N"
  then have h: "held d M" by (simp add: books_def)
  show ?thesis
    by (rule Acquire_cases [OF h, of fd])
      (use b in \<open>auto simp: di_SubmitAcceptMultishot_def books_def held_def due_def book_defs ac_simps conns_ok_def drop_pin_def\<close>)
qed

lemma books_Connect: "books base d M N \<Longrightarrow> books base (snd (di_SubmitConnect env fd ok tag d)) M N"
proof -
  assume b: "books base d M N"
  then have h: "held d M" by (simp add: books_def)
  show ?thesis
    by (rule Acquire_cases [OF h, of fd])
      (use b in \<open>auto simp: di_SubmitConnect_def books_def held_def due_def book_defs ac_simps conns_ok_def drop_pin_def call_def QueueCompletion_def Let_def\<close>)
qed

lemma take_first_Some: "take_first P xs = Some (x, ys) \<Longrightarrow> P x \<and> mset xs = add_mset x (mset ys) \<and> (distinct (map f xs) \<longrightarrow> distinct (map f ys) \<and> f ` set ys = f ` set xs - {f x})"
proof (induction xs arbitrary: ys)
  case (Cons z zs)
  then show ?case
  proof (cases "P z")
    case False
    then obtain zs' where z: "take_first P zs = Some (x, zs')" "ys = z # zs'" using Cons(2) by auto
    note IH = Cons(1) [OF z(1)]
    have x: "x \<in> set zs" using IH by (metis set_mset_mset union_single_eq_member add_mset_add_single)
    then have "distinct (map f (z # zs)) \<Longrightarrow> f z \<noteq> f x" by auto
    then show ?thesis using IH z(2) by auto
  qed auto
qed simp

lemma books_Cancel: "books base d M N \<Longrightarrow> books base (snd (di_SubmitCancel tag d)) M N"
proof -
  assume b: "books base d M N"
  have acc: "books base (QueueCompletion tag (- ECANCELED) False (Some (rq_pin r)) (d\<lparr>di_accepts := rs\<rparr>)) M N"
    if "take_first (\<lambda>r. rq_tag r = tag) (di_accepts d) = Some (r, rs)" for r rs
    using take_first_Some [OF that, of rq_tag] b by (simp add: books_def held_def due_def book_defs QueueCompletion_def conns_ok_def ac_simps)
  have snd: "books base (QueueCompletion tag (- ECANCELED) False (Some (rq_pin r)) (d\<lparr>di_sends := rs\<rparr>)) M N"
    if "take_first (\<lambda>r. rq_tag r = tag) (di_sends d) = Some (r, rs)" for r rs
    using take_first_Some [OF that, of rq_tag] b by (simp add: books_def held_def due_def book_defs QueueCompletion_def conns_ok_def ac_simps)
  have con: "books base (QueueCompletion tag (- ECANCELED) False (Some (rq_pin r)) (d\<lparr>di_connects := rs\<rparr>)) M N"
    if "take_first (\<lambda>r. rq_tag r = tag) (di_connects d) = Some (r, rs)" for r rs
    using take_first_Some [OF that, of rq_tag] b by (simp add: books_def held_def due_def book_defs QueueCompletion_def conns_ok_def ac_simps)
  show ?thesis using b acc snd con by (auto simp: di_SubmitCancel_def Let_def split: option.splits)
qed

lemma conns_start_read:
  assumes "conns_ok base d rs ps" "c \<notin> set rs" "di_conns d' = (di_conns d)(c := x)" "uc_recv_armed x" "uc_poll_armed x = uc_poll_armed (di_conns d c)"
    "uc_inflight_ops x = uc_inflight_ops (di_conns d c) + 1"
  shows "conns_ok base d' (rs @ [c]) ps"
  using assms by (auto simp: conns_ok_def)

lemma conns_start_poll:
  assumes "conns_ok base d rs ps" "c \<notin> set ps" "di_conns d' = (di_conns d)(c := x)" "uc_poll_armed x" "uc_recv_armed x = uc_recv_armed (di_conns d c)"
    "uc_inflight_ops x = uc_inflight_ops (di_conns d c) + 1"
  shows "conns_ok base d' rs (ps @ [c])"
  using assms by (auto simp: conns_ok_def)

lemma conns_armed: "conns_ok base d rs ps \<Longrightarrow> uc_recv_armed (di_conns d c) = (c \<in> set rs) \<and> uc_poll_armed (di_conns d c) = (c \<in> set ps)"
  by (simp add: conns_ok_def)

lemma books_Recv: "books base d M N \<Longrightarrow> books base (snd (di_StartRecv c d)) M N"
proof -
  assume b: "books base d M N"
  then have h: "held d M" and cn: "conns_ok base d (reads_of d) (polls_of d)" by (simp_all add: books_def)
  show ?thesis
  proof (cases "c = 0 \<or> \<not> IsDpdkSocket (rf_fd (uc_file (di_conns d c))) \<or> uc_recv_armed (di_conns d c) \<or> uc_closed (di_conns d c) \<or> uc_closing (di_conns d c) \<or>
      uc_recv_paused (di_conns d c) \<or> uc_received (di_conns d c) \<noteq> []")
    case True
    then show ?thesis using b by (auto simp: di_StartRecv_def Let_def)
  next
    case False
    show ?thesis
    proof (rule Acquire_cases [OF h, of "rf_fd (uc_file (di_conns d c))"])
      assume "di_Acquire (rf_fd (uc_file (di_conns d c))) d = (None, d)"
      then show ?thesis using b False by (simp add: di_StartRecv_def Let_def)
    next
      fix p t assume a: "di_Acquire (rf_fd (uc_file (di_conns d c))) d = (Some p, d\<lparr>di_table := t\<rparr>)" "sockets_ok t (pinset d + M + {#p#})"
      define d' where "d' = snd (di_StartRecv c d)"
      have d': "reads_of d' = reads_of d @ [c]" "polls_of d' = polls_of d" "pinset d' = pinset d + {#p#}" "di_table d' = t" "due d' N = due d N"
        using False a(1) unfolding d'_def by (simp_all add: di_StartRecv_def Let_def book_defs upd_c_def due_def)
      have n: "c \<notin> set (reads_of d)" using conns_armed [OF cn] False by blast
      have "conns_ok base d' (reads_of d @ [c]) (polls_of d)"
        by (rule conns_start_read [where x = "di_conns d' c", OF cn n]) (use False a(1) in \<open>simp_all add: d'_def di_StartRecv_def Let_def upd_c_def\<close>)
      then have "books base d' M N" using b a(2) by (simp add: books_def held_def d' ac_simps)
      then show ?thesis by (simp add: d'_def)
    qed
  qed
qed

lemma books_Peer: "books base d M N \<Longrightarrow> books base (snd (di_StartPeerDisconnectPoll c d)) M N"
proof -
  assume b: "books base d M N"
  then have h: "held d M" and cn: "conns_ok base d (reads_of d) (polls_of d)" by (simp_all add: books_def)
  show ?thesis
  proof (cases "c = 0 \<or> \<not> IsDpdkSocket (rf_fd (uc_file (di_conns d c))) \<or> uc_poll_armed (di_conns d c) \<or> uc_closed (di_conns d c) \<or> uc_closing (di_conns d c)")
    case True
    then show ?thesis using b by (auto simp: di_StartPeerDisconnectPoll_def Let_def)
  next
    case False
    show ?thesis
    proof (rule Acquire_cases [OF h, of "rf_fd (uc_file (di_conns d c))"])
      assume "di_Acquire (rf_fd (uc_file (di_conns d c))) d = (None, d)"
      then show ?thesis using b False by (simp add: di_StartPeerDisconnectPoll_def Let_def)
    next
      fix p t assume a: "di_Acquire (rf_fd (uc_file (di_conns d c))) d = (Some p, d\<lparr>di_table := t\<rparr>)" "sockets_ok t (pinset d + M + {#p#})"
      define d' where "d' = snd (di_StartPeerDisconnectPoll c d)"
      have d': "reads_of d' = reads_of d" "polls_of d' = polls_of d @ [c]" "pinset d' = pinset d + {#p#}" "di_table d' = t" "due d' N = due d N"
        using False a(1) unfolding d'_def by (simp_all add: di_StartPeerDisconnectPoll_def Let_def book_defs upd_c_def due_def)
      have n: "c \<notin> set (polls_of d)" using conns_armed [OF cn] False by blast
      have "conns_ok base d' (reads_of d) (polls_of d @ [c])"
        by (rule conns_start_poll [where x = "di_conns d' c", OF cn n]) (use False a(1) in \<open>simp_all add: d'_def di_StartPeerDisconnectPoll_def Let_def upd_c_def\<close>)
      then have "books base d' M N" using b a(2) by (simp add: books_def held_def d' ac_simps)
      then show ?thesis by (simp add: d'_def)
    qed
  qed
qed

lemma FinishRead_spec:
  "pinset (FinishRead c d) = pinset d" "waiting (FinishRead c d) = waiting d" "answered (FinishRead c d) = answered d"
  "di_submitted (FinishRead c d) = di_submitted d" "di_table (FinishRead c d) = di_table d" "reads_of (FinishRead c d) = reads_of d"
  "polls_of (FinishRead c d) = polls_of d" "\<exists>x. di_conns (FinishRead c d) = (di_conns d)(c := x) \<and> \<not> uc_recv_armed x \<and>
     uc_poll_armed x = uc_poll_armed (di_conns d c) \<and> uc_inflight_ops x = uc_inflight_ops (di_conns d c) - 1"
  by (auto simp: FinishRead_def Let_def) (auto simp: upd_c_def)

lemma conns_end_read:
  assumes "conns_ok base d rs ps" "c \<in> set rs" "distinct rs'" "set rs' = set rs - {c}"
    "di_conns d' = (di_conns d)(c := x)" "\<not> uc_recv_armed x" "uc_poll_armed x = uc_poll_armed (di_conns d c)"
    "uc_inflight_ops x = uc_inflight_ops (di_conns d c) - 1"
  shows "conns_ok base d' rs' ps"
  using assms by (auto simp: conns_ok_def)

lemma conns_end_poll:
  assumes "conns_ok base d rs ps" "c \<in> set ps" "distinct ps'" "set ps' = set ps - {c}"
    "di_conns d' = (di_conns d)(c := x)" "\<not> uc_poll_armed x" "uc_recv_armed x = uc_recv_armed (di_conns d c)"
    "uc_inflight_ops x = uc_inflight_ops (di_conns d c) - 1"
  shows "conns_ok base d' rs ps'"
  using assms by (auto simp: conns_ok_def)

lemma FinishRead_conns:
  assumes "conns_ok base d rs ps" "c \<in> set rs" "distinct rs'" "set rs' = set rs - {c}" "di_conns e = di_conns d"
  shows "conns_ok base (FinishRead c e) rs' ps"
proof -
  obtain x where x: "di_conns (FinishRead c e) = (di_conns e)(c := x)" "\<not> uc_recv_armed x" "uc_poll_armed x = uc_poll_armed (di_conns e c)"
    "uc_inflight_ops x = uc_inflight_ops (di_conns e c) - 1" using FinishRead_spec(8) [of c e] by blast
  show ?thesis using conns_end_read [OF assms(1-4) x(1) [unfolded assms(5)] x(2) x(3) [unfolded assms(5)] x(4) [unfolded assms(5)]] .
qed

lemma books_CancelRecv: "books base d M N \<Longrightarrow> books base (snd (di_SubmitCancelRecv c tag d)) M N"
proof (cases "take_first (\<lambda>r. fst r = c) (di_reads d)")
  case None
  then show "books base d M N \<Longrightarrow> ?thesis" by (simp add: di_SubmitCancelRecv_def)
next
  case (Some rr)
  assume b: "books base d M N"
  then have cn: "conns_ok base d (reads_of d) (polls_of d)" by (simp add: books_def)
  obtain c' pin rs where rr: "rr = ((c', pin), rs)" by (metis prod.exhaust)
  note t = take_first_Some [OF Some [unfolded rr], of fst]
  have ms: "mset (di_reads d) = add_mset (c, pin) (mset rs)" and c': "c' = c" using t by auto
  define d1 where "d1 = FinishRead c (d\<lparr>di_reads := rs\<rparr>)"
  have "(c, pin) \<in> set (di_reads d)" using arg_cong [OF ms, of set_mset] by auto
  then have "fst (c, pin) \<in> fst ` set (di_reads d)" by (rule imageI)
  moreover have "distinct (map fst (di_reads d))" using cn by (simp add: conns_ok_def reads_of_def)
  ultimately have r: "distinct (map fst rs)" "set (map fst rs) = set (reads_of d) - {c}" "c \<in> set (reads_of d)"
    using t by (simp_all add: reads_of_def c')
  have "conns_ok base d1 (map fst rs) (polls_of d)" unfolding d1_def
    by (rule FinishRead_conns [OF cn r(3,1,2)]) simp
  moreover have "pinset d = pinset d1 + {#pin#}" "waiting d1 = waiting d" "answered d1 = answered d" "di_submitted d1 = di_submitted d" "di_table d1 = di_table d"
    "reads_of d1 = map fst rs" "polls_of d1 = polls_of d"
    by (simp_all add: d1_def FinishRead_spec) (simp_all add: book_defs ms)
  ultimately have d1: "held d1 (M + {#pin#})" "due d1 N" "conns_ok base d1 (reads_of d1) (polls_of d1)"
    using b by (simp_all add: books_def held_def due_def ac_simps)
  have "held (QueueCompletion tag 0 False (Some pin) (d1\<lparr>di_submitted := tag # di_submitted d1\<rparr>)) M"
    "due (QueueCompletion tag 0 False (Some pin) (d1\<lparr>di_submitted := tag # di_submitted d1\<rparr>)) N"
    "conns_ok base (QueueCompletion tag 0 False (Some pin) (d1\<lparr>di_submitted := tag # di_submitted d1\<rparr>)) (reads_of d1) (polls_of d1)"
    using d1 by (simp_all add: held_def due_def QueueCompletion_def book_defs conns_ok_def ac_simps)
  moreover have "reads_of (QueueCompletion tag 0 False (Some pin) (d1\<lparr>di_submitted := tag # di_submitted d1\<rparr>)) = reads_of d1"
    "polls_of (QueueCompletion tag 0 False (Some pin) (d1\<lparr>di_submitted := tag # di_submitted d1\<rparr>)) = polls_of d1"
    by (simp_all add: QueueCompletion_def book_defs)
  ultimately have a: "books base (QueueCompletion tag 0 False (Some pin) (d1\<lparr>di_submitted := tag # di_submitted d1\<rparr>)) M N" by (simp add: books_def)
  have "books base (drop_pin pin d1) M N" using held_drop [OF d1(1)] d1(2,3) by (simp add: books_def due_def conns_ok_def)
  with a show ?thesis by (simp add: di_SubmitCancelRecv_def Some rr d1_def Let_def)
qed

lemma books_CancelPeer: "books base d M N \<Longrightarrow> books base (snd (di_CancelPeerDisconnectPoll c d)) M N"
  by (auto simp: di_CancelPeerDisconnectPoll_def books_def held_def due_def conns_ok_def upd_c_def book_defs)

lemma books_Close: "books base d M N \<Longrightarrow> books base (snd (di_Close env h d)) M N"
  using sockets_Close [of "di_table d" "pinset d + M" h]
  by (auto simp: di_Close_def books_def held_def due_def conns_ok_def Let_def split: prod.splits)

lemma books_Own: "books base d M N \<Longrightarrow> so \<noteq> 0 \<Longrightarrow> books base (snd (di_Own so d)) M N"
proof -
  assume b: "books base d M N" and so: "so \<noteq> 0"
  obtain h d' where o: "di_Own so d = (h, d')" by fastforce
  have "held d' M" using held_Own [of d M so] b so by (simp add: books_def o)
  then show ?thesis using b Own_books [OF o] by (simp add: o books_def due_def conns_ok_def)
qed

lemmas dop_books = books_Send books_SendMsg books_Connect books_Accept books_Cancel books_Recv books_CancelRecv books_Peer books_CancelPeer
  books_Close books_Own

lemma books_dop: "books base d M N \<Longrightarrow> books base (do_dop env x d) M N"
  by (cases x) (simp_all add: dop_books)

lemma books_dops: "books base d M N \<Longrightarrow> books base (fold (do_dop env) xs d) M N"
  by (induction xs arbitrary: d) (simp_all add: books_dop)

section \<open>Scans\<close>

text \<open>The books while a scan holds requests: pins, tags, reads and polls in hand.\<close>

definition in_scan :: "(u64 \<Rightarrow> u32) \<Rightarrow> dimpl \<Rightarrow> spin multiset \<Rightarrow> nat multiset \<Rightarrow> u64 list \<Rightarrow> u64 list \<Rightarrow> bool" where
  "in_scan base d M N rs ps \<longleftrightarrow> held d M \<and> due d N \<and> conns_ok base d (reads_of d @ rs) (polls_of d @ ps)"

lemma books_scan: "books base d M N \<longleftrightarrow> in_scan base d M N [] []"
  by (simp add: books_def in_scan_def)

text \<open>A copied pin is balanced by dropping one of the two.\<close>

lemma held_copied: "held d (M + {#p#}) \<Longrightarrow> held (drop_pin p (call (copy_pin p d))) (M + {#p#}) \<and> held (call (copy_pin p d)) (M + {#p#} + {#p#})"
proof -
  assume "held d (M + {#p#})"
  from held_copy [OF this, of p] have h: "held (call (copy_pin p d)) (M + {#p#} + {#p#})" by (simp add: held_def)
  with held_drop [OF this] show ?thesis by blast
qed

lemma scan_connect:
  assumes "in_scan base d (M + {#rq_pin r#}) (N + {#rq_tag r#}) rs ps"
  shows "in_scan base (connect_one env r d) M N rs ps"
proof -
  define d2 where "d2 = call (copy_pin (rq_pin r) d)"
  have h: "held (drop_pin (rq_pin r) d2) (M + {#rq_pin r#})" "held d2 (M + {#rq_pin r#} + {#rq_pin r#})"
    using held_copied [of d M "rq_pin r"] assms by (simp_all add: in_scan_def d2_def)
  have b: "due d2 (N + {#rq_tag r#})" "conns_ok base d2 (reads_of d2 @ rs) (polls_of d2 @ ps)" using assms by (simp_all add: in_scan_def d2_def due_def conns_ok_def)
  have "held (d2\<lparr>di_connects := di_connects d2 @ [r]\<rparr>) (M + {#rq_pin r#})" using h(2) by (simp add: held_def pinset_def ac_simps)
  from held_drop [OF this] have "in_scan base (drop_pin (rq_pin r) (d2\<lparr>di_connects := di_connects d2 @ [r]\<rparr>)) M N rs ps"
    using b by (simp add: in_scan_def due_def book_defs conns_ok_def ac_simps)
  moreover have "in_scan base ((QueueCompletion (rq_tag r) x False (Some (rq_pin r)) (drop_pin (rq_pin r) d2))\<lparr>di_work := True\<rparr>) M N rs ps" for x
    using h(1) b by (simp add: in_scan_def held_def due_def QueueCompletion_def drop_pin_def book_defs conns_ok_def ac_simps)
  ultimately show ?thesis unfolding connect_one_def Let_def d2_def [symmetric] by simp
qed

lemma scan_send:
  assumes "in_scan base d (M + {#rq_pin r#}) (N + {#rq_tag r#}) rs ps"
  shows "in_scan base (send_one env r d) M N rs ps"
proof -
  define d1 where "d1 = copy_pin (rq_pin r) d"
  have h1: "held d1 (M + {#rq_pin r#} + {#rq_pin r#})" using held_copied [of d M "rq_pin r"] assms by (simp add: in_scan_def d1_def held_def)
  have main: "in_scan base (if error = EAGAIN \<and> sent = (0 :: nat) then drop_pin (rq_pin r) (d2\<lparr>di_sends := di_sends d2 @ [r]\<rparr>)
      else (QueueCompletion (rq_tag r) (if sent \<noteq> 0 then int sent else - error) False (Some (rq_pin r)) (drop_pin (rq_pin r) d2))\<lparr>di_work := True\<rparr>) M N rs ps"
    if d2: "d2 = d1\<lparr>di_tick := n\<rparr>" for error sent n d2
  proof -
    have h: "held d2 (M + {#rq_pin r#} + {#rq_pin r#})" using h1 by (simp add: d2 held_def)
    have b: "due d2 (N + {#rq_tag r#})" "conns_ok base d2 (reads_of d2 @ rs) (polls_of d2 @ ps)"
      using assms by (simp_all add: d2 in_scan_def d1_def due_def conns_ok_def)
    have "held (d2\<lparr>di_sends := di_sends d2 @ [r]\<rparr>) (M + {#rq_pin r#})" using h by (simp add: held_def pinset_def ac_simps)
    from held_drop [OF this] have "in_scan base (drop_pin (rq_pin r) (d2\<lparr>di_sends := di_sends d2 @ [r]\<rparr>)) M N rs ps"
      using b by (simp add: in_scan_def due_def book_defs conns_ok_def ac_simps)
    moreover have "in_scan base ((QueueCompletion (rq_tag r) x False (Some (rq_pin r)) (drop_pin (rq_pin r) d2))\<lparr>di_work := True\<rparr>) M N rs ps" for x
      using held_drop [OF h] b by (simp add: in_scan_def held_def due_def QueueCompletion_def drop_pin_def book_defs conns_ok_def ac_simps)
    ultimately show ?thesis by simp
  qed
  show ?thesis unfolding send_one_def Let_def d1_def [symmetric] case_prod_unfold by (rule main) (rule refl)
qed

text \<open>A successful accept yields a socket.\<close>

definition accepts_sockets :: "bsd_env \<Rightarrow> bool" where
  "accepts_sockets env \<longleftrightarrow> (\<forall>n. fst (be_accept env n) = 0 \<longrightarrow> snd (be_accept env n) \<noteq> 0)"

lemma BsdError_eq_0: "BsdError e = 0 \<longleftrightarrow> e = 0"
  by (rule BsdError_source) (simp_all add: bsd_cases_defs errno_defs)

lemma scan_accept:
  assumes "accepts_sockets env" "in_scan base d (M + {#rq_pin r#}) (N + {#rq_tag r#}) rs ps"
  shows "in_scan base (accept_one env r d) M N rs ps"
proof -
  define d2 where "d2 = call (copy_pin (rq_pin r) d)"
  have h: "held (drop_pin (rq_pin r) d2) (M + {#rq_pin r#})" "held d2 (M + {#rq_pin r#} + {#rq_pin r#})"
    using held_copied [of d M "rq_pin r"] assms(2) by (simp_all add: in_scan_def d2_def)
  have b: "due d2 (N + {#rq_tag r#})" "conns_ok base d2 (reads_of d2 @ rs) (polls_of d2 @ ps)" using assms(2) by (simp_all add: in_scan_def d2_def due_def conns_ok_def)
  have "held (d2\<lparr>di_accepts := di_accepts d2 @ [r]\<rparr>) (M + {#rq_pin r#})" using h(2) by (simp add: held_def pinset_def ac_simps)
  from held_drop [OF this] have keep: "in_scan base (drop_pin (rq_pin r) (d2\<lparr>di_accepts := di_accepts d2 @ [r]\<rparr>)) M N rs ps"
    using b by (simp add: in_scan_def due_def book_defs conns_ok_def ac_simps)
  have fail: "in_scan base ((QueueCompletion (rq_tag r) x False (Some (rq_pin r)) (drop_pin (rq_pin r) d2))\<lparr>di_work := True\<rparr>) M N rs ps" for x
    using h(1) b by (simp add: in_scan_def held_def due_def QueueCompletion_def drop_pin_def book_defs conns_ok_def ac_simps)
  have got: "in_scan base ((QueueCompletion (rq_tag r) x True (Some (rq_pin r)) (d3\<lparr>di_accepts := di_accepts d3 @ [r]\<rparr>))\<lparr>di_work := True\<rparr>) M N rs ps"
    if o: "di_Own so d2 = (k, d3)" "so \<noteq> 0" for so k d3 x
  proof -
    have h3: "held d3 (M + {#rq_pin r#} + {#rq_pin r#})" using held_Own [OF h(2) o(2)] by (simp add: o(1))
    note B = Own_books [OF o(1)]
    have b3: "due d3 (N + {#rq_tag r#})" "conns_ok base d3 (reads_of d3 @ rs) (polls_of d3 @ ps)" using B b by (simp_all add: due_def conns_ok_def)
    show ?thesis using h3 b3 by (simp add: in_scan_def held_def due_def QueueCompletion_def book_defs conns_ok_def ac_simps)
  qed
  have "snd (be_accept env n) \<noteq> 0" if "BsdError (fst (be_accept env n)) = 0" for n using assms(1) that by (simp add: accepts_sockets_def BsdError_eq_0)
  then show ?thesis using keep fail got unfolding accept_one_def Let_def d2_def [symmetric]
    by (auto split: prod.splits simp: EBADF_def)
qed

lemma scan_read:
  assumes "in_scan base d (M + {#snd r#}) N (fst r # rs) ps"
  shows "in_scan base (read_one env r d) M N rs ps"
proof -
  define c pin where "c = fst r" and "pin = snd r"
  define d2 where "d2 = call (copy_pin pin d)"
  have h: "held (drop_pin pin d2) (M + {#pin#})" "held d2 (M + {#pin#} + {#pin#})"
    using held_copied [of d M pin] assms by (simp_all add: in_scan_def d2_def pin_def)
  have b: "due d2 N" "conns_ok base d2 (reads_of d2 @ c # rs) (polls_of d2 @ ps)" using assms by (simp_all add: in_scan_def d2_def due_def conns_ok_def c_def)
  have "held (d2\<lparr>di_reads := di_reads d2 @ [r]\<rparr>) (M + {#pin#})" using h(2) by (simp add: held_def pinset_def ac_simps pin_def)
  from held_drop [OF this] have keep: "in_scan base (drop_pin pin (d2\<lparr>di_reads := di_reads d2 @ [r]\<rparr>)) M N rs ps"
    using b by (simp add: in_scan_def due_def book_defs conns_ok_def c_def)
  have "in_scan base (drop_pin pin ((FinishRead c (read_result env c error got (drop_pin pin d2)))\<lparr>di_work := True\<rparr>)) M N rs ps" for error got
  proof -
    define d3 where "d3 = read_result env c error got (drop_pin pin d2)"
    have R: "pinset d3 = pinset d2" "waiting d3 = waiting d2" "answered d3 = answered d2" "di_submitted d3 = di_submitted d2" "di_table d3 = di_table (drop_pin pin d2)"
      "reads_of d3 = reads_of d2" "polls_of d3 = polls_of d2"
      "\<And>k. uc_recv_armed (di_conns d3 k) = uc_recv_armed (di_conns d2 k) \<and> uc_poll_armed (di_conns d3 k) = uc_poll_armed (di_conns d2 k) \<and>
         uc_inflight_ops (di_conns d3 k) = uc_inflight_ops (di_conns d2 k)"
      by (simp_all add: d3_def read_result_def) (simp add: upd_c_def)
    have cn: "conns_ok base d3 (reads_of d2 @ c # rs) (polls_of d2 @ ps)" using b(2) by (simp add: conns_ok_def R(8))
    have ds: "distinct (reads_of d2 @ rs)" "set (reads_of d2 @ rs) = set (reads_of d2 @ c # rs) - {c}" "c \<in> set (reads_of d2 @ c # rs)" using b(2) by (auto simp: conns_ok_def)
    have "conns_ok base (FinishRead c d3) (reads_of d2 @ rs) (polls_of d2 @ ps)" by (rule FinishRead_conns [OF cn ds(3,1,2) refl])
    moreover have "held ((FinishRead c d3)\<lparr>di_work := True\<rparr>) (M + {#pin#})" using h(1) by (simp add: held_def FinishRead_spec R)
    ultimately show ?thesis using held_drop b(1) unfolding d3_def [symmetric]
      by (simp add: in_scan_def due_def FinishRead_spec R conns_ok_def)
  qed
  with keep show ?thesis unfolding read_one_def Let_def c_def [symmetric] pin_def [symmetric] d2_def [symmetric] case_prod_unfold by simp
qed

lemma scan_disconnect:
  assumes "in_scan base d (M + {#snd r#}) N rs (fst r # ps)"
  shows "in_scan base (disconnect_one env r d) M N rs ps"
proof -
  define c pin where "c = fst r" and "pin = snd r"
  define d2 where "d2 = call (copy_pin pin d)"
  have h: "held (drop_pin pin d2) (M + {#pin#})" "held d2 (M + {#pin#} + {#pin#})"
    using held_copied [of d M pin] assms by (simp_all add: in_scan_def d2_def pin_def)
  have b: "due d2 N" "conns_ok base d2 (reads_of d2 @ rs) (polls_of d2 @ c # ps)" using assms by (simp_all add: in_scan_def d2_def due_def conns_ok_def c_def)
  have "held (d2\<lparr>di_disconnects := di_disconnects d2 @ [r]\<rparr>) (M + {#pin#})" using h(2) by (simp add: held_def pinset_def ac_simps pin_def)
  from held_drop [OF this] have keep: "in_scan base (drop_pin pin (d2\<lparr>di_disconnects := di_disconnects d2 @ [r]\<rparr>)) M N rs ps"
    using b by (simp add: in_scan_def due_def book_defs conns_ok_def c_def)
  define d3 where "d3 = upd_c c (\<lambda>x. x\<lparr>uc_poll_armed := False, uc_poll_cancel_requested := False, uc_inflight_ops := uc_inflight_ops x - 1\<rparr>) (drop_pin pin d2)"
  have ds: "distinct (polls_of d2 @ ps)" "set (polls_of d2 @ ps) = set (polls_of d2 @ c # ps) - {c}" "c \<in> set (polls_of d2 @ c # ps)" using b(2) by (auto simp: conns_ok_def)
  have cn: "conns_ok base d3 (reads_of d2 @ rs) (polls_of d2 @ ps)"
    by (rule conns_end_poll [OF b(2) ds(3,1,2), where x = "di_conns d3 c"]) (simp_all add: d3_def upd_c_def)
  have e: "in_scan base (drop_pin pin (d4\<lparr>di_work := True\<rparr>)) M N rs ps" if "d4 = d3 \<or> d4 = d3\<lparr>di_peer := di_peer d3 @ [c]\<rparr>" for d4
  proof -
    have "held (d4\<lparr>di_work := True\<rparr>) (M + {#pin#})" using that h(1) by (auto simp: held_def d3_def)
    from held_drop [OF this] show ?thesis using that cn b(1) by (auto simp: in_scan_def due_def conns_ok_def d3_def)
  qed
  show ?thesis unfolding disconnect_one_def Let_def c_def [symmetric] pin_def [symmetric] d2_def [symmetric] d3_def [symmetric]
    using keep e by simp
qed

lemma scan_fold_requests:
  assumes "\<And>r d M N. in_scan base d (M + {#rq_pin r#}) (N + {#rq_tag r#}) rs ps \<Longrightarrow> in_scan base (f r d) M N rs ps"
    "in_scan base d (M + image_mset rq_pin (mset l)) (N + image_mset rq_tag (mset l)) rs ps"
  shows "in_scan base (fold f l d) M N rs ps"
  using assms(2) by (induction l arbitrary: d) (simp_all add: assms(1))

lemma scan_fold_reads:
  assumes "in_scan base d (M + image_mset snd (mset l)) N (map fst l) ps"
  shows "in_scan base (fold (read_one env) l d) M N [] ps"
  using assms by (induction l arbitrary: d) (simp_all add: scan_read)

lemma scan_fold_polls:
  assumes "in_scan base d (M + image_mset snd (mset l)) N rs (map fst l)"
  shows "in_scan base (fold (disconnect_one env) l d) M N rs []"
  using assms by (induction l arbitrary: d) (simp_all add: scan_disconnect)

lemma books_scan_all:
  assumes "accepts_sockets env" "books base d M N"
  shows "books base (scan_all env d) M N"
proof -
  have 0: "in_scan base (d\<lparr>di_work := False\<rparr>) M N [] []" using assms(2) by (simp add: books_def in_scan_def held_def due_def conns_ok_def)
  have c: "in_scan base (fold (connect_one env) (di_connects e) (e\<lparr>di_connects := []\<rparr>)) M N [] []" if "in_scan base e M N [] []" for e
    by (rule scan_fold_requests [OF scan_connect]) (assumption, use that in \<open>simp add: in_scan_def held_def due_def book_defs conns_ok_def ac_simps\<close>)
  have a: "in_scan base (fold (accept_one env) (di_accepts e) (e\<lparr>di_accepts := []\<rparr>)) M N [] []" if "in_scan base e M N [] []" for e
    by (rule scan_fold_requests [OF scan_accept [OF assms(1)]]) (assumption, use that in \<open>simp add: in_scan_def held_def due_def book_defs conns_ok_def ac_simps\<close>)
  have s: "in_scan base (fold (send_one env) (di_sends e) (e\<lparr>di_sends := []\<rparr>)) M N [] []" if "in_scan base e M N [] []" for e
    by (rule scan_fold_requests [OF scan_send]) (assumption, use that in \<open>simp add: in_scan_def held_def due_def book_defs conns_ok_def ac_simps\<close>)
  have r: "in_scan base (fold (read_one env) (di_reads e) (e\<lparr>di_reads := []\<rparr>)) M N [] []" if "in_scan base e M N [] []" for e
    by (rule scan_fold_reads) (use that in \<open>simp add: in_scan_def held_def due_def book_defs conns_ok_def ac_simps\<close>)
  have p: "in_scan base (fold (disconnect_one env) (di_disconnects e) (e\<lparr>di_disconnects := []\<rparr>)) M N [] []" if "in_scan base e M N [] []" for e
    by (rule scan_fold_polls) (use that in \<open>simp add: in_scan_def held_def due_def book_defs conns_ok_def ac_simps\<close>)
  show ?thesis unfolding books_scan scan_all_def Let_def by (rule p [OF r [OF s [OF a [OF c [OF 0]]]]])
qed

section \<open>Delivery\<close>

definition final_tags :: "dcomp list \<Rightarrow> nat multiset" where
  "final_tags xs = image_mset dc_tag (filter_mset (\<lambda>x. \<not> dc_more x) (mset xs))"

lemma books_deliver_one:
  assumes "books base d M (N + final_tags [x])"
  shows "books base (deliver_one env x d) M N"
proof -
  have "books base (d\<lparr>di_delivered := di_delivered d @ [(dc_tag x, dc_result x, dc_more x)]\<rparr>) M N"
    using assms by (cases "dc_more x") (simp_all add: books_def held_def due_def book_defs conns_ok_def final_tags_def ac_simps)
  from books_dops [OF this] show ?thesis by (simp add: deliver_one_def Let_def)
qed

lemma books_deliver: "books base d M (N + final_tags xs) \<Longrightarrow> books base (fold (deliver_one env) xs d) M N"
proof (induction xs arbitrary: d)
  case (Cons x xs)
  have "books base d M ((N + final_tags xs) + final_tags [x])" using Cons(2) by (cases "dc_more x") (simp_all add: final_tags_def ac_simps)
  from Cons(1) [OF books_deliver_one [OF this]] show ?case by simp
qed (simp add: final_tags_def)

lemma books_drops: "books base d (M + mset ps) N \<Longrightarrow> books base (fold drop_pin ps d) M N"
proof (induction ps arbitrary: d)
  case (Cons p ps)
  have "held d ((M + mset ps) + {#p#})" using Cons(2) by (simp add: books_def)
  from held_drop [OF this] Cons show ?case by (simp add: books_def due_def conns_ok_def)
qed simp

lemma books_SocketCompletions:
  assumes "accepts_sockets env" "books base d M N"
  shows "books base (snd (SocketCompletions env d)) M N"
proof -
  define e where "e = scan_all env d"
  have e: "books base e M N" unfolding e_def by (rule books_scan_all [OF assms])
  have "books base (e\<lparr>di_completions := []\<rparr>) (M + mset (List.map_filter dc_pin (di_completions e))) (N + final_tags (di_completions e))"
    using e by (simp add: books_def held_def due_def book_defs conns_ok_def final_tags_def ac_simps)
  from books_drops [OF books_deliver [OF this]] show ?thesis by (simp add: SocketCompletions_def e_def Let_def)
qed

lemma books_step: "accepts_sockets env \<Longrightarrow> books base d {#} {#} \<Longrightarrow> books base (dp_step env x d) {#} {#}"
  by (cases x) (simp_all add: books_dop books_SocketCompletions)

lemma books_run: "accepts_sockets env \<Longrightarrow> books base d {#} {#} \<Longrightarrow> books base (fold (dp_step env) xs d) {#} {#}"
  by (induction xs arbitrary: d) (simp_all add: books_step)

text \<open>An initialised worker, with connections that have nothing in flight on this backend.\<close>

definition new_dimpl :: "stable \<Rightarrow> (u64 \<Rightarrow> uconn) \<Rightarrow> u64 \<Rightarrow> dimpl" where
  "new_dimpl t conns buffer_size =
     \<lparr>di_table = t, di_accepts = [], di_sends = [], di_connects = [], di_reads = [], di_disconnects = [], di_completions = [],
      di_conns = conns, di_ready = [], di_buffer_size = buffer_size, di_work = False, di_submitted = [], di_delivered = [], di_peer = [],
      di_closed = [], di_tick = 0\<rparr>"

definition idle_conns :: "(u64 \<Rightarrow> uconn) \<Rightarrow> bool" where
  "idle_conns conns \<longleftrightarrow> (\<forall>c. \<not> uc_recv_armed (conns c) \<and> \<not> uc_poll_armed (conns c))"

lemma books_new:
  assumes "tb_Configure first capacity t0 = Some t" "idle_conns conns"
  shows "books (\<lambda>c. uc_inflight_ops (conns c)) (new_dimpl t conns bs) {#} {#}"
proof -
  have "sockets_ok t {#}" using Configure_ok [OF assms(1)] unfolding sockets_ok_def by (intro exI [of _ "[]"]) auto
  then show ?thesis using assms(2) by (simp add: books_def held_def due_def book_defs new_dimpl_def conns_ok_def idle_conns_def)
qed

section \<open>Shutting down\<close>

definition all_closed :: "stable \<Rightarrow> bool" where
  "all_closed t \<longleftrightarrow> (\<forall>j < length (tb_slots t). sk_socket (tb_slots t ! j) = 0)"

lemma upd_slot_at: "j < length (tb_slots t) \<Longrightarrow> tb_slots (upd_slot i f t) ! j = (if unat i = j then f (tb_slots t ! j) else tb_slots t ! j)"
  by (cases "unat i = j") (simp_all add: upd_slot_def)

lemma tb_Recycle_sockets: "length (tb_slots (tb_Recycle i t)) = length (tb_slots t)"
  "j < length (tb_slots t) \<Longrightarrow> sk_socket (tb_slots (tb_Recycle i t) ! j) = sk_socket (tb_slots t ! j)"
  by (simp_all add: tb_Recycle_def upd_slot_at)

lemma pin_ops_sockets:
  "length (tb_slots (pin_slot i t)) = length (tb_slots t)" "length (tb_slots (pin_Reset i t)) = length (tb_slots t)"
  "j < length (tb_slots t) \<Longrightarrow> sk_socket (tb_slots (pin_slot i t) ! j) = sk_socket (tb_slots t ! j)"
  "j < length (tb_slots t) \<Longrightarrow> sk_socket (tb_slots (pin_Reset i t) ! j) = sk_socket (tb_slots t ! j)"
  by (simp_all add: pin_slot_def pin_Reset_def Let_def tb_Recycle_sockets upd_slot_at)

lemma all_closed_pins [simp]: "all_closed (pin_slot i t) = all_closed t" "all_closed (pin_Reset i t) = all_closed t"
  by (simp_all add: all_closed_def pin_ops_sockets)

lemma all_closed_pin_ops [simp]:
  "all_closed (di_table (copy_pin p d)) = all_closed (di_table d)" "all_closed (di_table (drop_pin p d)) = all_closed (di_table d)"
  by (simp_all add: copy_pin_def drop_pin_def)

lemma tb_Close_sockets:
  assumes "unat (tb_Index t h) < length (tb_slots t)"
  shows "length (tb_slots (snd (tb_Close h t))) = length (tb_slots t)" "tb_first (snd (tb_Close h t)) = tb_first t"
    "j < length (tb_slots t) \<Longrightarrow> sk_socket (tb_slots (snd (tb_Close h t)) ! j) = (if j = unat (tb_Index t h) then 0 else sk_socket (tb_slots t ! j))"
  using assms by (simp_all add: tb_Close_def Let_def tb_Recycle_sockets upd_slot_at) (simp add: tb_Recycle_def)

lemma close_from_closes:
  "i + n = length (tb_slots t) \<Longrightarrow> length (tb_slots t) < 2147483648 \<Longrightarrow> (\<forall>j < i. sk_socket (tb_slots t ! j) = 0) \<Longrightarrow>
   all_closed (snd (close_from i n t)) \<and> length (tb_slots (snd (close_from i n t))) = length (tb_slots t)"
proof (induction n arbitrary: i t)
  case (Suc n)
  have u: "unat (tb_Index t (tb_first t + int i)) = i" using Suc.prems by (intro index_handle) simp
  define t1 where "t1 = snd (tb_Close (tb_first t + int i) t)"
  note c = tb_Close_sockets [of t "tb_first t + int i", unfolded u, folded t1_def]
  have "\<forall>j < Suc i. sk_socket (tb_slots t1 ! j) = 0" using Suc.prems c(3) by (auto simp: less_Suc_eq)
  moreover have len: "length (tb_slots t1) = length (tb_slots t)" using c(1) Suc.prems by simp
  ultimately have "all_closed (snd (close_from (Suc i) n t1)) \<and> length (tb_slots (snd (close_from (Suc i) n t1))) = length (tb_slots t)"
    using Suc.IH [of "Suc i" t1] Suc.prems by simp
  then show ?case by (simp add: t1_def case_prod_unfold Let_def)
qed (simp add: all_closed_def)

lemma sockets_ok_bounds: "sockets_ok t M \<Longrightarrow> length (tb_slots t) < 2147483648"
  using table_bounds(1) unfolding sockets_ok_def by blast

lemma sockets_ok_range: "sockets_ok t M \<Longrightarrow> p \<in># M \<Longrightarrow> unat (fst p) < length (tb_slots t)"
  unfolding sockets_ok_def using table_okD(6) by (metis prod.collapse set_mset_mset)

lemma held_CloseAll:
  assumes "held d M"
  shows "held (d\<lparr>di_table := snd (tb_CloseAll (di_table d))\<rparr>) M" "all_closed (snd (tb_CloseAll (di_table d)))"
proof -
  have "sockets_ok (snd (close_from i n t)) K" if "sockets_ok t K" for i n t K
    using that by (induction n arbitrary: i t) (simp_all add: sockets_Close case_prod_unfold Let_def)
  then show "held (d\<lparr>di_table := snd (tb_CloseAll (di_table d))\<rparr>) M" using assms by (simp add: held_def tb_CloseAll_def)
  have "length (tb_slots (di_table d)) < 2147483648" using assms sockets_ok_bounds unfolding held_def by blast
  from close_from_closes [OF _ this, of 0] show "all_closed (snd (tb_CloseAll (di_table d)))" by (simp add: tb_CloseAll_def)
qed

lemma closed_pin: "held d (M + {#p#}) \<Longrightarrow> all_closed (di_table d) \<Longrightarrow> socket_of p (copy_pin p d) = 0"
  using sockets_ok_range [of "di_table d" "pinset d + (M + {#p#})" p]
  by (simp add: held_def all_closed_def socket_of_def pin_get_def copy_pin_def pin_ops_sockets)

text \<open>With every socket closed the scans keep nothing.\<close>

definition same_lists :: "dimpl \<Rightarrow> dimpl \<Rightarrow> bool" where
  "same_lists d d' \<longleftrightarrow> all_closed (di_table d') \<and> di_connects d' = di_connects d \<and> di_accepts d' = di_accepts d \<and> di_sends d' = di_sends d \<and>
     di_reads d' = di_reads d \<and> di_disconnects d' = di_disconnects d"

lemma FinishRead_lists:
  "di_connects (FinishRead c d) = di_connects d" "di_accepts (FinishRead c d) = di_accepts d" "di_sends (FinishRead c d) = di_sends d"
  "di_reads (FinishRead c d) = di_reads d" "di_disconnects (FinishRead c d) = di_disconnects d"
  by (simp_all add: FinishRead_def Let_def upd_c_def)

lemma closed_ones:
  assumes "held d (M + {#p#})" "all_closed (di_table d)"
  shows "rq_pin r = p \<Longrightarrow> same_lists d (connect_one env r d)" "rq_pin r = p \<Longrightarrow> same_lists d (accept_one env r d)"
    "rq_pin r = p \<Longrightarrow> same_lists d (send_one env r d)" "snd x = p \<Longrightarrow> same_lists d (read_one env x d)" "snd x = p \<Longrightarrow> same_lists d (disconnect_one env x d)"
proof -
  note z = closed_pin [OF assms]
  have c: "di_connects (call e) = di_connects e" "di_accepts (call e) = di_accepts e" "di_sends (call e) = di_sends e" "di_reads (call e) = di_reads e"
    "di_disconnects (call e) = di_disconnects e" "di_connects (copy_pin q e) = di_connects e" "di_accepts (copy_pin q e) = di_accepts e"
    "di_sends (copy_pin q e) = di_sends e" "di_reads (copy_pin q e) = di_reads e" "di_disconnects (copy_pin q e) = di_disconnects e" for e q
    by (simp_all add: call_def copy_pin_def)
  note S = same_lists_def Let_def QueueCompletion_def errno_defs c assms(2)
  show "same_lists d (connect_one env r d)" if "rq_pin r = p" using z by (simp add: connect_one_def that S)
  show "same_lists d (accept_one env r d)" if "rq_pin r = p" using z by (simp add: accept_one_def that S)
  show "same_lists d (send_one env r d)" if "rq_pin r = p" using z by (simp add: send_one_def that S)
  show "same_lists d (read_one env x d)" if "snd x = p" using z by (simp add: read_one_def that S FinishRead_lists FinishRead_spec read_result_def upd_c_def)
  show "same_lists d (disconnect_one env x d)" if "snd x = p" using z by (simp add: disconnect_one_def that S upd_c_def)
qed

lemma same_lists_trans: "same_lists a b \<Longrightarrow> same_lists b c \<Longrightarrow> same_lists a c"
  by (simp add: same_lists_def)

lemma closed_fold_requests:
  assumes "\<And>r d M N. in_scan base d (M + {#rq_pin r#}) (N + {#rq_tag r#}) rs ps \<Longrightarrow> in_scan base (f r d) M N rs ps"
    "\<And>r d M. held d (M + {#rq_pin r#}) \<Longrightarrow> all_closed (di_table d) \<Longrightarrow> same_lists d (f r d)"
    "in_scan base d (M + image_mset rq_pin (mset l)) (N + image_mset rq_tag (mset l)) rs ps" "all_closed (di_table d)"
  shows "same_lists d (fold f l d)"
  using assms(3,4)
proof (induction l arbitrary: d)
  case (Cons r l)
  have i: "in_scan base d ((M + image_mset rq_pin (mset l)) + {#rq_pin r#}) ((N + image_mset rq_tag (mset l)) + {#rq_tag r#}) rs ps" using Cons(2) by simp
  have s: "same_lists d (f r d)" using assms(2) i Cons(3) unfolding in_scan_def by blast
  from Cons(1) [OF assms(1) [OF i]] s have "same_lists (f r d) (fold f l (f r d))" by (simp add: same_lists_def)
  with s show ?case using same_lists_trans by simp
qed (simp add: same_lists_def)

lemma closed_fold_reads:
  "in_scan base d (M + image_mset snd (mset l)) N (map fst l) ps \<Longrightarrow> all_closed (di_table d) \<Longrightarrow> same_lists d (fold (read_one env) l d)"
proof (induction l arbitrary: d)
  case (Cons r l)
  have i: "in_scan base d ((M + image_mset snd (mset l)) + {#snd r#}) N (fst r # map fst l) ps" using Cons(2) by simp
  have s: "same_lists d (read_one env r d)" using closed_ones(4) [of d _ "snd r"] i Cons(3) unfolding in_scan_def by blast
  from Cons(1) [OF scan_read [OF i]] s have "same_lists (read_one env r d) (fold (read_one env) l (read_one env r d))" by (simp add: same_lists_def)
  with s show ?case using same_lists_trans by simp
qed (simp add: same_lists_def)

lemma closed_fold_polls:
  "in_scan base d (M + image_mset snd (mset l)) N rs (map fst l) \<Longrightarrow> all_closed (di_table d) \<Longrightarrow> same_lists d (fold (disconnect_one env) l d)"
proof (induction l arbitrary: d)
  case (Cons r l)
  have i: "in_scan base d ((M + image_mset snd (mset l)) + {#snd r#}) N rs (fst r # map fst l)" using Cons(2) by simp
  have s: "same_lists d (disconnect_one env r d)" using closed_ones(5) [of d _ "snd r"] i Cons(3) unfolding in_scan_def by blast
  from Cons(1) [OF scan_disconnect [OF i]] s have "same_lists (disconnect_one env r d) (fold (disconnect_one env) l (disconnect_one env r d))" by (simp add: same_lists_def)
  with s show ?case using same_lists_trans by simp
qed (simp add: same_lists_def)

definition emptied :: "dimpl \<Rightarrow> bool" where
  "emptied d \<longleftrightarrow> all_closed (di_table d) \<and> di_connects d = [] \<and> di_accepts d = [] \<and> di_sends d = [] \<and> di_reads d = [] \<and> di_disconnects d = []"

lemma scan_all_empties:
  assumes "accepts_sockets env" "books base d M N" "all_closed (di_table d)"
  shows "emptied (scan_all env d)"
proof -
  have 0: "in_scan base (d\<lparr>di_work := False\<rparr>) M N [] []" "all_closed (di_table (d\<lparr>di_work := False\<rparr>))"
    using assms(2,3) by (simp_all add: books_def in_scan_def held_def due_def conns_ok_def)
  note moves = in_scan_def held_def due_def book_defs conns_ok_def ac_simps
  define e1 where "e1 = fold (connect_one env) (di_connects (d\<lparr>di_work := False\<rparr>)) (d\<lparr>di_work := False, di_connects := []\<rparr>)"
  have h1: "in_scan base (d\<lparr>di_work := False, di_connects := []\<rparr>) (M + image_mset rq_pin (mset (di_connects d))) (N + image_mset rq_tag (mset (di_connects d))) [] []"
    using 0 by (simp add: moves)
  have 1: "in_scan base e1 M N [] []" "same_lists (d\<lparr>di_work := False, di_connects := []\<rparr>) e1"
    using scan_fold_requests [OF scan_connect h1] closed_fold_requests [OF scan_connect closed_ones(1) h1] assms(3) by (simp_all add: e1_def)
  define e2 where "e2 = fold (accept_one env) (di_accepts e1) (e1\<lparr>di_accepts := []\<rparr>)"
  have h2: "in_scan base (e1\<lparr>di_accepts := []\<rparr>) (M + image_mset rq_pin (mset (di_accepts e1))) (N + image_mset rq_tag (mset (di_accepts e1))) [] []" using 1 by (simp add: moves)
  have 2: "in_scan base e2 M N [] []" "same_lists (e1\<lparr>di_accepts := []\<rparr>) e2"
    using scan_fold_requests [OF scan_accept [OF assms(1)] h2] closed_fold_requests [OF scan_accept [OF assms(1)] closed_ones(2) h2] 1(2) by (simp_all add: e2_def same_lists_def)
  define e3 where "e3 = fold (send_one env) (di_sends e2) (e2\<lparr>di_sends := []\<rparr>)"
  have h3: "in_scan base (e2\<lparr>di_sends := []\<rparr>) (M + image_mset rq_pin (mset (di_sends e2))) (N + image_mset rq_tag (mset (di_sends e2))) [] []" using 2 by (simp add: moves)
  have 3: "in_scan base e3 M N [] []" "same_lists (e2\<lparr>di_sends := []\<rparr>) e3"
    using scan_fold_requests [OF scan_send h3] closed_fold_requests [OF scan_send closed_ones(3) h3] 2(2) by (simp_all add: e3_def same_lists_def)
  define e4 where "e4 = fold (read_one env) (di_reads e3) (e3\<lparr>di_reads := []\<rparr>)"
  have h4: "in_scan base (e3\<lparr>di_reads := []\<rparr>) (M + image_mset snd (mset (di_reads e3))) N (map fst (di_reads e3)) []" using 3 by (simp add: moves)
  have 4: "in_scan base e4 M N [] []" "same_lists (e3\<lparr>di_reads := []\<rparr>) e4"
    using scan_fold_reads [OF h4] closed_fold_reads [OF h4] 3(2) by (simp_all add: e4_def same_lists_def)
  define e5 where "e5 = fold (disconnect_one env) (di_disconnects e4) (e4\<lparr>di_disconnects := []\<rparr>)"
  have h5: "in_scan base (e4\<lparr>di_disconnects := []\<rparr>) (M + image_mset snd (mset (di_disconnects e4))) N [] (map fst (di_disconnects e4))" using 4 by (simp add: moves)
  have 5: "same_lists (e4\<lparr>di_disconnects := []\<rparr>) e5" using closed_fold_polls [OF h5] 4(2) by (simp add: e5_def same_lists_def)
  have "scan_all env d = e5" by (simp add: scan_all_def Let_def e1_def e2_def e3_def e4_def e5_def)
  with 1(2) 2(2) 3(2) 4(2) 5 show ?thesis by (simp add: emptied_def same_lists_def)
qed

text \<open>Callbacks that open no sockets find nothing to submit on or to cancel.\<close>

definition opens_nothing :: "dop list \<Rightarrow> bool" where
  "opens_nothing xs \<longleftrightarrow> list_all (\<lambda>x. case x of OpOwn so \<Rightarrow> False | _ \<Rightarrow> True) xs"

lemma closed_Acquire: "all_closed (di_table d) \<Longrightarrow> di_Acquire fd d = (None, d)"
  by (simp add: di_Acquire_def tb_Acquire_def tb_Find_def all_closed_def Let_def)

lemma closed_Close: "all_closed (di_table d) \<Longrightarrow> di_table (snd (di_Close env h d)) = di_table d \<and> same_lists d (snd (di_Close env h d)) \<and>
   di_completions (snd (di_Close env h d)) = di_completions d"
proof -
  assume c: "all_closed (di_table d)"
  have "upd_slot i (\<lambda>sl. sl\<lparr>sk_socket := 0\<rparr>) (di_table d) = di_table d" if "unat i < length (tb_slots (di_table d))" for i
  proof -
    have "(tb_slots (di_table d) ! unat i)\<lparr>sk_socket := 0\<rparr> = tb_slots (di_table d) ! unat i" using c that by (simp add: all_closed_def)
    then show ?thesis by (simp add: upd_slot_def)
  qed
  then have "tb_Close h (di_table d) = (0, di_table d)" using c by (auto simp: tb_Close_def Let_def all_closed_def not_le)
  then show ?thesis using c by (simp add: di_Close_def same_lists_def)
qed

lemma closed_dop:
  assumes "emptied d" "di_completions d = []" "opens_nothing [x]"
  shows "emptied (do_dop env x d) \<and> di_completions (do_dop env x d) = []"
proof -
  have c: "all_closed (di_table d)" using assms(1) by (simp add: emptied_def)
  show ?thesis using assms closed_Acquire [OF c] closed_Close [OF c]
    by (cases x) (auto simp: emptied_def opens_nothing_def di_SubmitSend_def di_SubmitSendMsg_def di_SubmitConnect_def di_SubmitAcceptMultishot_def
      di_SubmitCancel_def di_StartRecv_def di_SubmitCancelRecv_def di_StartPeerDisconnectPoll_def di_CancelPeerDisconnectPoll_def same_lists_def Let_def)
qed

lemma closed_dops: "emptied d \<Longrightarrow> di_completions d = [] \<Longrightarrow> opens_nothing xs \<Longrightarrow> emptied (fold (do_dop env) xs d) \<and> di_completions (fold (do_dop env) xs d) = []"
proof (induction xs arbitrary: d)
  case (Cons x xs)
  have "opens_nothing [x]" "opens_nothing xs" using Cons(4) by (simp_all add: opens_nothing_def)
  with closed_dop [OF Cons(2,3), of x env] Cons(1) show ?case by simp
qed simp

lemma closed_deliver:
  assumes "\<And>h. opens_nothing (be_callback env h)" "emptied d" "di_completions d = []"
  shows "emptied (fold (deliver_one env) xs d) \<and> di_completions (fold (deliver_one env) xs d) = []"
  using assms(2,3)
proof (induction xs arbitrary: d)
  case (Cons x xs)
  define d1 where "d1 = d\<lparr>di_delivered := di_delivered d @ [(dc_tag x, dc_result x, dc_more x)]\<rparr>"
  have "emptied d1" "di_completions d1 = []" using Cons(2,3) by (simp_all add: emptied_def d1_def)
  from closed_dops [OF this assms(1)] Cons(1) show ?case by (simp add: deliver_one_def d1_def Let_def)
qed simp

lemma Shutdown_books:
  assumes "accepts_sockets env" "\<And>h. opens_nothing (be_callback env h)" "books base d {#} {#}"
  shows "books base (di_Shutdown env d) {#} {#} \<and> emptied (di_Shutdown env d) \<and> di_completions (di_Shutdown env d) = []"
proof -
  define t where "t = snd (tb_CloseAll (di_table d))"
  define e where "e = d\<lparr>di_table := t, di_closed := rev (fst (tb_CloseAll (di_table d))) @ di_closed d\<rparr>"
  have h: "held d {#}" using assms(3) by (simp add: books_def)
  note c = held_CloseAll [OF h, folded t_def]
  have e: "books base e {#} {#}" "all_closed (di_table e)" using c assms(3) by (simp_all add: e_def books_def held_def due_def conns_ok_def)
  define f where "f = scan_all env e"
  have f: "emptied f" unfolding f_def by (rule scan_all_empties [OF assms(1) e])
  have "emptied (f\<lparr>di_completions := []\<rparr>)" using f by (simp add: emptied_def)
  from closed_deliver [OF assms(2) this] have g: "emptied (fold (deliver_one env) xs (f\<lparr>di_completions := []\<rparr>)) \<and> di_completions (fold (deliver_one env) xs (f\<lparr>di_completions := []\<rparr>)) = []" for xs
    by simp
  have "emptied (fold drop_pin ps y) = emptied y \<and> di_completions (fold drop_pin ps y) = di_completions y" for ps y
    by (induction ps arbitrary: y) (simp_all add: emptied_def)
  with g have "emptied (snd (SocketCompletions env e)) \<and> di_completions (snd (SocketCompletions env e)) = []"
    by (simp add: SocketCompletions_def f_def Let_def)
  moreover have "di_Shutdown env d = snd (SocketCompletions env e)" by (simp add: di_Shutdown_def case_prod_unfold e_def t_def Let_def)
  ultimately show ?thesis using books_SocketCompletions [OF assms(1) e(1)] by simp
qed

lemma sockets_ok_drained:
  assumes "sockets_ok t {#}" "all_closed t"
  shows "AssertDrained t"
proof -
  obtain fl where t: "table_ok t [] fl" using assms(1) by (auto simp: sockets_ok_def)
  have "sk_pins (tb_slots t ! j) = 0" if j: "j < length (tb_slots t)" for j
  proof -
    have "unat (of_nat j :: u32) = j" using table_bounds(1) [OF t] j by (simp add: unsigned_of_nat take_bit_nat_eq_self)
    then show ?thesis using table_okD(5) [OF t, of "of_nat j"] j by (simp add: pin_count_def)
  qed
  then show ?thesis using assms(2) by (simp add: AssertDrained_def list_all_length slot_drained_def all_closed_def)
qed

text \<open>
  C5: every socket operation accepted by the DPDK backend is answered by exactly one final
  completion. After any history of calls, made directly or from within completion callbacks, and
  of completion rounds, the tags accepted are those answered together with those still waiting,
  tag by tag and with multiplicity.
\<close>

theorem dpdk_requests_answered_once:
  assumes "tb_Configure first capacity t0 = Some t" "idle_conns conns" "accepts_sockets env" "fold (dp_step env) xs (new_dimpl t conns bs) = d"
  shows "mset (di_submitted d) = answered d + waiting d"
  using books_run [OF assms(3) books_new [OF assms(1,2)], of xs bs] by (simp add: assms(4) books_def due_def)

text \<open>
  C16: pins are exactly the references. After any such history the pin count of a socket slot is
  the number of queued requests and completions that refer to it, and each of these references
  leads to the socket the request was made for, or to none once that socket is closed, never to
  another socket that reuses the number.
\<close>

theorem dpdk_pins_are_references:
  assumes "tb_Configure first capacity t0 = Some t" "idle_conns conns" "accepts_sockets env" "fold (dp_step env) xs (new_dimpl t conns bs) = d"
  shows "(unat i < length (tb_slots (di_table d)) \<longrightarrow> sk_pins (tb_slots (di_table d) ! unat i) = size (filter_mset (\<lambda>p. fst p = i) (pinset d))) \<and>
    (p \<in># pinset d \<longrightarrow> socket_of p d = snd p \<or> socket_of p d = 0)"
proof -
  have s: "sockets_ok (di_table d) (pinset d)" using books_run [OF assms(3) books_new [OF assms(1,2)], of xs bs] by (simp add: assms(4) books_def held_def)
  then obtain pins fl where t: "mset pins = pinset d" "table_ok (di_table d) pins fl" unfolding sockets_ok_def by blast
  show ?thesis using table_okD(5) [OF t(2), of i] sockets.get_ok [OF s, of p] by (simp add: pin_count_mset t(1) socket_of_def)
qed

text \<open>
  Connection bookkeeping is exact. After any such history a connection is armed for receiving
  exactly if one read of it is queued, and for peer disconnects exactly if one poll of it is
  queued, and its in-flight count exceeds its initial value by exactly these two.
\<close>

lemma dpdk_inflight_exact:
  assumes "tb_Configure first capacity t0 = Some t" "idle_conns conns" "accepts_sockets env" "fold (dp_step env) xs (new_dimpl t conns bs) = d"
  shows "distinct (map fst (di_reads d)) \<and> distinct (map fst (di_disconnects d)) \<and>
    (uc_recv_armed (di_conns d c) \<longleftrightarrow> c \<in> set (map fst (di_reads d))) \<and> (uc_poll_armed (di_conns d c) \<longleftrightarrow> c \<in> set (map fst (di_disconnects d))) \<and>
    uc_inflight_ops (di_conns d c) = uc_inflight_ops (conns c) + of_bool (uc_recv_armed (di_conns d c)) + of_bool (uc_poll_armed (di_conns d c))"
proof -
  have c: "conns_ok (\<lambda>c. uc_inflight_ops (conns c)) d (map fst (di_reads d)) (map fst (di_disconnects d))"
    using books_run [OF assms(3) books_new [OF assms(1,2)], of xs bs] by (simp add: assms(4) books_def reads_of_def polls_of_def)
  then have "uc_recv_armed (di_conns d c) \<longleftrightarrow> c \<in> set (map fst (di_reads d))" "uc_poll_armed (di_conns d c) \<longleftrightarrow> c \<in> set (map fst (di_disconnects d))"
    "uc_inflight_ops (di_conns d c) = uc_inflight_ops (conns c) + of_bool (c \<in> set (map fst (di_reads d))) + of_bool (c \<in> set (map fst (di_disconnects d)))"
    "distinct (map fst (di_reads d))" "distinct (map fst (di_disconnects d))" unfolding conns_ok_def by blast+
  then show ?thesis by simp
qed

text \<open>
  C7: shutting down answers everything. After any such history, shutting down a worker whose
  completion callbacks open no further sockets delivers the final completion of every request
  that was accepted, leaves no connection armed, and leaves the socket table drained, without
  open sockets and without pins, as its destructor asserts.
\<close>

theorem dpdk_shutdown_answers_all:
  assumes "tb_Configure first capacity t0 = Some t" "idle_conns conns" "accepts_sockets env" "fold (dp_step env) xs (new_dimpl t conns bs) = d"
    "\<And>h. opens_nothing (be_callback env h)" "d' = di_Shutdown env d"
  shows "mset (di_submitted d') = answered d' \<and> AssertDrained (di_table d') \<and> \<not> uc_recv_armed (di_conns d' c) \<and> \<not> uc_poll_armed (di_conns d' c) \<and>
    uc_inflight_ops (di_conns d' c) = uc_inflight_ops (conns c)"
proof -
  have b: "books (\<lambda>c. uc_inflight_ops (conns c)) d {#} {#}" using books_run [OF assms(3) books_new [OF assms(1,2)], of xs bs] by (simp add: assms(4))
  from Shutdown_books [OF assms(3,5) b] have s: "books (\<lambda>c. uc_inflight_ops (conns c)) d' {#} {#}" "emptied d'" "di_completions d' = []"
    by (simp_all add: assms(6))
  have "pinset d' = {#}" "waiting d' = {#}" "reads_of d' = []" "polls_of d' = []" "all_closed (di_table d')" using s(2,3) by (simp_all add: emptied_def book_defs)
  then show ?thesis using s(1) sockets_ok_drained by (simp add: books_def held_def due_def conns_ok_def)
qed

section \<open>An example\<close>

text \<open>A socket is opened, a send on it would block, and the socket is closed before the next round.\<close>

definition some_conn :: uconn where
  "some_conn = \<lparr>uc_file = \<lparr>rf_fd = - 1, rf_fixed_index = 0, rf_is_fixed = False\<rparr>, uc_read_waiter = 0, uc_last_error = StOk, uc_last_active_ms = 0,
     uc_inflight_ops = 0, uc_state = kActive, uc_mode_multishot = False, uc_closing = False, uc_closed = False, uc_read_inflight = False,
     uc_recv_paused = False, uc_recv_armed = False, uc_needs_recv_rearm = False, uc_recv_eof = False, uc_poll_armed = False,
     uc_poll_cancel_requested = False, uc_read_buffer_size = 0, uc_received = []\<rparr>"

definition blocked_env :: bsd_env where
  "blocked_env = \<lparr>be_connect = \<lambda>_. 0, be_connect_status = \<lambda>_. 0, be_accept = \<lambda>_. (35, 0), be_send = \<lambda>_ _. (35, 0), be_receive = \<lambda>_ _. (35, 0),
     be_disconnected = \<lambda>_. False, be_close = \<lambda>_. 0, be_now_ms = 0, be_has_peer = \<lambda>_. False, be_callback = \<lambda>_. []\<rparr>"

definition one_table :: stable where
  "one_table = \<lparr>tb_first = 0x40000000, tb_capacity = 8, tb_free = kNoSlot, tb_slots = []\<rparr>"

definition one_send :: dimpl where
  "one_send = fold (dp_step blocked_env) [Call (OpOwn 5), Call (OpSend 0x40000000 [1, 2] 9)] (new_dimpl one_table (\<lambda>_. some_conn) 4096)"

lemma one_config: "tb_Configure 0x40000000 8 \<lparr>tb_first = 0, tb_capacity = 0, tb_free = kNoSlot, tb_slots = []\<rparr> = Some one_table"
  by (simp add: tb_Configure_def AssertDrained_def one_table_def)

lemma one_hyps: "idle_conns (\<lambda>_. some_conn)" "accepts_sockets blocked_env" "opens_nothing (be_callback blocked_env h)"
  by (simp_all add: idle_conns_def some_conn_def accepts_sockets_def blocked_env_def opens_nothing_def)

lemma one_send_state:
  "one_send = (new_dimpl one_table (\<lambda>_. some_conn) 4096)
     \<lparr>di_table := \<lparr>tb_first = 0x40000000, tb_capacity = 8, tb_free = kNoSlot, tb_slots = [\<lparr>sk_socket = 5, sk_pins = 1, sk_next_free = kNoSlot\<rparr>]\<rparr>,
      di_sends := [\<lparr>rq_pin = (0, 5), rq_tag = 9, rq_bytes = [1, 2], rq_message = None\<rparr>], di_submitted := [9]\<rparr>"
  by (simp add: one_send_def new_dimpl_def one_table_def di_Own_def tb_Insert_def empty_slot_def upd_slot_def di_SubmitSend_def di_Acquire_def tb_Acquire_def
    tb_Find_def tb_Index_def pin_slot_def IsDpdkSocket_def Let_def)

theorem dpdk_requests_answered_once_witness: "answered one_send = {#} \<and> waiting one_send = {#9#}"
  using dpdk_requests_answered_once [OF one_config one_hyps(1,2) one_send_def [symmetric]]
  by (simp add: answered_def one_send_state new_dimpl_def)

theorem dpdk_pins_are_references_witness: "pinset one_send = {#(0, 5)#} \<and> socket_of (0, 5) one_send = 5"
proof -
  have "pinset one_send = {#(0, 5)#}" by (simp add: pinset_def one_send_state new_dimpl_def)
  moreover have "socket_of (0, 5) one_send \<noteq> 0" by (simp add: socket_of_def pin_get_def one_send_state)
  ultimately show ?thesis using dpdk_pins_are_references [OF one_config one_hyps(1,2) one_send_def [symmetric], of 0 "(0, 5)"] by auto
qed

theorem dpdk_shutdown_answers_all_witness:
  "AssertDrained (di_table (di_Shutdown blocked_env one_send)) \<and> mset (di_submitted (di_Shutdown blocked_env one_send)) = answered (di_Shutdown blocked_env one_send)"
  using dpdk_shutdown_answers_all [OF one_config one_hyps(1,2) one_send_def [symmetric] one_hyps(3) refl] by simp

end
