(* ===== verification/Dpdk_Packets.thy ===== *)
theory Dpdk_Packets
  imports Dpdk_Steering
begin

text \<open>
  The packet path of the DPDK backend, \<open>class DpdkBackend::Impl\<close> of \<open>src/io/dpdk_backend.cpp\<close>:
  receive bursts, software forwarding between the workers' rings, frames made by the workers' TCP
  stacks, and transmit bursts, for all workers at once, with the calls that claim ports in between.
  The lists of buffers taken from the pool,
  returned to it and handed to the device are kept beside the state to say who owns each buffer.
\<close>

section \<open>State\<close>

definition kBurst :: nat where "kBurst = 32"
definition kMaxFrame :: nat where "kMaxFrame = 1518"

text \<open>What a worker's stack is told: a frame, from this host or from the wire, or to run its timers.\<close>

datatype sevent = SeInput bool "u8 list" | SePoll

record pworker =
  pw_rx :: u64
  pw_tx :: u64
  pw_forwarded_rx :: u64
  pw_forwarded_tx :: u64
  pw_drops :: u64
  pw_events :: "sevent list"

record pnet =
  pn_fabric :: fabric
  pn_workers :: "pworker list"
  pn_tick :: nat
  pn_taken :: "nat list"
  pn_freed :: "nat list"
  pn_sent :: "nat list"
  pn_wakes :: "int list"
  pn_dworkers :: "dworker list"

text \<open>
  The answers of DPDK, by the number of the call: whether a buffer could be allocated, extended or
  cloned and a ring took a packet, the frames of a receive burst, how many packets a transmit
  burst took; and the frames a stack sends in answer to the last of its events.
\<close>

record nic_env =
  ne_alloc :: "nat \<Rightarrow> bool"
  ne_append :: "nat \<Rightarrow> bool"
  ne_clone :: "nat \<Rightarrow> bool"
  ne_accept :: "nat \<Rightarrow> bool"
  ne_rx :: "nat \<Rightarrow> u8 list list"
  ne_tx :: "nat \<Rightarrow> nat"
  ne_frames :: "nat \<Rightarrow> sevent list \<Rightarrow> u8 list list"

definition upd_pw :: "nat \<Rightarrow> (pworker \<Rightarrow> pworker) \<Rightarrow> pnet \<Rightarrow> pnet" where
  "upd_pw i f s = s\<lparr>pn_workers := (pn_workers s)[i := f (pn_workers s ! i)]\<rparr>"

definition upd_lane :: "nat \<Rightarrow> (dlane \<Rightarrow> dlane) \<Rightarrow> pnet \<Rightarrow> pnet" where
  "upd_lane j f s = s\<lparr>pn_fabric := (pn_fabric s)\<lparr>fb_lanes := (fb_lanes (pn_fabric s))[j := f (fb_lanes (pn_fabric s) ! j)]\<rparr>\<rparr>"

definition drop1 :: "nat \<Rightarrow> pnet \<Rightarrow> pnet" where
  "drop1 i = upd_pw i (\<lambda>w. w\<lparr>pw_drops := pw_drops w + 1\<rparr>)"

definition forwarded_rx1 :: "nat \<Rightarrow> pnet \<Rightarrow> pnet" where
  "forwarded_rx1 i = upd_pw i (\<lambda>w. w\<lparr>pw_forwarded_rx := pw_forwarded_rx w + 1\<rparr>)"

definition pktmbuf_free :: "packet \<Rightarrow> pnet \<Rightarrow> pnet" where
  "pktmbuf_free p s = s\<lparr>pn_freed := pk_buf p # pn_freed s\<rparr>"

definition tick :: "pnet \<Rightarrow> pnet" where "tick s = s\<lparr>pn_tick := pn_tick s + 1\<rparr>"

text \<open>A buffer of the pool, named by the call that took it.\<close>

definition pktmbuf_take :: "u8 list \<Rightarrow> bool \<Rightarrow> pnet \<Rightarrow> packet \<times> pnet" where
  "pktmbuf_take bytes host s = (\<lparr>pk_buf = pn_tick s, pk_bytes = bytes, pk_local = host\<rparr>, (tick s)\<lparr>pn_taken := pn_tick s # pn_taken s\<rparr>)"

section \<open>Forwarding\<close>

definition pk_Wake :: "nat \<Rightarrow> nat \<Rightarrow> pnet \<Rightarrow> pnet" where
  "pk_Wake i target s =
     (if target \<noteq> i \<and> ln_parked (fb_lanes (pn_fabric s) ! target)
      then upd_lane target (\<lambda>l. l\<lparr>ln_parked := False\<rparr>) (s\<lparr>pn_wakes := pn_wakes s @ [ln_ring_fd (fb_lanes (pn_fabric s) ! target)]\<rparr>)
      else s)"

datatype ring_kind = RxRing | TxRing

fun ring_push :: "ring_kind \<Rightarrow> packet \<Rightarrow> dlane \<Rightarrow> dlane" where
  "ring_push RxRing p l = l\<lparr>ln_rx := map_option (\<lambda>q. q @ [p]) (ln_rx l)\<rparr>"
| "ring_push TxRing p l = l\<lparr>ln_tx := map_option (\<lambda>q. q @ [p]) (ln_tx l)\<rparr>"

definition pk_Enqueue :: "nic_env \<Rightarrow> nat \<Rightarrow> ring_kind \<Rightarrow> packet \<Rightarrow> nat \<Rightarrow> pnet \<Rightarrow> bool \<times> pnet" where
  "pk_Enqueue env i k p target s =
     (if \<not> ne_accept env (pn_tick s) then (False, pktmbuf_free p (drop1 i (tick s)))
      else (True, pk_Wake i target (upd_lane target (ring_push k p) (tick s))))"

text \<open>Replies that only worker 0 sends: ARP replies and answers to echo requests.\<close>

definition shared_reply :: "u8 list \<Rightarrow> bool" where
  "shared_reply f \<longleftrightarrow> (42 \<le> length f \<and> Read16 f 12 = 0x0806 \<and> Read16 f 20 = 2) \<or>
     (35 \<le> length f \<and> Read16 f 12 = 0x0800 \<and> f ! 23 = 1 \<and> f ! 34 = 0)"

text \<open>\<open>Transmit\<close>: the FreeBSD error code it returns, and the state.\<close>

definition Transmit :: "nic_env \<Rightarrow> nat \<Rightarrow> u8 list \<Rightarrow> pnet \<Rightarrow> nat \<times> pnet" where
  "Transmit env i frame s =
     (if kMaxFrame < length frame then (40, drop1 i s)
      else if \<not> ne_alloc env (pn_tick s) then (55, drop1 i (tick s))
      else let (p, s1) = pktmbuf_take frame False s; fb = pn_fabric s in
        if \<not> ne_append env (pn_tick s1) then (55, drop1 i (pktmbuf_free p (tick s1)))
        else let s2 = tick s1 in
          if i \<noteq> 0 \<and> shared_reply frame then (0, pktmbuf_free p s2)
          else if 34 \<le> length frame \<and> Read16 frame 12 = 0x0800 \<and> take 4 (drop 30 frame) = fb_address fb
          then let host = Destination fb frame i in
            if host < 0 then (22, drop1 i (pktmbuf_free p s2))
            else let s3 = (if nat host \<noteq> i then forwarded_rx1 i s2 else s2);
                     (ok, s4) = pk_Enqueue env i RxRing (p\<lparr>pk_local := True\<rparr>) (nat host) s3
                 in (if ok then 0 else 55, s4)
          else let target = i mod fb_queues fb;
                   s3 = (if target \<noteq> i then upd_pw i (\<lambda>w. w\<lparr>pw_forwarded_tx := pw_forwarded_tx w + 1\<rparr>) s2 else s2);
                   (ok, s4) = pk_Enqueue env i TxRing p target s3
               in (if ok then 0 else 55, s4))"

text \<open>An event of a worker's stack, and the frames it sends in answer.\<close>

definition stack_event :: "nic_env \<Rightarrow> nat \<Rightarrow> sevent \<Rightarrow> pnet \<Rightarrow> pnet" where
  "stack_event env i e s =
     (let s1 = upd_pw i (\<lambda>w. w\<lparr>pw_events := pw_events w @ [e]\<rparr>) s
      in fold (\<lambda>f s. snd (Transmit env i f s)) (ne_frames env i (pw_events (pn_workers s1 ! i))) s1)"

definition pk_Input :: "nic_env \<Rightarrow> nat \<Rightarrow> packet \<Rightarrow> pnet \<Rightarrow> pnet" where
  "pk_Input env i p s =
     pktmbuf_free p
       (if length (pk_bytes p) \<le> kMaxFrame
        then upd_pw i (\<lambda>w. w\<lparr>pw_rx := pw_rx w + 1\<rparr>) (stack_event env i (SeInput (pk_local p) (pk_bytes p)) s)
        else drop1 i s)"

definition broadcast_to :: "nic_env \<Rightarrow> nat \<Rightarrow> packet \<Rightarrow> nat \<Rightarrow> pnet \<Rightarrow> pnet" where
  "broadcast_to env i p j s =
     (if j = i then s
      else if ne_clone env (pn_tick s)
      then let (copy, s1) = pktmbuf_take (pk_bytes p) (pk_local p) s in forwarded_rx1 i (snd (pk_Enqueue env i RxRing copy j s1))
      else drop1 i (tick s))"

definition Route :: "nic_env \<Rightarrow> nat \<Rightarrow> packet \<Rightarrow> pnet \<Rightarrow> pnet" where
  "Route env i packet s =
     (let p = packet\<lparr>pk_local := False\<rparr>;
          target = (if length (pk_bytes p) \<le> kMaxFrame then Destination (pn_fabric s) (pk_bytes p) i else - 1)
      in if target = - 2 then pk_Input env i p (fold (broadcast_to env i p) [0..<fb_workers (pn_fabric s)] s)
         else if target = int i then pk_Input env i p s
         else if 0 \<le> target then forwarded_rx1 i (snd (pk_Enqueue env i RxRing p (nat target) s))
         else pktmbuf_free p (drop1 i s))"

section \<open>Bursts\<close>

definition ring_of :: "packet list option \<Rightarrow> packet list" where
  "ring_of r = (case r of None \<Rightarrow> [] | Some q \<Rightarrow> q)"

definition FlushTx :: "nic_env \<Rightarrow> nat \<Rightarrow> pnet \<Rightarrow> bool \<times> pnet" where
  "FlushTx env i s =
     (if fb_queues (pn_fabric s) \<le> i then (False, s)
      else let q = ring_of (ln_tx (fb_lanes (pn_fabric s) ! i)); packets = take kBurst q; n = length packets in
        if n = 0 then (False, s)
        else let s1 = upd_lane i (\<lambda>l. l\<lparr>ln_tx := Some (drop kBurst q)\<rparr>) s;
                 sent = min (ne_tx env (pn_tick s1)) n;
                 s2 = upd_pw i (\<lambda>w. w\<lparr>pw_tx := pw_tx w + of_nat sent\<rparr>) ((tick s1)\<lparr>pn_sent := map pk_buf (take sent packets) @ pn_sent s1\<rparr>)
             in (True, fold (\<lambda>p s. drop1 i (pktmbuf_free p s)) (drop sent packets) s2))"

text \<open>A receive burst: the frames with their buffers.\<close>

fun rx_burst :: "u8 list list \<Rightarrow> pnet \<Rightarrow> packet list \<times> pnet" where
  "rx_burst [] s = ([], s)"
| "rx_burst (f # fs) s = (let (p, s1) = pktmbuf_take f False s; (ps, s2) = rx_burst fs s1 in (p # ps, s2))"

definition route_burst :: "nic_env \<Rightarrow> nat \<Rightarrow> pnet \<Rightarrow> bool \<times> pnet" where
  "route_burst env i s =
     (if i < fb_queues (pn_fabric s)
      then let (ps, s1) = rx_burst (take kBurst (ne_rx env (pn_tick s))) (tick s) in (ps \<noteq> [], fold (Route env i) ps s1)
      else (False, s))"

definition input_burst :: "nic_env \<Rightarrow> nat \<Rightarrow> pnet \<Rightarrow> bool \<times> pnet" where
  "input_burst env i s =
     (let q = ring_of (ln_rx (fb_lanes (pn_fabric s) ! i)); items = take kBurst q
      in if items = [] then (False, s)
         else (True, fold (pk_Input env i) items (upd_lane i (\<lambda>l. l\<lparr>ln_rx := Some (drop kBurst q)\<rparr>) s)))"

definition Packets :: "nic_env \<Rightarrow> nat \<Rightarrow> pnet \<Rightarrow> bool \<times> pnet" where
  "Packets env i s =
     (if fb_ready (pn_fabric s) \<noteq> fb_workers (pn_fabric s) then (False, s)
      else let (work1, s1) = route_burst env i s;
               (work2, s2) = input_burst env i s1;
               s3 = stack_event env i SePoll s2;
               (flushed, s4) = FlushTx env i s3
           in (flushed \<or> work1 \<or> work2, s4))"

section \<open>Histories\<close>

text \<open>
  Polls and submissions of the workers, frames their stacks send during socket calls, and the calls
  that claim ports and so change where frames are sent, in any order.
\<close>

datatype pk_op = PkPackets nat | PkFlush nat | PkTransmit nat "u8 list" | PkPort port_op

fun pk_step :: "nic_env \<Rightarrow> pk_op \<Rightarrow> pnet \<Rightarrow> pnet" where
  "pk_step env (PkPackets i) s = (if i < length (pn_workers s) then snd (Packets env i s) else s)"
| "pk_step env (PkFlush i) s = (if i < length (pn_workers s) then snd (FlushTx env i s) else s)"
| "pk_step env (PkTransmit i frame) s = (if i < length (pn_workers s) then snd (Transmit env i frame s) else s)"
| "pk_step env (PkPort x) s = (let (fb, ws) = port_step x (pn_fabric s, pn_dworkers s) in s\<lparr>pn_fabric := fb, pn_dworkers := ws\<rparr>)"

section \<open>Shape\<close>

definition owns :: "fabric \<Rightarrow> nat \<Rightarrow> bool \<Rightarrow> u8 list \<Rightarrow> bool" where
  "owns fb j host bytes \<longleftrightarrow> Destination fb bytes j = int j \<or> (\<not> host \<and> Destination fb bytes j = - 2)"

definition started :: "fabric \<Rightarrow> bool" where
  "started fb \<longleftrightarrow> 0 < fb_queues fb \<and> fb_queues fb \<le> fb_workers fb \<and>
     (\<forall>p as ps rx. rx < fb_workers fb \<longrightarrow> 0 \<le> segment_owner fb p as ps rx \<and> segment_owner fb p as ps rx < int (fb_workers fb))"

definition shape :: "fabric \<Rightarrow> pnet \<Rightarrow> bool" where
  "shape fb s \<longleftrightarrow> (pn_fabric s)\<lparr>fb_lanes := []\<rparr> = fb\<lparr>fb_lanes := []\<rparr> \<and> fb_workers fb \<le> length (fb_lanes (pn_fabric s)) \<and>
     length (pn_workers s) = fb_workers fb \<and> run_ok (fb, pn_dworkers s) \<and>
     (\<forall>j < fb_workers fb. ln_rx (fb_lanes (pn_fabric s) ! j) \<noteq> None \<and> ln_tx (fb_lanes (pn_fabric s) ! j) \<noteq> None)"

lemma segment_owner_lanes: "segment_owner (fb\<lparr>fb_lanes := ls\<rparr>) p as ps rx = segment_owner fb p as ps rx"
  by (cases "placement_of fb p") (simp_all add: segment_owner_def placement_of_def Let_def)

lemma Destination_lanes: "Destination (fb\<lparr>fb_lanes := ls\<rparr>) f rx = Destination fb f rx"
  by (simp only: Destination_def segment_owner_lanes)

lemma shapeD:
  assumes "shape fb s"
  shows "fb_workers (pn_fabric s) = fb_workers fb" "fb_queues (pn_fabric s) = fb_queues fb" "fb_address (pn_fabric s) = fb_address fb"
    "Destination (pn_fabric s) f rx = Destination fb f rx" "length (pn_workers s) = fb_workers fb"
    "j < fb_workers fb \<Longrightarrow> j < length (fb_lanes (pn_fabric s))" "j < fb_workers fb \<Longrightarrow> \<exists>q. ln_rx (fb_lanes (pn_fabric s) ! j) = Some q"
    "j < fb_workers fb \<Longrightarrow> \<exists>q. ln_tx (fb_lanes (pn_fabric s) ! j) = Some q"
proof -
  have e: "(pn_fabric s)\<lparr>fb_lanes := []\<rparr> = fb\<lparr>fb_lanes := []\<rparr>" using assms by (simp add: shape_def)
  show "fb_workers (pn_fabric s) = fb_workers fb" using arg_cong [OF e, of fb_workers] by simp
  show "fb_queues (pn_fabric s) = fb_queues fb" using arg_cong [OF e, of fb_queues] by simp
  show "fb_address (pn_fabric s) = fb_address fb" using arg_cong [OF e, of fb_address] by simp
  show "Destination (pn_fabric s) f rx = Destination fb f rx"
    using arg_cong [OF e, of "\<lambda>x. Destination x f rx"] by (simp only: Destination_lanes)
qed (use assms in \<open>auto simp: shape_def\<close>)

lemma simple_ops [simp]:
  "pn_fabric (upd_pw i f s) = pn_fabric s" "length (pn_workers (upd_pw i f s)) = length (pn_workers s)" "pn_tick (upd_pw i f s) = pn_tick s"
  "pn_taken (upd_pw i f s) = pn_taken s" "pn_freed (upd_pw i f s) = pn_freed s" "pn_sent (upd_pw i f s) = pn_sent s"
  "pn_fabric (tick s) = pn_fabric s" "pn_workers (tick s) = pn_workers s" "pn_tick (tick s) = Suc (pn_tick s)"
  "pn_taken (tick s) = pn_taken s" "pn_freed (tick s) = pn_freed s" "pn_sent (tick s) = pn_sent s"
  "pn_fabric (pktmbuf_free p s) = pn_fabric s" "pn_workers (pktmbuf_free p s) = pn_workers s" "pn_tick (pktmbuf_free p s) = pn_tick s"
  "pn_taken (pktmbuf_free p s) = pn_taken s" "pn_freed (pktmbuf_free p s) = pk_buf p # pn_freed s" "pn_sent (pktmbuf_free p s) = pn_sent s"
  "pn_workers (upd_lane j g s) = pn_workers s" "pn_tick (upd_lane j g s) = pn_tick s"
  "pn_taken (upd_lane j g s) = pn_taken s" "pn_freed (upd_lane j g s) = pn_freed s" "pn_sent (upd_lane j g s) = pn_sent s"
  "pn_dworkers (upd_pw i f s) = pn_dworkers s" "pn_dworkers (tick s) = pn_dworkers s" "pn_dworkers (pktmbuf_free p s) = pn_dworkers s"
  "pn_dworkers (upd_lane j g s) = pn_dworkers s"
  by (simp_all add: upd_pw_def tick_def pktmbuf_free_def upd_lane_def)

lemma shape_simple [simp]:
  "shape fb (upd_pw i f s) = shape fb s" "shape fb (tick s) = shape fb s" "shape fb (pktmbuf_free p s) = shape fb s"
  "shape fb (drop1 i s) = shape fb s" "shape fb (forwarded_rx1 i s) = shape fb s" "shape fb (s\<lparr>pn_taken := l\<rparr>) = shape fb s"
  "shape fb (s\<lparr>pn_sent := l\<rparr>) = shape fb s" "shape fb (s\<lparr>pn_wakes := w\<rparr>) = shape fb s"
  by (simp_all add: shape_def drop1_def forwarded_rx1_def)

lemma upd_lane_nth:
  "k < length (fb_lanes (pn_fabric s)) \<Longrightarrow> fb_lanes (pn_fabric (upd_lane j g s)) ! k = (if j = k then g (fb_lanes (pn_fabric s) ! k) else fb_lanes (pn_fabric s) ! k)"
  by (auto simp: upd_lane_def nth_list_update)

lemma upd_lane_fabric: "(pn_fabric (upd_lane j g s))\<lparr>fb_lanes := []\<rparr> = (pn_fabric s)\<lparr>fb_lanes := []\<rparr>"
  "length (fb_lanes (pn_fabric (upd_lane j g s))) = length (fb_lanes (pn_fabric s))"
  by (simp_all add: upd_lane_def)

lemma shape_upd_lane:
  assumes "shape fb s" "\<And>l. ln_rx l \<noteq> None \<Longrightarrow> ln_rx (g l) \<noteq> None" "\<And>l. ln_tx l \<noteq> None \<Longrightarrow> ln_tx (g l) \<noteq> None"
  shows "shape fb (upd_lane j g s)"
  using assms by (auto simp: shape_def upd_lane_fabric upd_lane_nth)

section \<open>Ownership of buffers\<close>

definition lane_bufs :: "dlane \<Rightarrow> nat multiset" where
  "lane_bufs l = mset (map pk_buf (ring_of (ln_rx l) @ ring_of (ln_tx l)))"

definition ring_bufs :: "pnet \<Rightarrow> nat multiset" where
  "ring_bufs s = sum_list (map lane_bufs (fb_lanes (pn_fabric s)))"

text \<open>Every buffer taken is freed, sent, in a ring or in hand, and in one place only.\<close>

definition ledger :: "pnet \<Rightarrow> packet list \<Rightarrow> bool" where
  "ledger s hand \<longleftrightarrow> mset (pn_taken s) = mset (pn_freed s) + mset (pn_sent s) + ring_bufs s + mset (map pk_buf hand) \<and>
     distinct (pn_taken s) \<and> (\<forall>b \<in> set (pn_taken s). b < pn_tick s)"

lemma ring_bufs_simple [simp]:
  "ring_bufs (upd_pw i f s) = ring_bufs s" "ring_bufs (tick s) = ring_bufs s" "ring_bufs (pktmbuf_free p s) = ring_bufs s"
  "ring_bufs (s\<lparr>pn_taken := l\<rparr>) = ring_bufs s" "ring_bufs (s\<lparr>pn_sent := l\<rparr>) = ring_bufs s" "ring_bufs (s\<lparr>pn_wakes := w\<rparr>) = ring_bufs s"
  by (simp_all add: ring_bufs_def)

lemma ring_bufs_upd:
  assumes "j < length (fb_lanes (pn_fabric s))" "lane_bufs (g (fb_lanes (pn_fabric s) ! j)) + A = lane_bufs (fb_lanes (pn_fabric s) ! j) + B"
  shows "ring_bufs (upd_lane j g s) + A = ring_bufs s + B"
proof -
  define ls where "ls = fb_lanes (pn_fabric s)"
  have "sum_list (map lane_bufs (ls[j := g (ls ! j)])) + A = sum_list (map lane_bufs ls) + B" if "j < length ls" "lane_bufs (g (ls ! j)) + A = lane_bufs (ls ! j) + B" for ls
    using that
  proof (induction ls arbitrary: j)
    case (Cons l ls)
    then show ?case
    proof (cases j)
      case (Suc k)
      then show ?thesis using Cons by (simp add: add.assoc)
    qed (simp add: ac_simps)
  qed simp
  then show ?thesis using assms by (simp add: ring_bufs_def upd_lane_def ls_def)
qed

lemma ledger_upd_pw [simp]: "ledger (upd_pw i f s) hand = ledger s hand" "ledger (drop1 i s) hand = ledger s hand" "ledger (forwarded_rx1 i s) hand = ledger s hand"
  by (simp_all add: ledger_def drop1_def forwarded_rx1_def)

lemma ledger_tick: "ledger s hand \<Longrightarrow> ledger (tick s) hand"
  by (auto simp: ledger_def)

lemma ledger_free: "ledger s (p # hand) \<Longrightarrow> ledger (pktmbuf_free p s) hand"
  by (auto simp: ledger_def)

lemma ledger_take: "ledger s hand \<Longrightarrow> pktmbuf_take f h s = (p, s') \<Longrightarrow> ledger s' (p # hand)"
  by (auto simp: ledger_def pktmbuf_take_def less_Suc_eq)

lemma ledger_perm: "ledger s hand \<Longrightarrow> mset (map pk_buf hand) = mset (map pk_buf hand') \<Longrightarrow> ledger s hand'"
  by (simp add: ledger_def)

section \<open>The invariant\<close>

text \<open>
  \<open>A j host b\<close> says which frames the worker \<open>j\<close> may have been given so far; the current table allows at
  least those it steers to the worker.
\<close>

type_synonym allowed = "nat \<Rightarrow> bool \<Rightarrow> u8 list \<Rightarrow> bool"

definition own_flows :: "allowed \<Rightarrow> fabric \<Rightarrow> pnet \<Rightarrow> bool" where
  "own_flows A fb s \<longleftrightarrow> (\<forall>j h b. owns fb j h b \<longrightarrow> A j h b) \<and> (\<forall>j < fb_workers fb.
     (\<forall>p. p \<in> set (ring_of (ln_rx (fb_lanes (pn_fabric s) ! j))) \<longrightarrow> A j (pk_local p) (pk_bytes p)) \<and>
     (\<forall>h b. SeInput h b \<in> set (pw_events (pn_workers s ! j)) \<longrightarrow> A j h b))"

definition good :: "allowed \<Rightarrow> fabric \<Rightarrow> pnet \<Rightarrow> packet list \<Rightarrow> bool" where
  "good A fb s hand \<longleftrightarrow> shape fb s \<and> ledger s hand \<and> own_flows A fb s"

lemma own_flows_cong:
  "own_flows A fb s \<Longrightarrow> pn_fabric s' = pn_fabric s \<Longrightarrow> (\<And>j. pw_events (pn_workers s' ! j) = pw_events (pn_workers s ! j)) \<Longrightarrow> own_flows A fb s'"
  by (simp add: own_flows_def)

lemma upd_pw_events: "(\<And>w. pw_events (f w) = pw_events w) \<Longrightarrow> pw_events (pn_workers (upd_pw i f s) ! j) = pw_events (pn_workers s ! j)"
  by (cases "i < length (pn_workers s)") (simp_all add: upd_pw_def nth_list_update list_update_beyond)

lemma own_flows_simple [simp]:
  "own_flows A fb (tick s) = own_flows A fb s" "own_flows A fb (pktmbuf_free p s) = own_flows A fb s" "own_flows A fb (s\<lparr>pn_taken := l\<rparr>) = own_flows A fb s"
  "own_flows A fb (s\<lparr>pn_sent := l\<rparr>) = own_flows A fb s" "own_flows A fb (s\<lparr>pn_wakes := w\<rparr>) = own_flows A fb s"
  by (simp_all add: own_flows_def)

lemma own_flows_upd_pw: "(\<And>w. pw_events (f w) = pw_events w) \<Longrightarrow> own_flows A fb (upd_pw i f s) = own_flows A fb s"
  unfolding own_flows_def by (simp add: upd_pw_events)

lemma good_upd_pw: "(\<And>w. pw_events (f w) = pw_events w) \<Longrightarrow> good A fb (upd_pw i f s) hand = good A fb s hand"
  by (simp add: good_def own_flows_upd_pw)

lemma good_counters [simp]: "good A fb (drop1 i s) hand = good A fb s hand" "good A fb (forwarded_rx1 i s) hand = good A fb s hand"
  by (simp_all add: drop1_def forwarded_rx1_def good_upd_pw)

lemma good_tick: "good A fb s hand \<Longrightarrow> good A fb (tick s) hand"
  by (simp add: good_def ledger_tick)

lemma good_free: "good A fb s (p # hand) \<Longrightarrow> good A fb (pktmbuf_free p s) hand"
  by (simp add: good_def ledger_free)

lemma good_take: "good A fb s hand \<Longrightarrow> pktmbuf_take f h s = (p, s') \<Longrightarrow> good A fb s' (p # hand) \<and> pk_bytes p = f \<and> pk_local p = h \<and> pn_fabric s' = pn_fabric s"
  using ledger_take [of s hand f h p s'] by (auto simp: good_def pktmbuf_take_def)

lemma good_upd_lane:
  assumes "good A fb s hand" "j < fb_workers fb" "\<And>l. ln_rx l \<noteq> None \<Longrightarrow> ln_rx (g l) \<noteq> None" "\<And>l. ln_tx l \<noteq> None \<Longrightarrow> ln_tx (g l) \<noteq> None"
    "lane_bufs (g (fb_lanes (pn_fabric s) ! j)) + mset (map pk_buf hand') = lane_bufs (fb_lanes (pn_fabric s) ! j) + mset (map pk_buf hand)"
    "\<And>p. p \<in> set (ring_of (ln_rx (g (fb_lanes (pn_fabric s) ! j)))) \<Longrightarrow> p \<in> set (ring_of (ln_rx (fb_lanes (pn_fabric s) ! j))) \<or> A j (pk_local p) (pk_bytes p)"
  shows "good A fb (upd_lane j g s) hand'"
proof -
  have sh: "shape fb s" and le: "ledger s hand" and ow: "own_flows A fb s" using assms(1) by (simp_all add: good_def)
  have j: "j < length (fb_lanes (pn_fabric s))" using shapeD(6) [OF sh assms(2)] .
  have "ring_bufs (upd_lane j g s) + mset (map pk_buf hand') = ring_bufs s + mset (map pk_buf hand)" using assms(5) by (rule ring_bufs_upd [OF j])
  then have "ledger (upd_lane j g s) hand'" using le by (simp add: ledger_def add.assoc)
  moreover have "own_flows A fb (upd_lane j g s)"
    unfolding own_flows_def
  proof (intro allI impI conjI)
    fix k p assume k: "k < fb_workers fb" and p: "p \<in> set (ring_of (ln_rx (fb_lanes (pn_fabric (upd_lane j g s)) ! k)))"
    note n = upd_lane_nth [OF shapeD(6) [OF sh k], of j g]
    show "A k (pk_local p) (pk_bytes p)"
      using p ow k assms(6) [of p] unfolding n own_flows_def by (cases "j = k") auto
  qed (use ow in \<open>auto simp: own_flows_def\<close>)
  ultimately show ?thesis using shape_upd_lane [OF sh assms(3,4)] by (simp add: good_def)
qed

lemma good_Wake: "good A fb s hand \<Longrightarrow> target < fb_workers fb \<Longrightarrow> good A fb (pk_Wake i target s) hand"
proof -
  assume g: "good A fb s hand" and t: "target < fb_workers fb"
  have "good A fb (s\<lparr>pn_wakes := w\<rparr>) hand" for w using g by (simp add: good_def ledger_def)
  from good_upd_lane [OF this t, where g = "\<lambda>l. l\<lparr>ln_parked := False\<rparr>" and hand' = hand] g show ?thesis
    by (simp add: pk_Wake_def lane_bufs_def)
qed

lemma good_Enqueue:
  assumes "good A fb s (p # hand)" "target < fb_workers fb" "k = RxRing \<Longrightarrow> A target (pk_local p) (pk_bytes p)"
  shows "good A fb (snd (pk_Enqueue env i k p target s)) hand"
proof (cases "ne_accept env (pn_tick s)")
  case True
  have sh: "shape fb (tick s)" using assms(1) by (simp add: good_def)
  obtain q r where q: "ln_rx (fb_lanes (pn_fabric s) ! target) = Some q" "ln_tx (fb_lanes (pn_fabric s) ! target) = Some r"
    using shapeD(7,8) [OF sh assms(2)] by auto
  have "good A fb (upd_lane target (ring_push k p) (tick s)) hand"
    by (rule good_upd_lane [OF good_tick [OF assms(1)] assms(2)])
       (use q assms(3) in \<open>cases k; auto simp: lane_bufs_def ring_of_def\<close>)+
  from good_Wake [OF this assms(2)] show ?thesis using True by (simp add: pk_Enqueue_def)
next
  case False
  then show ?thesis using good_free [of A fb "drop1 i (tick s)" p hand] good_tick [OF assms(1)] by (simp add: pk_Enqueue_def)
qed

section \<open>Destinations\<close>

lemma segment_owner_fixed: "segment_owner fb p as ps i = int j \<Longrightarrow> segment_owner fb p as ps j = int j"
  by (cases "placement_of fb p") (auto simp: segment_owner_def Let_def split: if_splits)

lemma Destination_fixed: "Destination fb f i = int j \<Longrightarrow> Destination fb f j = int j"
  using nonneg_Destination_is_segment [of fb f i] segment_owner_fixed [of fb "segment_port f" "segment_addresses f" "segment_ports f" i j]
  by (simp add: Destination_segment)

lemma started_segment: "started fb \<Longrightarrow> i < fb_workers fb \<Longrightarrow> tcp_segment f \<Longrightarrow> 0 \<le> Destination fb f i \<and> Destination fb f i < int (fb_workers fb)"
  by (simp add: started_def Destination_segment)

lemma Destination_lt: "started fb \<Longrightarrow> i < fb_workers fb \<Longrightarrow> 0 \<le> Destination fb f i \<Longrightarrow> Destination fb f i < int (fb_workers fb)"
  using nonneg_Destination_is_segment started_segment by blast

lemma Destination_broadcast:
  assumes "started fb" "i < fb_workers fb" "Destination fb f i = - 2"
  shows "Destination fb f j = - 2"
proof -
  have "\<not> tcp_segment f" using started_segment [OF assms(1,2), of f] assms(3) by auto
  then show ?thesis using assms(3) by (auto simp: Destination_def tcp_segment_def Let_def split: if_splits)
qed

section \<open>Operations keep the invariant\<close>

lemma good_owns: "good A fb s hand \<Longrightarrow> owns fb j h b \<Longrightarrow> A j h b"
  by (auto simp: good_def own_flows_def)

lemma good_shape: "good A fb s hand \<Longrightarrow> shape fb s"
  by (simp add: good_def)

lemma good_if: "(c \<Longrightarrow> good A fb (snd a) hand) \<Longrightarrow> (\<not> c \<Longrightarrow> good A fb (snd b) hand) \<Longrightarrow> good A fb (snd (if c then a else b)) hand"
  by simp

lemma good_Transmit:
  assumes "started fb" "good A fb s hand" "i < fb_workers fb"
  shows "good A fb (snd (Transmit env i frame s)) hand"
proof -
  note sh = shapeD [OF good_shape [OF assms(2)]]
  obtain p s1 where p: "pktmbuf_take frame False s = (p, s1)" by fastforce
  have g1: "good A fb s1 (p # hand)" "pk_bytes p = frame" "pk_local p = False" using good_take [OF assms(2) p] by simp_all
  define s2 where "s2 = tick s1"
  have g2: "good A fb s2 (p # hand)" unfolding s2_def by (rule good_tick [OF g1(1)])
  then have g2': "good A fb s2 (p\<lparr>pk_local := True\<rparr> # hand)" by (simp add: good_def ledger_def)
  have q: "i mod fb_queues fb < fb_workers fb" using assms(1) mod_less_divisor [of "fb_queues fb" i] unfolding started_def by linarith
  have loop: "good A fb (snd (pk_Enqueue env i RxRing (p\<lparr>pk_local := True\<rparr>) (nat (Destination fb frame i)) s3)) hand"
    if "good A fb s3 (p\<lparr>pk_local := True\<rparr> # hand)" "0 \<le> Destination fb frame i" for s3
  proof (rule good_Enqueue [OF that(1)])
    show "nat (Destination fb frame i) < fb_workers fb" using Destination_lt [OF assms(1,3) that(2)] that(2) by simp
    have "Destination fb frame i = int (nat (Destination fb frame i))" using that(2) by simp
    from Destination_fixed [OF this] show "A (nat (Destination fb frame i)) (pk_local (p\<lparr>pk_local := True\<rparr>)) (pk_bytes (p\<lparr>pk_local := True\<rparr>))"
      by (intro good_owns [OF assms(2)]) (simp add: owns_def g1)
  qed
  have wire: "good A fb (snd (pk_Enqueue env i TxRing p (i mod fb_queues fb) s3)) hand" if "good A fb s3 (p # hand)" for s3
    by (rule good_Enqueue [OF that q]) simp
  have up: "good A fb (upd_pw i (\<lambda>w. w\<lparr>pw_forwarded_tx := pw_forwarded_tx w + 1\<rparr>) s2) (p # hand)" using g2 by (simp add: good_upd_pw)
  have loop1: "good A fb (snd (pk_Enqueue env i RxRing (p\<lparr>pk_local := True\<rparr>) (nat (Destination fb frame i)) (if c then forwarded_rx1 i s2 else s2))) hand"
    if "0 \<le> Destination fb frame i" for c by (rule loop [OF _ that]) (use g2' in simp)
  have wire1: "good A fb (snd (pk_Enqueue env i TxRing p (i mod fb_queues fb)
      (if c then upd_pw i (\<lambda>w. w\<lparr>pw_forwarded_tx := pw_forwarded_tx w + 1\<rparr>) s2 else s2))) hand" for c
    by (rule wire) (use g2 up in simp)
  show ?thesis
    unfolding Transmit_def Let_def p case_prod_unfold fst_conv snd_conv sh(2,3,4) s2_def [symmetric]
    by (intro good_if; simp only: snd_conv good_counters loop1 wire1 not_less assms(2) good_tick [OF assms(2)] good_free [OF g2])
qed

lemma good_transmits:
  "started fb \<Longrightarrow> i < fb_workers fb \<Longrightarrow> good A fb s hand \<Longrightarrow> good A fb (fold (\<lambda>f s. snd (Transmit env i f s)) fs s) hand"
  by (induction fs arbitrary: s) (simp_all add: good_Transmit)

lemma good_stack_event:
  assumes "started fb" "i < fb_workers fb" "good A fb s hand" "\<And>h b. e = SeInput h b \<Longrightarrow> A i h b"
  shows "good A fb (stack_event env i e s) hand"
proof -
  define s1 where "s1 = upd_pw i (\<lambda>w. w\<lparr>pw_events := pw_events w @ [e]\<rparr>) s"
  have i: "i < length (pn_workers s)" using shapeD(5) [OF good_shape [OF assms(3)]] assms(2) by simp
  have ev: "pw_events (pn_workers s1 ! j) = pw_events (pn_workers s ! j) @ (if j = i then [e] else [])" for j
    using i by (simp add: s1_def upd_pw_def nth_list_update)
  have "own_flows A fb s1" using assms(3,4) by (auto simp: good_def own_flows_def ev) (auto simp: s1_def)
  then have "good A fb s1 hand" using assms(3) by (simp add: good_def s1_def)
  from good_transmits [OF assms(1,2) this] show ?thesis by (simp add: stack_event_def s1_def Let_def)
qed

lemma good_Input:
  assumes "started fb" "i < fb_workers fb" "good A fb s (p # hand)" "A i (pk_local p) (pk_bytes p)"
  shows "good A fb (pk_Input env i p s) hand"
proof -
  have "good A fb (stack_event env i (SeInput (pk_local p) (pk_bytes p)) s) (p # hand)"
    by (rule good_stack_event [OF assms(1-3)]) (use assms(4) in simp)
  then show ?thesis using assms(3) unfolding pk_Input_def by (intro good_free) (simp add: good_upd_pw)
qed

text \<open>Folding an operation that disposes of the packets in hand, one by one.\<close>

lemma good_fold:
  assumes "\<And>p s hand. P p \<Longrightarrow> good A fb s (p # hand) \<Longrightarrow> good A fb (f p s) hand" "list_all P ps" "good A fb s (ps @ hand)"
  shows "good A fb (fold f ps s) hand"
  using assms(2,3) by (induction ps arbitrary: s) (simp_all add: assms(1))

lemma good_broadcast_to:
  assumes "good A fb s hand" "j < fb_workers fb" "Destination fb (pk_bytes p) j = - 2" "\<not> pk_local p"
  shows "good A fb (broadcast_to env i p j s) hand"
proof -
  obtain c s1 where c: "pktmbuf_take (pk_bytes p) (pk_local p) s = (c, s1)" by fastforce
  note t = good_take [OF assms(1) c]
  have "good A fb (snd (pk_Enqueue env i RxRing c j s1)) hand"
    by (rule good_Enqueue [OF conjunct1 [OF t] assms(2)]) (use t assms(3,4) good_owns [OF assms(1), of j False "pk_bytes p"] in \<open>simp add: owns_def\<close>)
  then show ?thesis using assms(1) good_tick [OF assms(1)] by (simp add: broadcast_to_def c)
qed

lemma good_broadcast:
  assumes "good A fb s hand" "list_all (\<lambda>j. j < fb_workers fb) js" "\<And>j. Destination fb (pk_bytes p) j = - 2" "\<not> pk_local p"
  shows "good A fb (fold (broadcast_to env i p) js s) hand"
  using assms by (induction js arbitrary: s) (simp_all add: good_broadcast_to)

lemma good_Route:
  assumes "started fb" "i < fb_workers fb" "good A fb s (packet # hand)"
  shows "good A fb (Route env i packet s) hand"
proof -
  define p where "p = packet\<lparr>pk_local := False\<rparr>"
  note sh = shapeD [OF good_shape [OF assms(3)]]
  have g: "good A fb s (p # hand)" using assms(3) by (simp add: p_def good_def ledger_def)
  have loc: "\<not> pk_local p" by (simp add: p_def)
  define d where "d = (if length (pk_bytes p) \<le> kMaxFrame then Destination fb (pk_bytes p) i else - 1)"
  have b: "good A fb (pk_Input env i p (fold (broadcast_to env i p) [0..<fb_workers fb] s)) hand" if d2: "d = - 2"
  proof -
    have all: "Destination fb (pk_bytes p) j = - 2" for j
      using Destination_broadcast [OF assms(1,2)] d2 by (auto simp: d_def split: if_splits)
    show ?thesis by (rule good_Input [OF assms(1,2) good_broadcast [OF g _ all loc]]) (use good_owns [OF g, of i False "pk_bytes p"] in \<open>simp_all add: owns_def all loc list_all_iff\<close>)
  qed
  have l: "good A fb (pk_Input env i p s) hand" if "d = int i"
    by (rule good_Input [OF assms(1,2) g good_owns [OF g]]) (use that in \<open>auto simp: owns_def d_def split: if_splits\<close>)
  have f: "good A fb (snd (pk_Enqueue env i RxRing p (nat d) s)) hand" if "0 \<le> d"
  proof (rule good_Enqueue [OF g])
    have D: "Destination fb (pk_bytes p) i = d" using that by (auto simp: d_def split: if_splits)
    show "nat d < fb_workers fb" using Destination_lt [OF assms(1,2), of "pk_bytes p"] that by (simp add: D)
    show "A (nat d) (pk_local p) (pk_bytes p)" using Destination_fixed [of fb "pk_bytes p" i "nat d"] that
      by (intro good_owns [OF g]) (simp add: D owns_def)
  qed
  show ?thesis using b l f good_free [OF g]
    unfolding Route_def Let_def p_def [symmetric] sh(1,4) d_def [symmetric]
    by simp (metis good_counters(1) good_free g)
qed

lemma good_FlushTx:
  assumes "good A fb s hand" "i < fb_workers fb"
  shows "good A fb (snd (FlushTx env i s)) hand"
proof -
  define q where "q = ring_of (ln_tx (fb_lanes (pn_fabric s) ! i))"
  define packets where "packets = take kBurst q"
  define s1 where "s1 = upd_lane i (\<lambda>l. l\<lparr>ln_tx := Some (drop kBurst q)\<rparr>) s"
  define sent where "sent = min (ne_tx env (pn_tick s1)) (length packets)"
  define s2 where "s2 = upd_pw i (\<lambda>w. w\<lparr>pw_tx := pw_tx w + of_nat sent\<rparr>) ((tick s1)\<lparr>pn_sent := map pk_buf (take sent packets) @ pn_sent s1\<rparr>)"
  have split: "mset q = mset (take kBurst q) + mset (drop kBurst q)" by (metis append_take_drop_id mset_append)
  have "good A fb s1 (packets @ hand)" unfolding s1_def
    by (rule good_upd_lane [OF assms]) (auto simp: lane_bufs_def ring_of_def [of "Some _"] q_def [symmetric] packets_def split)
  then have t: "good A fb (tick s1) (take sent packets @ drop sent packets @ hand)" using good_tick [of A fb s1] by (metis append_assoc append_take_drop_id)
  then have "good A fb ((tick s1)\<lparr>pn_sent := map pk_buf (take sent packets) @ pn_sent s1\<rparr>) (drop sent packets @ hand)"
    by (simp add: good_def ledger_def ac_simps)
  then have "good A fb s2 (drop sent packets @ hand)" unfolding s2_def by (simp add: good_upd_pw)
  then have "good A fb (fold (\<lambda>p s. drop1 i (pktmbuf_free p s)) (drop sent packets) s2) hand"
    by (rule good_fold [of "\<lambda>_. True", rotated 2]) (simp_all add: good_free list_all_iff)
  then show ?thesis using assms(1)
    unfolding FlushTx_def Let_def q_def [symmetric] packets_def [symmetric] s1_def [symmetric] sent_def [symmetric] s2_def [symmetric] by simp
qed

lemma good_rx_burst: "rx_burst fs s = (ps, s') \<Longrightarrow> good A fb s hand \<Longrightarrow> good A fb s' (ps @ hand)"
proof (induction fs arbitrary: s ps hand)
  case (Cons f fs)
  obtain p s1 ps1 where p: "pktmbuf_take f False s = (p, s1)" "rx_burst fs s1 = (ps1, s')" "ps = p # ps1"
    using Cons(2) by (auto split: prod.splits)
  from Cons(1) [OF p(2) conjunct1 [OF good_take [OF Cons(3) p(1)]]] have "good A fb s' (ps1 @ p # hand)" .
  then show ?case by (simp add: p(3) good_def ledger_def ac_simps)
qed simp

lemma good_Packets:
  assumes "started fb" "i < fb_workers fb" "good A fb s []"
  shows "good A fb (snd (Packets env i s)) []"
proof -
  obtain ps s1 where r: "rx_burst (take kBurst (ne_rx env (pn_tick s))) (tick s) = (ps, s1)" by fastforce
  have "good A fb s1 (ps @ [])" by (rule good_rx_burst [OF r good_tick [OF assms(3)]])
  then have "good A fb (fold (Route env i) ps s1) []"
    by (rule good_fold [of "\<lambda>_. True", rotated 2]) (simp_all add: good_Route [OF assms(1,2)] list_all_iff)
  then have a: "good A fb (snd (route_burst env i s)) []" using assms(3) by (simp add: route_burst_def r)
  have b: "good A fb (snd (input_burst env i t)) []" if t: "good A fb t []" for t
  proof -
    define q where "q = ring_of (ln_rx (fb_lanes (pn_fabric t) ! i))"
    define s1 where "s1 = upd_lane i (\<lambda>l. l\<lparr>ln_rx := Some (drop kBurst q)\<rparr>) t"
    have split: "mset q = mset (take kBurst q) + mset (drop kBurst q)" by (metis append_take_drop_id mset_append)
    have h: "good A fb s1 (take kBurst q @ [])" unfolding s1_def
      by (rule good_upd_lane [OF t assms(2)]) (auto simp: lane_bufs_def ring_of_def [of "Some _"] q_def [symmetric] split dest: in_set_dropD)
    have "list_all (\<lambda>p. A i (pk_local p) (pk_bytes p)) (take kBurst q)"
      using t assms(2) by (auto simp: list_all_iff good_def own_flows_def q_def dest: in_set_takeD)
    from good_fold [OF good_Input [OF assms(1,2)] this h] have "good A fb (fold (pk_Input env i) (take kBurst q) s1) []" .
    then show ?thesis using t unfolding input_burst_def Let_def q_def [symmetric] s1_def [symmetric] by simp
  qed
  have c: "good A fb (stack_event env i SePoll t) []" if "good A fb t []" for t
    by (rule good_stack_event [OF assms(1,2) that]) simp
  from good_FlushTx [OF c [OF b [OF a]] assms(2)] assms(3) show ?thesis
    by (simp add: Packets_def case_prod_unfold Let_def)
qed

section \<open>Claims between packets\<close>

text \<open>The calls that concern ports change nothing of the fabric but the port owners.\<close>

lemma claim_port_fabric: "\<exists>po. snd (claim_port p ow fb) = fb\<lparr>fb_port_owners := po\<rparr>"
  by (auto simp: claim_port_def Let_def intro: exI [of _ "fb_port_owners fb"])

lemma Listen_fabric: "\<exists>po. fst (snd (Listen l b p fb w)) = fb\<lparr>fb_port_owners := po\<rparr>"
  using claim_port_fabric [of p kListenerPortOwner fb]
  by (auto simp: Listen_def Let_def case_prod_unfold intro: exI [of _ "fb_port_owners fb"])

lemma open_rounds_fabric: "\<exists>po. fst (snd (open_rounds oc n fb w)) = fb\<lparr>fb_port_owners := po\<rparr>"
proof (induction n arbitrary: fb w)
  case 0
  show ?case by (simp add: exI [of _ "fb_port_owners fb"])
next
  case (Suc n)
  define port where "port = client_port fb (dw_id w) (unat (dw_next_client_port w))"
  obtain po where po: "snd (claim_port port (dw_id w + 1) fb) = fb\<lparr>fb_port_owners := po\<rparr>" using claim_port_fabric by blast
  have "\<exists>po'. fst (snd (open_rounds oc n (fb\<lparr>fb_port_owners := po\<rparr>) v)) = fb\<lparr>fb_port_owners := po'\<rparr>" for v
    using Suc [of "fb\<lparr>fb_port_owners := po\<rparr>" v] by simp
  then show ?case using Suc [of fb] unfolding open_rounds.simps Let_def port_def [symmetric] case_prod_unfold po by auto
qed

lemma port_step_fabric: "\<exists>po. fst (port_step x (fb, ws)) = fb\<lparr>fb_port_owners := po\<rparr>"
proof (cases x)
  case (PoListen i l b port)
  then show ?thesis using Listen_fabric [of l b port fb "ws ! i"]
    by (auto simp: case_prod_unfold Let_def intro: exI [of _ "fb_port_owners fb"])
next
  case (PoOpen i oc b)
  then show ?thesis using open_rounds_fabric [of oc _ fb "ws ! i"]
    by (auto simp: case_prod_unfold Let_def OpenClient_def intro: exI [of _ "fb_port_owners fb"])
qed (auto intro: exI [of _ "fb_port_owners fb"])

definition net_inv :: "fabric \<Rightarrow> allowed \<Rightarrow> pnet \<Rightarrow> bool" where
  "net_inv fb0 A s \<longleftrightarrow> good A (pn_fabric s) s [] \<and> fabric_le fb0 (pn_fabric s) \<and> fb_queues (pn_fabric s) = fb_queues fb0"

lemma owns_lanes: "owns (fb\<lparr>fb_lanes := ls\<rparr>) j h b = owns fb j h b"
  by (simp add: owns_def Destination_lanes)

lemma run_ok_lanes: "run_ok (fb\<lparr>fb_lanes := ls\<rparr>, ws) = run_ok (fb, ws)" "fabric_le f0 (fb\<lparr>fb_lanes := ls\<rparr>) = fabric_le f0 fb"
  by (simp_all add: run_ok_def owners_ok_def fabric_le_def)

lemma net_inv_started:
  assumes "net_inv fb0 A s" "prepared fb0 ws0" "0 < fb_queues fb0" "fb_queues fb0 \<le> fb_workers fb0"
  shows "started (pn_fabric s)"
proof -
  have "run_ok (pn_fabric s, pn_dworkers s)" using assms(1) by (simp add: net_inv_def good_def shape_def)
  then have "owners_ok (pn_fabric s)" by (simp add: run_ok_def)
  then show ?thesis using segment_owner_range [OF assms(2)] assms unfolding started_def net_inv_def by (simp add: fabric_le_def)
qed

text \<open>A step of the packet path moves packets between lanes and keeps the rest of the fabric.\<close>

lemma good_lanes:
  assumes "good A fb s hand"
  obtains ls where "pn_fabric s = fb\<lparr>fb_lanes := ls\<rparr>"
proof -
  have e: "(pn_fabric s)\<lparr>fb_lanes := []\<rparr> = fb\<lparr>fb_lanes := []\<rparr>" using assms by (simp add: good_def shape_def)
  have "pn_fabric s = fb\<lparr>fb_lanes := fb_lanes (pn_fabric s)\<rparr>"
    using arg_cong [OF e, of "\<lambda>x. x\<lparr>fb_lanes := fb_lanes (pn_fabric s)\<rparr>"] by simp
  then show ?thesis by (rule that)
qed

lemma net_inv_moved:
  assumes "net_inv fb0 A s" "good A (pn_fabric s) s' []"
  shows "net_inv fb0 A s'"
proof -
  obtain ls where f': "pn_fabric s' = (pn_fabric s)\<lparr>fb_lanes := ls\<rparr>" by (rule good_lanes [OF assms(2)])
  have "good A (pn_fabric s') s' []" using assms(2)
    by (simp add: f' good_def shape_def own_flows_def owns_lanes run_ok_lanes)
  moreover have "fabric_le fb0 (pn_fabric s')" "fb_queues (pn_fabric s') = fb_queues fb0"
    using assms(1) by (simp_all add: f' run_ok_lanes net_inv_def)
  ultimately show ?thesis by (simp add: net_inv_def)
qed

lemma packet_step_good:
  assumes "net_inv fb0 A s" "prepared fb0 ws0" "0 < fb_queues fb0" "fb_queues fb0 \<le> fb_workers fb0" "\<nexists>x. op = PkPort x"
  shows "good A (pn_fabric s) (pk_step env op s) []"
proof -
  have g: "good A (pn_fabric s) s []" using assms(1) by (simp add: net_inv_def)
  note st = net_inv_started [OF assms(1-4)]
  show "good A (pn_fabric s) (pk_step env op s) []"
    using g shapeD(5) [OF good_shape [OF g]] assms(5)
    by (cases op) (simp_all add: good_Packets [OF st] good_FlushTx good_Transmit [OF st])
qed

lemma net_inv_port_step:
  assumes "net_inv fb0 A s" "\<And>j h b. A j h b \<Longrightarrow> B j h b" "\<And>j h b. owns (pn_fabric (pk_step env (PkPort x) s)) j h b \<Longrightarrow> B j h b"
  shows "net_inv fb0 B (pk_step env (PkPort x) s) \<and> fabric_le (pn_fabric s) (pn_fabric (pk_step env (PkPort x) s))"
proof -
  obtain fb ws where p: "port_step x (pn_fabric s, pn_dworkers s) = (fb, ws)" by fastforce
  obtain po where po: "fb = (pn_fabric s)\<lparr>fb_port_owners := po\<rparr>" using port_step_fabric [of x "pn_fabric s" "pn_dworkers s"] p by auto
  have s': "pk_step env (PkPort x) s = s\<lparr>pn_fabric := fb, pn_dworkers := ws\<rparr>" by (simp add: p)
  have ok: "run_ok (pn_fabric s, pn_dworkers s)" and le0: "fabric_le fb0 (pn_fabric s)" using assms(1) by (simp_all add: net_inv_def good_def shape_def)
  have k: "fabric_le (pn_fabric s) fb" "run_ok (fb, ws)" using port_step_keeps [OF ok, of x] p by simp_all
  have b: "owns fb j h c \<Longrightarrow> B j h c" for j h c using assms(3) [of j h c] unfolding s' by simp
  have "ring_bufs (s\<lparr>pn_fabric := fb, pn_dworkers := ws\<rparr>) = ring_bufs s" by (simp add: ring_bufs_def po)
  then have "good B fb (s\<lparr>pn_fabric := fb, pn_dworkers := ws\<rparr>) []"
    using assms(1,2) k(2) b by (auto simp: net_inv_def good_def shape_def ledger_def own_flows_def po)
  moreover have "fb_queues fb = fb_queues fb0" using assms(1) by (simp add: net_inv_def po)
  ultimately show ?thesis unfolding s' using k(1) fabric_le_trans [OF le0 k(1)] by (simp add: net_inv_def)
qed

text \<open>The network after preparation: empty rings and no buffer taken.\<close>

definition new_pworker :: pworker where
  "new_pworker = \<lparr>pw_rx = 0, pw_tx = 0, pw_forwarded_rx = 0, pw_forwarded_tx = 0, pw_drops = 0, pw_events = []\<rparr>"

definition start_net :: "fabric \<Rightarrow> dworker list \<Rightarrow> pnet" where
  "start_net fb ws = \<lparr>pn_fabric = fb\<lparr>fb_lanes := map (\<lambda>l. l\<lparr>ln_rx := Some [], ln_tx := Some []\<rparr>) (fb_lanes fb)\<rparr>,
     pn_workers = replicate (fb_workers fb) new_pworker, pn_tick = 0, pn_taken = [], pn_freed = [], pn_sent = [], pn_wakes = [],
     pn_dworkers = ws\<rparr>"

lemma net_inv_start:
  assumes "prepared fb ws" "fb_workers fb \<le> length (fb_lanes fb)" "\<And>j h b. owns fb j h b \<Longrightarrow> A j h b"
  shows "net_inv fb A (start_net fb ws)"
proof -
  have "sum_list (map lane_bufs (map (\<lambda>l. l\<lparr>ln_rx := Some [], ln_tx := Some []\<rparr>) ls)) = {#}" for ls
    by (induction ls) (simp_all add: lane_bufs_def ring_of_def)
  then show ?thesis using assms prepared_run_ok [OF assms(1)]
    by (simp add: net_inv_def good_def shape_def ledger_def own_flows_def start_net_def ring_bufs_def ring_of_def new_pworker_def
        owns_lanes run_ok_lanes del: map_map)
qed

text \<open>The frames a worker has been given, or that wait for it.\<close>

definition given :: "nat \<Rightarrow> bool \<Rightarrow> u8 list \<Rightarrow> pnet \<Rightarrow> bool" where
  "given j host b s \<longleftrightarrow> SeInput host b \<in> set (pw_events (pn_workers s ! j)) \<or>
     (\<exists>p. p \<in> set (ring_of (ln_rx (fb_lanes (pn_fabric s) ! j))) \<and> pk_local p = host \<and> pk_bytes p = b)"

definition unclaimed :: "fabric \<Rightarrow> u8 list \<Rightarrow> bool" where
  "unclaimed fb b \<longleftrightarrow> placement_of fb (segment_port b) = None \<and> fb_port_owners fb (segment_port b) = 0"

definition since :: "pnet \<Rightarrow> fabric \<Rightarrow> allowed" where
  "since s1 fb j host b \<longleftrightarrow> given j host b s1 \<or> owns fb j host b \<or> unclaimed (pn_fabric s1) b \<and> owns (pn_fabric s1) j host b"

lemma segment_owner_nonneg: "0 \<le> segment_owner fb p as ps rx"
  by (cases "placement_of fb p") (simp_all add: segment_owner_def Let_def)

lemma Destination_two:
  assumes "Destination fb b i = - 2"
  shows "Destination fb' b j = - 2"
proof -
  have "\<not> tcp_segment b"
    using assms segment_owner_nonneg [of fb "segment_port b" "segment_addresses b" "segment_ports b" i] by (auto simp: Destination_segment)
  then show ?thesis using assms by (auto simp: Destination_def tcp_segment_def Let_def split: if_splits)
qed

lemma segment_owner_unclaimed:
  assumes "fabric_le fb1 fb" "placement_of fb p = None" "fb_port_owners fb p = 0"
  shows "placement_of fb1 p = None" "fb_port_owners fb1 p = 0" "segment_owner fb1 p as ps rx = segment_owner fb p as ps rx"
proof -
  show 1: "placement_of fb1 p = None" using assms by (simp add: placement_of_def fabric_le_def)
  show 2: "fb_port_owners fb1 p = 0" using assms by (metis fabric_le_def)
  show "segment_owner fb1 p as ps rx = segment_owner fb p as ps rx"
    using assms 1 2 by (simp add: segment_owner_def fabric_le_def)
qed

lemma since_mono:
  assumes "since s1 fb j h b" "fabric_le (pn_fabric s1) fb" "fabric_le fb fb'"
  shows "since s1 fb' j h b"
proof (cases "owns fb j h b")
  case False
  then show ?thesis using assms(1) by (auto simp: since_def)
next
  case own: True
  show ?thesis
  proof (cases "Destination fb b j = int j")
    case False
    then show ?thesis using own Destination_two [of fb b j fb' j] by (simp add: owns_def since_def)
  next
    case True
    then have t: "tcp_segment b" using nonneg_Destination_is_segment [of fb b j] by simp
    show ?thesis
    proof (cases "unclaimed fb b")
      case False
      then show ?thesis using True segment_owner_le [OF assms(3), of "segment_port b"]
        by (auto simp: since_def owns_def Destination_segment [OF t] unclaimed_def)
    next
      case True
      then show ?thesis using segment_owner_unclaimed [OF assms(2), of "segment_port b"] \<open>Destination fb b j = int j\<close>
        by (simp add: since_def owns_def Destination_segment [OF t] unclaimed_def)
    qed
  qed
qed

lemma since_run:
  assumes "prepared fb0 ws0" "0 < fb_queues fb0" "fb_queues fb0 \<le> fb_workers fb0"
  shows "net_inv fb0 (since s1 (pn_fabric s)) s \<Longrightarrow> fabric_le (pn_fabric s1) (pn_fabric s) \<Longrightarrow>
    net_inv fb0 (since s1 (pn_fabric (fold (pk_step env) ops s))) (fold (pk_step env) ops s)"
proof (induction ops arbitrary: s)
  case (Cons op ops)
  let ?s = "pk_step env op s"
  have "net_inv fb0 (since s1 (pn_fabric ?s)) ?s \<and> fabric_le (pn_fabric s1) (pn_fabric ?s)"
  proof (cases "\<exists>x. op = PkPort x")
    case True
    then obtain x where x: "op = PkPort x" by blast
    have le: "fabric_le (pn_fabric s) (pn_fabric ?s)"
      using net_inv_port_step [OF Cons.prems(1), of "\<lambda>_ _ _. True" env x] by (simp add: x del: pk_step.simps)
    have "net_inv fb0 (since s1 (pn_fabric ?s)) ?s" unfolding x
      by (rule conjunct1 [OF net_inv_port_step [OF Cons.prems(1)]])
         (use since_mono [OF _ Cons.prems(2) le] in \<open>auto simp: x since_def simp del: pk_step.simps\<close>)
    then show ?thesis using fabric_le_trans [OF Cons.prems(2) le] by simp
  next
    case False
    note g = packet_step_good [OF Cons.prems(1) assms False, of env]
    obtain ls where ls: "pn_fabric ?s = (pn_fabric s)\<lparr>fb_lanes := ls\<rparr>" by (rule good_lanes [OF g])
    have "since s1 (pn_fabric ?s) = since s1 (pn_fabric s)" by (intro ext) (simp add: since_def ls owns_lanes)
    then show ?thesis using net_inv_moved [OF Cons.prems(1) g] Cons.prems(2) by (simp add: ls run_ok_lanes)
  qed
  then show ?case using Cons.IH [of ?s] by simp
qed simp

lemma net_inv_since:
  assumes "net_inv fb0 A s"
  shows "net_inv fb0 (since s (pn_fabric s)) s"
proof -
  have "own_flows (since s (pn_fabric s)) (pn_fabric s) s" by (auto simp: own_flows_def since_def given_def)
  then show ?thesis using assms by (simp add: net_inv_def good_def)
qed

lemma net_inv_history:
  assumes "prepared fb0 ws0" "0 < fb_queues fb0" "fb_queues fb0 \<le> fb_workers fb0" "fb_workers fb0 \<le> length (fb_lanes fb0)"
  shows "\<exists>A. net_inv fb0 A (fold (pk_step env) ops (start_net fb0 ws0))"
proof -
  have "net_inv fb0 (since (start_net fb0 ws0) (pn_fabric (start_net fb0 ws0))) (start_net fb0 ws0)"
    by (rule net_inv_since [OF net_inv_start [OF assms(1,4), of "\<lambda>_ _ _. True"]]) simp
  from since_run [OF assms(1-3) this fabric_le_refl] show ?thesis by blast
qed

text \<open>
  C23: packet buffers are neither leaked nor freed twice. After any sequence of polls,
  submissions, frames sent by the stacks and calls that claim ports, for any answers of the device,
  pool and rings, each buffer taken from the pool is in exactly one place: returned to the pool,
  handed to the device, or waiting in one ring.
\<close>

theorem packet_buffers_owned_once:
  assumes "prepared fb0 ws0" "0 < fb_queues fb0" "fb_queues fb0 \<le> fb_workers fb0"
    "fb_workers fb0 \<le> length (fb_lanes fb0)" "fold (pk_step env) ops (start_net fb0 ws0) = s"
  shows "mset (pn_taken s) = mset (pn_freed s) + mset (pn_sent s) + ring_bufs s \<and> distinct (pn_taken s)"
  using net_inv_history [OF assms(1-4), of env ops] unfolding assms(5) by (auto simp: net_inv_def good_def ledger_def)


text \<open>Worker 1 opens a client socket; worker 0 sends a segment to its port at the host's own address.\<close>

definition example_env :: nic_env where
  "example_env = \<lparr>ne_alloc = (\<lambda>_. True), ne_append = (\<lambda>_. True), ne_clone = (\<lambda>_. True), ne_accept = (\<lambda>_. True),
     ne_rx = (\<lambda>_. []), ne_tx = (\<lambda>_. 0), ne_frames = (\<lambda>_ _. [])\<rparr>"

definition example_start :: fabric where
  "example_start = example_fabric\<lparr>fb_queues := 2, fb_ready := 2, fb_address := [10, 0, 0, 2]\<rparr>"

definition example_claimed :: pnet where
  "example_claimed = fold (pk_step example_env) [PkPort (PoOpen 1 (\<lambda>p. (0, 7)) True)] (start_net example_start example_workers)"

definition example_sent :: pnet where
  "example_sent = fold (pk_step example_env) [PkTransmit 0 (example_segment 0x80 1)] example_claimed"

lemma example_claimed_simps:
  "pn_fabric example_claimed = (pn_fabric (start_net example_start example_workers))\<lparr>fb_port_owners := (\<lambda>_. 0)(32769 := 2)\<rparr>"
  "pn_workers example_claimed = [new_pworker, new_pworker]" "pn_tick example_claimed = 0" "pn_taken example_claimed = []"
  "pn_freed example_claimed = []" "pn_sent example_claimed = []"
proof -
  let ?fb = "pn_fabric (start_net example_start example_workers)"
  have "client_ports ?fb 1 = 14116"
    by (simp add: client_ports_def start_net_def example_start_def example_fabric_def fabric0_def kClientPortFirst_def kClientPortLast_def)
  then show "pn_fabric example_claimed = ?fb\<lparr>fb_port_owners := (\<lambda>_. 0)(32769 := 2)\<rparr>"
    by (simp add: example_claimed_def start_net_def example_start_def example_workers_def OpenClient_def client_port_def example_fabric_def fabric0_def claim_port_def Own_def
      tb_Insert_def kNoSlot_def Let_def kClientPortFirst_def placement_of_def open_rounds.simps(2) [of _ 14115, simplified]
      numeral_2_eq_2 [symmetric])
qed (simp_all add: example_claimed_def start_net_def case_prod_unfold Let_def example_start_def example_fabric_def numeral_2_eq_2)

lemma example_start_ok:
  "prepared example_start example_workers" "0 < fb_queues example_start" "fb_queues example_start \<le> fb_workers example_start"
  "fb_workers example_start \<le> length (fb_lanes example_start)"
  using example_prepared by (simp_all add: prepared_def example_start_def example_fabric_def fabric0_def)

lemma example_sent_ring:
  "pn_taken example_sent = [0]" "pn_freed example_sent = []" "pn_sent example_sent = []"
  "ring_of (ln_rx (fb_lanes (pn_fabric example_sent) ! 1)) = [\<lparr>pk_buf = 0, pk_bytes = example_segment 0x80 1, pk_local = True\<rparr>]"
proof -
  let ?f = "example_segment 0x80 1" and ?s = example_claimed
  have fab: "pn_fabric ?s = example_start\<lparr>fb_lanes := replicate 4 (new_lane\<lparr>ln_rx := Some [], ln_tx := Some []\<rparr>), fb_port_owners := (\<lambda>_. 0)(32769 := 2)\<rparr>"
    by (simp add: example_claimed_simps start_net_def example_start_def example_fabric_def fabric0_def)
  have port: "segment_port ?f = 32769" by (simp add: example_segment_port)
  have d: "Destination (pn_fabric ?s) ?f 0 = 1"
    by (simp add: Destination_segment [OF example_segment_tcp] port fab segment_owner_def placement_of_def example_start_def
      example_fabric_def fabric0_def kListenerPortOwner_def Let_def)
  have f: "length ?f = 54" "Read16 ?f 12 = 0x0800" "take 4 (drop 30 ?f) = [10, 0, 0, 2]" "fb_address (pn_fabric ?s) = [10, 0, 0, 2]"
    by (simp_all add: example_segment_def Read16_def fab example_start_def)
  define s1 where "s1 = (tick ?s)\<lparr>pn_taken := [0]\<rparr>"
  have e: "example_sent = pk_Wake 0 1 (upd_lane 1 (ring_push RxRing \<lparr>pk_buf = 0, pk_bytes = ?f, pk_local = True\<rparr>) (tick (forwarded_rx1 0 (tick s1))))"
    unfolding example_sent_def by (simp add: example_claimed_simps(2-) Transmit_def f d kMaxFrame_def example_env_def pktmbuf_take_def Let_def pk_Enqueue_def s1_def)
  show "pn_taken example_sent = [0]" "pn_freed example_sent = []" "pn_sent example_sent = []"
    by (simp_all add: e pk_Wake_def s1_def forwarded_rx1_def example_claimed_simps(2-))
  show "ring_of (ln_rx (fb_lanes (pn_fabric example_sent) ! 1)) = [\<lparr>pk_buf = 0, pk_bytes = ?f, pk_local = True\<rparr>]"
    by (simp add: e pk_Wake_def s1_def forwarded_rx1_def fab upd_lane_def new_lane_def ring_of_def)
qed

lemma example_sent_run:
  "fold (pk_step example_env) [PkPort (PoOpen 1 (\<lambda>p. (0, 7)) True), PkTransmit 0 (example_segment 0x80 1)] (start_net example_start example_workers) = example_sent"
  unfolding example_sent_def example_claimed_def by (simp only: fold.simps comp_def id_def)

theorem packet_buffers_owned_once_witness: "ring_bufs example_sent = {#0#} \<and> pn_taken example_sent = [0]"
  using packet_buffers_owned_once [OF example_start_ok example_sent_run] example_sent_ring(1-3) by simp


end
