(* ===== verification/Dpdk_Runtime.thy ===== *)
theory Dpdk_Runtime
  imports Dpdk_Packets
begin

text \<open>
  Life cycle of the DPDK network, \<open>src/io/dpdk_backend.cpp\<close>, \<open>src/io/dpdk_memory_budget.cpp\<close> and
  \<open>src/io/backend_options.cpp\<close>: choice of backends, preparation of the device, memory admission,
  start-up of the workers, and parking. Answers of DPDK, FreeBSD and the environment are
  arguments.
\<close>

section \<open>Choice of backends\<close>

record io_backends =
  ib_dpdk_network :: bool
  ib_spdk_storage :: bool

text \<open>\<open>bypass\<close>: support for DPDK and SPDK is compiled in. The state is the choice and whether it is frozen.\<close>

definition ConfigureIoBackends :: "bool \<Rightarrow> io_backends \<Rightarrow> io_backends \<times> bool \<Rightarrow> status \<times> io_backends \<times> bool" where
  "ConfigureIoBackends bypass options s =
     (if \<not> bypass \<and> (ib_dpdk_network options \<or> ib_spdk_storage options) then (StUnimplemented, s)
      else if snd s then (if options = fst s then StOk else StFailedPrecondition, s)
      else (StOk, options, False))"

definition FreezeIoBackends :: "io_backends \<times> bool \<Rightarrow> io_backends \<times> bool" where
  "FreezeIoBackends s = (fst s, True)"

section \<open>Preparation\<close>

definition kCacheSize :: nat where "kCacheSize = 256"

record prep_env =
  pe_max_lcore :: nat
  pe_bsd_max_workers :: nat
  pe_environment :: status
  pe_occupied :: nat
  pe_mode :: "string option"
  pe_steering :: "string option"
  pe_address :: "u8 list option"
  pe_netmask_ok :: bool
  pe_gateway_ok :: bool
  pe_ports :: nat
  pe_port_id :: nat
  pe_info_rc :: int
  pe_driver :: string
  pe_max_rx :: nat
  pe_max_tx :: nat
  pe_rss :: bool
  pe_queues :: "string option"
  pe_configure_rc :: int
  pe_desc_rc :: int
  pe_rx_desc :: nat
  pe_tx_desc :: nat
  pe_pool_ok :: bool
  pe_ring_ok :: "nat \<Rightarrow> bool \<times> bool"
  pe_queue_rc :: "nat \<Rightarrow> int"
  pe_mac_rc :: int
  pe_mtu_rc :: int
  pe_mtu :: nat
  pe_set_mtu_rc :: int
  pe_start_rc :: int
  pe_intr_fd :: "nat \<Rightarrow> int"
  pe_intr_enable :: "nat \<Rightarrow> int"
  pe_intr_disable :: "nat \<Rightarrow> int"

text \<open>\<open>strtoul\<close> in base 10: the value and the text after it, the whole text if it has no digits.\<close>

definition is_digit :: "char \<Rightarrow> bool" where "is_digit c \<longleftrightarrow> of_char c \<in> {48 .. (57 :: nat)}"
definition is_space :: "char \<Rightarrow> bool" where "is_space c \<longleftrightarrow> of_char c = (32 :: nat) \<or> of_char c \<in> {9 .. (13 :: nat)}"

fun read_digits :: "nat \<Rightarrow> string \<Rightarrow> nat \<times> string" where
  "read_digits acc [] = (acc, [])"
| "read_digits acc (c # cs) = (if is_digit c then read_digits (acc * 10 + (of_char c - 48)) cs else (acc, c # cs))"

definition strtoul10 :: "string \<Rightarrow> nat \<times> string" where
  "strtoul10 s =
     (let s1 = dropWhile is_space s;
          (neg, s2) = (case s1 of [] \<Rightarrow> (False, []) | c # cs \<Rightarrow> if c = CHR ''-'' then (True, cs) else if c = CHR ''+'' then (False, cs) else (False, c # cs))
      in if s2 = [] \<or> \<not> is_digit (hd s2) then (0, s)
         else let (v, rest) = read_digits 0 s2 in
           (if 2 ^ 64 \<le> v then 2 ^ 64 - 1 else if neg then (2 ^ 64 - v) mod 2 ^ 64 else v, rest))"

text \<open>A step runs if all before it succeeded.\<close>

definition and_then :: "status \<times> fabric \<Rightarrow> (fabric \<Rightarrow> status \<times> fabric) \<Rightarrow> status \<times> fabric" where
  "and_then r f = (if status_ok (fst r) then f (snd r) else r)"

text \<open>\<open>StopPort\<close>, with the rings of all lanes freed.\<close>

definition StopPort :: "fabric \<Rightarrow> fabric" where
  "StopPort fb = fb\<lparr>fb_port := None, fb_lanes := map (\<lambda>l. l\<lparr>ln_rx := None, ln_tx := None\<rparr>) (fb_lanes fb), fb_pool := None\<rparr>"

definition stop_unless :: "bool \<Rightarrow> fabric \<Rightarrow> status \<times> fabric" where
  "stop_unless ok fb = (if ok then (StOk, fb) else (StFailedPrecondition, StopPort fb))"

definition prep_admit :: "nat \<Rightarrow> prep_env \<Rightarrow> nat \<Rightarrow> fabric \<Rightarrow> status \<times> fabric" where
  "prep_admit max_workers env workers fb =
     (if list_ex (\<lambda>(port, ids). list_ex (\<lambda>i. workers \<le> i) ids) (fb_listener_workers fb) then (StInvalidArgument, fb)
      else if fb_prepared fb then (StFailedPrecondition, fb)
      else if workers = 0 \<or> max_workers < workers then (StInvalidArgument, fb)
      else if pe_bsd_max_workers env < workers then (StFailedPrecondition, fb)
      else if \<not> status_ok (pe_environment env) then (pe_environment env, fb)
      else if pe_max_lcore env - pe_occupied env < workers then (StResourceExhausted, fb)
      else (StOk, fb\<lparr>fb_workers := workers\<rparr>))"

definition prep_options :: "prep_env \<Rightarrow> fabric \<Rightarrow> status \<times> fabric" where
  "prep_options env fb =
     (if pe_mode env \<notin> {None, Some ''poll'', Some ''adaptive''} then (StInvalidArgument, fb)
      else let fb1 = fb\<lparr>fb_adaptive := (pe_mode env = Some ''adaptive'')\<rparr> in
        if pe_steering env \<notin> {None, Some ''hash'', Some ''rss''} then (StInvalidArgument, fb1)
        else let fb2 = fb1\<lparr>fb_rss_owner := (pe_steering env = Some ''rss'')\<rparr> in
          case pe_address env of
            None \<Rightarrow> (StInvalidArgument, fb2)
          | Some a \<Rightarrow> if \<not> pe_netmask_ok env \<or> \<not> pe_gateway_ok env then (StInvalidArgument, fb2\<lparr>fb_address := a\<rparr>) else (StOk, fb2\<lparr>fb_address := a\<rparr>))"

definition requested_queues :: "prep_env \<Rightarrow> nat \<Rightarrow> nat option" where
  "requested_queues env workers =
     (case pe_queues env of
        None \<Rightarrow> Some workers
      | Some text \<Rightarrow> let (value, rest) = strtoul10 text in if text = [] \<or> rest \<noteq> [] \<or> value = 0 \<or> workers < value then None else Some value)"

definition prep_device :: "prep_env \<Rightarrow> nat \<Rightarrow> fabric \<Rightarrow> status \<times> fabric" where
  "prep_device env workers fb =
     (if pe_ports env \<noteq> 1 then (StFailedPrecondition, fb)
      else let fb1 = fb\<lparr>fb_port := Some (pe_port_id env)\<rparr> in
        if pe_info_rc env \<noteq> 0 then (StFailedPrecondition, fb1)
        else let fb2 = fb1\<lparr>fb_tap := (pe_driver env = ''net_tap''), fb_netvsc := (pe_driver env = ''net_netvsc''),
                           fb_mlx5 := (pe_driver env \<in> {''mlx5_pci'', ''mlx5_auxiliary'', ''net_mlx5''})\<rparr> in
          case requested_queues env workers of
            None \<Rightarrow> (StInvalidArgument, fb2)
          | Some requested \<Rightarrow>
              let fb3 = fb2\<lparr>fb_queues := min requested (min (pe_max_rx env) (pe_max_tx env))\<rparr> in
              if fb_queues fb3 = 0 then (StFailedPrecondition, fb3)
              else if fb_rss_owner fb3 \<and> (fb_queues fb3 \<noteq> workers \<or> (1 < workers \<and> \<not> pe_rss env)) then (StFailedPrecondition, fb3)
              else (StOk, fb3))"

text \<open>Buffers in the pool; the sum is 32 bits wide.\<close>

definition needed_packets :: "prep_env \<Rightarrow> nat \<Rightarrow> nat \<Rightarrow> nat" where
  "needed_packets env workers queues = (queues * (pe_rx_desc env + pe_tx_desc env) + workers * (kCacheSize + kBurst) + kBurst) mod 2 ^ 32"

definition pool_packets :: "prep_env \<Rightarrow> nat \<Rightarrow> nat \<Rightarrow> nat" where
  "pool_packets env workers queues = max 65535 (bit_ceil (needed_packets env workers queues + 1) - 1)"

definition prep_pool :: "prep_env \<Rightarrow> nat \<Rightarrow> fabric \<Rightarrow> status \<times> fabric" where
  "prep_pool env workers fb =
     and_then (stop_unless (pe_configure_rc env = 0) fb)
       (\<lambda>fb1. and_then (stop_unless (pe_desc_rc env = 0) fb1)
         (\<lambda>fb2. if pe_pool_ok env then (StOk, fb2\<lparr>fb_pool := Some (pool_packets env workers (fb_queues fb2))\<rparr>)
                else (StFailedPrecondition, StopPort fb2)))"

fun prep_rings :: "prep_env \<Rightarrow> nat \<Rightarrow> nat \<Rightarrow> fabric \<Rightarrow> status \<times> fabric" where
  "prep_rings env i 0 fb = (StOk, fb)"
| "prep_rings env i (Suc n) fb =
     (let (rx, tx) = pe_ring_ok env i; made = (\<lambda>ok. if ok then Some [] else None);
          fb1 = fb\<lparr>fb_lanes := (fb_lanes fb)[i := (fb_lanes fb ! i)\<lparr>ln_rx := made rx, ln_tx := made tx\<rparr>]\<rparr>
      in if \<not> rx \<or> \<not> tx then (StFailedPrecondition, StopPort fb1) else prep_rings env (Suc i) n fb1)"

definition prep_start :: "prep_env \<Rightarrow> fabric \<Rightarrow> status \<times> fabric" where
  "prep_start env fb =
     and_then (stop_unless (list_all (\<lambda>q. pe_queue_rc env q = 0) [0..<fb_queues fb]) fb)
       (\<lambda>fb1. let mac = pe_mac_rc env; rc = (if mac \<noteq> 0 then mac else pe_mtu_rc env);
                  rc1 = (if rc = 0 \<and> pe_mtu env \<noteq> 1500 then pe_set_mtu_rc env else rc);
                  rc2 = (if rc1 = 0 then pe_start_rc env else rc1)
              in stop_unless (rc2 = 0) fb1)"

definition DisableRxInterrupt :: "prep_env \<Rightarrow> nat \<Rightarrow> fabric \<Rightarrow> int" where
  "DisableRxInterrupt env q fb = (let rc = pe_intr_disable env q in if fb_mlx5 fb \<and> rc = - EAGAIN then 0 else rc)"

fun prep_intr :: "prep_env \<Rightarrow> nat \<Rightarrow> nat \<Rightarrow> fabric \<Rightarrow> status \<times> fabric" where
  "prep_intr env q 0 fb = (StOk, fb)"
| "prep_intr env q (Suc n) fb =
     (let fd = pe_intr_fd env q;
          rc = (if fd < 0 then - 95
                else if fb_tap fb then 0
                else let e = pe_intr_enable env q in if e = 0 then DisableRxInterrupt env q fb else e)
      in if rc \<noteq> 0 then (StFailedPrecondition, StopPort fb)
         else prep_intr env (Suc q) n (fb\<lparr>fb_lanes := (fb_lanes fb)[q := (fb_lanes fb ! q)\<lparr>ln_rx_notification_fd := fd\<rparr>]\<rparr>))"

definition PrepareRuntime :: "nat \<Rightarrow> prep_env \<Rightarrow> nat \<Rightarrow> fabric \<Rightarrow> status \<times> fabric" where
  "PrepareRuntime max_workers env workers fb =
     and_then (and_then (and_then (and_then (and_then (and_then (and_then
       (prep_admit max_workers env workers fb)
       (prep_options env))
       (prep_device env workers))
       (prep_pool env workers))
       (prep_rings env 0 workers))
       (prep_start env))
       (\<lambda>fb1. if fb_adaptive fb1 then prep_intr env 0 (fb_queues fb1) fb1 else (StOk, fb1)))
       (\<lambda>fb1. (StOk, fb1\<lparr>fb_prepared := True\<rparr>))"

definition StopRuntime :: "fabric \<Rightarrow> fabric" where
  "StopRuntime fb = (if \<not> fb_prepared fb \<or> fb_stopped fb then fb else (StopPort fb)\<lparr>fb_stopped := True\<rparr>)"


section \<open>Start-up of the workers\<close>







section \<open>Memory admission\<close>

definition kKiB :: u64 where "kKiB = 1024"
definition kMiB :: u64 where "kMiB = 1024 * kKiB"

record budget =
  mb_vmbus :: u64
  mb_rndis :: u64
  mb_mlx5_cache :: u64
  mb_margin :: u64
  mb_largest :: u64

definition total_bytes :: "budget \<Rightarrow> u64" where
  "total_bytes b = mb_vmbus b + mb_rndis b + mb_mlx5_cache b + mb_margin b"

definition EstimateDpdkMemoryBudget :: "u32 \<Rightarrow> u32 \<Rightarrow> u32 \<Rightarrow> bool \<Rightarrow> bool \<Rightarrow> budget" where
  "EstimateDpdkMemoryBudget workers queues pool_chunks netvsc mlx5 =
     (let b0 = \<lparr>mb_vmbus = 0, mb_rndis = 0, mb_mlx5_cache = 0, mb_margin = 0, mb_largest = 0\<rparr>;
          b1 = (if netvsc then b0\<lparr>mb_vmbus := ucast queues * 2 * (640 * kKiB), mb_largest := 640 * kKiB, mb_rndis := (ucast workers + 2) * 8 * kKiB\<rparr> else b0);
          entries = of_nat (bit_ceil (unat pool_chunks + 1));
          b2 = (if (mlx5 \<or> netvsc) \<and> 256 < entries
                then b1\<lparr>mb_mlx5_cache := ucast queues * 2 * (entries * 32), mb_largest := max (mb_largest b1) (entries * 32)\<rparr> else b1);
          growth = total_bytes b2
      in b2\<lparr>mb_margin := max (2 * kMiB) ((growth + 3) div 4), mb_largest := max (mb_largest b2) (4 * kKiB) + 4 * kKiB\<rparr>)"

record heap_stats =
  hs_total :: u64
  hs_free :: u64
  hs_largest_free :: u64

definition ValidateDpdkMemoryBudget :: "budget \<Rightarrow> heap_stats list \<Rightarrow> status" where
  "ValidateDpdkMemoryBudget b heaps =
     (let populated = filter (\<lambda>h. hs_total h \<noteq> 0) heaps;
          failures = filter (\<lambda>h. hs_free h < total_bytes b \<or> hs_largest_free h < mb_largest b) populated
      in if populated = [] then StFailedPrecondition else if failures = [] then StOk else StResourceExhausted)"

text \<open>A heap whose statistics cannot be read is \<open>None\<close>.\<close>

definition CheckMemoryBudget :: "bool \<Rightarrow> u32 \<Rightarrow> heap_stats option list \<Rightarrow> fabric \<Rightarrow> status" where
  "CheckMemoryBudget enabled pool_chunks heaps fb =
     (if \<not> enabled then StOk
      else if \<not> fb_prepared fb \<or> fb_stopped fb \<or> fb_pool fb = None then StFailedPrecondition
      else if None \<in> set heaps then StUnavailable
      else ValidateDpdkMemoryBudget
        (EstimateDpdkMemoryBudget (of_nat (fb_workers fb)) (of_nat (fb_queues fb)) pool_chunks (fb_netvsc fb) (fb_mlx5 fb)) (map the heaps))"

section \<open>Preparation is all or nothing\<close>

definition clean :: "fabric \<Rightarrow> bool" where
  "clean fb \<longleftrightarrow> fb_pool fb = None \<and> list_all (\<lambda>l. ln_rx l = None \<and> ln_tx l = None) (fb_lanes fb)"

lemma and_then_cases:
  assumes "and_then r f = (st, fb')"
  obtains "\<not> status_ok st" "r = (st, fb')" | fb1 where "r = (StOk, fb1)" "f fb1 = (st, fb')"
  using assms by (cases r) (auto simp: and_then_def status_ok_def split: if_splits)

lemma StopPort_facts [simp]: "clean (StopPort fb)" "fb_prepared (StopPort fb) = fb_prepared fb"
  by (simp_all add: StopPort_def clean_def list_all_iff)

definition same_but_lanes :: "fabric \<Rightarrow> fabric \<Rightarrow> bool" where
  "same_but_lanes fb fb' \<longleftrightarrow> fb'\<lparr>fb_lanes := []\<rparr> = fb\<lparr>fb_lanes := []\<rparr> \<and> length (fb_lanes fb') = length (fb_lanes fb)"

lemma same_but_lanes_trans: "same_but_lanes a b \<Longrightarrow> same_but_lanes b c \<Longrightarrow> same_but_lanes a c"
  by (simp add: same_but_lanes_def)

lemma same_but_lanes_fields:
  assumes "same_but_lanes fb fb'"
  shows "fb_workers fb' = fb_workers fb" "fb_queues fb' = fb_queues fb" "fb_prepared fb' = fb_prepared fb" "fb_pool fb' = fb_pool fb" "fb_adaptive fb' = fb_adaptive fb"
    "fb_rss_owner fb' = fb_rss_owner fb" "fb_listener_workers fb' = fb_listener_workers fb" "fb_port_owners fb' = fb_port_owners fb" "length (fb_lanes fb') = length (fb_lanes fb)"
proof -
  have e: "fb'\<lparr>fb_lanes := []\<rparr> = fb\<lparr>fb_lanes := []\<rparr>" using assms by (simp add: same_but_lanes_def)
  show "fb_workers fb' = fb_workers fb" using arg_cong [OF e, of fb_workers] by simp
  show "fb_queues fb' = fb_queues fb" using arg_cong [OF e, of fb_queues] by simp
  show "fb_prepared fb' = fb_prepared fb" using arg_cong [OF e, of fb_prepared] by simp
  show "fb_pool fb' = fb_pool fb" using arg_cong [OF e, of fb_pool] by simp
  show "fb_adaptive fb' = fb_adaptive fb" using arg_cong [OF e, of fb_adaptive] by simp
  show "fb_rss_owner fb' = fb_rss_owner fb" using arg_cong [OF e, of fb_rss_owner] by simp
  show "fb_listener_workers fb' = fb_listener_workers fb" using arg_cong [OF e, of fb_listener_workers] by simp
  show "fb_port_owners fb' = fb_port_owners fb" using arg_cong [OF e, of fb_port_owners] by simp
  show "length (fb_lanes fb') = length (fb_lanes fb)" using assms by (simp add: same_but_lanes_def)
qed

lemma prep_rings_spec:
  "prep_rings env i n fb = (st, fb') \<Longrightarrow> i + n \<le> length (fb_lanes fb) \<Longrightarrow>
   if status_ok st then same_but_lanes fb fb' \<and>
     (\<forall>j < length (fb_lanes fb). fb_lanes fb' ! j = (if i \<le> j \<and> j < i + n then (fb_lanes fb ! j)\<lparr>ln_rx := Some [], ln_tx := Some []\<rparr> else fb_lanes fb ! j))
   else clean fb' \<and> fb_prepared fb' = fb_prepared fb"
proof (induction n arbitrary: i fb)
  case 0
  then show ?case by (auto simp: same_but_lanes_def status_ok_def)
next
  case (Suc n)
  obtain rx tx where r: "pe_ring_ok env i = (rx, tx)" by fastforce
  show ?case
  proof (cases "rx \<and> tx")
    case True
    define fb1 where "fb1 = fb\<lparr>fb_lanes := (fb_lanes fb)[i := (fb_lanes fb ! i)\<lparr>ln_rx := Some [], ln_tx := Some []\<rparr>]\<rparr>"
    have s: "prep_rings env (Suc i) n fb1 = (st, fb')" using Suc.prems(1) True by (simp add: r fb1_def)
    have l: "length (fb_lanes fb1) = length (fb_lanes fb)" "same_but_lanes fb fb1" "fb_prepared fb1 = fb_prepared fb" by (simp_all add: fb1_def same_but_lanes_def)
    note IH = Suc.IH [OF s]
    show ?thesis
    proof (cases "status_ok st")
      case True
      have I: "same_but_lanes fb1 fb'" "\<And>j. j < length (fb_lanes fb) \<Longrightarrow> fb_lanes fb' ! j =
          (if Suc i \<le> j \<and> j < Suc i + n then (fb_lanes fb1 ! j)\<lparr>ln_rx := Some [], ln_tx := Some []\<rparr> else fb_lanes fb1 ! j)"
        using IH Suc.prems(2) True l by auto
      have "fb_lanes fb' ! j = (if i \<le> j \<and> j < i + Suc n then (fb_lanes fb ! j)\<lparr>ln_rx := Some [], ln_tx := Some []\<rparr> else fb_lanes fb ! j)"
        if "j < length (fb_lanes fb)" for j
        using I(2) [OF that] that by (cases "j = i") (auto simp: fb1_def nth_list_update)
      then show ?thesis using True same_but_lanes_trans [OF l(2) I(1)] by simp
    next
      case False
      then show ?thesis using IH Suc.prems(2) l by simp
    qed
  next
    case False
    then show ?thesis using Suc.prems(1) by (auto simp: r status_ok_def Let_def split: if_splits)
  qed
qed

lemma prep_intr_spec:
  "prep_intr env q n fb = (st, fb') \<Longrightarrow> q + n \<le> length (fb_lanes fb) \<Longrightarrow>
   if status_ok st then same_but_lanes fb fb' \<and>
     (\<forall>j < length (fb_lanes fb). ln_rx (fb_lanes fb' ! j) = ln_rx (fb_lanes fb ! j) \<and> ln_tx (fb_lanes fb' ! j) = ln_tx (fb_lanes fb ! j) \<and>
        (q \<le> j \<and> j < q + n \<longrightarrow> 0 \<le> ln_rx_notification_fd (fb_lanes fb' ! j)) \<and>
        (\<not> (q \<le> j \<and> j < q + n) \<longrightarrow> ln_rx_notification_fd (fb_lanes fb' ! j) = ln_rx_notification_fd (fb_lanes fb ! j)))
   else clean fb' \<and> fb_prepared fb' = fb_prepared fb"
proof (induction n arbitrary: q fb)
  case 0
  then show ?case by (auto simp: same_but_lanes_def status_ok_def)
next
  case (Suc n)
  define rc where "rc = (if pe_intr_fd env q < 0 then - 95 else if fb_tap fb then 0
     else let e = pe_intr_enable env q in if e = 0 then DisableRxInterrupt env q fb else e)"
  show ?case
  proof (cases "rc = 0")
    case True
    have fd: "0 \<le> pe_intr_fd env q" using True by (auto simp: rc_def split: if_splits)
    define fb1 where "fb1 = fb\<lparr>fb_lanes := (fb_lanes fb)[q := (fb_lanes fb ! q)\<lparr>ln_rx_notification_fd := pe_intr_fd env q\<rparr>]\<rparr>"
    have s: "prep_intr env (Suc q) n fb1 = (st, fb')" using Suc.prems(1) True unfolding prep_intr.simps Let_def [of "pe_intr_fd env q"] rc_def [symmetric] by (simp add: fb1_def)
    have l: "length (fb_lanes fb1) = length (fb_lanes fb)" "same_but_lanes fb fb1" "fb_prepared fb1 = fb_prepared fb" by (simp_all add: fb1_def same_but_lanes_def)
    have n1: "fb_lanes fb1 ! j = (if j = q then (fb_lanes fb ! q)\<lparr>ln_rx_notification_fd := pe_intr_fd env q\<rparr> else fb_lanes fb ! j)" for j
      using Suc.prems(2) by (simp add: fb1_def nth_list_update)
    note IH = Suc.IH [OF s, unfolded l(1,3)]
    show ?thesis
    proof (cases "status_ok st")
      case True
      have I: "same_but_lanes fb1 fb'" "\<And>j. j < length (fb_lanes fb) \<Longrightarrow> ln_rx (fb_lanes fb' ! j) = ln_rx (fb_lanes fb1 ! j) \<and> ln_tx (fb_lanes fb' ! j) = ln_tx (fb_lanes fb1 ! j) \<and>
          (Suc q \<le> j \<and> j < Suc q + n \<longrightarrow> 0 \<le> ln_rx_notification_fd (fb_lanes fb' ! j)) \<and>
          (\<not> (Suc q \<le> j \<and> j < Suc q + n) \<longrightarrow> ln_rx_notification_fd (fb_lanes fb' ! j) = ln_rx_notification_fd (fb_lanes fb1 ! j))"
        using IH Suc.prems(2) True by auto
      have "ln_rx (fb_lanes fb' ! j) = ln_rx (fb_lanes fb ! j) \<and> ln_tx (fb_lanes fb' ! j) = ln_tx (fb_lanes fb ! j) \<and>
        (q \<le> j \<and> j < q + Suc n \<longrightarrow> 0 \<le> ln_rx_notification_fd (fb_lanes fb' ! j)) \<and>
        (\<not> (q \<le> j \<and> j < q + Suc n) \<longrightarrow> ln_rx_notification_fd (fb_lanes fb' ! j) = ln_rx_notification_fd (fb_lanes fb ! j))"
        if "j < length (fb_lanes fb)" for j
        using I(2) [OF that] fd by (cases "j = q") (auto simp: n1)
      then show ?thesis using True same_but_lanes_trans [OF l(2) I(1)] by simp
    next
      case False
      then show ?thesis using IH Suc.prems(2) by simp
    qed
  next
    case False
    then have "st = StFailedPrecondition" "fb' = StopPort fb" using Suc.prems(1) unfolding prep_intr.simps Let_def [of "pe_intr_fd env q"] rc_def [symmetric] by simp_all
    then show ?thesis by (simp add: status_ok_def)
  qed
qed

lemma prep_admit_spec:
  "prep_admit m env W fb = (st, fb') \<Longrightarrow>
   if status_ok st then fb' = fb\<lparr>fb_workers := W\<rparr> \<and> 0 < W \<and> W \<le> m \<and> \<not> fb_prepared fb \<and> list_all (\<lambda>(p, ids). list_all (\<lambda>i. i < W) ids) (fb_listener_workers fb)
   else fb' = fb"
  by (auto simp: prep_admit_def status_ok_def list_all_iff list_ex_iff case_prod_unfold not_le split: if_splits)

lemma prep_options_spec:
  "prep_options env fb = (st, fb') \<Longrightarrow> fb_lanes fb' = fb_lanes fb \<and> fb_pool fb' = fb_pool fb \<and> fb_prepared fb' = fb_prepared fb \<and> fb_workers fb' = fb_workers fb \<and>
     fb_listener_workers fb' = fb_listener_workers fb \<and> fb_port_owners fb' = fb_port_owners fb"
  by (auto simp: prep_options_def Let_def split: if_splits option.splits)

lemma prep_device_spec:
  "prep_device env W fb = (st, fb') \<Longrightarrow> fb_lanes fb' = fb_lanes fb \<and> fb_pool fb' = fb_pool fb \<and> fb_prepared fb' = fb_prepared fb \<and> fb_workers fb' = fb_workers fb \<and>
     fb_listener_workers fb' = fb_listener_workers fb \<and> fb_port_owners fb' = fb_port_owners fb \<and>
     (status_ok st \<longrightarrow> 0 < fb_queues fb' \<and> fb_queues fb' \<le> W \<and> (fb_rss_owner fb' \<longrightarrow> fb_queues fb' = W))"
  by (auto simp: prep_device_def requested_queues_def Let_def status_ok_def split: if_splits option.splits prod.splits)

lemma prep_pool_spec:
  "prep_pool env W fb = (st, fb') \<Longrightarrow>
   if status_ok st then fb' = fb\<lparr>fb_pool := Some (pool_packets env W (fb_queues fb))\<rparr> else clean fb' \<and> fb_prepared fb' = fb_prepared fb"
  by (auto simp: prep_pool_def and_then_def stop_unless_def status_ok_def split: if_splits)

lemma prep_start_spec:
  "prep_start env fb = (st, fb') \<Longrightarrow> if status_ok st then fb' = fb else clean fb' \<and> fb_prepared fb' = fb_prepared fb"
  by (auto simp: prep_start_def and_then_def stop_unless_def status_ok_def Let_def split: if_splits)

lemma pool_large_enough:
  assumes "W \<le> 2 ^ 13" "Q \<le> W" "pe_rx_desc env < 2 ^ 16" "pe_tx_desc env < 2 ^ 16"
  shows "Q * (pe_rx_desc env + pe_tx_desc env) + W * (kCacheSize + kBurst) + kBurst \<le> pool_packets env W Q"
proof -
  define n where "n = Q * (pe_rx_desc env + pe_tx_desc env) + W * (kCacheSize + kBurst) + kBurst"
  have "Q * (pe_rx_desc env + pe_tx_desc env) \<le> 2 ^ 13 * (2 ^ 16 + 2 ^ 16)" using assms by (intro mult_le_mono) simp_all
  moreover have "W * (kCacheSize + kBurst) \<le> 2 ^ 13 * 288" using assms(1) by (intro mult_le_mono) (simp_all add: kCacheSize_def kBurst_def)
  ultimately have "n < 2 ^ 32" by (simp add: n_def kBurst_def)
  then have "needed_packets env W Q = n" by (simp add: needed_packets_def n_def)
  then show ?thesis using bit_ceil_ge [of "n + 1"] unfolding pool_packets_def n_def [symmetric] by simp
qed

text \<open>What a prepared network offers to the workers.\<close>

definition ready_network :: "prep_env \<Rightarrow> nat \<Rightarrow> fabric \<Rightarrow> fabric \<Rightarrow> bool" where
  "ready_network env W fb fb' \<longleftrightarrow> fb_prepared fb' \<and> fb_workers fb' = W \<and> 0 < fb_queues fb' \<and> fb_queues fb' \<le> W \<and> (fb_rss_owner fb' \<longrightarrow> fb_queues fb' = W) \<and>
     fb_listener_workers fb' = fb_listener_workers fb \<and> list_all (\<lambda>(p, ids). list_all (\<lambda>i. i < W) ids) (fb_listener_workers fb') \<and>
     fb_port_owners fb' = fb_port_owners fb \<and> W \<le> length (fb_lanes fb') \<and> fb_pool fb' = Some (pool_packets env W (fb_queues fb')) \<and>
     (\<forall>i < W. ln_rx (fb_lanes fb' ! i) = Some [] \<and> ln_tx (fb_lanes fb' ! i) = Some []) \<and>
     (fb_adaptive fb' \<longrightarrow> (\<forall>q < fb_queues fb'. 0 \<le> ln_rx_notification_fd (fb_lanes fb' ! q)))"

text \<open>A failed step leaves nothing behind.\<close>

definition late :: "nat \<Rightarrow> nat \<Rightarrow> status \<times> fabric \<Rightarrow> bool" where
  "late m W r \<longleftrightarrow> \<not> fb_prepared (snd r) \<and> (if status_ok (fst r) then length (fb_lanes (snd r)) = m \<and> fb_queues (snd r) \<le> W \<and> W \<le> m else clean (snd r))"

lemma late_then: "late m W r \<Longrightarrow> (\<And>fb1. late m W (StOk, fb1) \<Longrightarrow> late m W (f fb1)) \<Longrightarrow> late m W (and_then r f)"
  by (cases r) (auto simp: and_then_def late_def status_ok_def)

definition prep_notifications :: "prep_env \<Rightarrow> fabric \<Rightarrow> status \<times> fabric" where
  "prep_notifications env fb = (if fb_adaptive fb then prep_intr env 0 (fb_queues fb) fb else (StOk, fb))"

definition prep_base :: "nat \<Rightarrow> prep_env \<Rightarrow> nat \<Rightarrow> fabric \<Rightarrow> status \<times> fabric" where
  "prep_base m env W fb = and_then (and_then (prep_admit m env W fb) (prep_options env)) (prep_device env W)"

lemma PrepareRuntime_alt:
  "PrepareRuntime m env W fb = and_then (and_then (and_then (and_then (and_then (prep_base m env W fb) (prep_pool env W)) (prep_rings env 0 W)) (prep_start env))
     (prep_notifications env)) (\<lambda>fb1. (StOk, fb1\<lparr>fb_prepared := True\<rparr>))"
  by (simp add: PrepareRuntime_def prep_base_def prep_notifications_def [abs_def])

lemma prep_base_spec:
  assumes "prep_base m env W fb = (st, fb3)"
  shows "fb_lanes fb3 = fb_lanes fb \<and> fb_pool fb3 = fb_pool fb \<and> fb_prepared fb3 = fb_prepared fb \<and>
    (status_ok st \<longrightarrow> fb_workers fb3 = W \<and> 0 < fb_queues fb3 \<and> fb_queues fb3 \<le> W \<and> (fb_rss_owner fb3 \<longrightarrow> fb_queues fb3 = W) \<and> 0 < W \<and> W \<le> m \<and>
      fb_listener_workers fb3 = fb_listener_workers fb \<and> fb_port_owners fb3 = fb_port_owners fb \<and>
      list_all (\<lambda>(p, ids). list_all (\<lambda>i. i < W) ids) (fb_listener_workers fb))"
  using assms unfolding prep_base_def
proof (cases rule: and_then_cases)
  case 1
  from 1(2) show ?thesis
  proof (cases rule: and_then_cases)
    case a: 1
    then show ?thesis using 1(1) prep_admit_spec [OF a(2)] by simp
  next
    case (2 fb1)
    then show ?thesis using 1(1) prep_admit_spec [OF 2(1)] prep_options_spec [OF 2(2)] by (simp add: status_ok_def)
  qed
next
  case (2 fb2)
  from 2(1) obtain fb1 where o: "prep_admit m env W fb = (StOk, fb1)" "prep_options env fb1 = (StOk, fb2)"
    by (cases rule: and_then_cases) (auto simp: status_ok_def)
  show ?thesis using prep_admit_spec [OF o(1)] prep_options_spec [OF o(2)] prep_device_spec [OF 2(2)] by (simp add: status_ok_def)
qed

lemma late_stages:
  assumes "\<not> fb_prepared fb" "clean fb" "length (fb_lanes fb) = m"
  shows "late m W (prep_base m env W fb)" "late m W (StOk, x) \<Longrightarrow> late m W (prep_pool env W x)" "late m W (StOk, x) \<Longrightarrow> late m W (prep_rings env 0 W x)"
    "late m W (StOk, x) \<Longrightarrow> late m W (prep_start env x)" "late m W (StOk, x) \<Longrightarrow> late m W (prep_notifications env x)"
proof -
  show "late m W (prep_base m env W fb)" using prep_base_spec [of m env W fb] assms by (cases "prep_base m env W fb") (auto simp: late_def clean_def)
  show "late m W (StOk, x) \<Longrightarrow> late m W (prep_pool env W x)" using prep_pool_spec [of env W x] by (cases "prep_pool env W x") (auto simp: late_def status_ok_def split: if_splits)
  show "late m W (StOk, x) \<Longrightarrow> late m W (prep_rings env 0 W x)"
    using prep_rings_spec [of env 0 W x] by (cases "prep_rings env 0 W x") (auto simp: late_def status_ok_def same_but_lanes_fields split: if_splits)
  show "late m W (StOk, x) \<Longrightarrow> late m W (prep_start env x)" using prep_start_spec [of env x] by (cases "prep_start env x") (auto simp: late_def status_ok_def split: if_splits)
  show "late m W (StOk, x) \<Longrightarrow> late m W (prep_notifications env x)"
    using prep_intr_spec [of env 0 "fb_queues x" x] by (cases "prep_intr env 0 (fb_queues x) x") (auto simp: prep_notifications_def late_def status_ok_def same_but_lanes_fields split: if_splits)
qed

lemma notifications_spec:
  assumes "prep_notifications env fb5 = (StOk, fb7)" "fb_queues fb5 \<le> m" "length (fb_lanes fb5) = m"
  shows "same_but_lanes fb5 fb7 \<and> (\<forall>j < m. ln_rx (fb_lanes fb7 ! j) = ln_rx (fb_lanes fb5 ! j) \<and> ln_tx (fb_lanes fb7 ! j) = ln_tx (fb_lanes fb5 ! j)) \<and>
    (fb_adaptive fb7 \<longrightarrow> (\<forall>q < fb_queues fb7. 0 \<le> ln_rx_notification_fd (fb_lanes fb7 ! q)))"
proof (cases "fb_adaptive fb5")
  case True
  have I: "same_but_lanes fb5 fb7" "\<And>j. j < m \<Longrightarrow> ln_rx (fb_lanes fb7 ! j) = ln_rx (fb_lanes fb5 ! j) \<and> ln_tx (fb_lanes fb7 ! j) = ln_tx (fb_lanes fb5 ! j) \<and>
      (j < fb_queues fb5 \<longrightarrow> 0 \<le> ln_rx_notification_fd (fb_lanes fb7 ! j))"
    using prep_intr_spec [of env 0 "fb_queues fb5" fb5 StOk fb7] assms True by (auto simp: prep_notifications_def status_ok_def)
  then show ?thesis using same_but_lanes_fields(2) [OF I(1)] assms(2) by auto
qed (use assms(1) in \<open>auto simp: prep_notifications_def same_but_lanes_def\<close>)

lemma prep_success:
  assumes "PrepareRuntime m env W fb = (StOk, fb')" "length (fb_lanes fb) = m"
  shows "ready_network env W fb fb' \<and> 0 < W \<and> W \<le> m"
proof -
  have ok: "and_then r f = (StOk, y) \<Longrightarrow> \<exists>x. r = (StOk, x) \<and> f x = (StOk, y)" for r f y
    by (erule and_then_cases) (auto simp: status_ok_def)
  obtain fb3 fb4 fb5 fb6 fb7 where c: "prep_base m env W fb = (StOk, fb3)" "prep_pool env W fb3 = (StOk, fb4)" "prep_rings env 0 W fb4 = (StOk, fb5)"
    "prep_start env fb5 = (StOk, fb6)" "prep_notifications env fb6 = (StOk, fb7)" "fb' = fb7\<lparr>fb_prepared := True\<rparr>"
    using assms(1) unfolding PrepareRuntime_alt by (fastforce dest!: ok)
  note b = prep_base_spec [OF c(1)]
  have f4: "fb4 = fb3\<lparr>fb_pool := Some (pool_packets env W (fb_queues fb3))\<rparr>" using prep_pool_spec [OF c(2)] by (simp add: status_ok_def)
  have f6: "fb6 = fb5" using prep_start_spec [OF c(4)] by (simp add: status_ok_def)
  have r: "same_but_lanes fb4 fb5" "\<And>j. j < W \<Longrightarrow> ln_rx (fb_lanes fb5 ! j) = Some [] \<and> ln_tx (fb_lanes fb5 ! j) = Some []"
    using prep_rings_spec [OF c(3)] b f4 assms(2) by (auto simp: status_ok_def)
  note R = same_but_lanes_fields [OF r(1)]
  have n: "same_but_lanes fb5 fb7 \<and> (\<forall>j < m. ln_rx (fb_lanes fb7 ! j) = ln_rx (fb_lanes fb5 ! j) \<and> ln_tx (fb_lanes fb7 ! j) = ln_tx (fb_lanes fb5 ! j)) \<and>
    (fb_adaptive fb7 \<longrightarrow> (\<forall>q < fb_queues fb7. 0 \<le> ln_rx_notification_fd (fb_lanes fb7 ! q)))"
    by (rule notifications_spec [OF c(5) [unfolded f6]]) (use b R f4 assms(2) in \<open>auto simp: status_ok_def\<close>)
  note I = same_but_lanes_fields [OF conjunct1 [OF n]]
  have W: "0 < W" "W \<le> m" "\<And>j. j < W \<Longrightarrow> j < m" using b by (auto simp: status_ok_def)
  have "ready_network env W fb fb'" unfolding ready_network_def c(6) using n I R b f4 r(2) W assms(2) by (simp add: status_ok_def)
  then show ?thesis using W by blast
qed

lemma prep_failure:
  assumes "PrepareRuntime m env W fb = (st, fb')" "\<not> status_ok st" "\<not> fb_prepared fb" "clean fb" "length (fb_lanes fb) = m"
  shows "\<not> fb_prepared fb' \<and> clean fb'"
proof -
  note L = late_stages [OF assms(3-5), where W = W and env = env]
  have "late m W (and_then (and_then (and_then (and_then (prep_base m env W fb) (prep_pool env W)) (prep_rings env 0 W)) (prep_start env)) (prep_notifications env))"
    by (intro late_then L)
  moreover from assms(1) have "and_then (and_then (and_then (and_then (prep_base m env W fb) (prep_pool env W)) (prep_rings env 0 W)) (prep_start env)) (prep_notifications env) = (st, fb')"
    unfolding PrepareRuntime_alt by (rule and_then_cases) (use assms(2) in \<open>auto simp: status_ok_def\<close>)
  ultimately show ?thesis using assms(2) by (simp add: late_def)
qed

text \<open>The listeners configured before start-up.\<close>

definition configure_all :: "(nat \<times> nat list) list \<Rightarrow> fabric \<Rightarrow> fabric" where
  "configure_all calls fb = fold (\<lambda>(p, ids) fb. snd (ConfigureListenerWorkers p ids fb)) calls fb"

lemma configure_all_keeps:
  "\<not> fb_prepared fb \<and> clean fb \<and> length (fb_lanes fb) = m \<and> (\<forall>p. fb_port_owners fb p = 0) \<and> list_all (\<lambda>(p, ids). ids \<noteq> []) (fb_listener_workers fb) \<Longrightarrow>
   \<not> fb_prepared (configure_all calls fb) \<and> clean (configure_all calls fb) \<and> length (fb_lanes (configure_all calls fb)) = m \<and>
   (\<forall>p. fb_port_owners (configure_all calls fb) p = 0) \<and> list_all (\<lambda>(p, ids). ids \<noteq> []) (fb_listener_workers (configure_all calls fb))"
proof (induction calls arbitrary: fb)
  case (Cons c calls)
  obtain p ids where c: "c = (p, ids)" by fastforce
  have "\<not> fb_prepared (snd (ConfigureListenerWorkers p ids fb)) \<and> clean (snd (ConfigureListenerWorkers p ids fb)) \<and> length (fb_lanes (snd (ConfigureListenerWorkers p ids fb))) = m \<and>
     (\<forall>q. fb_port_owners (snd (ConfigureListenerWorkers p ids fb)) q = 0) \<and> list_all (\<lambda>(p, ids). ids \<noteq> []) (fb_listener_workers (snd (ConfigureListenerWorkers p ids fb)))"
    using Cons.prems by (auto simp: ConfigureListenerWorkers_def clean_def split: option.splits)
  from Cons.IH [OF this] show ?case by (simp add: configure_all_def c)
qed (simp add: configure_all_def)

text \<open>
  C29: preparing the network either yields everything the workers rely on or leaves nothing behind.
  After any listener configuration, a successful preparation gives every worker its two rings, a
  positive number of queues of at most one per worker (all of them for hardware steering),
  notification descriptors in adaptive mode, a packet pool that covers all descriptors and
  caches, and the state from which packet steering is correct; a failed one leaves no pool and
  no ring allocated and the runtime unprepared.
\<close>

theorem PrepareRuntime_all_or_nothing:
  assumes "m \<le> 2 ^ 13" "pe_rx_desc env < 2 ^ 16" "pe_tx_desc env < 2 ^ 16" "fb = configure_all calls (fabric0 m)" "PrepareRuntime m env W fb = (st, fb')"
    "map dw_id ws = [0..<W]"
  shows "if status_ok st
    then ready_network env W fb fb' \<and> prepared fb' ws \<and>
      (\<exists>n. fb_pool fb' = Some n \<and> fb_queues fb' * (pe_rx_desc env + pe_tx_desc env) + W * (kCacheSize + kBurst) + kBurst \<le> n)
    else \<not> fb_prepared fb' \<and> clean fb'"
proof -
  have c: "\<not> fb_prepared fb \<and> clean fb \<and> length (fb_lanes fb) = m \<and> (\<forall>p. fb_port_owners fb p = 0) \<and> list_all (\<lambda>(p, ids). ids \<noteq> []) (fb_listener_workers fb)"
    unfolding assms(4) by (rule configure_all_keeps) (simp add: fabric0_def clean_def new_lane_def list_all_iff)
  show ?thesis
  proof (cases "status_ok st")
    case True
    then have "PrepareRuntime m env W fb = (StOk, fb')" using assms(5) by (simp add: status_ok_def)
    from prep_success [OF this] c have r: "ready_network env W fb fb'" "0 < W" "W \<le> m" by auto
    have q: "fb_queues fb' \<le> W" "fb_pool fb' = Some (pool_packets env W (fb_queues fb'))" "fb_workers fb' = W" "fb_port_owners fb' = fb_port_owners fb"
      "fb_listener_workers fb' = fb_listener_workers fb" "list_all (\<lambda>(p, ids). list_all (\<lambda>i. i < W) ids) (fb_listener_workers fb')"
      using r(1) unfolding ready_network_def by blast+
    have "prepared fb' ws" using q c r assms(1,6) by (auto simp: prepared_def kListenerPortOwner_def list_all_iff)
    moreover have "W \<le> 2 ^ 13" using r(3) assms(1) by simp
    ultimately show ?thesis using True r(1) q(2) pool_large_enough [OF _ q(1) assms(2,3)] by simp
  next
    case False
    then show ?thesis using prep_failure [OF assms(5) False] c by simp
  qed
qed

definition plain_env :: prep_env where
  "plain_env = \<lparr>pe_max_lcore = 16, pe_bsd_max_workers = 8, pe_environment = StOk, pe_occupied = 1, pe_mode = None, pe_steering = None,
     pe_address = Some [198, 18, 0, 2], pe_netmask_ok = True, pe_gateway_ok = True, pe_ports = 1, pe_port_id = 0, pe_info_rc = 0, pe_driver = ''net_tap'',
     pe_max_rx = 1, pe_max_tx = 4, pe_rss = False, pe_queues = Some ''2'', pe_configure_rc = 0, pe_desc_rc = 0, pe_rx_desc = 512, pe_tx_desc = 512,
     pe_pool_ok = True, pe_ring_ok = \<lambda>_. (True, True), pe_queue_rc = \<lambda>_. 0, pe_mac_rc = 0, pe_mtu_rc = 0, pe_mtu = 1500, pe_set_mtu_rc = 0, pe_start_rc = 0,
     pe_intr_fd = \<lambda>_. - 1, pe_intr_enable = \<lambda>_. 0, pe_intr_disable = \<lambda>_. 0\<rparr>"

theorem PrepareRuntime_all_or_nothing_witness:
  "\<exists>fb'. PrepareRuntime 4 plain_env 2 (configure_all [(80, [1])] (fabric0 4)) = (StOk, fb') \<and> fb_queues fb' = 1 \<and> prepared fb' example_workers"
proof -
  let ?fb = "configure_all [(80, [1])] (fabric0 4)"
  obtain st fb' where p: "PrepareRuntime 4 plain_env 2 ?fb = (st, fb')" by fastforce
  have w: "map dw_id example_workers = [0..<2]" by (simp add: example_workers_def upt_rec)
  have fb: "?fb = (fabric0 4)\<lparr>fb_listener_workers := [(80, [1])]\<rparr>" by (simp add: configure_all_def ConfigureListenerWorkers_def fabric0_def placement_of_def)
  have q: "requested_queues plain_env 2 = Some 2"
    by (simp add: requested_queues_def plain_env_def strtoul10_def is_space_def is_digit_def)
  have 1: "prep_admit 4 plain_env 2 ?fb = (StOk, ?fb\<lparr>fb_workers := 2\<rparr>)" unfolding fb by (simp add: prep_admit_def plain_env_def fabric0_def status_ok_def)
  have 2: "prep_options plain_env x = (StOk, x\<lparr>fb_adaptive := False, fb_rss_owner := False, fb_address := [198, 18, 0, 2]\<rparr>)" for x
    by (simp add: prep_options_def plain_env_def)
  have 3: "fst (prep_device plain_env 2 x) = StOk \<and> fb_queues (snd (prep_device plain_env 2 x)) = 1 \<and> fb_adaptive (snd (prep_device plain_env 2 x)) = fb_adaptive x"
    if "\<not> fb_rss_owner x" for x using that unfolding prep_device_def q by (simp add: plain_env_def)
  have 4: "prep_pool plain_env 2 x = (StOk, x\<lparr>fb_pool := Some (pool_packets plain_env 2 (fb_queues x))\<rparr>)" for x
    by (simp add: prep_pool_def plain_env_def stop_unless_def and_then_def status_ok_def)
  have 5: "fst (prep_rings plain_env i n x) = StOk \<and> fb_queues (snd (prep_rings plain_env i n x)) = fb_queues x \<and> fb_adaptive (snd (prep_rings plain_env i n x)) = fb_adaptive x" for i n x
    by (induction n arbitrary: i x) (simp_all add: plain_env_def)
  have 6: "prep_start plain_env x = (StOk, x)" for x by (simp add: prep_start_def plain_env_def stop_unless_def and_then_def status_ok_def list_all_iff)
  have "fst (PrepareRuntime 4 plain_env 2 ?fb) = StOk \<and> fb_queues (snd (PrepareRuntime 4 plain_env 2 ?fb)) = 1"
    unfolding PrepareRuntime_def 1 unfolding fb by (simp add: and_then_def status_ok_def 2 3 4 5 6)
  then have st: "st = StOk" "fb_queues fb' = 1" unfolding p by simp_all
  have "prepared fb' example_workers" using PrepareRuntime_all_or_nothing [OF _ _ _ refl p w] st(1) by (simp add: plain_env_def status_ok_def)
  with p st show ?thesis by blast
qed

section \<open>The start-up barrier\<close>













section \<open>The memory budget\<close>

text \<open>The bytes the drivers may still allocate, without machine arithmetic.\<close>

definition growth_bytes :: "nat \<Rightarrow> nat \<Rightarrow> nat \<Rightarrow> bool \<Rightarrow> bool \<Rightarrow> nat" where
  "growth_bytes workers queues chunks netvsc mlx5 =
     (if netvsc then queues * 1310720 + (workers + 2) * 8192 else 0) +
     (if (mlx5 \<or> netvsc) \<and> 256 < bit_ceil (chunks + 1) then queues * (bit_ceil (chunks + 1) * 64) else 0)"

definition largest_bytes :: "nat \<Rightarrow> bool \<Rightarrow> bool \<Rightarrow> nat" where
  "largest_bytes chunks netvsc mlx5 =
     max (max (if netvsc then 655360 else 0) (if (mlx5 \<or> netvsc) \<and> 256 < bit_ceil (chunks + 1) then bit_ceil (chunks + 1) * 32 else 0)) 4096 + 4096"

lemma unat_add_small: "unat a = m \<Longrightarrow> unat b = n \<Longrightarrow> m + n < 2 ^ 64 \<Longrightarrow> unat (a + b :: u64) = m + n"
  by (simp add: unat_word_ariths)

lemma unat_mult_small: "unat a = m \<Longrightarrow> unat b = n \<Longrightarrow> m * n < 2 ^ 64 \<Longrightarrow> unat (a * b :: u64) = m * n"
  by (simp add: unat_word_ariths)

lemma unat_max: "unat (max a b) = max (unat a) (unat b)" for a b :: u64
  by (simp add: max_def word_le_nat_alt)

lemma budget_exact:
  fixes workers queues chunks :: u32 and netvsc mlx5 :: bool
  assumes "unat workers \<le> 2 ^ 13" "unat queues \<le> 2 ^ 13"
  defines "b \<equiv> EstimateDpdkMemoryBudget workers queues chunks netvsc mlx5"
    and "n \<equiv> growth_bytes (unat workers) (unat queues) (unat chunks) netvsc mlx5"
  shows "unat (total_bytes b) = n + max 2097152 ((n + 3) div 4)" "unat (mb_largest b) = largest_bytes (unat chunks) netvsc mlx5"
proof -
  define e where "e = bit_ceil (unat chunks + 1)"
  have "unat chunks < 2 ^ 32" using unsigned_less [of chunks] by simp
  then have e: "e \<le> 2 ^ 32" unfolding e_def by (intro bit_ceil_le) simp
  have ue: "unat (of_nat e :: u64) = e" using e by (simp add: unat_of_nat take_bit_nat_eq_self)
  define v where "v = (if netvsc then ucast queues * 2 * (640 * kKiB) else 0 :: u64)"
  define r where "r = (if netvsc then (ucast workers + 2) * 8 * kKiB else 0 :: u64)"
  define m where "m = (if (mlx5 \<or> netvsc) \<and> 256 < (of_nat e :: u64) then ucast queues * 2 * (of_nat e * 32) else 0 :: u64)"
  define l where "l = (if (mlx5 \<or> netvsc) \<and> 256 < (of_nat e :: u64) then of_nat e * 32 else 0 :: u64)"
  define l0 where "l0 = (if netvsc then 640 * kKiB else 0 :: u64)"
  have b: "b = \<lparr>mb_vmbus = v, mb_rndis = r, mb_mlx5_cache = m, mb_margin = max (2 * kMiB) ((v + r + m + 0 + 3) div 4), mb_largest = max (max l0 l) (4 * kKiB) + 4 * kKiB\<rparr>"
    unfolding b_def EstimateDpdkMemoryBudget_def Let_def e_def [symmetric] v_def r_def m_def l_def l0_def
    by (cases netvsc; cases mlx5; simp add: total_bytes_def)
  have uq: "unat (ucast queues :: u64) = unat queues" and uw: "unat (ucast workers :: u64) = unat workers"
    by (rule unat_ucast_u32)+
  have uq2: "unat (ucast queues * 2 :: u64) = unat queues * 2" using assms(2) by (intro unat_mult_small uq) simp_all
  have "unat (ucast queues * 2 * (640 * kKiB) :: u64) = unat queues * 2 * 655360"
    using assms(2) by (intro unat_mult_small uq2) (simp_all add: kKiB_def)
  then have uv: "unat v = (if netvsc then unat queues * 1310720 else 0)" by (simp add: v_def)
  have uw2: "unat (ucast workers + 2 :: u64) = unat workers + 2" using assms(1) by (intro unat_add_small uw) simp_all
  have uw8: "unat ((ucast workers + 2) * 8 :: u64) = (unat workers + 2) * 8" using assms(1) by (intro unat_mult_small uw2) simp_all
  have "unat ((ucast workers + 2) * 8 * kKiB :: u64) = (unat workers + 2) * 8 * 1024"
    using assms(1) by (intro unat_mult_small uw8) (simp_all add: kKiB_def)
  then have ur: "unat r = (if netvsc then (unat workers + 2) * 8192 else 0)" by (simp add: r_def)
  have ui: "unat (of_nat e * 32 :: u64) = e * 32" using e by (intro unat_mult_small ue) simp_all
  have qe: "unat queues * (e * 64) \<le> 2 ^ 51"
    using mult_le_mono [OF assms(2), of "e * 64" "2 ^ 38"] e by simp
  have "unat (ucast queues * 2 * (of_nat e * 32) :: u64) = unat queues * 2 * (e * 32)"
    using qe by (intro unat_mult_small uq2 ui) simp
  moreover have g: "256 < (of_nat e :: u64) \<longleftrightarrow> 256 < e" by (simp add: word_less_nat_alt ue)
  ultimately have um: "unat m = (if (mlx5 \<or> netvsc) \<and> 256 < e then unat queues * (e * 64) else 0)" by (simp add: m_def algebra_simps)
  have small: "unat v \<le> 2 ^ 34" "unat r \<le> 2 ^ 27" "unat m \<le> 2 ^ 51" using assms(1,2) qe by (simp_all add: uv ur um)
  have n: "unat v + unat r + unat m = n" by (simp add: n_def growth_bytes_def uv ur um e_def)
  have n52: "n \<le> 2 ^ 52" using small unfolding n [symmetric] by simp
  have s3: "unat (v + r + m) = n" unfolding n [symmetric] using small by (intro unat_add_small refl) simp_all
  have s4: "unat (v + r + m + 0 + 3) = n + 3" using n52 s3 by (subst unat_add_small [of _ n _ 3]) simp_all
  have s5: "unat (max (2 * kMiB) ((v + r + m + 0 + 3) div 4)) = max 2097152 ((n + 3) div 4)"
    using s4 by (simp add: unat_max unat_div kMiB_def kKiB_def)
  show "unat (total_bytes b) = n + max 2097152 ((n + 3) div 4)"
    unfolding b total_bytes_def using n52 by (simp only: budget.simps) (intro unat_add_small s3 s5, simp)
  have "unat (max (max l0 l) (4 * kKiB)) = largest_bytes (unat chunks) netvsc mlx5 - 4096"
    unfolding largest_bytes_def e_def [symmetric] using ui g by (simp add: unat_max l0_def l_def kKiB_def)
  then have "unat (max (max l0 l) (4 * kKiB) + 4 * kKiB) = largest_bytes (unat chunks) netvsc mlx5 - 4096 + 4096"
    unfolding largest_bytes_def e_def [symmetric] using e by (intro unat_add_small) (auto simp: kKiB_def)
  then show "unat (mb_largest b) = largest_bytes (unat chunks) netvsc mlx5" by (simp add: b largest_bytes_def)
qed

text \<open>
  C36: an accepted memory budget is really covered. When the check passes, for at most 8192 workers
  and queues there is a populated heap, and every populated heap has free all the bytes the drivers
  may still allocate, computed without wrap-around, plus a margin of 2 MiB and at least a quarter
  of them, and one free block that holds the largest single allocation with 4 KiB to spare. When it
  fails with \<open>ResourceExhausted\<close>, some populated heap is really short.
\<close>

theorem memory_budget_covers_growth:
  assumes "unat workers \<le> 2 ^ 13" "unat queues \<le> 2 ^ 13"
    "ValidateDpdkMemoryBudget (EstimateDpdkMemoryBudget workers queues chunks netvsc mlx5) heaps = st"
    "need = growth_bytes (unat workers) (unat queues) (unat chunks) netvsc mlx5"
  shows "(st = StOk \<longrightarrow> (\<exists>h \<in> set heaps. hs_total h \<noteq> 0) \<and>
       (\<forall>h \<in> set heaps. hs_total h \<noteq> 0 \<longrightarrow> need + max 2097152 ((need + 3) div 4) \<le> unat (hs_free h) \<and>
          largest_bytes (unat chunks) netvsc mlx5 \<le> unat (hs_largest_free h))) \<and>
    (st = StResourceExhausted \<longrightarrow> (\<exists>h \<in> set heaps. hs_total h \<noteq> 0 \<and>
       (unat (hs_free h) < need + max 2097152 ((need + 3) div 4) \<or> unat (hs_largest_free h) < largest_bytes (unat chunks) netvsc mlx5)))"
proof -
  note b = budget_exact [OF assms(1,2), of chunks netvsc mlx5]
  let ?b = "EstimateDpdkMemoryBudget workers queues chunks netvsc mlx5"
  have bad: "hs_free h < total_bytes ?b \<or> hs_largest_free h < mb_largest ?b \<longleftrightarrow>
      unat (hs_free h) < need + max 2097152 ((need + 3) div 4) \<or> unat (hs_largest_free h) < largest_bytes (unat chunks) netvsc mlx5" for h
    by (simp add: word_less_nat_alt b assms(4))
  show ?thesis using assms(3) unfolding ValidateDpdkMemoryBudget_def Let_def bad
    by (auto simp: filter_empty_conv not_less split: if_splits)
qed

theorem memory_budget_covers_growth_witness:
  "ValidateDpdkMemoryBudget (EstimateDpdkMemoryBudget 4 4 1000 True False) [\<lparr>hs_total = 0x4000000, hs_free = 0x1000000, hs_largest_free = 0x800000\<rparr>] = StOk \<and>
   growth_bytes 4 4 1000 True False + 2097152 \<le> 0x1000000"
proof -
  have c: "bit_ceil 1001 = 1024" by (simp add: bit_ceil_def bit_width.simps)
  have v: "ValidateDpdkMemoryBudget (EstimateDpdkMemoryBudget 4 4 1000 True False) [\<lparr>hs_total = 0x4000000, hs_free = 0x1000000, hs_largest_free = 0x800000\<rparr>] = StOk"
    by (simp add: ValidateDpdkMemoryBudget_def EstimateDpdkMemoryBudget_def Let_def c total_bytes_def kKiB_def kMiB_def)
  show ?thesis using memory_budget_covers_growth [OF _ _ v refl] v by (simp add: max_def split: if_splits)
qed

end
