(* ===== verification/Dpdk_Wait.thy ===== *)
theory Dpdk_Wait
  imports Dpdk_Packets
begin

text \<open>
  The adaptive wait of the DPDK backend (\<open>Wait\<close>, \<open>Poll\<close> and \<open>Notification\<close> in
  src/src/io/dpdk_backend.cpp). Before a worker blocks it publishes that it is parked, enables the
  interrupt of its receive queue, arms the poll of the notification descriptor and looks at its
  packets and rings once more; other workers push into its rings and then clear the parked flag,
  sending a message to its io_uring when it was set. Here every access that another worker can see
  is a step of its own, under sequentially consistent memory, and the theorems show that no packet
  is left behind by a blocked worker.
\<close>

section \<open>The wait\<close>

text \<open>
  Where the worker is. The flag of the three polling points is the progress seen so far, the number
  of \<open>WBlocked\<close> the timeout, the flag of \<open>WLeave\<close> and \<open>WUnparked\<close> the local \<open>ok\<close>, and that of
  \<open>WRun\<close> the value the last call returned.
\<close>

datatype wait_pc =
    WRun "bool option" | WParked | WEnabled | WArmed
  | WKernel bool | WPackets bool | WPolled bool
  | WRxEmpty | WTxEmpty | WIdle | WBlocked int
  | WLeave bool | WUnparked bool

text \<open>
  Rings and completions by their length; \<open>ws_pushing\<close> counts workers between the ring and the
  parked flag in \<open>Enqueue\<close>, \<open>ws_sent\<close> and \<open>ws_kicks\<close> the messages queued by them and arrived.
\<close>

record wait_state =
  ws_pc :: wait_pc
  ws_parked :: bool
  ws_enabled :: bool
  ws_armed :: bool
  ws_rx_can_wait :: bool
  ws_rx :: nat
  ws_tx :: nat
  ws_completions :: nat
  ws_pushing :: nat
  ws_sent :: nat
  ws_kicks :: nat
  ws_arms :: u64
  ws_waits :: u64
  ws_notifications :: u64

text \<open>What does not change after start-up: whether the worker owns a receive queue, and the driver.\<close>

record wait_conf =
  wc_adaptive :: bool
  wc_all_ready :: bool
  wc_queue :: bool
  wc_tap :: bool
  wc_mlx5 :: bool

text \<open>The completion of the notification poll; \<open>stop\<close>: the worker was asked to stop.\<close>

definition Notification_Complete :: "int \<Rightarrow> bool \<Rightarrow> wait_state \<Rightarrow> wait_state" where
  "Notification_Complete result stop s0 =
     (let s = s0\<lparr>ws_armed := False\<rparr> in
      if result < 0 then (if result = - ECANCELED \<and> stop then s else s\<lparr>ws_rx_can_wait := False\<rparr>)
      else s\<lparr>ws_notifications := ws_notifications s + 1\<rparr>)"

definition notify :: "(int \<times> bool) option \<Rightarrow> wait_state \<Rightarrow> wait_state" where
  "notify notified s = (case notified of None \<Rightarrow> s | Some (result, stop) \<Rightarrow> Notification_Complete result stop s)"

text \<open>The answer of \<open>Wait\<close> when it returns before parking.\<close>

definition wait_gate :: "wait_conf \<Rightarrow> wait_state \<Rightarrow> bool option" where
  "wait_gate c s =
     (if \<not> wc_adaptive c \<or> \<not> wc_all_ready c then Some True
      else if \<not> ws_rx_can_wait s then Some False else None)"

text \<open>The timeout passed to the kernel, given the stack's next deadline, in nanoseconds.\<close>

definition wait_timeout :: "u64 \<Rightarrow> u64 \<Rightarrow> int \<Rightarrow> int" where
  "wait_timeout now deadline timeout_ms =
     (if deadline = - 1 then timeout_ms
      else let delay = (if deadline \<le> now then 0 else min ((deadline - now) div 1000000) 2147483647) in
        if timeout_ms < 0 then uint delay else min timeout_ms (uint delay))"

text \<open>Parking and arming; \<open>rc\<close> is the driver's answer, \<open>armed\<close> that of \<open>SubmitPoll\<close>.\<close>

definition wait_enable :: "wait_conf \<Rightarrow> int \<Rightarrow> wait_state \<Rightarrow> wait_state" where
  "wait_enable c rc s =
     (if \<not> wc_queue c then s\<lparr>ws_pc := WArmed\<rparr>
      else if \<not> wc_tap c \<and> rc \<noteq> 0 then s\<lparr>ws_parked := False, ws_pc := WRun (Some False)\<rparr>
      else s\<lparr>ws_enabled := \<not> wc_tap c, ws_arms := ws_arms s + 1, ws_pc := WEnabled\<rparr>)"

definition wait_arm :: "status \<Rightarrow> wait_state \<Rightarrow> wait_state" where
  "wait_arm submitted s =
     (if ws_armed s then s\<lparr>ws_pc := WArmed\<rparr>
      else if \<not> status_ok submitted then s\<lparr>ws_parked := False, ws_enabled := False, ws_pc := WRun (Some False)\<rparr>
      else s\<lparr>ws_armed := True, ws_pc := WArmed\<rparr>)"

text \<open>The kernel part of the recheck reaps \<open>n\<close> messages and possibly the notification.\<close>

definition wait_kernel_poll :: "nat \<Rightarrow> (int \<times> bool) option \<Rightarrow> bool \<Rightarrow> wait_state \<Rightarrow> wait_state" where
  "wait_kernel_poll n notified other s =
     (let s1 = s\<lparr>ws_kicks := ws_kicks s - n, ws_pc := WKernel (0 < n \<or> notified \<noteq> None \<or> other)\<rparr>
      in notify notified s1)"

text \<open>The kernel wait returns after reaping messages and possibly the notification.\<close>

definition wait_woken :: "nat \<Rightarrow> (int \<times> bool) option \<Rightarrow> bool \<Rightarrow> wait_state \<Rightarrow> wait_state" where
  "wait_woken n notified ok s = notify notified (s\<lparr>ws_kicks := ws_kicks s - n, ws_pc := WLeave ok\<rparr>)"

text \<open>The checks of the two rings and of the completions, and the submission that follows.\<close>

definition wait_check_rx :: "wait_state \<Rightarrow> wait_state" where
  "wait_check_rx s = (case ws_pc s of WPolled worked \<Rightarrow>
     s\<lparr>ws_pc := if worked \<or> ws_rx s \<noteq> 0 then WLeave True else WRxEmpty\<rparr> | _ \<Rightarrow> s)"

definition wait_check_tx :: "wait_state \<Rightarrow> wait_state" where
  "wait_check_tx s = s\<lparr>ws_pc := if ws_tx s \<noteq> 0 then WLeave True else WTxEmpty\<rparr>"

definition wait_check_completions :: "wait_state \<Rightarrow> wait_state" where
  "wait_check_completions s = s\<lparr>ws_pc := if ws_completions s \<noteq> 0 then WLeave True else WIdle\<rparr>"

definition wait_submit :: "status \<Rightarrow> u64 \<Rightarrow> u64 \<Rightarrow> int \<Rightarrow> wait_state \<Rightarrow> wait_state" where
  "wait_submit submitted now deadline timeout_ms s =
     (if \<not> status_ok submitted then s\<lparr>ws_pc := WLeave (submitted = StUnavailable)\<rparr>
      else let t = wait_timeout now deadline timeout_ms in
        if t \<noteq> 0 then s\<lparr>ws_waits := ws_waits s + 1, ws_pc := WBlocked t\<rparr> else s\<lparr>ws_pc := WLeave True\<rparr>)"

text \<open>The last step, with the answer of the interrupt being disabled.\<close>

definition wait_finish :: "wait_conf \<Rightarrow> int \<Rightarrow> bool \<Rightarrow> wait_state \<Rightarrow> wait_state" where
  "wait_finish c rc ok s =
     (let failed = (ws_enabled s \<and> rc \<noteq> 0 \<and> \<not> (wc_mlx5 c \<and> rc = - EAGAIN))
      in s\<lparr>ws_enabled := False, ws_pc := WRun (Some (\<not> failed \<and> ok \<and> ws_rx_can_wait s))\<rparr>)"

text \<open>The other side: \<open>Enqueue\<close> into a ring, then \<open>Wake\<close>.\<close>

definition remote_push :: "ring_kind \<Rightarrow> wait_state \<Rightarrow> wait_state" where
  "remote_push k s = (case k of RxRing \<Rightarrow> s\<lparr>ws_rx := ws_rx s + 1, ws_pushing := ws_pushing s + 1\<rparr>
     | TxRing \<Rightarrow> s\<lparr>ws_tx := ws_tx s + 1, ws_pushing := ws_pushing s + 1\<rparr>)"

definition remote_wake :: "wait_state \<Rightarrow> wait_state" where
  "remote_wake s0 =
     (let s = s0\<lparr>ws_pushing := ws_pushing s0 - 1\<rparr> in
      if ws_parked s then s\<lparr>ws_parked := False, ws_sent := ws_sent s + 1\<rparr> else s)"

text \<open>
  The steps. Outside \<open>Wait\<close> the worker runs its rounds: rings, completions, reaped messages and
  the notification change as they may. \<open>Packets\<close> and \<open>SocketCompletions\<close> leave any rings and
  completions behind. A blocked worker may return at
  any time, for a message, the notification, its timeout or another event of its ring.
\<close>

inductive wait_step :: "wait_conf \<Rightarrow> wait_state \<Rightarrow> wait_state \<Rightarrow> bool" for c where
  ws_round: "ws_pc s = WRun r \<Longrightarrow> n \<le> ws_kicks s \<Longrightarrow>
    wait_step c s (s\<lparr>ws_rx := rx, ws_tx := tx, ws_completions := q, ws_kicks := ws_kicks s - n\<rparr>)"
| ws_notified: "ws_pc s = WRun r \<Longrightarrow> ws_armed s \<Longrightarrow> wait_step c s (Notification_Complete result stop s)"
| ws_return: "ws_pc s = WRun r \<Longrightarrow> wait_gate c s = Some b \<Longrightarrow> wait_step c s (s\<lparr>ws_pc := WRun (Some b)\<rparr>)"
| ws_park: "ws_pc s = WRun r \<Longrightarrow> wait_gate c s = None \<Longrightarrow> wait_step c s (s\<lparr>ws_parked := True, ws_pc := WParked\<rparr>)"
| ws_enable: "ws_pc s = WParked \<Longrightarrow> wait_step c s (wait_enable c rc s)"
| ws_arm: "ws_pc s = WEnabled \<Longrightarrow> wait_step c s (wait_arm submitted s)"
| ws_kernel: "ws_pc s = WArmed \<Longrightarrow> n \<le> ws_kicks s \<Longrightarrow> (notified \<noteq> None \<longrightarrow> ws_armed s) \<Longrightarrow> wait_step c s (wait_kernel_poll n notified other s)"
| ws_packets: "ws_pc s = WKernel p \<Longrightarrow> wait_step c s (s\<lparr>ws_rx := rx, ws_tx := tx, ws_pc := WPackets (p \<or> worked)\<rparr>)"
| ws_sockets: "ws_pc s = WPackets p \<Longrightarrow> wait_step c s (s\<lparr>ws_rx := ws_rx s + rx, ws_tx := ws_tx s + tx, ws_completions := q, ws_pc := WPolled (p \<or> worked)\<rparr>)"
| ws_check_rx: "ws_pc s = WPolled p \<Longrightarrow> wait_step c s (wait_check_rx s)"
| ws_check_tx: "ws_pc s = WRxEmpty \<Longrightarrow> wait_step c s (wait_check_tx s)"
| ws_check_completions: "ws_pc s = WTxEmpty \<Longrightarrow> wait_step c s (wait_check_completions s)"
| ws_submit: "ws_pc s = WIdle \<Longrightarrow> wait_step c s (wait_submit submitted now deadline timeout_ms s)"
| ws_woken: "ws_pc s = WBlocked t \<Longrightarrow> n \<le> ws_kicks s \<Longrightarrow> (notified \<noteq> None \<longrightarrow> ws_armed s) \<Longrightarrow>
    wait_step c s (wait_woken n notified ok s)"
| ws_unpark: "ws_pc s = WLeave ok \<Longrightarrow> wait_step c s (s\<lparr>ws_parked := False, ws_pc := WUnparked ok\<rparr>)"
| ws_finish: "ws_pc s = WUnparked ok \<Longrightarrow> wait_step c s (wait_finish c rc ok s)"
| ws_push: "wait_step c s (remote_push k s)"
| ws_wake: "0 < ws_pushing s \<Longrightarrow> wait_step c s (remote_wake s)"
| ws_deliver: "0 < ws_sent s \<Longrightarrow> wait_step c s (s\<lparr>ws_sent := ws_sent s - 1, ws_kicks := ws_kicks s + 1\<rparr>)"

section \<open>No lost wake-ups\<close>

text \<open>Between parking and blocking, with nothing done since.\<close>

fun going_to_block :: "wait_pc \<Rightarrow> bool" where
  "going_to_block WParked = True" | "going_to_block WEnabled = True" | "going_to_block WArmed = True"
| "going_to_block (WKernel p) = (\<not> p)" | "going_to_block (WPackets p) = (\<not> p)" | "going_to_block (WPolled p) = (\<not> p)"
| "going_to_block WRxEmpty = True" | "going_to_block WTxEmpty = True" | "going_to_block WIdle = True" | "going_to_block (WBlocked t) = True"
| "going_to_block _ = False"

fun past_arming :: "wait_pc \<Rightarrow> bool" where
  "past_arming WParked = False" | "past_arming WEnabled = False" | "past_arming pc = going_to_block pc"

fun past_rx :: "wait_pc \<Rightarrow> bool" where
  "past_rx WRxEmpty = True" | "past_rx WTxEmpty = True" | "past_rx WIdle = True" | "past_rx (WBlocked t) = True" | "past_rx _ = False"

fun past_tx :: "wait_pc \<Rightarrow> bool" where
  "past_tx WTxEmpty = True" | "past_tx WIdle = True" | "past_tx (WBlocked t) = True" | "past_tx _ = False"

fun outside :: "wait_pc \<Rightarrow> bool" where
  "outside (WRun r) = True" | "outside _ = False"

fun unparked :: "wait_pc \<Rightarrow> bool" where
  "unparked (WRun r) = True" | "unparked (WUnparked ok) = True" | "unparked _ = False"

definition woken :: "wait_state \<Rightarrow> bool" where
  "woken s \<longleftrightarrow> 0 < ws_sent s \<or> 0 < ws_kicks s"

definition wait_inv :: "wait_conf \<Rightarrow> wait_state \<Rightarrow> bool" where
  "wait_inv c s \<longleftrightarrow>
     (going_to_block (ws_pc s) \<longrightarrow> ws_parked s \<or> woken s) \<and>
     (past_rx (ws_pc s) \<longrightarrow> ws_rx s = 0 \<or> 0 < ws_pushing s \<or> woken s) \<and>
     (past_tx (ws_pc s) \<longrightarrow> ws_tx s = 0 \<or> 0 < ws_pushing s \<or> woken s) \<and>
     (past_arming (ws_pc s) \<and> wc_queue c \<longrightarrow> ws_armed s \<and> (wc_tap c \<or> ws_enabled s)) \<and>
     (ws_pc s = WEnabled \<longrightarrow> wc_tap c \<or> ws_enabled s) \<and>
     (unparked (ws_pc s) \<longrightarrow> \<not> ws_parked s) \<and>
     (outside (ws_pc s) \<or> ws_pc s = WParked \<longrightarrow> \<not> ws_enabled s)"

lemmas wait_defs = wait_enable_def wait_arm_def wait_kernel_poll_def Notification_Complete_def wait_check_rx_def wait_check_tx_def
  wait_check_completions_def wait_submit_def wait_finish_def remote_push_def remote_wake_def woken_def Let_def

lemma past_going: "past_rx pc \<Longrightarrow> going_to_block pc" "past_tx pc \<Longrightarrow> going_to_block pc"
  by (cases pc; simp)+


lemma notify_fields [simp]:
  "ws_pc (notify x s) = ws_pc s" "ws_parked (notify x s) = ws_parked s" "ws_enabled (notify x s) = ws_enabled s" "ws_rx (notify x s) = ws_rx s"
  "ws_tx (notify x s) = ws_tx s" "ws_pushing (notify x s) = ws_pushing s" "ws_sent (notify x s) = ws_sent s" "ws_kicks (notify x s) = ws_kicks s"
  "notify None s = s"
  by (cases x; simp add: notify_def Notification_Complete_def Let_def case_prod_unfold)+

lemma wait_inv_step: "wait_step c s s' \<Longrightarrow> wait_inv c s \<Longrightarrow> wait_inv c s'"
proof (induction rule: wait_step.induct)
  case (ws_push s k)
  then show ?case by (cases k) (simp_all add: wait_inv_def wait_defs)
next
  case (ws_wake s)
  then show ?case using past_going [of "ws_pc s"] by (cases "ws_parked s") (auto simp: wait_inv_def wait_defs)
next
  case (ws_kernel s n notified other)
  then show ?case by (cases notified) (simp_all add: wait_inv_def wait_kernel_poll_def woken_def)
next
  case (ws_woken s t n notified ok)
  then show ?case by (simp add: wait_inv_def wait_woken_def)
qed (simp_all add: wait_inv_def wait_defs)

lemma wait_inv_steps: "(wait_step c)\<^sup>*\<^sup>* s s' \<Longrightarrow> wait_inv c s \<Longrightarrow> wait_inv c s'"
  by (induction rule: rtranclp_induct) (auto intro: wait_inv_step)

text \<open>A worker after \<open>Init\<close>.\<close>

definition wait_start :: wait_state where
  "wait_start = \<lparr>ws_pc = WRun None, ws_parked = False, ws_enabled = False, ws_armed = False, ws_rx_can_wait = True, ws_rx = 0, ws_tx = 0,
     ws_completions = 0, ws_pushing = 0, ws_sent = 0, ws_kicks = 0, ws_arms = 0, ws_waits = 0, ws_notifications = 0\<rparr>"

lemma wait_start_inv: "wait_inv c wait_start"
  by (simp add: wait_inv_def wait_start_def)

text \<open>
  C13: a worker never sleeps through a packet. In every interleaving of a worker's rounds and waits
  with the workers that push into its rings, when it is blocked and one of its rings holds a
  packet, a wake message is queued or has arrived, or a pushing worker is about to find the parked
  flag set and to send one. A blocked worker that owns a receive queue has the notification
  descriptor armed and its interrupt enabled (a TAP device has none). Outside the wait the flag is
  clear and the interrupt is off.
\<close>

theorem wait_never_loses_a_packet:
  assumes "(wait_step c)\<^sup>*\<^sup>* wait_start s"
  shows "(ws_pc s = WBlocked t \<and> (0 < ws_rx s \<or> 0 < ws_tx s) \<longrightarrow> 0 < ws_sent s \<or> 0 < ws_kicks s \<or> (0 < ws_pushing s \<and> ws_parked s)) \<and>
    (ws_pc s = WBlocked t \<and> wc_queue c \<longrightarrow> ws_armed s \<and> (wc_tap c \<or> ws_enabled s)) \<and>
    (ws_pc s = WRun r \<longrightarrow> \<not> ws_parked s \<and> \<not> ws_enabled s)"
proof -
  have inv: "wait_inv c s" using wait_inv_steps [OF assms wait_start_inv] .
  have "ws_parked s \<or> woken s" "\<not> 0 < ws_rx s \<or> 0 < ws_pushing s \<or> woken s" "\<not> 0 < ws_tx s \<or> 0 < ws_pushing s \<or> woken s"
    "wc_queue c \<Longrightarrow> ws_armed s \<and> (wc_tap c \<or> ws_enabled s)" if "ws_pc s = WBlocked t"
    using inv that by (simp_all add: wait_inv_def)
  moreover have "\<not> ws_parked s" "\<not> ws_enabled s" if "ws_pc s = WRun r" using inv that by (simp_all add: wait_inv_def)
  ultimately show ?thesis unfolding woken_def by blast
qed

text \<open>A worker that blocks while a packet arrives between its check of the ring and the kernel wait.\<close>

definition race_conf :: wait_conf where
  "race_conf = \<lparr>wc_adaptive = True, wc_all_ready = True, wc_queue = True, wc_tap = False, wc_mlx5 = False\<rparr>"

definition race_state :: wait_state where
  "race_state = wait_start\<lparr>ws_pc := WBlocked (- 1), ws_parked := True, ws_enabled := True, ws_armed := True, ws_rx := 1, ws_pushing := 1, ws_arms := 1, ws_waits := 1\<rparr>"

lemma wait_more: "(wait_step c)\<^sup>*\<^sup>* a b \<Longrightarrow> wait_step c b d \<Longrightarrow> (wait_step c)\<^sup>*\<^sup>* a d"
  by (rule rtranclp.rtrancl_into_rtrancl)

lemma race_reached: "(wait_step race_conf)\<^sup>*\<^sup>* wait_start race_state"
proof -
  let ?s1 = "wait_start\<lparr>ws_parked := True, ws_pc := WParked\<rparr>"
  let ?s2 = "wait_enable race_conf 0 ?s1"
  let ?s3 = "wait_arm StOk ?s2"
  let ?s4 = "wait_kernel_poll 0 None False ?s3"
  let ?s5 = "?s4\<lparr>ws_rx := 0, ws_tx := 0, ws_pc := WPackets (False \<or> False)\<rparr>"
  let ?s6 = "?s5\<lparr>ws_rx := ws_rx ?s5 + 0, ws_tx := ws_tx ?s5 + 0, ws_completions := 0, ws_pc := WPolled (False \<or> False)\<rparr>"
  let ?s7 = "wait_check_rx ?s6"
  let ?s8 = "remote_push RxRing ?s7"
  let ?s9 = "wait_check_tx ?s8"
  let ?s10 = "wait_check_completions ?s9"
  let ?s11 = "wait_submit StOk 0 (- 1) (- 1) ?s10"
  note d = wait_defs race_conf_def wait_start_def status_ok_def wait_timeout_def wait_gate_def
  have h1: "wait_step race_conf wait_start ?s1" by (rule ws_park) (simp_all add: d)
  have h2: "wait_step race_conf ?s1 ?s2" by (rule ws_enable) simp
  have h3: "wait_step race_conf ?s2 ?s3" by (rule ws_arm) (simp add: d)
  have h4: "wait_step race_conf ?s3 ?s4" by (rule ws_kernel) (simp_all add: d)
  have h5: "wait_step race_conf ?s4 ?s5" by (rule ws_packets) (simp add: d)
  have h6: "wait_step race_conf ?s5 ?s6" by (rule ws_sockets) simp
  have h7: "wait_step race_conf ?s6 ?s7" by (rule ws_check_rx [where p = False]) simp
  have h8: "wait_step race_conf ?s7 ?s8" by (rule ws_push)
  have h9: "wait_step race_conf ?s8 ?s9" by (rule ws_check_tx) (simp add: d)
  have h10: "wait_step race_conf ?s9 ?s10" by (rule ws_check_completions) (simp add: d)
  have h11: "wait_step race_conf ?s10 ?s11" by (rule ws_submit) (simp add: d)
  have e: "?s11 = race_state" by (simp add: d race_state_def)
  note r2 = wait_more [OF wait_more [OF wait_more [OF rtranclp.rtrancl_refl h1] h2] h3]
  note r3 = wait_more [OF wait_more [OF wait_more [OF r2 h4] h5] h6]
  note r4 = wait_more [OF wait_more [OF wait_more [OF r3 h7] h8] h9]
  show ?thesis using wait_more [OF wait_more [OF r4 h10] h11] unfolding e .
qed

theorem wait_never_loses_a_packet_witness:
  "ws_pc race_state = WBlocked (- 1) \<and> 0 < ws_rx race_state \<and> 0 < ws_pushing race_state \<and> ws_parked race_state \<and> ws_armed race_state"
  using wait_never_loses_a_packet [OF race_reached, of "- 1"] by (simp add: race_state_def race_conf_def wait_start_def)

section \<open>Deadlines\<close>

text \<open>The kernel timeout never passes the next deadline of the stack.\<close>

lemma wait_timeout_meets_deadline:
  assumes "deadline \<noteq> - 1"
  shows "0 \<le> wait_timeout now deadline t" "wait_timeout now deadline t * 1000000 \<le> max 0 (uint deadline - uint now)" "wait_timeout now deadline t < 2 ^ 31"
proof -
  define delay where "delay = (if deadline \<le> now then 0 else min ((deadline - now) div 1000000) 2147483647)"
  have e: "wait_timeout now deadline t = (if t < 0 then uint delay else min t (uint delay))"
    using assms by (simp add: wait_timeout_def delay_def)
  have m: "uint delay \<le> 2147483647" by (auto simp: delay_def word_le_def min_def)
  have "uint delay * 1000000 \<le> max 0 (uint deadline - uint now)"
  proof (cases "deadline \<le> now")
    case False
    then have d: "uint (deadline - now) = uint deadline - uint now" by (simp add: uint_sub_if' word_le_def)
    have "uint delay \<le> uint ((deadline - now) div 1000000)" using False by (auto simp: delay_def word_le_def min_def)
    also have "\<dots> = (uint deadline - uint now) div 1000000" by (simp add: uint_div d)
    finally show ?thesis by linarith
  qed (simp add: delay_def)
  then show "wait_timeout now deadline t * 1000000 \<le> max 0 (uint deadline - uint now)" unfolding e by (simp add: min_def)
  show "0 \<le> wait_timeout now deadline t" unfolding e by simp
  show "wait_timeout now deadline t < 2 ^ 31" unfolding e using m by (simp add: min_def)
qed

end
