(* ===== verification/Rpc.thy ===== *)
theory Rpc
  imports Bycorf_Prelude "HOL-Library.Sublist"
begin

unbundle bit_operations_syntax

text \<open>
  The RPC layer (src/src/rpc/rpc.cpp, src/include/bycorf/rpc/rpc.h): the wire format, the server's
  request loop and the multiplexing client. Both sides are coroutines; a definition here is the code
  between two suspension points. The last part connects a client and a server by two byte streams
  that deliver in pieces of any size and may fail, and follows every interleaving of the two.
\<close>

section \<open>Wire format\<close>

type_synonym bytes = "u8 list"

definition kHeader :: nat where "kHeader = 16"
definition kMaxPayloadBytes :: nat where "kMaxPayloadBytes = 16 * 1024 * 1024"
definition kRequest :: u8 where "kRequest = 0"
definition kResponse :: u8 where "kResponse = 1"

record wire_header =
  wh_req_id :: u64
  wh_len :: u32
  wh_verb :: u16
  wh_type :: u8
  wh_pad :: u8

definition store_le :: "nat \<Rightarrow> 'a::len word \<Rightarrow> bytes" where
  "store_le n v = map (\<lambda>i. ucast (drop_bit (i * 8) v AND 0xff)) [0..<n]"

definition load_le :: "nat \<Rightarrow> bytes \<Rightarrow> 'a::len word" where
  "load_le n b = foldl (\<lambda>v i. v OR push_bit (i * 8) (ucast (b ! i))) 0 [0..<n]"

definition Store16 :: "u16 \<Rightarrow> bytes" where
  "Store16 v = [ucast (v AND 0xff), ucast (drop_bit 8 v AND 0xff)]"
definition Store32 :: "u32 \<Rightarrow> bytes" where "Store32 v = store_le 4 v"
definition Store64 :: "u64 \<Rightarrow> bytes" where "Store64 v = store_le 8 v"
definition Load16 :: "bytes \<Rightarrow> u16" where
  "Load16 b = ucast (b ! 0) OR push_bit 8 (ucast (b ! 1))"
definition Load32 :: "bytes \<Rightarrow> u32" where "Load32 b = load_le 4 b"
definition Load64 :: "bytes \<Rightarrow> u64" where "Load64 b = load_le 8 b"

definition EncodeHeader :: "wire_header \<Rightarrow> bytes" where
  "EncodeHeader h = Store64 (wh_req_id h) @ Store32 (wh_len h) @ Store16 (wh_verb h) @ [wh_type h, wh_pad h]"

definition DecodeHeader :: "bytes \<Rightarrow> wire_header" where
  "DecodeHeader b =
     \<lparr>wh_req_id = Load64 b, wh_len = Load32 (drop 8 b), wh_verb = Load16 (drop 12 b), wh_type = b ! 14, wh_pad = b ! 15\<rparr>"

definition AppendFrame :: "bytes \<Rightarrow> wire_header \<Rightarrow> bytes \<Rightarrow> bytes" where
  "AppendFrame out h payload = out @ EncodeHeader h @ payload"

text \<open>
  What both read loops find at the front of their buffer: less than a frame, a header they refuse,
  or a frame and the bytes after it.
\<close>

datatype next_frame = NeedMore | BadHeader | Frame wire_header bytes bytes

definition next_frame :: "u8 \<Rightarrow> bytes \<Rightarrow> next_frame" where
  "next_frame type buf =
     (if length buf < kHeader then NeedMore
      else let h = DecodeHeader buf in
        if wh_type h \<noteq> type \<or> wh_pad h \<noteq> 0 \<or> kMaxPayloadBytes < unat (wh_len h) then BadHeader
        else if length buf - kHeader < unat (wh_len h) then NeedMore
        else Frame h (take (unat (wh_len h)) (drop kHeader buf)) (drop (kHeader + unat (wh_len h)) buf))"

lemma next_frame_shorter: "next_frame type buf = Frame h p rest \<Longrightarrow> length rest < length buf"
  by (auto simp: next_frame_def Let_def kHeader_def split: if_splits)

section \<open>The server\<close>

text \<open>
  Handlers by verb; a handler maps the payload to the response and may change the service's own
  state, of type \<open>'h\<close>. An asynchronous handler may suspend, which nothing else on the connection
  observes.
\<close>

record 'h rpc_server =
  sv_handlers :: "u16 \<Rightarrow> ('h \<Rightarrow> bytes \<Rightarrow> bytes \<times> 'h) option"
  sv_async_handlers :: "u16 \<Rightarrow> ('h \<Rightarrow> bytes \<Rightarrow> bytes \<times> 'h) option"

definition OnVerb :: "u16 \<Rightarrow> ('h \<Rightarrow> bytes \<Rightarrow> bytes \<times> 'h) \<Rightarrow> 'h rpc_server \<Rightarrow> 'h rpc_server" where
  "OnVerb verb handler sv = sv\<lparr>sv_handlers := (sv_handlers sv)(verb \<mapsto> handler)\<rparr>"

definition OnVerbAsync :: "u16 \<Rightarrow> ('h \<Rightarrow> bytes \<Rightarrow> bytes \<times> 'h) \<Rightarrow> 'h rpc_server \<Rightarrow> 'h rpc_server" where
  "OnVerbAsync verb handler sv = sv\<lparr>sv_async_handlers := (sv_async_handlers sv)(verb \<mapsto> handler)\<rparr>"

definition dispatch :: "'h rpc_server \<Rightarrow> u16 \<Rightarrow> bytes \<Rightarrow> 'h \<Rightarrow> bytes \<times> 'h" where
  "dispatch sv verb payload st =
     (case sv_async_handlers sv verb of
        Some f \<Rightarrow> f st payload
      | None \<Rightarrow> (case sv_handlers sv verb of Some f \<Rightarrow> f st payload | None \<Rightarrow> ([], st)))"

text \<open>The inner loop of \<open>Serve\<close>: an error that ends it, the unread bytes, the responses.\<close>

function serve_frames :: "'h rpc_server \<Rightarrow> bytes \<Rightarrow> bytes \<Rightarrow> 'h \<Rightarrow> status option \<times> bytes \<times> bytes \<times> 'h" where
  "serve_frames sv buf out st =
     (case next_frame kRequest buf of
        NeedMore \<Rightarrow> (None, buf, out, st)
      | BadHeader \<Rightarrow> (Some StInvalidArgument, buf, out, st)
      | Frame h payload rest \<Rightarrow>
          let (resp, st1) = dispatch sv (wh_verb h) payload st in
          if kMaxPayloadBytes < length resp then (Some StOutOfRange, buf, out, st1)
          else serve_frames sv rest
            (AppendFrame out \<lparr>wh_req_id = wh_req_id h, wh_len = of_nat (length resp), wh_verb = wh_verb h, wh_type = kResponse, wh_pad = 0\<rparr> resp) st1)"
  by pat_completeness auto
termination
  by (relation "measure (\<lambda>(sv, buf, out, st). length buf)") (auto dest: next_frame_shorter)

declare serve_frames.simps [simp del]

text \<open>Where the server's coroutine is suspended, or that it has returned.\<close>

datatype serve_pc = SvReading | SvWriting bytes | SvDone status

record 'h serve_state =
  ss_pc :: serve_pc
  ss_buf :: bytes
  ss_state :: 'h

text \<open>\<open>Serve\<close> from the top of its outer loop to the next suspension.\<close>

definition serve_round :: "'h rpc_server \<Rightarrow> bool \<Rightarrow> 'h serve_state \<Rightarrow> 'h serve_state" where
  "serve_round sv is_open s =
     (if \<not> is_open then s\<lparr>ss_pc := SvDone StOk\<rparr>
      else case serve_frames sv (ss_buf s) [] (ss_state s) of
        (Some st, rest, out, h) \<Rightarrow> s\<lparr>ss_pc := SvDone st, ss_state := h\<rparr>
      | (None, rest, out, h) \<Rightarrow> s\<lparr>ss_pc := (if out \<noteq> [] then SvWriting out else SvReading), ss_buf := rest, ss_state := h\<rparr>)"

text \<open>The write and the read it suspends on return; a failed read is \<open>Inl\<close>, the end of the stream is empty.\<close>

definition serve_written :: "status \<Rightarrow> 'h serve_state \<Rightarrow> 'h serve_state" where
  "serve_written st s = s\<lparr>ss_pc := if status_ok st then SvReading else SvDone st\<rparr>"

definition serve_read :: "'h rpc_server \<Rightarrow> bool \<Rightarrow> status + bytes \<Rightarrow> 'h serve_state \<Rightarrow> 'h serve_state" where
  "serve_read sv is_open r s =
     (case r of
        Inl st \<Rightarrow> s\<lparr>ss_pc := SvDone st\<rparr>
      | Inr [] \<Rightarrow> s\<lparr>ss_pc := SvDone StOk\<rparr>
      | Inr chunk \<Rightarrow> serve_round sv is_open (s\<lparr>ss_buf := ss_buf s @ chunk\<rparr>))"

definition serve_start :: "'h \<Rightarrow> 'h serve_state" where
  "serve_start h = \<lparr>ss_pc = SvReading, ss_buf = [], ss_state = h\<rparr>"

section \<open>The client\<close>

text \<open>
  A call that has been accepted is named by its position in \<open>cl_calls\<close>, which records what was
  asked for; \<open>cl_results\<close> holds the \<open>Pending\<close> of the calls that are done.
\<close>

datatype write_pc = WlIdle | WlSpawned | WlWriting bytes

record rpc_client =
  cl_open :: bool
  cl_out :: "bytes list"
  cl_write :: write_pc
  cl_pending :: "u64 \<Rightarrow> nat option"
  cl_next_req_id :: u64
  cl_reading :: bool
  cl_buf :: bytes
  cl_calls :: "(u16 \<times> bytes) list"
  cl_results :: "nat \<Rightarrow> (status + bytes) option"

definition SendFrame :: "wire_header \<Rightarrow> bytes \<Rightarrow> rpc_client \<Rightarrow> rpc_client" where
  "SendFrame h payload c =
     (let c1 = c\<lparr>cl_out := cl_out c @ [AppendFrame [] h payload]\<rparr>
      in if cl_write c1 = WlIdle then c1\<lparr>cl_write := WlSpawned\<rparr> else c1)"

text \<open>\<open>Call\<close> up to its suspension; an error is returned at once.\<close>

definition rpc_Call :: "u16 \<Rightarrow> bytes \<Rightarrow> rpc_client \<Rightarrow> status \<times> rpc_client" where
  "rpc_Call verb payload c =
     (if \<not> cl_open c then (StFailedPrecondition, c)
      else if kMaxPayloadBytes < length payload then (StOutOfRange, c)
      else let id = cl_next_req_id c;
               c1 = c\<lparr>cl_next_req_id := id + 1, cl_pending := (cl_pending c)(id \<mapsto> length (cl_calls c)), cl_calls := cl_calls c @ [(verb, payload)]\<rparr>
        in (StOk, SendFrame \<lparr>wh_req_id = id, wh_len = of_nat (length payload), wh_verb = verb, wh_type = kRequest, wh_pad = 0\<rparr> payload c1))"

text \<open>\<open>WriteLoop\<close> from the top of its loop, and what follows its write.\<close>

definition write_round :: "rpc_client \<Rightarrow> rpc_client" where
  "write_round c =
     (if cl_out c \<noteq> [] then c\<lparr>cl_write := WlWriting (concat (cl_out c)), cl_out := []\<rparr> else c\<lparr>cl_write := WlIdle\<rparr>)"

definition write_done :: "status \<Rightarrow> rpc_client \<Rightarrow> rpc_client" where
  "write_done st c = (if status_ok st then write_round c else c\<lparr>cl_write := WlIdle\<rparr>)"

definition finish_call :: "nat \<Rightarrow> status + bytes \<Rightarrow> rpc_client \<Rightarrow> rpc_client" where
  "finish_call i r c = c\<lparr>cl_results := (cl_results c)(i \<mapsto> r)\<rparr>"

text \<open>The inner loop of \<open>ReadLoop\<close>.\<close>

function read_frames :: "rpc_client \<Rightarrow> rpc_client" where
  "read_frames c =
     (case next_frame kResponse (cl_buf c) of
        NeedMore \<Rightarrow> c
      | BadHeader \<Rightarrow> c\<lparr>cl_open := False\<rparr>
      | Frame h payload rest \<Rightarrow>
          read_frames ((case cl_pending c (wh_req_id h) of
            None \<Rightarrow> c
          | Some i \<Rightarrow> finish_call i (Inr payload) (c\<lparr>cl_pending := (cl_pending c)(wh_req_id h := None)\<rparr>))\<lparr>cl_buf := rest\<rparr>))"
  by pat_completeness auto
termination
  by (relation "measure (\<lambda>c. length (cl_buf c))") (auto dest: next_frame_shorter)

declare read_frames.simps [simp del]

text \<open>The end of \<open>ReadLoop\<close>: every outstanding call fails.\<close>

definition fail_pending :: "rpc_client \<Rightarrow> rpc_client" where
  "fail_pending c = c\<lparr>cl_results := (\<lambda>i. if Some i \<in> range (cl_pending c) then Some (Inl StUnavailable) else cl_results c i),
     cl_pending := Map.empty, cl_reading := False\<rparr>"

definition read_round :: "rpc_client \<Rightarrow> rpc_client" where
  "read_round c = (if \<not> cl_open c then fail_pending c else read_frames c)"

definition read_done :: "status + bytes \<Rightarrow> rpc_client \<Rightarrow> rpc_client" where
  "read_done r c =
     (case r of
        Inl st \<Rightarrow> fail_pending c
      | Inr [] \<Rightarrow> fail_pending c
      | Inr chunk \<Rightarrow> read_round (c\<lparr>cl_buf := cl_buf c @ chunk\<rparr>))"

definition rpc_Close :: "rpc_client \<Rightarrow> rpc_client" where
  "rpc_Close c = c\<lparr>cl_open := False\<rparr>"

text \<open>A client after \<open>Connect\<close>, its reader waiting for the first bytes.\<close>

definition connected_client :: rpc_client where
  "connected_client = \<lparr>cl_open = True, cl_out = [], cl_write = WlIdle, cl_pending = Map.empty, cl_next_req_id = 1, cl_reading = True,
     cl_buf = [], cl_calls = [], cl_results = Map.empty\<rparr>"

lemma serve_read_chunk: "chunk \<noteq> [] \<Longrightarrow> serve_read sv is_open (Inr chunk) s = serve_round sv is_open (s\<lparr>ss_buf := ss_buf s @ chunk\<rparr>)"
  by (cases chunk) (simp_all add: serve_read_def)

lemma read_done_chunk: "chunk \<noteq> [] \<Longrightarrow> read_done (Inr chunk) c = read_round (c\<lparr>cl_buf := cl_buf c @ chunk\<rparr>)"
  by (cases chunk) (simp_all add: read_done_def)

section \<open>Round trips\<close>

lemma bit_foldl_or:
  "bit (foldl (\<lambda>v i. v OR f i) a xs :: 'a::len word) k \<longleftrightarrow> bit a k \<or> (\<exists>i \<in> set xs. bit (f i) k)"
  by (induction xs arbitrary: a) (auto simp: bit_or_iff)

lemma store_le_length [simp]: "length (store_le n v) = n"
  by (simp add: store_le_def)

lemma load_store_le:
  fixes v :: "'a::len word"
  assumes "LENGTH('a) = n * 8"
  shows "load_le n (store_le n v @ rest) = v"
proof (rule bit_word_eqI)
  have ff: "(0xff :: 'a word) = mask 8" by (simp add: mask_eq_exp_minus_1)
  fix k assume k: "k < LENGTH('a)"
  have at: "bit (push_bit (i * 8) (ucast ((store_le n v @ rest) ! i) :: 'a word)) k \<longleftrightarrow> i * 8 \<le> k \<and> k - i * 8 < 8 \<and> bit v k"
    if "i < n" for i
    using that k by (auto simp: store_le_def nth_append bit_push_bit_iff bit_ucast_iff bit_and_iff bit_drop_bit_eq ff bit_mask_iff)
  show "bit (load_le n (store_le n v @ rest) :: 'a word) k = bit v k"
  proof -
    have "bit (load_le n (store_le n v @ rest) :: 'a word) k \<longleftrightarrow> (\<exists>i < n. i * 8 \<le> k \<and> k - i * 8 < 8 \<and> bit v k)"
      unfolding load_le_def bit_foldl_or using at by auto
    also have "\<dots> \<longleftrightarrow> bit v k"
      using k assms by (auto intro!: exI [of _ "k div 8"])
    finally show ?thesis .
  qed
qed

lemma load_store16: "Load16 (Store16 v @ rest) = v"
proof (rule bit_word_eqI)
  fix k :: nat assume k: "k < LENGTH(16)"
  have ff: "(0xff :: u16) = mask 8" by (simp add: mask_eq_exp_minus_1)
  show "bit (Load16 (Store16 v @ rest)) k = bit v k"
    using k by (auto simp: Load16_def Store16_def bit_or_iff bit_push_bit_iff bit_ucast_iff bit_and_iff bit_drop_bit_eq ff bit_mask_iff)
qed

lemma EncodeHeader_length [simp]: "length (EncodeHeader h) = kHeader"
  by (simp add: EncodeHeader_def Store64_def Store32_def Store16_def kHeader_def)

lemma Decode_Encode: "DecodeHeader (EncodeHeader h @ rest) = h"
proof -
  have 1: "Load64 (EncodeHeader h @ rest) = wh_req_id h"
    using load_store_le [of 8 "wh_req_id h"] by (simp add: EncodeHeader_def Load64_def Store64_def)
  have 2: "drop 8 (EncodeHeader h @ rest) = Store32 (wh_len h) @ Store16 (wh_verb h) @ [wh_type h, wh_pad h] @ rest"
    by (simp add: EncodeHeader_def Store64_def)
  have 3: "drop 12 (EncodeHeader h @ rest) = Store16 (wh_verb h) @ [wh_type h, wh_pad h] @ rest"
    by (simp add: EncodeHeader_def Store64_def Store32_def)
  have 4: "(EncodeHeader h @ rest) ! 14 = wh_type h" "(EncodeHeader h @ rest) ! 15 = wh_pad h"
    by (simp_all add: EncodeHeader_def Store64_def Store32_def Store16_def nth_append)
  show ?thesis unfolding DecodeHeader_def 1 2 3 4 Load32_def Store32_def
    by (simp add: load_store_le load_store16)
qed

text \<open>A frame of a given type, with the length its header announces.\<close>

definition frame_ok :: "u8 \<Rightarrow> wire_header \<Rightarrow> bytes \<Rightarrow> bool" where
  "frame_ok type h p \<longleftrightarrow> wh_type h = type \<and> wh_pad h = 0 \<and> wh_len h = of_nat (length p) \<and> length p \<le> kMaxPayloadBytes"

lemma frame_okD: "frame_ok type h p \<Longrightarrow> wh_type h = type" "frame_ok type h p \<Longrightarrow> wh_pad h = 0" "frame_ok type h p \<Longrightarrow> length p \<le> kMaxPayloadBytes"
  by (simp_all add: frame_ok_def)

lemma frame_ok_len: "frame_ok type h p \<Longrightarrow> unat (wh_len h) = length p"
  by (simp add: frame_ok_def kMaxPayloadBytes_def unat_of_nat take_bit_nat_eq_self)

text \<open>A buffer that begins with a whole frame yields it; a buffer cut inside a frame asks for more.\<close>

lemma next_frame_whole:
  assumes "frame_ok type h p"
  shows "next_frame type (EncodeHeader h @ p @ rest) = Frame h p rest"
proof -
  have l: "unat (wh_len h) = length p" using assms by (rule frame_ok_len)
  have d: "drop (kHeader + length p) (EncodeHeader h @ p @ rest) = rest" using drop_append [of "kHeader + length p" "EncodeHeader h"] by simp
  show ?thesis using frame_okD [OF assms] d by (simp add: next_frame_def Decode_Encode l Let_def)
qed

lemma next_frame_cut:
  assumes "frame_ok type h p" "buf @ later = EncodeHeader h @ p" "later \<noteq> []"
  shows "next_frame type buf = NeedMore"
proof (cases "length buf < kHeader")
  case False
  have l: "unat (wh_len h) = length p" using assms(1) by (rule frame_ok_len)
  have "length buf + length later = kHeader + length p" using arg_cong [OF assms(2), of length] by simp
  then have lt: "length buf - kHeader < length p" using False assms(3) by (cases later) simp_all
  have "take kHeader buf = EncodeHeader h" using arg_cong [OF assms(2), of "take kHeader"] False by simp
  then have "DecodeHeader buf = h" using Decode_Encode [of h "drop kHeader buf"] append_take_drop_id [of kHeader buf] by simp
  then show ?thesis using frame_okD [OF assms(1)] lt False by (simp add: next_frame_def Let_def l)
qed (simp add: next_frame_def)

text \<open>
  Numbered frames: the frames of a list of verbs and payloads under consecutive request ids. The
  responses to a list of requests, and the state of the service after them.
\<close>

definition header_for :: "u8 \<Rightarrow> nat \<Rightarrow> u16 \<Rightarrow> bytes \<Rightarrow> wire_header" where
  "header_for type i verb p = \<lparr>wh_req_id = of_nat i, wh_len = of_nat (length p), wh_verb = verb, wh_type = type, wh_pad = 0\<rparr>"

fun frames :: "u8 \<Rightarrow> nat \<Rightarrow> (u16 \<times> bytes) list \<Rightarrow> bytes" where
  "frames type i [] = []"
| "frames type i ((v, p) # qs) = EncodeHeader (header_for type i v p) @ p @ frames type (Suc i) qs"

fun responses :: "'h rpc_server \<Rightarrow> 'h \<Rightarrow> (u16 \<times> bytes) list \<Rightarrow> (u16 \<times> bytes) list" where
  "responses sv st [] = []"
| "responses sv st ((v, p) # qs) = (v, fst (dispatch sv v p st)) # responses sv (snd (dispatch sv v p st)) qs"

fun state_after :: "'h rpc_server \<Rightarrow> 'h \<Rightarrow> (u16 \<times> bytes) list \<Rightarrow> 'h" where
  "state_after sv st [] = st"
| "state_after sv st ((v, p) # qs) = state_after sv (snd (dispatch sv v p st)) qs"

definition sizes_ok :: "(u16 \<times> bytes) list \<Rightarrow> bool" where
  "sizes_ok qs \<longleftrightarrow> list_all (\<lambda>(v, p). length p \<le> kMaxPayloadBytes) qs"

lemma frames_append: "frames t i (xs @ ys) = frames t i xs @ frames t (i + length xs) ys"
  by (induction t i xs rule: frames.induct) simp_all

lemma responses_append: "responses sv st (xs @ ys) = responses sv st xs @ responses sv (state_after sv st xs) ys"
  by (induction sv st xs rule: responses.induct) simp_all

lemma state_after_append: "state_after sv st (xs @ ys) = state_after sv (state_after sv st xs) ys"
  by (induction sv st xs rule: responses.induct) simp_all

lemma responses_length [simp]: "length (responses sv st qs) = length qs"
  by (induction sv st qs rule: responses.induct) simp_all

lemma sizes_ok_simps [simp]: "sizes_ok []" "sizes_ok ((v, p) # qs) \<longleftrightarrow> length p \<le> kMaxPayloadBytes \<and> sizes_ok qs"
  "sizes_ok (xs @ ys) \<longleftrightarrow> sizes_ok xs \<and> sizes_ok ys"
  by (simp_all add: sizes_ok_def)

lemma sizes_ok_drop: "sizes_ok qs \<Longrightarrow> sizes_ok (take n qs) \<and> sizes_ok (drop n qs)"
  by (metis append_take_drop_id sizes_ok_simps(3))

lemma header_for_ok: "length p \<le> kMaxPayloadBytes \<Longrightarrow> frame_ok t (header_for t i v p) p"
  by (simp add: frame_ok_def header_for_def)

lemma prefix_cases:
  assumes "prefix buf (f @ g)"
  obtains b where "buf = f @ b" "prefix b g" | later where "buf @ later = f" "later \<noteq> []"
  using assms by (fastforce simp: prefix_def append_eq_append_conv2)

text \<open>The frames a loop finds in a buffer cut out of a numbered stream.\<close>

lemma next_frame_prefix:
  assumes "prefix buf (frames t i ((v, p) # qs))" "length p \<le> kMaxPayloadBytes"
  obtains b where "buf = EncodeHeader (header_for t i v p) @ p @ b" "next_frame t buf = Frame (header_for t i v p) p b" "prefix b (frames t (Suc i) qs)"
  | "next_frame t buf = NeedMore" "length buf < kHeader + length p"
proof -
  let ?f = "EncodeHeader (header_for t i v p) @ p"
  have "prefix buf (?f @ frames t (Suc i) qs)" using assms(1) by simp
  then show ?thesis
  proof (cases rule: prefix_cases)
    case (1 b)
    then show ?thesis using that(1) [of b] next_frame_whole [OF header_for_ok [OF assms(2)]] by simp
  next
    case (2 later)
    have "length buf < kHeader + length p" using arg_cong [OF 2(1), of length] 2(2) by (cases later) simp_all
    then show ?thesis using that(2) next_frame_cut [OF header_for_ok [OF assms(2)] 2] by blast
  qed
qed

lemma serve_frames_stream:
  "prefix buf (frames kRequest i qs) \<Longrightarrow> sizes_ok qs \<Longrightarrow> serve_frames sv buf out st = (e, rest, out', st') \<Longrightarrow>
    \<exists>m \<le> length qs. (e = None \<or> e = Some StOutOfRange) \<and>
      (e = None \<longrightarrow> buf = frames kRequest i (take m qs) @ rest \<and> out' = out @ frames kResponse i (responses sv st (take m qs)) \<and>
         st' = state_after sv st (take m qs) \<and> sizes_ok (responses sv st (take m qs)) \<and> (m < length qs \<longrightarrow> length rest < kHeader + length (snd (qs ! m))))"
proof (induction qs arbitrary: i buf out st)
  case Nil
  then show ?case by (simp add: serve_frames.simps [of sv "[]"] next_frame_def kHeader_def)
next
  case (Cons q qs)
  obtain v p where q: "q = (v, p)" by fastforce
  have sz: "length p \<le> kMaxPayloadBytes" "sizes_ok qs" using Cons.prems(2) q by simp_all
  from Cons.prems(1) [unfolded q] sz(1) show ?case
  proof (cases rule: next_frame_prefix)
    case (1 b)
    obtain r st1 where d: "dispatch sv v p st = (r, st1)" by fastforce
    show ?thesis
    proof (cases "kMaxPayloadBytes < length r")
      case True
      then have "e = Some StOutOfRange" using Cons.prems(3) 1(2) d by (simp add: serve_frames.simps [of sv buf] header_for_def)
      then show ?thesis by auto
    next
      case False
      then have "serve_frames sv b (out @ EncodeHeader (header_for kResponse i v r) @ r) st1 = (e, rest, out', st')"
        using Cons.prems(3) 1(2) d by (simp add: serve_frames.simps [of sv buf] header_for_def AppendFrame_def)
      from Cons.IH [OF 1(3) sz(2) this] obtain m where m: "m \<le> length qs" "e = None \<or> e = Some StOutOfRange"
        "e = None \<longrightarrow> b = frames kRequest (Suc i) (take m qs) @ rest \<and> out' = (out @ EncodeHeader (header_for kResponse i v r) @ r) @ frames kResponse (Suc i) (responses sv st1 (take m qs)) \<and>
         st' = state_after sv st1 (take m qs) \<and> sizes_ok (responses sv st1 (take m qs)) \<and> (m < length qs \<longrightarrow> length rest < kHeader + length (snd (qs ! m)))"
        by blast
      show ?thesis using m 1(1) q d False by (intro exI [of _ "Suc m"]) auto
    qed
  next
    case 2
    then have "(e, rest, out', st') = (None, buf, out, st)" using Cons.prems(3) by (simp add: serve_frames.simps [of sv buf])
    then show ?thesis using 2(2) q by (intro exI [of _ 0]) simp
  qed
qed

section \<open>Matching responses\<close>

text \<open>The calls from the \<open>k\<close>-th on are pending, each under its own request id.\<close>

definition pending_from :: "nat \<Rightarrow> nat \<Rightarrow> (u64 \<Rightarrow> nat option) \<Rightarrow> bool" where
  "pending_from k n pend \<longleftrightarrow> (\<forall>id i. pend id = Some i \<longleftrightarrow> k \<le> i \<and> i < n \<and> id = of_nat (Suc i))"

lemma unat_of_nat_u64: "n < 2 ^ 64 \<Longrightarrow> unat (of_nat n :: u64) = n"
  by (simp add: unat_of_nat take_bit_nat_eq_self)

lemma of_nat_id_inj: "(of_nat m :: u64) = of_nat n \<Longrightarrow> m < 2 ^ 64 \<Longrightarrow> n < 2 ^ 64 \<Longrightarrow> m = n"
  by (metis unat_of_nat_u64)

lemma pending_from_next:
  assumes "pending_from k n pend" "k < n" "n < 2 ^ 64"
  shows "pend (of_nat (Suc k)) = Some k" "pending_from (Suc k) n (pend(of_nat (Suc k) := None))"
proof -
  show "pend (of_nat (Suc k)) = Some k" using assms(1,2) unfolding pending_from_def by blast
  have inj: "of_nat (Suc i) = (of_nat (Suc k) :: u64) \<longleftrightarrow> i = k" if "i < n" for i
    using of_nat_id_inj [of "Suc i" "Suc k"] less_le_trans [OF _ less_imp_le [OF assms(3)]] that assms(2,3)
    by (metis Suc_inject Suc_leI order_le_less_trans)
  show "pending_from (Suc k) n (pend(of_nat (Suc k) := None))" unfolding pending_from_def
  proof (intro allI)
    fix id :: u64 and i
    show "(pend(of_nat (Suc k) := None)) id = Some i \<longleftrightarrow> Suc k \<le> i \<and> i < n \<and> id = of_nat (Suc i)"
      using assms(1) inj [of i] unfolding pending_from_def fun_upd_apply by (metis le_neq_implies_less Suc_leI Suc_leD not_less_eq_eq option.distinct(1) order_refl)
  qed
qed

text \<open>What a reader has done with the first \<open>m\<close> responses.\<close>

definition took :: "nat \<Rightarrow> (u16 \<times> bytes) list \<Rightarrow> bytes \<Rightarrow> rpc_client \<Rightarrow> rpc_client \<Rightarrow> bool" where
  "took k rs rest c c' \<longleftrightarrow> (\<exists>pend. pending_from (k + length rs) (length (cl_calls c)) pend \<and>
     c' = c\<lparr>cl_buf := rest, cl_pending := pend, cl_results := (\<lambda>i. if k \<le> i \<and> i < k + length rs then Some (Inr (snd (rs ! (i - k)))) else cl_results c i)\<rparr>)"

lemma took_nothing:
  assumes "pending_from k (length (cl_calls c)) (cl_pending c)"
  shows "took k [] (cl_buf c) c c"
proof -
  have "(\<lambda>i. if k \<le> i \<and> i < k + length [] then x i else cl_results c i) = cl_results c" for x by (rule ext) auto
  then show ?thesis unfolding took_def using assms by (intro exI [of _ "cl_pending c"]) simp
qed

lemma took_one:
  assumes "pending_from k (length (cl_calls c)) (cl_pending c)" "k < length (cl_calls c)" "length (cl_calls c) < 2 ^ 64"
    "took (Suc k) rs rest ((finish_call k (Inr p) (c\<lparr>cl_pending := (cl_pending c)(of_nat (Suc k) := None)\<rparr>))\<lparr>cl_buf := b\<rparr>) c'"
  shows "took k ((v, p) # rs) rest c c'"
proof -
  let ?c = "(finish_call k (Inr p) (c\<lparr>cl_pending := (cl_pending c)(of_nat (Suc k) := None)\<rparr>))\<lparr>cl_buf := b\<rparr>"
  obtain pend where p: "pending_from (Suc k + length rs) (length (cl_calls ?c)) pend" and
    c': "c' = ?c\<lparr>cl_buf := rest, cl_pending := pend,
      cl_results := (\<lambda>i. if Suc k \<le> i \<and> i < Suc k + length rs then Some (Inr (snd (rs ! (i - Suc k)))) else cl_results ?c i)\<rparr>"
    using assms(4) unfolding took_def by blast
  have r: "(\<lambda>i. if Suc k \<le> i \<and> i < Suc k + length rs then Some (Inr (snd (rs ! (i - Suc k)))) else cl_results ?c i) =
    (\<lambda>i. if k \<le> i \<and> i < k + length ((v, p) # rs) then Some (Inr (snd (((v, p) # rs) ! (i - k)))) else cl_results c i)"
    by (rule ext) (auto simp: nth_Cons' finish_call_def)
  show ?thesis unfolding took_def c' r using p by (intro exI [of _ pend]) (simp add: finish_call_def)
qed

lemma read_frames_stream:
  "prefix (cl_buf c) (frames kResponse (Suc k) rs) \<Longrightarrow> sizes_ok rs \<Longrightarrow> pending_from k (length (cl_calls c)) (cl_pending c) \<Longrightarrow>
    k + length rs \<le> length (cl_calls c) \<Longrightarrow> length (cl_calls c) < 2 ^ 64 \<Longrightarrow>
    \<exists>m \<le> length rs. \<exists>rest. cl_buf c = frames kResponse (Suc k) (take m rs) @ rest \<and> took k (take m rs) rest c (read_frames c) \<and>
      (m < length rs \<longrightarrow> length rest < kHeader + length (snd (rs ! m)))"
proof (induction rs arbitrary: k c)
  case Nil
  then have "read_frames c = c" by (simp add: read_frames.simps [of c] next_frame_def kHeader_def)
  then show ?case using Nil.prems(1) took_nothing [OF Nil.prems(3)] by simp
next
  case (Cons q rs)
  obtain v p where q: "q = (v, p)" by fastforce
  have sz: "length p \<le> kMaxPayloadBytes" "sizes_ok rs" using Cons.prems(2) q by simp_all
  from Cons.prems(1) [unfolded q] sz(1) show ?case
  proof (cases rule: next_frame_prefix)
    case (1 b)
    let ?c = "(finish_call k (Inr p) (c\<lparr>cl_pending := (cl_pending c)(of_nat (Suc k) := None)\<rparr>))\<lparr>cl_buf := b\<rparr>"
    have k: "k < length (cl_calls c)" using Cons.prems(4) by simp
    note nx = pending_from_next [OF Cons.prems(3) k Cons.prems(5)]
    have e: "read_frames c = read_frames ?c" using 1(2) nx(1) by (simp add: read_frames.simps [of c] header_for_def)
    have "\<exists>m \<le> length rs. \<exists>rest. cl_buf ?c = frames kResponse (Suc (Suc k)) (take m rs) @ rest \<and> took (Suc k) (take m rs) rest ?c (read_frames ?c) \<and>
      (m < length rs \<longrightarrow> length rest < kHeader + length (snd (rs ! m)))"
      using 1(3) sz(2) nx(2) Cons.prems(4,5) by (intro Cons.IH) (simp_all add: finish_call_def fun_upd_def)
    then obtain m rest where m: "m \<le> length rs" "b = frames kResponse (Suc (Suc k)) (take m rs) @ rest" "took (Suc k) (take m rs) rest ?c (read_frames ?c)"
      "m < length rs \<longrightarrow> length rest < kHeader + length (snd (rs ! m))" by auto
    have "took k ((v, p) # take m rs) rest c (read_frames c)" using took_one [OF Cons.prems(3) k Cons.prems(5) m(3)] e by simp
    then show ?thesis using m(1,2,4) 1(1) q by (intro exI [of _ "Suc m"] conjI exI [of _ rest]) simp_all
  next
    case 2
    then have "read_frames c = c" by (simp add: read_frames.simps [of c])
    then show ?thesis using 2(2) q took_nothing [OF Cons.prems(3)] by (intro exI [of _ 0]) auto
  qed
qed

section \<open>A client and a server\<close>

text \<open>
  Two byte streams connect a client to a server. A stream delivers what was written in order, in
  pieces of any size; a write that fails leaves a part of its bytes, after which nothing written on
  that stream arrives any more. Reads may fail and streams end at any time.
\<close>

record 'h rpc_net =
  rn_client :: rpc_client
  rn_server :: "'h serve_state"
  rn_up :: bytes
  rn_down :: bytes
  rn_up_broken :: bool
  rn_down_broken :: bool

definition rpc_start :: "'h \<Rightarrow> 'h rpc_net" where
  "rpc_start h = \<lparr>rn_client = connected_client, rn_server = serve_start h, rn_up = [], rn_down = [], rn_up_broken = False, rn_down_broken = False\<rparr>"

definition delivered :: "bool \<Rightarrow> bytes \<Rightarrow> bytes \<Rightarrow> bytes" where
  "delivered broken pipe b = (if broken then pipe else pipe @ b)"

inductive rpc_step :: "'h rpc_server \<Rightarrow> 'h rpc_net \<Rightarrow> 'h rpc_net \<Rightarrow> bool" for sv where
  rs_call: "rpc_step sv n (n\<lparr>rn_client := snd (rpc_Call verb payload (rn_client n))\<rparr>)"
| rs_close: "rpc_step sv n (n\<lparr>rn_client := rpc_Close (rn_client n)\<rparr>)"
| rs_write: "cl_write (rn_client n) = WlSpawned \<Longrightarrow> rpc_step sv n (n\<lparr>rn_client := write_round (rn_client n)\<rparr>)"
| rs_written: "cl_write (rn_client n) = WlWriting b \<Longrightarrow>
    rpc_step sv n (n\<lparr>rn_up := delivered (rn_up_broken n) (rn_up n) b, rn_client := write_done StOk (rn_client n)\<rparr>)"
| rs_write_failed: "cl_write (rn_client n) = WlWriting b \<Longrightarrow> \<not> status_ok st \<Longrightarrow>
    rpc_step sv n (n\<lparr>rn_up := delivered (rn_up_broken n) (rn_up n) (take k b), rn_up_broken := True, rn_client := write_done st (rn_client n)\<rparr>)"
| rs_serve: "ss_pc (rn_server n) = SvReading \<Longrightarrow> rn_up n = chunk @ later \<Longrightarrow> chunk \<noteq> [] \<Longrightarrow>
    rpc_step sv n (n\<lparr>rn_up := later, rn_server := serve_read sv is_open (Inr chunk) (rn_server n)\<rparr>)"
| rs_serve_ends: "ss_pc (rn_server n) = SvReading \<Longrightarrow> (\<exists>st. r = Inl st) \<or> r = Inr [] \<Longrightarrow>
    rpc_step sv n (n\<lparr>rn_server := serve_read sv is_open r (rn_server n)\<rparr>)"
| rs_served: "ss_pc (rn_server n) = SvWriting b \<Longrightarrow>
    rpc_step sv n (n\<lparr>rn_down := delivered (rn_down_broken n) (rn_down n) b, rn_server := serve_written StOk (rn_server n)\<rparr>)"
| rs_serve_failed: "ss_pc (rn_server n) = SvWriting b \<Longrightarrow> \<not> status_ok st \<Longrightarrow>
    rpc_step sv n (n\<lparr>rn_down := delivered (rn_down_broken n) (rn_down n) (take k b), rn_down_broken := True, rn_server := serve_written st (rn_server n)\<rparr>)"
| rs_read: "cl_reading (rn_client n) \<Longrightarrow> rn_down n = chunk @ later \<Longrightarrow> chunk \<noteq> [] \<Longrightarrow>
    rpc_step sv n (n\<lparr>rn_down := later, rn_client := read_done (Inr chunk) (rn_client n)\<rparr>)"
| rs_read_ends: "cl_reading (rn_client n) \<Longrightarrow> (\<exists>st. r = Inl st) \<or> r = Inr [] \<Longrightarrow>
    rpc_step sv n (n\<lparr>rn_client := read_done r (rn_client n)\<rparr>)"

text \<open>
  The bytes on the way up: what the server has read and what is in the stream begin the frames of
  all calls, and are followed by the batch being written and the frames queued behind it.
\<close>

definition batch_of :: "rpc_client \<Rightarrow> bytes" where
  "batch_of c = (case cl_write c of WlWriting b \<Rightarrow> b | _ \<Rightarrow> [])"

definition up_inv :: "'h rpc_net \<Rightarrow> bytes \<Rightarrow> bool" where
  "up_inv n seen \<longleftrightarrow> prefix (seen @ rn_up n) (frames kRequest 1 (cl_calls (rn_client n))) \<and>
     (\<not> rn_up_broken n \<longrightarrow> seen @ rn_up n @ batch_of (rn_client n) @ concat (cl_out (rn_client n)) = frames kRequest 1 (cl_calls (rn_client n)) \<and>
        (cl_write (rn_client n) = WlIdle \<longrightarrow> cl_out (rn_client n) = []))"

text \<open>The server has answered the first \<open>k\<close> calls.\<close>

definition reply_of :: "serve_pc \<Rightarrow> bytes" where
  "reply_of pc = (case pc of SvWriting b \<Rightarrow> b | _ \<Rightarrow> [])"

fun ended :: "serve_pc \<Rightarrow> bool" where
  "ended (SvDone st) = True" | "ended pc = False"

definition server_inv :: "'h rpc_server \<Rightarrow> 'h \<Rightarrow> 'h rpc_net \<Rightarrow> bytes \<Rightarrow> nat \<Rightarrow> bytes \<Rightarrow> bool" where
  "server_inv sv h n seen k got \<longleftrightarrow> (let calls = cl_calls (rn_client n); s = rn_server n; replies = frames kResponse 1 (responses sv h (take k calls)) in
     k \<le> length calls \<and> sizes_ok (responses sv h (take k calls)) \<and> prefix (got @ rn_down n) replies \<and>
     (\<not> ended (ss_pc s) \<longrightarrow> seen = frames kRequest 1 (take k calls) @ ss_buf s \<and> ss_state s = state_after sv h (take k calls) \<and>
        (k < length calls \<longrightarrow> length (ss_buf s) < kHeader + length (snd (calls ! k))) \<and>
        (\<not> rn_down_broken n \<longrightarrow> got @ rn_down n @ reply_of (ss_pc s) = replies)))"

text \<open>The client has matched the first \<open>j\<close> responses.\<close>

definition client_inv :: "'h rpc_server \<Rightarrow> 'h \<Rightarrow> 'h rpc_net \<Rightarrow> nat \<Rightarrow> bytes \<Rightarrow> nat \<Rightarrow> bool" where
  "client_inv sv h n k got j \<longleftrightarrow> (let c = rn_client n; rs = responses sv h (take k (cl_calls c)) in
     j \<le> k \<and> (\<forall>i < j. cl_results c i = Some (Inr (snd (rs ! i)))) \<and>
     (if cl_reading c
      then got = frames kResponse 1 (take j rs) @ cl_buf c \<and> pending_from j (length (cl_calls c)) (cl_pending c) \<and>
        (j < k \<longrightarrow> length (cl_buf c) < kHeader + length (snd (rs ! j))) \<and> (\<forall>i \<ge> j. cl_results c i = None)
      else \<forall>i \<ge> j. cl_results c i = None \<or> (cl_results c i = Some (Inl StUnavailable) \<and> i < length (cl_calls c))))"

definition calls_inv :: "rpc_client \<Rightarrow> bool" where
  "calls_inv c \<longleftrightarrow> sizes_ok (cl_calls c) \<and> cl_next_req_id c = of_nat (Suc (length (cl_calls c)))"

definition rpc_inv :: "'h rpc_server \<Rightarrow> 'h \<Rightarrow> 'h rpc_net \<Rightarrow> bool" where
  "rpc_inv sv h n \<longleftrightarrow> calls_inv (rn_client n) \<and> (\<exists>seen k got j. up_inv n seen \<and> server_inv sv h n seen k got \<and> client_inv sv h n k got j)"

lemma rpc_inv_start: "rpc_inv sv h (rpc_start h)"
  unfolding rpc_inv_def
  by (intro conjI exI [of _ "[]"] exI [of _ 0])
    (simp_all add: calls_inv_def up_inv_def server_inv_def client_inv_def rpc_start_def connected_client_def serve_start_def batch_of_def reply_of_def pending_from_def)

text \<open>What each step keeps.\<close>

lemma write_round_fields [simp]:
  "cl_calls (write_round c) = cl_calls c" "cl_results (write_round c) = cl_results c" "cl_reading (write_round c) = cl_reading c"
  "cl_buf (write_round c) = cl_buf c" "cl_pending (write_round c) = cl_pending c" "cl_next_req_id (write_round c) = cl_next_req_id c"
  by (simp_all add: write_round_def)

lemma write_done_fields [simp]:
  "cl_calls (write_done st c) = cl_calls c" "cl_results (write_done st c) = cl_results c" "cl_reading (write_done st c) = cl_reading c"
  "cl_buf (write_done st c) = cl_buf c" "cl_pending (write_done st c) = cl_pending c" "cl_next_req_id (write_done st c) = cl_next_req_id c"
  by (simp_all add: write_done_def)

lemma write_round_moves: "batch_of (write_round c) @ concat (cl_out (write_round c)) = concat (cl_out c)" "cl_write (write_round c) = WlIdle \<longrightarrow> cl_out (write_round c) = []"
  by (simp_all add: write_round_def batch_of_def)

lemma up_written:
  assumes "up_inv n seen" "cl_write (rn_client n) = WlWriting b"
  shows "up_inv (n\<lparr>rn_up := delivered (rn_up_broken n) (rn_up n) b, rn_client := write_done StOk (rn_client n)\<rparr>) seen"
    "\<not> status_ok st \<Longrightarrow> up_inv (n\<lparr>rn_up := delivered (rn_up_broken n) (rn_up n) (take k b), rn_up_broken := True, rn_client := write_done st (rn_client n)\<rparr>) seen"
proof -
  have b: "batch_of (rn_client n) = b" using assms(2) by (simp add: batch_of_def)
  have eq: "seen @ rn_up n @ b @ concat (cl_out (rn_client n)) = frames kRequest 1 (cl_calls (rn_client n))" if "\<not> rn_up_broken n"
    using assms(1) that by (simp add: up_inv_def b)
  have pre: "prefix (seen @ rn_up n) (frames kRequest 1 (cl_calls (rn_client n)))" using assms(1) by (simp add: up_inv_def)
  have pre1: "prefix (seen @ rn_up n @ take i b) (frames kRequest 1 (cl_calls (rn_client n)))" if "\<not> rn_up_broken n" for i
    unfolding eq [OF that, symmetric] prefix_def by (rule exI [of _ "drop i b @ concat (cl_out (rn_client n))"]) simp
  show "up_inv (n\<lparr>rn_up := delivered (rn_up_broken n) (rn_up n) b, rn_client := write_done StOk (rn_client n)\<rparr>) seen"
    using pre pre1 [of "length b"] eq write_round_moves [of "rn_client n"]
    by (cases "rn_up_broken n") (simp_all add: up_inv_def delivered_def write_done_def status_ok_def)
  show "up_inv (n\<lparr>rn_up := delivered (rn_up_broken n) (rn_up n) (take k b), rn_up_broken := True, rn_client := write_done st (rn_client n)\<rparr>) seen"
    if "\<not> status_ok st" using pre pre1 [of k] by (cases "rn_up_broken n") (simp_all add: up_inv_def delivered_def)
qed

lemma server_quiet:
  assumes "server_inv sv h n seen k got" "rn_server n' = rn_server n" "rn_down n' = rn_down n" "rn_down_broken n' = rn_down_broken n" "cl_calls (rn_client n') = cl_calls (rn_client n)"
  shows "server_inv sv h n' seen k got"
  using assms by (simp add: server_inv_def)

lemma client_quiet:
  assumes "client_inv sv h n k got j" "cl_calls (rn_client n') = cl_calls (rn_client n)" "cl_results (rn_client n') = cl_results (rn_client n)"
    "cl_reading (rn_client n') = cl_reading (rn_client n)" "cl_buf (rn_client n') = cl_buf (rn_client n)" "cl_pending (rn_client n') = cl_pending (rn_client n)"
  shows "client_inv sv h n' k got j"
  using assms(1) unfolding client_inv_def Let_def assms(2-6) .

lemma up_quiet:
  assumes "up_inv n seen" "rn_up n' = rn_up n" "rn_up_broken n' = rn_up_broken n" "cl_calls (rn_client n') = cl_calls (rn_client n)"
    "cl_write (rn_client n') = cl_write (rn_client n)" "cl_out (rn_client n') = cl_out (rn_client n)"
  shows "up_inv n' seen"
  using assms by (simp add: up_inv_def batch_of_def)

lemma server_written:
  assumes "server_inv sv h n seen k got" "ss_pc (rn_server n) = SvWriting b"
  shows "server_inv sv h (n\<lparr>rn_down := delivered (rn_down_broken n) (rn_down n) b, rn_server := serve_written StOk (rn_server n)\<rparr>) seen k got"
    "\<not> status_ok st \<Longrightarrow> server_inv sv h (n\<lparr>rn_down := delivered (rn_down_broken n) (rn_down n) (take i b), rn_down_broken := True, rn_server := serve_written st (rn_server n)\<rparr>) seen k got"
proof -
  let ?r = "frames kResponse 1 (responses sv h (take k (cl_calls (rn_client n))))"
  have eq: "got @ rn_down n @ b = ?r" if "\<not> rn_down_broken n" using assms that by (simp add: server_inv_def Let_def reply_of_def)
  have pre1: "prefix (got @ rn_down n @ take l b) ?r" if "\<not> rn_down_broken n" for l
    unfolding eq [OF that, symmetric] prefix_def by (rule exI [of _ "drop l b"]) simp
  show "server_inv sv h (n\<lparr>rn_down := delivered (rn_down_broken n) (rn_down n) b, rn_server := serve_written StOk (rn_server n)\<rparr>) seen k got"
    using assms eq pre1 [of "length b"] by (cases "rn_down_broken n") (simp_all add: server_inv_def Let_def delivered_def serve_written_def status_ok_def reply_of_def)
  show "server_inv sv h (n\<lparr>rn_down := delivered (rn_down_broken n) (rn_down n) (take i b), rn_down_broken := True, rn_server := serve_written st (rn_server n)\<rparr>) seen k got"
    if "\<not> status_ok st" using assms pre1 [of i] that by (cases "rn_down_broken n") (simp_all add: server_inv_def Let_def delivered_def serve_written_def)
qed

lemma server_ended:
  assumes "server_inv sv h n seen k got" "ended (ss_pc s')"
  shows "server_inv sv h (n\<lparr>rn_up := u, rn_server := s'\<rparr>) seen' k got"
  using assms by (simp add: server_inv_def Let_def)

text \<open>With all calls answered nothing is left in the server's buffer.\<close>

lemma frames_split: "k \<le> length qs \<Longrightarrow> frames t 1 qs = frames t 1 (take k qs) @ frames t (Suc k) (drop k qs)"
  using frames_append [of t 1 "take k qs" "drop k qs"] by simp

lemma server_buffer:
  assumes "up_inv n seen" "server_inv sv h n seen k got" "\<not> ended (ss_pc (rn_server n))"
  shows "prefix (ss_buf (rn_server n) @ rn_up n) (frames kRequest (Suc k) (drop k (cl_calls (rn_client n))))"
proof -
  have k: "k \<le> length (cl_calls (rn_client n))" and s: "seen = frames kRequest 1 (take k (cl_calls (rn_client n))) @ ss_buf (rn_server n)"
    using assms(2,3) by (simp_all add: server_inv_def Let_def)
  show ?thesis using assms(1) unfolding up_inv_def frames_split [OF k] s by simp
qed

lemma client_buffer:
  assumes "server_inv sv h n seen k got" "client_inv sv h n k got j" "cl_reading (rn_client n)"
  shows "prefix (cl_buf (rn_client n) @ rn_down n) (frames kResponse (Suc j) (drop j (responses sv h (take k (cl_calls (rn_client n))))))"
proof -
  let ?rs = "responses sv h (take k (cl_calls (rn_client n)))"
  have "k \<le> length (cl_calls (rn_client n))" "prefix (got @ rn_down n) (frames kResponse 1 ?rs)" using assms(1) by (simp_all add: server_inv_def Let_def)
  moreover have "j \<le> k" "got = frames kResponse 1 (take j ?rs) @ cl_buf (rn_client n)" using assms(2,3) by (simp_all add: client_inv_def Let_def)
  ultimately show ?thesis using frames_split [of j ?rs kResponse] by simp
qed

lemma take_add_append: "take (k + m) xs = take k xs @ take m (drop k xs)"
  by (rule take_add)

lemma client_more:
  assumes "server_inv sv h n seen k got" "client_inv sv h n k got j" "k \<le> k'"
  shows "client_inv sv h n k' got j"
proof -
  let ?calls = "cl_calls (rn_client n)" let ?rs = "responses sv h (take k ?calls)" let ?rs' = "responses sv h (take k' ?calls)"
  have k: "k \<le> length ?calls" using assms(1) by (simp add: server_inv_def Let_def)
  have jk: "j \<le> k" using assms(2) by (simp add: client_inv_def Let_def)
  have rs: "\<exists>extra. ?rs' = ?rs @ extra" using take_add [of k "k' - k" ?calls] assms(3) by (simp add: responses_append)
  then have nth: "?rs' ! i = ?rs ! i" if "i < k" for i using that k by (auto simp: nth_append)
  have tk: "take j ?rs' = take j ?rs" using rs jk k by auto
  have empty: "cl_buf (rn_client n) = []" if "cl_reading (rn_client n)" "j = k" using client_buffer [OF assms(1,2) that(1)] that(2) k by simp
  have kh: "0 < kHeader" by (simp add: kHeader_def)
  show ?thesis
  proof (cases "cl_reading (rn_client n)")
    case True
    then have c: "\<forall>i < j. cl_results (rn_client n) i = Some (Inr (snd (?rs ! i)))" "got = frames kResponse 1 (take j ?rs) @ cl_buf (rn_client n)"
      "pending_from j (length ?calls) (cl_pending (rn_client n))" "j < k \<longrightarrow> length (cl_buf (rn_client n)) < kHeader + length (snd (?rs ! j))"
      "\<forall>i \<ge> j. cl_results (rn_client n) i = None" using assms(2) by (simp_all add: client_inv_def Let_def)
    have "length (cl_buf (rn_client n)) < kHeader + length (snd (?rs' ! j))" using c(4) nth [of j] empty [OF True] kh jk by (cases "j = k") simp_all
    then show ?thesis unfolding client_inv_def Let_def using c jk assms(3) nth tk True by simp
  next
    case False
    then show ?thesis using assms(2) jk assms(3) nth unfolding client_inv_def Let_def by simp
  qed
qed

text \<open>The server takes a chunk.\<close>

lemma server_reads:
  assumes "up_inv n seen" "server_inv sv h n seen k got" "client_inv sv h n k got j" "calls_inv (rn_client n)"
    "ss_pc (rn_server n) = SvReading" "rn_up n = chunk @ later" "chunk \<noteq> []"
    "n' = n\<lparr>rn_up := later, rn_server := serve_read sv is_open (Inr chunk) (rn_server n)\<rparr>"
  shows "\<exists>k'. up_inv n' (seen @ chunk) \<and> server_inv sv h n' (seen @ chunk) k' got \<and> client_inv sv h n' k' got j"
proof -
  let ?s = "(rn_server n)\<lparr>ss_buf := ss_buf (rn_server n) @ chunk\<rparr>"
  let ?calls = "cl_calls (rn_client n)"
  have r: "serve_read sv is_open (Inr chunk) (rn_server n) = serve_round sv is_open ?s" using assms(7) by (rule serve_read_chunk)
  have up: "up_inv n' (seen @ chunk)" using assms(1,6) unfolding assms(8) by (simp add: up_inv_def)
  have quit: ?thesis if "ended (ss_pc (rn_server n'))"
    using up server_ended [OF assms(2), of "rn_server n'" later "seen @ chunk"] that client_quiet [OF assms(3), of n'] unfolding assms(8) by auto
  obtain e rest out st where f: "serve_frames sv (ss_buf ?s) [] (ss_state ?s) = (e, rest, out, st)" by (metis prod_cases4)
  show ?thesis
  proof (cases "is_open \<and> e = None")
    case False
    then have "ended (ss_pc (rn_server n'))" unfolding assms(8) r using f by (auto simp: serve_round_def)
    then show ?thesis by (rule quit)
  next
    case True
    have sz: "sizes_ok ?calls" using assms(4) by (simp add: calls_inv_def)
    have inv: "k \<le> length ?calls" "seen = frames kRequest 1 (take k ?calls) @ ss_buf (rn_server n)" "ss_state (rn_server n) = state_after sv h (take k ?calls)"
      "sizes_ok (responses sv h (take k ?calls))" "prefix (got @ rn_down n) (frames kResponse 1 (responses sv h (take k ?calls)))"
      "\<not> rn_down_broken n \<longrightarrow> got @ rn_down n = frames kResponse 1 (responses sv h (take k ?calls))"
      using assms(2,5) by (simp_all add: server_inv_def Let_def reply_of_def)
    have "prefix (ss_buf ?s) (frames kRequest (Suc k) (drop k ?calls))"
      using server_buffer [OF assms(1,2)] assms(5,6) by (auto simp: prefix_def)
    from serve_frames_stream [OF this conjunct2 [OF sizes_ok_drop [OF sz]] f] True obtain m where m: "m \<le> length (drop k ?calls)"
      "ss_buf ?s = frames kRequest (Suc k) (take m (drop k ?calls)) @ rest" "out = frames kResponse (Suc k) (responses sv (ss_state ?s) (take m (drop k ?calls)))"
      "st = state_after sv (ss_state ?s) (take m (drop k ?calls))" "sizes_ok (responses sv (ss_state ?s) (take m (drop k ?calls)))"
      "m < length (drop k ?calls) \<longrightarrow> length rest < kHeader + length (snd (drop k ?calls ! m))" by auto
    have rs: "responses sv h (take (k + m) ?calls) = responses sv h (take k ?calls) @ responses sv (ss_state ?s) (take m (drop k ?calls))"
      using inv(3) by (simp add: take_add_append responses_append)
    have fr: "frames kResponse 1 (responses sv h (take (k + m) ?calls)) = frames kResponse 1 (responses sv h (take k ?calls)) @ out"
      unfolding rs frames_append m(3) using inv(1) by simp
    have s': "rn_server n' = ?s\<lparr>ss_pc := (if out \<noteq> [] then SvWriting out else SvReading), ss_buf := rest, ss_state := st\<rparr>"
      unfolding assms(8) r using f True by (simp add: serve_round_def)
    define T where "T = take (k + m) ?calls"
    have facts: "k + m \<le> length ?calls" "sizes_ok (responses sv h T)" "st = state_after sv h T" "seen @ chunk = frames kRequest 1 T @ rest"
      "prefix (got @ rn_down n) (frames kResponse 1 (responses sv h T))" "\<not> rn_down_broken n \<longrightarrow> got @ rn_down n @ out = frames kResponse 1 (responses sv h T)"
      "k + m < length ?calls \<longrightarrow> length rest < kHeader + length (snd (?calls ! (k + m)))"
      using m inv unfolding T_def fr by (simp_all add: take_add_append state_after_append responses_append frames_append prefix_prefix)
    have "reply_of (if out \<noteq> [] then SvWriting out else SvReading) = out" by (simp add: reply_of_def)
    moreover have "rn_down n' = rn_down n" "rn_down_broken n' = rn_down_broken n" "rn_client n' = rn_client n" unfolding assms(8) by simp_all
    ultimately have "server_inv sv h n' (seen @ chunk) (k + m) got"
      unfolding server_inv_def Let_def s' using facts by (simp add: T_def [symmetric])
    moreover have "client_inv sv h n' (k + m) got j"
      using client_more [OF assms(2,3), of "k + m"] client_quiet [of sv h n "k + m" got j n'] unfolding assms(8) by simp
    ultimately show ?thesis using up by blast
  qed
qed

text \<open>The client takes a chunk, or its stream ends.\<close>

lemma client_fails:
  assumes "client_inv sv h n k got j" "cl_reading (rn_client n)" "cl_calls c = cl_calls (rn_client n)"
    "cl_results c = cl_results (rn_client n)" "cl_pending c = cl_pending (rn_client n)"
  shows "client_inv sv h (n\<lparr>rn_down := d, rn_client := fail_pending c\<rparr>) k got' j"
proof -
  have p: "pending_from j (length (cl_calls (rn_client n))) (cl_pending (rn_client n))"
    and r: "\<forall>i < j. cl_results (rn_client n) i = Some (Inr (snd (responses sv h (take k (cl_calls (rn_client n))) ! i)))"
      "\<forall>i \<ge> j. cl_results (rn_client n) i = None" and jk: "j \<le> k" using assms(1,2) by (simp_all add: client_inv_def Let_def)
  have "Some i \<in> range f \<longleftrightarrow> (\<exists>id. f id = Some i)" for i :: nat and f :: "u64 \<Rightarrow> nat option" by (metis rangeE rangeI)
  then have "Some i \<in> range (cl_pending (rn_client n)) \<longleftrightarrow> j \<le> i \<and> i < length (cl_calls (rn_client n))" for i
    using p unfolding pending_from_def by simp
  then show ?thesis using r jk unfolding client_inv_def Let_def fail_pending_def by (simp add: assms(3-5) linorder_not_le)
qed

lemma client_reads:
  assumes "server_inv sv h n seen k got" "client_inv sv h n k got j" "length (cl_calls (rn_client n)) < 2 ^ 64"
    "cl_reading (rn_client n)" "rn_down n = chunk @ later" "chunk \<noteq> []"
    "n' = n\<lparr>rn_down := later, rn_client := read_done (Inr chunk) (rn_client n)\<rparr>" "calls_inv (rn_client n)" "up_inv n seen"
  shows "\<exists>j'. client_inv sv h n' k (got @ chunk) j' \<and> server_inv sv h n' seen k (got @ chunk) \<and> up_inv n' seen \<and> calls_inv (rn_client n')"
proof -
  let ?c = "(rn_client n)\<lparr>cl_buf := cl_buf (rn_client n) @ chunk\<rparr>"
  let ?calls = "cl_calls (rn_client n)" let ?rs = "responses sv h (take k ?calls)"
  have r: "rn_client n' = read_round ?c" unfolding assms(7) by (simp add: read_done_chunk [OF assms(6)])
  have others: "server_inv sv h n' seen k (got @ chunk) \<and> up_inv n' seen \<and> calls_inv (rn_client n')"
    if "cl_calls (rn_client n') = ?calls" "cl_write (rn_client n') = cl_write (rn_client n)" "cl_out (rn_client n') = cl_out (rn_client n)"
      "cl_next_req_id (rn_client n') = cl_next_req_id (rn_client n)"
  proof -
    have "rn_down n' = later" "rn_server n' = rn_server n" "rn_down_broken n' = rn_down_broken n" "rn_up n' = rn_up n" "rn_up_broken n' = rn_up_broken n"
      unfolding assms(7) by simp_all
    then show ?thesis using assms(1,5,8) up_quiet [OF assms(9), of n'] that by (simp add: server_inv_def Let_def calls_inv_def)
  qed
  show ?thesis
  proof (cases "cl_open (rn_client n)")
    case False
    then have f: "rn_client n' = fail_pending ?c" using r by (simp add: read_round_def)
    have "client_inv sv h (n\<lparr>rn_down := later, rn_client := fail_pending ?c\<rparr>) k (got @ chunk) j" using client_fails [OF assms(2,4)] by simp
    moreover have "n' = n\<lparr>rn_down := later, rn_client := fail_pending ?c\<rparr>" using f unfolding assms(7) by simp
    ultimately show ?thesis using others by (simp add: fail_pending_def) blast
  next
    case True
    have k: "k \<le> length ?calls" and szs: "sizes_ok ?rs" using assms(1) by (simp_all add: server_inv_def Let_def)
    have inv: "j \<le> k" "got = frames kResponse 1 (take j ?rs) @ cl_buf (rn_client n)" "pending_from j (length ?calls) (cl_pending (rn_client n))"
      "\<forall>i < j. cl_results (rn_client n) i = Some (Inr (snd (?rs ! i)))" "\<forall>i \<ge> j. cl_results (rn_client n) i = None"
      using assms(2,4) by (simp_all add: client_inv_def Let_def)
    have len: "length ?rs = k" using k by simp
    have pre: "prefix (cl_buf ?c) (frames kResponse (Suc j) (drop j ?rs))" using client_buffer [OF assms(1,2,4)] assms(5) by (auto simp: prefix_def)
    have fits: "j + length (drop j ?rs) \<le> length (cl_calls ?c)" "pending_from j (length (cl_calls ?c)) (cl_pending ?c)" "length (cl_calls ?c) < 2 ^ 64"
      using k inv(1,3) assms(3) by simp_all
    obtain m rest where m: "m \<le> length (drop j ?rs)" "cl_buf ?c = frames kResponse (Suc j) (take m (drop j ?rs)) @ rest"
      "took j (take m (drop j ?rs)) rest ?c (read_frames ?c)" "m < length (drop j ?rs) \<longrightarrow> length rest < kHeader + length (snd (drop j ?rs ! m))"
      using read_frames_stream [OF pre conjunct2 [OF sizes_ok_drop [OF szs]] fits(2,1,3)] by blast
    have lm: "length (take m (drop j ?rs)) = m" using m(1) by simp
    have rf: "rn_client n' = read_frames ?c" using r True by (simp add: read_round_def)
    obtain pend where p0: "pending_from (j + m) (length (cl_calls ?c)) pend" and c': "rn_client n' = ?c\<lparr>cl_buf := rest, cl_pending := pend,
        cl_results := (\<lambda>i. if j \<le> i \<and> i < j + m then Some (Inr (snd (take m (drop j ?rs) ! (i - j)))) else cl_results ?c i)\<rparr>"
      using m(3) unfolding took_def lm rf by blast
    from p0 have p: "pending_from (j + m) (length ?calls) pend" by simp
    have jm: "j + m \<le> k" using m(1) len inv(1) by simp
    have "got @ chunk = frames kResponse 1 (take (j + m) ?rs) @ rest" using m(2) inv(1,2) len by (simp add: take_add_append frames_append)
    moreover have "\<forall>i < j + m. cl_results (rn_client n') i = Some (Inr (snd (?rs ! i)))" using inv(1,4) jm len unfolding c' by auto
    moreover have "\<forall>i \<ge> j + m. cl_results (rn_client n') i = None" using inv(5) unfolding c' by auto
    moreover have "j + m < k \<longrightarrow> length rest < kHeader + length (snd (?rs ! (j + m)))" using m(4) len inv(1) by simp
    moreover have "cl_calls (rn_client n') = ?calls" "cl_reading (rn_client n')" "cl_buf (rn_client n') = rest" "cl_pending (rn_client n') = pend"
      using assms(4) unfolding c' by simp_all
    ultimately have "client_inv sv h n' k (got @ chunk) (j + m)" unfolding client_inv_def Let_def using jm p by simp
    then show ?thesis using others unfolding c' by auto
  qed
qed

text \<open>A new call.\<close>

lemma pending_from_call:
  assumes "pending_from j n pend" "j \<le> n" "Suc n < 2 ^ 64"
  shows "pending_from j (Suc n) (pend(of_nat (Suc n) \<mapsto> n))"
  unfolding pending_from_def
proof (intro allI)
  fix id :: u64 and i
  have "i = n" if "i < Suc n" "of_nat (Suc i) = (of_nat (Suc n) :: u64)" using of_nat_id_inj [OF that(2)] that(1) assms(3) by (metis Suc_inject Suc_lessD Suc_mono order_less_trans less_SucE)
  then show "(pend(of_nat (Suc n) \<mapsto> n)) id = Some i \<longleftrightarrow> j \<le> i \<and> i < Suc n \<and> id = of_nat (Suc i)"
    using assms(1,2) unfolding pending_from_def fun_upd_apply by (metis less_SucE less_SucI lessI option.inject)
qed

lemma call_keeps:
  assumes "rpc_inv sv h n" "n' = n\<lparr>rn_client := snd (rpc_Call v p (rn_client n))\<rparr>" "length (cl_calls (rn_client n')) < 2 ^ 64"
  shows "rpc_inv sv h n'"
proof (cases "cl_open (rn_client n) \<and> length p \<le> kMaxPayloadBytes")
  case False
  then have "n' = n" unfolding assms(2) by (auto simp: rpc_Call_def)
  then show ?thesis using assms(1) by simp
next
  case True
  let ?c = "rn_client n" let ?i = "length (cl_calls ?c)"
  obtain seen k got j where inv: "up_inv n seen" "server_inv sv h n seen k got" "client_inv sv h n k got j" "calls_inv ?c"
    using assms(1) by (auto simp: rpc_inv_def)
  define c' where "c' = rn_client n'"
  have f: "cl_calls c' = cl_calls ?c @ [(v, p)]" "cl_out c' = cl_out ?c @ [EncodeHeader (header_for kRequest (Suc ?i) v p) @ p]"
    "cl_write c' = (if cl_write ?c = WlIdle then WlSpawned else cl_write ?c)" "cl_pending c' = (cl_pending ?c)(of_nat (Suc ?i) \<mapsto> ?i)"
    "cl_next_req_id c' = of_nat (Suc (Suc ?i))" "cl_results c' = cl_results ?c" "cl_reading c' = cl_reading ?c" "cl_buf c' = cl_buf ?c"
    using True inv(4) unfolding c'_def assms(2)
    by (simp_all add: rpc_Call_def SendFrame_def Let_def calls_inv_def header_for_def AppendFrame_def linorder_not_less [symmetric])
  have g: "rn_up n' = rn_up n" "rn_up_broken n' = rn_up_broken n" "rn_server n' = rn_server n" "rn_down n' = rn_down n" "rn_down_broken n' = rn_down_broken n"
    unfolding assms(2) by simp_all
  have k: "k \<le> ?i" using inv(2) by (simp add: server_inv_def Let_def)
  have lt: "Suc ?i < 2 ^ 64" using assms(3) f(1) unfolding c'_def by simp
  have "calls_inv c'" using inv(4) True f by (simp add: calls_inv_def)
  moreover have "up_inv n' seen"
  proof -
    have fr: "frames kRequest 1 (cl_calls c') = frames kRequest 1 (cl_calls ?c) @ EncodeHeader (header_for kRequest (Suc ?i) v p) @ p"
      unfolding f(1) frames_append by simp
    have "batch_of c' = batch_of ?c" using f(3) by (simp add: batch_of_def split: write_pc.splits)
    then show ?thesis using inv(1) f(2,3) unfolding up_inv_def c'_def [symmetric] g fr by (simp add: prefix_prefix)
  qed
  moreover have "server_inv sv h n' seen k got"
  proof -
    have "ss_buf (rn_server n) = []" if "\<not> ended (ss_pc (rn_server n))" "k = ?i" using server_buffer [OF inv(1,2) that(1)] that(2) by simp
    then show ?thesis using inv(2) k unfolding server_inv_def Let_def c'_def [symmetric] g f by (auto simp: nth_append kHeader_def)
  qed
  moreover have "client_inv sv h n' k got j"
  proof -
    have "pending_from j (Suc ?i) (cl_pending c')" if "cl_reading ?c"
      unfolding f(4) using inv(3) that k by (intro pending_from_call lt) (simp_all add: client_inv_def Let_def)
    then show ?thesis using inv(3) k f(6-8) unfolding client_inv_def Let_def c'_def [symmetric]
      by (cases "cl_reading ?c") (simp_all add: f(1), metis less_SucI)
  qed
  ultimately show ?thesis unfolding rpc_inv_def c'_def by blast
qed

lemma read_frames_calls [simp]: "cl_calls (read_frames c) = cl_calls c"
proof (induction c rule: read_frames.induct)
  case (1 c)
  then show ?case by (subst read_frames.simps) (auto simp: finish_call_def split: next_frame.splits option.splits)
qed

lemma calls_grow: "rpc_step sv n n' \<Longrightarrow> length (cl_calls (rn_client n)) \<le> length (cl_calls (rn_client n'))"
  by (induction rule: rpc_step.induct)
    (auto simp: rpc_Call_def SendFrame_def Let_def rpc_Close_def read_done_def read_round_def fail_pending_def split: list.splits)

lemma rpc_inv_step:
  assumes "rpc_step sv n n'" "rpc_inv sv h n" "length (cl_calls (rn_client n')) < 2 ^ 64"
  shows "rpc_inv sv h n'"
proof -
  obtain seen k got j where inv: "up_inv n seen" "server_inv sv h n seen k got" "client_inv sv h n k got j" "calls_inv (rn_client n)"
    using assms(2) by (auto simp: rpc_inv_def)
  from assms(1) show ?thesis
  proof cases
    case (rs_call verb payload)
    then show ?thesis using call_keeps [OF assms(2) _ assms(3)] by blast
  next
    case rs_close
    then show ?thesis using up_quiet [OF inv(1), of n'] server_quiet [OF inv(2), of n'] client_quiet [OF inv(3), of n'] inv(4)
      unfolding rpc_inv_def by (simp add: rpc_Close_def calls_inv_def) blast
  next
    case rs_write
    have "up_inv n' seen" using inv(1) rs_write(2) write_round_moves [of "rn_client n"] unfolding rs_write(1) up_inv_def by (simp add: batch_of_def)
    then show ?thesis using server_quiet [OF inv(2), of n'] client_quiet [OF inv(3), of n'] inv(4) unfolding rpc_inv_def rs_write(1) by (simp add: calls_inv_def) blast
  next
    case (rs_written b)
    then show ?thesis using up_written(1) [OF inv(1) rs_written(2)] server_quiet [OF inv(2), of n'] client_quiet [OF inv(3), of n'] inv(4)
      unfolding rpc_inv_def by (simp add: calls_inv_def) blast
  next
    case (rs_write_failed b st i)
    then show ?thesis using up_written(2) [OF inv(1) rs_write_failed(2,3), of i] server_quiet [OF inv(2), of n'] client_quiet [OF inv(3), of n'] inv(4)
      unfolding rpc_inv_def by (simp add: calls_inv_def) blast
  next
    case (rs_serve chunk later is_open)
    then show ?thesis using server_reads [OF inv rs_serve(2-4) rs_serve(1)] inv(4) unfolding rpc_inv_def by auto
  next
    case (rs_serve_ends r is_open)
    then have "ended (ss_pc (rn_server n'))" by (auto simp: serve_read_def)
    then show ?thesis using server_ended [OF inv(2), of "rn_server n'" "rn_up n" seen] up_quiet [OF inv(1), of n'] client_quiet [OF inv(3), of n'] inv(4)
      unfolding rpc_inv_def rs_serve_ends(1) by simp blast
  next
    case (rs_served b)
    then show ?thesis using server_written(1) [OF inv(2) rs_served(2)] up_quiet [OF inv(1), of n'] client_quiet [OF inv(3), of n'] inv(4)
      unfolding rpc_inv_def by simp blast
  next
    case (rs_serve_failed b st i)
    then show ?thesis using server_written(2) [OF inv(2) rs_serve_failed(2,3), of i] up_quiet [OF inv(1), of n'] client_quiet [OF inv(3), of n'] inv(4)
      unfolding rpc_inv_def by simp blast
  next
    case (rs_read chunk later)
    have "length (cl_calls (rn_client n)) < 2 ^ 64" using calls_grow [OF assms(1)] assms(3) by simp
    from client_reads [OF inv(2,3) this rs_read(2-4) rs_read(1) inv(4,1)] show ?thesis unfolding rpc_inv_def by blast
  next
    case (rs_read_ends r)
    then have f: "rn_client n' = fail_pending (rn_client n)" by (auto simp: read_done_def)
    then have n': "n' = n\<lparr>rn_down := rn_down n, rn_client := fail_pending (rn_client n)\<rparr>" using rs_read_ends(1) by simp
    have "client_inv sv h n' k got j" unfolding n' by (rule client_fails [OF inv(3) rs_read_ends(2) refl refl refl])
    then show ?thesis using server_quiet [OF inv(2), of n'] up_quiet [OF inv(1), of n'] inv(4) unfolding rpc_inv_def rs_read_ends(1) f [unfolded rs_read_ends(1)]
      by (simp add: fail_pending_def calls_inv_def) blast
  qed
qed

lemma rpc_inv_steps:
  assumes "(rpc_step sv)\<^sup>*\<^sup>* (rpc_start h) n" "length (cl_calls (rn_client n)) < 2 ^ 64"
  shows "rpc_inv sv h n"
  using assms
proof (induction rule: rtranclp_induct)
  case base
  show ?case by (rule rpc_inv_start)
next
  case (step n n')
  then show ?case using rpc_inv_step [OF step(2) _ step(4)] calls_grow [OF step(2)] by simp
qed

lemma frames_first: "k < length qs \<Longrightarrow> kHeader + length (snd (qs ! k)) \<le> length (frames t i (drop k qs))"
  by (subst Cons_nth_drop_Suc [symmetric]) (simp_all add: case_prod_unfold frames.simps(2) [of t i "fst (qs ! k)" "snd (qs ! k)", simplified])

text \<open>Nothing is on its way and nobody is working.\<close>

definition rpc_idle :: "'h rpc_net \<Rightarrow> bool" where
  "rpc_idle n \<longleftrightarrow> cl_reading (rn_client n) \<and> cl_write (rn_client n) = WlIdle \<and> ss_pc (rn_server n) = SvReading \<and>
     rn_up n = [] \<and> rn_down n = [] \<and> \<not> rn_up_broken n \<and> \<not> rn_down_broken n"

lemma idle_all_answered:
  assumes "rpc_inv sv h n" "rpc_idle n" "i < length (cl_calls (rn_client n))"
  shows "cl_results (rn_client n) i = Some (Inr (snd (responses sv h (cl_calls (rn_client n)) ! i)))"
proof -
  let ?c = "rn_client n" let ?calls = "cl_calls ?c"
  obtain seen k got j where inv: "up_inv n seen" "server_inv sv h n seen k got" "client_inv sv h n k got j" using assms(1) by (auto simp: rpc_inv_def)
  have up: "seen = frames kRequest 1 ?calls" using inv(1) assms(2) by (auto simp: up_inv_def rpc_idle_def batch_of_def)
  have s: "k \<le> length ?calls" "seen = frames kRequest 1 (take k ?calls) @ ss_buf (rn_server n)"
    "k < length ?calls \<longrightarrow> length (ss_buf (rn_server n)) < kHeader + length (snd (?calls ! k))" "got = frames kResponse 1 (responses sv h (take k ?calls))"
    using inv(2) assms(2) by (simp_all add: server_inv_def Let_def rpc_idle_def reply_of_def)
  have "ss_buf (rn_server n) = frames kRequest (Suc k) (drop k ?calls)" using up s(2) frames_split [OF s(1), of kRequest] by simp
  then have k: "k = length ?calls" using s(1,3) frames_first [of k ?calls kRequest "Suc k"] by fastforce
  let ?rs = "responses sv h ?calls"
  have c: "j \<le> k" "got = frames kResponse 1 (take j ?rs) @ cl_buf ?c" "j < k \<longrightarrow> length (cl_buf ?c) < kHeader + length (snd (?rs ! j))"
    "\<forall>i < j. cl_results ?c i = Some (Inr (snd (?rs ! i)))" using inv(3) assms(2) k by (simp_all add: client_inv_def Let_def rpc_idle_def)
  have len: "length ?rs = k" using k by simp
  have "cl_buf ?c = frames kResponse (Suc j) (drop j ?rs)" using c(2) s(4) k frames_split [of j ?rs kResponse] c(1) len by simp
  then have "j = k" using c(1,3) frames_first [of j ?rs kResponse "Suc j"] len by fastforce
  then show ?thesis using c(4) k assms(3) by simp
qed

text \<open>
  C10: every call gets its own response. With a client and a server connected by streams that cut
  the bytes anywhere and may fail, and fewer than 2^64 calls on the connection, a call that is done
  has exactly what the server's handlers answer to it when the calls are served in the order they
  were made, or failed as unavailable; and once nothing is on its way and neither side has work
  left, all calls are done with their responses.
\<close>

theorem rpc_calls_get_their_responses:
  assumes "(rpc_step sv)\<^sup>*\<^sup>* (rpc_start h) n" "length (cl_calls (rn_client n)) < 2 ^ 64"
  shows "(cl_results (rn_client n) i = Some r \<longrightarrow>
      i < length (cl_calls (rn_client n)) \<and> (r = Inl StUnavailable \<or> r = Inr (snd (responses sv h (cl_calls (rn_client n)) ! i)))) \<and>
    (rpc_idle n \<and> i < length (cl_calls (rn_client n)) \<longrightarrow>
      cl_results (rn_client n) i = Some (Inr (snd (responses sv h (cl_calls (rn_client n)) ! i))))"
proof -
  let ?calls = "cl_calls (rn_client n)"
  have rpc: "rpc_inv sv h n" using rpc_inv_steps [OF assms] .
  then obtain seen k got j where inv: "server_inv sv h n seen k got" "client_inv sv h n k got j" by (auto simp: rpc_inv_def)
  have k: "k \<le> length ?calls" using inv(1) by (simp add: server_inv_def Let_def)
  have nth: "responses sv h (take k ?calls) ! i = responses sv h ?calls ! i" if "i < k" for i
    using responses_append [of sv h "take k ?calls" "drop k ?calls"] that k by (simp add: nth_append)
  have res: "j \<le> k" "i < j \<longrightarrow> cl_results (rn_client n) i = Some (Inr (snd (responses sv h (take k ?calls) ! i)))"
    "j \<le> i \<longrightarrow> cl_results (rn_client n) i = None \<or> (cl_results (rn_client n) i = Some (Inl StUnavailable) \<and> i < length ?calls)"
    using inv(2) by (simp_all add: client_inv_def Let_def split: if_splits)
  show ?thesis using res k nth [of i] idle_all_answered [OF rpc] by (cases "i < j") auto
qed

text \<open>
  C37: a call made after the peer has closed the connection never returns. Once the reader has
  ended while the client still counts as open, which is what the end of the stream leads to,
  \<open>Call\<close> accepts a request, and nothing that happens afterwards completes it.
\<close>

theorem Call_after_eof_never_returns:
  assumes "(rpc_step sv)\<^sup>*\<^sup>* (rpc_start h) n" "length (cl_calls (rn_client n)) < 2 ^ 64" "\<not> cl_reading (rn_client n)" "cl_open (rn_client n)"
    "length p \<le> kMaxPayloadBytes" "rpc_Call v p (rn_client n) = (st, c)" "(rpc_step sv)\<^sup>*\<^sup>* (n\<lparr>rn_client := c\<rparr>) n'"
  shows "st = StOk \<and> cl_results (rn_client n') (length (cl_calls (rn_client n))) = None"
proof -
  let ?i = "length (cl_calls (rn_client n))"
  obtain seen k got j where inv: "server_inv sv h n seen k got" "client_inv sv h n k got j" using rpc_inv_steps [OF assms(1,2)] by (auto simp: rpc_inv_def)
  then have "k \<le> ?i" "j \<le> k" "\<forall>i \<ge> j. cl_results (rn_client n) i = None \<or> (cl_results (rn_client n) i = Some (Inl StUnavailable) \<and> i < ?i)"
    using assms(3) by (simp_all add: client_inv_def server_inv_def Let_def)
  then have none: "cl_results (rn_client n) ?i = None" by (metis less_irrefl order_trans)
  have c: "st = StOk" "cl_results c = cl_results (rn_client n)" "\<not> cl_reading c"
    using assms(3-6) by (auto simp: rpc_Call_def SendFrame_def Let_def split: if_splits)
  have "cl_results (rn_client n') = cl_results c \<and> \<not> cl_reading (rn_client n')" using assms(7)
  proof (induction rule: rtranclp_induct)
    case base
    then show ?case using c by simp
  next
    case (step m m')
    from step(2,3) show ?case
      by (induction rule: rpc_step.induct) (auto simp: rpc_Call_def SendFrame_def Let_def rpc_Close_def)
  qed
  then show ?thesis using none c by simp
qed

lemma read_frames_last:
  assumes "next_frame kResponse (cl_buf c) = Frame h p []" "cl_pending c (wh_req_id h) = Some i"
  shows "read_frames c = (finish_call i (Inr p) (c\<lparr>cl_pending := (cl_pending c)(wh_req_id h := None)\<rparr>))\<lparr>cl_buf := []\<rparr>"
  using assms by (simp add: read_frames.simps [of c] read_frames.simps [of "r\<lparr>cl_buf := []\<rparr>" for r] next_frame_def [of _ "[]"] kHeader_def)

text \<open>A server that appends a byte, and one call on it.\<close>

definition mark_server :: "unit rpc_server" where
  "mark_server = OnVerb 7 (\<lambda>st p. (p @ [42], st)) \<lparr>sv_handlers = Map.empty, sv_async_handlers = Map.empty\<rparr>"

theorem Call_after_eof_never_returns_witness:
  "\<exists>n. (rpc_step mark_server)\<^sup>*\<^sup>* (rpc_start ()) n \<and> fst (rpc_Call 7 [1] (rn_client n)) = StOk \<and>
    cl_results (rn_client (n\<lparr>rn_client := snd (rpc_Call 7 [1] (rn_client n))\<rparr>)) 0 = None"
proof -
  define n :: "unit rpc_net" where "n = (rpc_start ())\<lparr>rn_client := read_done (Inr []) (rn_client (rpc_start ()))\<rparr>"
  have "rpc_step mark_server (rpc_start ()) n" unfolding n_def by (rule rs_read_ends) (simp_all add: rpc_start_def connected_client_def)
  then have r: "(rpc_step mark_server)\<^sup>*\<^sup>* (rpc_start ()) n" by (rule r_into_rtranclp)
  have f: "length (cl_calls (rn_client n)) = 0" "\<not> cl_reading (rn_client n)" "cl_open (rn_client n)"
    by (simp_all add: n_def rpc_start_def connected_client_def read_done_def fail_pending_def)
  obtain st c where c: "rpc_Call 7 [1] (rn_client n) = (st, c)" by fastforce
  show ?thesis using Call_after_eof_never_returns [OF r _ f(2,3) _ c rtranclp.rtrancl_refl] r f(1) c
    by (intro exI [of _ n]) (simp add: kMaxPayloadBytes_def)
qed

theorem rpc_calls_get_their_responses_witness:
  "\<exists>n. (rpc_step mark_server)\<^sup>*\<^sup>* (rpc_start ()) n \<and> rpc_idle n \<and> cl_calls (rn_client n) = [(7, [1])] \<and> cl_results (rn_client n) 0 = Some (Inr [1, 42])"
proof -
  let ?h = "header_for kRequest 1 7 [1]" let ?r = "header_for kResponse 1 7 [1, 42]"
  let ?q = "EncodeHeader ?h @ [1]" let ?a = "EncodeHeader ?r @ [1, 42]"
  have kM: "kMaxPayloadBytes = 16777216" by (simp add: kMaxPayloadBytes_def)
  have ne: "?q \<noteq> []" "?a \<noteq> []" by simp_all
  have nq: "next_frame kRequest ?q = Frame ?h [1] []" using next_frame_whole [OF header_for_ok [of "[1]" kRequest 1 7], of "[]"] kM by simp
  have na: "next_frame kResponse ?a = Frame ?r [1, 42] []" using next_frame_whole [OF header_for_ok [of "[1, 42]" kResponse 1 7], of "[]"] kM by simp
  have n0: "next_frame t [] = NeedMore" for t by (simp add: next_frame_def kHeader_def)
  define c1 where "c1 = connected_client\<lparr>cl_next_req_id := 2, cl_pending := [1 \<mapsto> 0], cl_calls := [(7, [1])], cl_out := [?q], cl_write := WlSpawned\<rparr>"
  define n1 where "n1 = (rpc_start ())\<lparr>rn_client := c1\<rparr>"
  define n2 where "n2 = n1\<lparr>rn_client := c1\<lparr>cl_write := WlWriting ?q, cl_out := []\<rparr>\<rparr>"
  define n3 where "n3 = n1\<lparr>rn_client := c1\<lparr>cl_write := WlIdle, cl_out := []\<rparr>, rn_up := ?q\<rparr>"
  define n4 where "n4 = n3\<lparr>rn_up := [], rn_server := (serve_start ())\<lparr>ss_pc := SvWriting ?a\<rparr>\<rparr>"
  define n5 where "n5 = n4\<lparr>rn_down := ?a, rn_server := serve_start ()\<rparr>"
  define n6 where "n6 = n5\<lparr>rn_down := [], rn_client := (rn_client n5)\<lparr>cl_pending := Map.empty, cl_results := [0 \<mapsto> Inr [1, 42]]\<rparr>\<rparr>"
  note d = n1_def c1_def rpc_start_def connected_client_def
  have c1: "snd (rpc_Call 7 [1] connected_client) = c1"
    by (simp add: rpc_Call_def SendFrame_def Let_def c1_def connected_client_def kM header_for_def AppendFrame_def)
  have 1: "rpc_step mark_server (rpc_start ()) n1" using rs_call [of mark_server "rpc_start ()" 7 "[1]"] c1 by (simp add: n1_def rpc_start_def)
  have 2: "rpc_step mark_server n1 n2" using rs_write [of n1 mark_server] by (simp add: n2_def d write_round_def)
  have 3: "rpc_step mark_server n2 n3" using rs_written [of n2 ?q mark_server] by (simp add: n2_def n3_def d delivered_def write_done_def write_round_def status_ok_def)
  have s0: "serve_frames sv [] out st = (None, [], out, st)" for sv :: "unit rpc_server" and out st by (subst serve_frames.simps) (simp add: n0)
  have sv: "serve_frames mark_server ?q [] () = (None, [], ?a, ())"
    by (subst serve_frames.simps, unfold nq) (simp add: s0 dispatch_def mark_server_def OnVerb_def kM AppendFrame_def header_for_def)
  have "serve_read mark_server True (Inr ?q) (serve_start ()) = (serve_start ())\<lparr>ss_pc := SvWriting ?a\<rparr>"
    using sv by (simp add: serve_read_chunk serve_start_def serve_round_def)
  then have 4: "rpc_step mark_server n3 n4" using rs_serve [of n3 ?q "[]" mark_server True] by (simp add: n4_def n3_def d serve_start_def)
  have 5: "rpc_step mark_server n4 n5" using rs_served [of n4 ?a mark_server]
    by (simp add: n5_def n4_def n3_def d delivered_def serve_written_def status_ok_def serve_start_def)
  have "read_done (Inr ?a) (rn_client n5) = rn_client n6"
  proof -
    have "read_done (Inr ?a) (rn_client n5) = read_frames ((rn_client n5)\<lparr>cl_buf := ?a\<rparr>)"
      by (simp add: read_done_chunk read_round_def n5_def n4_def n3_def d)
    also have "\<dots> = (finish_call 0 (Inr [1, 42]) ((rn_client n5)\<lparr>cl_pending := (cl_pending (rn_client n5))(1 := None)\<rparr>))\<lparr>cl_buf := []\<rparr>"
      using read_frames_last [of "(rn_client n5)\<lparr>cl_buf := ?a\<rparr>" ?r "[1, 42]" 0] na
      by (simp add: n5_def n4_def n3_def d header_for_def finish_call_def)
    also have "\<dots> = rn_client n6" by (simp add: n6_def n5_def n4_def n3_def d finish_call_def)
    finally show ?thesis .
  qed
  then have 6: "rpc_step mark_server n5 n6" using rs_read [of n5 ?a "[]" mark_server] by (simp add: n6_def n5_def n4_def n3_def d)
  have r: "(rpc_step mark_server)\<^sup>*\<^sup>* (rpc_start ()) n6" using 1 2 3 4 5 6 by (meson rtranclp.rtrancl_into_rtrancl rtranclp.rtrancl_refl)
  have i: "rpc_idle n6" "cl_calls (rn_client n6) = [(7, [1])]" by (simp_all add: rpc_idle_def n6_def n5_def n4_def n3_def d serve_start_def)
  show ?thesis using rpc_calls_get_their_responses [OF r, of 0 "Inr [1, 42]"] r i
    by (intro exI [of _ n6]) (simp add: dispatch_def mark_server_def OnVerb_def)
qed

section \<open>Connecting\<close>

text \<open>
  The answers of the system calls of \<open>Connect\<close> in order: the descriptor, whether the address is
  numeric IPv4, whether it connected, the descriptor's flags, whether they could be set, and whether
  the worker registered the connection. The result has the descriptors that were closed.
\<close>

record connect_env =
  ce_socket :: int
  ce_address_ok :: bool
  ce_connected :: bool
  ce_flags :: int
  ce_nonblocking :: bool
  ce_registered :: bool

definition rpc_Connect :: "connect_env \<Rightarrow> rpc_client \<Rightarrow> status \<times> int list \<times> rpc_client" where
  "rpc_Connect env c =
     (let fd = ce_socket env in
      if fd < 0 then (StInternal, [], c)
      else if \<not> ce_address_ok env then (StInvalidArgument, [fd], c)
      else if \<not> ce_connected env then (StUnavailable, [fd], c)
      else if ce_flags env < 0 \<or> \<not> ce_nonblocking env then (StInternal, [fd], c)
      else if \<not> ce_registered env then (StInternal, [fd], c)
      else (StOk, [], c\<lparr>cl_open := True, cl_reading := True, cl_buf := []\<rparr>))"

definition new_client :: rpc_client where
  "new_client = \<lparr>cl_open = False, cl_out = [], cl_write = WlIdle, cl_pending = Map.empty, cl_next_req_id = 1, cl_reading = False,
     cl_buf = [], cl_calls = [], cl_results = Map.empty\<rparr>"

text \<open>A failed connect leaves the client as it was and closes the descriptor it opened, once; a successful one gives the client the theorems start from.\<close>

lemma rpc_Connect_cases:
  assumes "rpc_Connect env c = (st, closed, c')"
  shows "if status_ok st then closed = [] \<and> (c = new_client \<longrightarrow> c' = connected_client)
    else c' = c \<and> closed = (if ce_socket env < 0 then [] else [ce_socket env])"
  using assms by (auto simp: rpc_Connect_def Let_def status_ok_def new_client_def connected_client_def split: if_splits)

end
