(* ===== verification/Spec2Isabelle.thy ===== *)
theory Spec2Isabelle
  imports Inline_Ring Circular_Queue Frame_Pool Cross_Core Lane_Protocol Worker_Loop Worker_Stats Uring_Recv Spdk_Requests Spdk_Tables Sync Dpdk_Completions Dpdk_Runtime Dpdk_Wait Rpc
begin

text \<open>
  A verification development for bycorf, a coroutine server framework in C++ and C. A program has
  one worker thread per core. A worker schedules coroutines (src/src/runtime/worker.cpp), exchanges
  work with other workers through lock-free lanes (src/include/bycorf/runtime/cross_core.h), and
  drives a storage and a network backend: io_uring (src/src/io/io_uring_backend.cpp), or in user
  space SPDK for storage (src/src/io/spdk_storage.cpp) and DPDK with the FreeBSD TCP stack for the
  network (src/src/io/dpdk_backend.cpp). On top lie connections, streams and an RPC layer.

  \<^bold>\<open>Shared vocabulary.\<close> \<open>Bycorf_Prelude\<close> has the machine words, the error monad, the status codes,
  error numbers, bit widths and generic facts. \<open>Fifo\<close> is the interface \<open>fifo\<close> of a first-in
  first-out queue, interpreted by \<open>Inline_Ring\<close> and \<open>Circular_Queue\<close>. \<open>Dpdk_Completions\<close> has the
  interface \<open>pin_table\<close> of a table with pinned entries, interpreted on the socket table.

  \<^bold>\<open>Containers and memory.\<close> \<open>Inline_Ring\<close> (inline_ring_queue.h) and \<open>Circular_Queue\<close>
  (circular_queue.h) model the two ring buffers on their arrays and words; any legal run behaves as
  the run on a list, growth, moves and failed allocations included. \<open>Frame_Pool\<close>
  (coroutine_frame_pool.h) models the cache of coroutine frames on an explicit heap; an allocation
  never returns a frame in use and always one large enough.

  \<^bold>\<open>Workers.\<close> \<open>Spsc_Ring\<close>, \<open>Lane_Protocol\<close> and \<open>Cross_Core\<close> (cross_core.h, worker.cpp) model the
  single-producer ring, the publish, park and wake protocol, and the drain of a mailbox. The first
  two interleave single accesses to shared memory: values arrive in order and once, and no parked
  worker misses a message. The drain takes an in-order prefix within its limits. \<open>Scheduler\<close> and
  \<open>Worker_Loop\<close> (worker.cpp) model ready queues, task frames, the drains with their deadlines, the
  background warrant and the run loop: frames are destroyed once, drains end, rounds alternate, the
  worker blocks only when idle. \<open>Worker_Stats\<close> has options, histograms and counters; \<open>Connections\<close>
  (connection.h, worker.cpp) the connection table, whose reclamation frees exactly what nothing
  refers to. \<open>Sync\<close> (sync.h) has the mutexes and the barrier; the cross-worker mutex is exclusive
  and hands over in arrival order in every interleaving.

  \<^bold>\<open>io_uring.\<close> \<open>Uring_Submit\<close> and \<open>Uring_Recv\<close> model submission with its software backlog,
  cancellation, completion dispatch, provided buffers and multishot receives: every request is
  answered once, requests reach the kernel in order, nothing is left for a closed descriptor, and
  buffers are conserved. The kernel's consumption and completions are arguments.

  \<^bold>\<open>SPDK.\<close> \<open>Spdk_Backend\<close> has the definitions, \<open>Spdk_Requests\<close> the ranges of requests and paths,
  \<open>Spdk_Tables\<close> the invariant of files, channels and queues and the order of requests.

  \<^bold>\<open>DPDK.\<close> \<open>Dpdk_Sockets\<close> (dpdk_socket_table.h), \<open>Freebsd_Errno\<close> (freebsd_errno.h) and the parts of
  dpdk_backend.cpp: \<open>Dpdk_Steering\<close> (placement of frames and ports), \<open>Dpdk_Packets\<close> (forwarding,
  bursts and packet buffers), \<open>Dpdk_Requests\<close> and \<open>Dpdk_Completions\<close> (socket operations and their
  completions), \<open>Dpdk_Runtime\<close> (preparation, start-up of the workers, memory admission with
  dpdk_memory_budget.cpp, choice of backends with backend_options.cpp) and \<open>Dpdk_Wait\<close> (the
  adaptive wait). A flow stays with one worker, packet buffers are owned once, a socket number is
  not reused while an operation refers to it, each request is answered once and all at shutdown,
  preparation is all or nothing, start-up cannot hang, a blocked worker misses no packet.

  \<^bold>\<open>RPC.\<close> \<open>Rpc\<close> (src/src/rpc) has the wire format, the server loop and the multiplexing client,
  and composes them over two byte streams: every call gets the response of its own request. It also
  shows that a call made after the end of the stream is accepted and never answered.

  \<^bold>\<open>Conventions.\<close> A class is a record, an operation a function from state to state, with an error
  or status for its early returns. Code outside the sources (the kernel, DPDK, SPDK, the FreeBSD
  stack, callbacks, coroutine bodies, the allocator) appears as arguments: a result, a record of
  functions, or a sequence of answers numbered by call. Fields that only record history (messages
  sent, buffers freed, requests accepted) are marked in the records. Concurrency is a relation whose
  steps are single shared accesses, under sequentially consistent memory; code between two
  suspensions of a coroutine is one step.

  \<^bold>\<open>Bounds.\<close> Loops that end by structure are recursive functions with a termination proof. The drain
  loops of the scheduler and the run loop have fuel; the theorems on them show that any fuel above
  the stated number of rounds gives a result, for a cycle counter that passes every bound. Numbers
  keep their width where the code relies on it; theorems that need a bound say so, as fewer than
  2^64 calls on an RPC connection or at most 2^13 workers.

  \<^bold>\<open>Not modelled.\<close> Streams, listeners, services, HTTP and TLS, the runtime's threads and foreign
  executors, the storage front end, the port of the FreeBSD stack and the examples: mostly system
  calls, calls of OpenSSL, text formatting and thread creation around the modelled parts. The
  vendored concurrent queue and the FreeBSD sources are third-party code. Floating point, text of
  messages and weak memory are left out of the parts that are modelled.
\<close>

end
